(* ===== verification/Prelude.thy ===== *)
theory Prelude
  imports Main "HOL-Library.Word"
begin

text \<open>
  Shared vocabulary of the development: machine integers as natural numbers with the
  wrap-around of the C types written out, the outcome of a C++ call (a value, an errno, an
  exception, undefined behaviour), byte buffers with checked reads and writes, and the
  list and arithmetic facts that the component theories use.
\<close>

section \<open>Machine integers\<close>

type_synonym byte = "8 word"
type_synonym bytes = "byte list"

text \<open>An \<open>unsigned int\<close> or \<open>uint32_t\<close> result, and a \<open>uint64_t\<close> or \<open>size_t\<close> result.\<close>

definition u32 :: "nat \<Rightarrow> nat" where
  "u32 n = n mod 2 ^ 32"

definition u64 :: "nat \<Rightarrow> nat" where
  "u64 n = n mod 2 ^ 64"

text \<open>\<open>x++\<close> and \<open>x--\<close> on an \<open>unsigned int\<close>.\<close>

definition inc32 :: "nat \<Rightarrow> nat" where
  "inc32 n = u32 (n + 1)"

definition dec32 :: "nat \<Rightarrow> nat" where
  "dec32 n = u32 (n + (2 ^ 32 - 1))"

lemma u32_id [simp]: "n < 4294967296 \<Longrightarrow> u32 n = n"
  by (simp add: u32_def)

lemma u64_id [simp]: "n < 18446744073709551616 \<Longrightarrow> u64 n = n"
  by (simp add: u64_def)

lemma u32_less [simp]: "u32 n < 4294967296"
  by (simp add: u32_def)

lemma u64_less [simp]: "u64 n < 18446744073709551616"
  by (simp add: u64_def)

lemma inc32_eq [simp]: "n < 4294967295 \<Longrightarrow> inc32 n = Suc n"
  by (simp add: inc32_def)

lemma dec32_eq [simp]: "0 < n \<Longrightarrow> n < 4294967296 \<Longrightarrow> dec32 n = n - 1"
  by (simp add: dec32_def u32_def mod_if)

section \<open>Outcomes of a call\<close>

text \<open>
  The errno values the sources set. \<open>ENOTSUP\<close> and \<open>EOPNOTSUPP\<close> are one number on Linux and
  are one constructor here.
\<close>

datatype errno = EPERM | ENOENT | E2BIG | ENOMEM | EEXIST | EINVAL | ENOSPC | ENOTSUP | EBADF

text \<open>
  \<open>Ok x\<close>: the call returns normally; \<open>Err e\<close>: it returns \<open>-1\<close> or \<open>nullptr\<close> with \<open>errno = e\<close>;
  \<open>Thrown\<close>: it throws; \<open>UB\<close>: it reads or writes outside an object, or follows a null
  pointer; \<open>NoReturn\<close>: a loop of it used up its fuel.
\<close>

datatype 'a outcome = Ok 'a | Err errno | Thrown | UB | NoReturn

fun bind_out :: "'a outcome \<Rightarrow> ('a \<Rightarrow> 'b outcome) \<Rightarrow> 'b outcome" where
  "bind_out (Ok x) f = f x"
| "bind_out (Err e) f = Err e"
| "bind_out Thrown f = Thrown"
| "bind_out UB f = UB"
| "bind_out NoReturn f = NoReturn"

lemma bind_out_Ok: "bind_out x f = Ok z \<longleftrightarrow> (\<exists>y. x = Ok y \<and> f y = Ok z)"
  by (cases x) auto

lemma bind_out_NoReturn: "bind_out x f = NoReturn \<longleftrightarrow> x = NoReturn \<or> (\<exists>y. x = Ok y \<and> f y = NoReturn)"
  by (cases x) auto

section \<open>Map update flags\<close>

definition BPF_ANY :: nat where "BPF_ANY = 0"
definition BPF_NOEXIST :: nat where "BPF_NOEXIST = 1"
definition BPF_EXIST :: nat where "BPF_EXIST = 2"

lemmas flag_defs = BPF_ANY_def BPF_NOEXIST_def BPF_EXIST_def

section \<open>Byte buffers\<close>

text \<open>
  \<open>memcpy\<close> from and to a buffer at an offset; \<open>None\<close> when the range leaves the buffer.
\<close>

definition read_at :: "'a list \<Rightarrow> nat \<Rightarrow> nat \<Rightarrow> 'a list option" where
  "read_at buf off n = (if off + n \<le> length buf then Some (take n (drop off buf)) else None)"

definition write_at :: "'a list \<Rightarrow> nat \<Rightarrow> 'a list \<Rightarrow> 'a list option" where
  "write_at buf off xs =
     (if off + length xs \<le> length buf
      then Some (take off buf @ xs @ drop (off + length xs) buf) else None)"

definition of_option :: "'a option \<Rightarrow> 'a outcome" where
  "of_option x = (case x of None \<Rightarrow> UB | Some y \<Rightarrow> Ok y)"

lemma of_option_simps [simp]: "of_option None = UB" "of_option (Some y) = Ok y"
  by (simp_all add: of_option_def)

lemma length_write_at: "write_at buf off xs = Some buf' \<Longrightarrow> length buf' = length buf"
  by (auto simp: write_at_def split: if_splits)

lemma read_at_length: "read_at buf off n = Some xs \<Longrightarrow> length xs = n"
  by (auto simp: read_at_def split: if_splits)

lemma read_all: "length xs = n \<Longrightarrow> read_at xs 0 n = Some xs"
  by (simp add: read_at_def)

text \<open>A buffer of \<open>n\<close> slots of \<open>w\<close> bytes each, read and written slot by slot.\<close>

definition slot :: "'a list \<Rightarrow> nat \<Rightarrow> nat \<Rightarrow> 'a list" where
  "slot buf w i = take w (drop (i * w) buf)"

definition set_slot :: "'a list \<Rightarrow> nat \<Rightarrow> nat \<Rightarrow> 'a list \<Rightarrow> 'a list" where
  "set_slot buf w i xs = take (i * w) buf @ xs @ drop (i * w + length xs) buf"

lemma slot_bound: "i < n \<Longrightarrow> i * w + w \<le> n * (w::nat)"
  by (metis Suc_leI add.commute mult_Suc mult_le_mono1)

lemma read_slot:
  assumes "i < n" and "length buf = n * w"
  shows "read_at buf (i * w) w = Some (slot buf w i)"
  using slot_bound [OF assms(1), of w] assms(2) by (simp add: read_at_def slot_def)

lemma write_slot:
  assumes "i < n" and "length buf = n * w" and "length xs = w"
  shows "write_at buf (i * w) xs = Some (set_slot buf w i xs)"
  using slot_bound [OF assms(1), of w] assms(2,3) by (simp add: write_at_def set_slot_def)

lemma length_set_slot:
  assumes "i < n" and "length buf = n * w" and "length xs = w"
  shows "length (set_slot buf w i xs) = length buf"
  using slot_bound [OF assms(1), of w] assms(2,3) by (simp add: set_slot_def)

lemma length_slot:
  assumes "i < n" and "length buf = n * w"
  shows "length (slot buf w i) = w"
  using slot_bound [OF assms(1), of w] assms(2) by (simp add: slot_def)

lemma slot_set_slot:
  assumes i: "i < n" and j: "j < n" and len: "length buf = n * w" and xs: "length xs = w"
  shows "slot (set_slot buf w i xs) w j = (if j = i then xs else slot buf w j)"
proof -
  note bi = slot_bound [OF i, of w] and bj = slot_bound [OF j, of w]
  have mi: "min (n * w) (i * w) = i * w" using bi by simp
  consider "j = i" | "j < i" | "i < j" by linarith
  then show ?thesis
  proof cases
    case 1
    then show ?thesis using bi len xs by (simp add: slot_def set_slot_def mi)
  next
    case 2
    then have "j * w + w \<le> i * w" by (rule slot_bound)
    then show ?thesis using 2 bi len xs
      by (simp add: slot_def set_slot_def drop_take mi)
  next
    case 3
    then have "i * w + w \<le> j * w" by (rule slot_bound)
    then show ?thesis using 3 bi len xs
      by (simp add: slot_def set_slot_def mi)
  qed
qed

text \<open>A write inside one slot leaves every other slot as it is.\<close>

definition patch :: "'a list \<Rightarrow> nat \<Rightarrow> 'a list \<Rightarrow> 'a list" where
  "patch buf off xs = take off buf @ xs @ drop (off + length xs) buf"

lemma write_at_patch: "off + length xs \<le> length buf \<Longrightarrow> write_at buf off xs = Some (patch buf off xs)"
  by (simp add: write_at_def patch_def)

lemma length_patch: "off + length xs \<le> length buf \<Longrightarrow> length (patch buf off xs) = length buf"
  by (simp add: patch_def)

lemma patch_nth:
  assumes "off + length xs \<le> length buf" and "i < length buf"
  shows "patch buf off xs ! i =
     (if off \<le> i \<and> i < off + length xs then xs ! (i - off) else buf ! i)"
  using assms by (auto simp: patch_def nth_append not_le not_less)

lemma slot_nth: "k < w \<Longrightarrow> i * w + k < length buf \<Longrightarrow> slot buf w i ! k = buf ! (i * w + k)"
  by (simp add: slot_def)

lemma slot_patch:
  assumes i: "i < n" and j: "j < n" and len: "length buf = n * w" and c: "c + length xs \<le> w"
  shows "slot (patch buf (i * w + c) xs) w j =
     (if j = i then patch (slot buf w i) c xs else slot buf w j)"
proof -
  note bi = slot_bound [OF i, of w] and bj = slot_bound [OF j, of w]
  have fits: "i * w + c + length xs \<le> length buf" using bi c len by simp
  have len': "length (patch buf (i * w + c) xs) = n * w" using length_patch [OF fits] len by simp
  show ?thesis
  proof (rule nth_equalityI)
    show "length (slot (patch buf (i * w + c) xs) w j) =
        length (if j = i then patch (slot buf w i) c xs else slot buf w j)"
      using length_slot [OF j len'] length_slot [OF i len] length_slot [OF j len] c
      by (simp add: length_patch)
    fix k assume "k < length (slot (patch buf (i * w + c) xs) w j)"
    then have k: "k < w" using length_slot [OF j len'] by simp
    have off: "(i * w + c \<le> j * w + k \<and> j * w + k < i * w + c + length xs) \<longleftrightarrow>
        j = i \<and> c \<le> k \<and> k < c + length xs"
    proof (cases "j = i")
      case False
      then consider "j < i" | "i < j" by linarith
      then show ?thesis
      proof cases
        case 1
        from slot_bound [OF this, of w] k show ?thesis using 1 by simp
      next
        case 2
        from slot_bound [OF this, of w] c show ?thesis using 2 by simp
      qed
    qed auto
    show "slot (patch buf (i * w + c) xs) w j ! k =
        (if j = i then patch (slot buf w i) c xs else slot buf w j) ! k"
      using k bj len len' fits off c length_slot [OF i len]
      by (auto simp: slot_nth patch_nth)
  qed
qed

section \<open>Little-endian integers in a buffer\<close>

fun le_nat :: "bytes \<Rightarrow> nat" where
  "le_nat [] = 0"
| "le_nat (b # bs) = unat b + 256 * le_nat bs"

fun le_bytes :: "nat \<Rightarrow> nat \<Rightarrow> bytes" where
  "le_bytes 0 x = []"
| "le_bytes (Suc n) x = of_nat x # le_bytes n (x div 256)"

lemma length_le_bytes [simp]: "length (le_bytes n x) = n"
  by (induction n arbitrary: x) simp_all

lemma le_nat_le_bytes: "le_nat (le_bytes n x) = x mod 256 ^ n"
proof (induction n arbitrary: x)
  case (Suc n)
  have "unat (of_nat x :: 8 word) = x mod 256" by (simp add: unat_of_nat)
  then show ?case using Suc by (simp add: mod_mult2_eq)
qed simp

lemma le_bytes_le_nat: "le_bytes (length bs) (le_nat bs) = bs"
proof (induction bs)
  case (Cons b bs)
  have "unat b < 256" using unsigned_less [of b, where ?'a = nat] by simp
  moreover have "256 * w = (0 :: 8 word)" for w
  proof -
    have "(256 :: 8 word) = 0" by simp
    then show ?thesis by (metis mult_zero_left)
  qed
  ultimately show ?case using Cons by simp
qed simp

lemma le_nat_less: "le_nat bs < 256 ^ length bs"
proof (induction bs)
  case (Cons b bs)
  have "unat b < 256" using unsigned_less [of b, where ?'a = nat] by simp
  with Cons show ?case by simp
qed simp

text \<open>\<open>*(uint32_t *)p\<close> and \<open>*(int32_t *)p\<close>.\<close>

definition read_u32 :: "bytes \<Rightarrow> nat outcome" where
  "read_u32 p = of_option (map_option le_nat (read_at p 0 4))"

definition i32_of_u32 :: "nat \<Rightarrow> int" where
  "i32_of_u32 n = (if n < 2 ^ 31 then int n else int n - 2 ^ 32)"

definition u32_of_i32 :: "int \<Rightarrow> nat" where
  "u32_of_i32 i = nat (i mod 2 ^ 32)"

definition read_i32 :: "bytes \<Rightarrow> int outcome" where
  "read_i32 p = bind_out (read_u32 p) (\<lambda>n. Ok (i32_of_u32 n))"

lemma read_u32_4: "length p = 4 \<Longrightarrow> read_u32 p = Ok (le_nat p)"
  by (simp add: read_u32_def read_all)

lemma le_nat_4: "length p = 4 \<Longrightarrow> le_nat p < 4294967296"
  using le_nat_less [of p] by simp

lemma le_nat_le_bytes_4: "n < 4294967296 \<Longrightarrow> le_nat (le_bytes 4 n) = n"
  by (simp add: le_nat_le_bytes)

lemma le_bytes_4_inj: "inj_on (le_bytes 4) {..<4294967296}"
  by (rule inj_on_inverseI [of _ le_nat]) (simp add: le_nat_le_bytes)

lemma le_nat_inj: "length p = length q \<Longrightarrow> le_nat p = le_nat q \<Longrightarrow> p = q"
  by (metis le_bytes_le_nat)

lemma i32_u32: "- (2 ^ 31) \<le> i \<Longrightarrow> i < 2 ^ 31 \<Longrightarrow> i32_of_u32 (u32_of_i32 i) = i"
proof (cases "i < 0")
  case True
  assume "- (2 ^ 31) \<le> i"
  with True have "(i + 2 ^ 32) mod 2 ^ 32 = i + 2 ^ 32" by (intro mod_pos_pos_trivial) simp_all
  then have "i mod 2 ^ 32 = i + 2 ^ 32" by simp
  with True \<open>- (2 ^ 31) \<le> i\<close> show ?thesis by (simp add: i32_of_u32_def u32_of_i32_def)
qed (simp add: i32_of_u32_def u32_of_i32_def)

section \<open>Evaluation of small buffers\<close>

lemma replicate_numeral: "replicate (numeral k) x = x # replicate (pred_numeral k) x"
  by (simp add: numeral_eq_Suc)

lemma le_bytes_numeral:
  "le_bytes (numeral k) x = of_nat x # le_bytes (pred_numeral k) (x div 256)"
  by (simp only: numeral_eq_Suc [of k] le_bytes.simps)

section \<open>Positions on a ring\<close>

lemma ring_inj:
  assumes "a < n" and "b < n" and "(h + a) mod n = (h + b) mod (n::nat)"
  shows "a = b"
proof -
  have eq: "x = y" if "x < n" "y < n" "x \<le> y" "(h + x) mod n = (h + y) mod n" for x y
  proof -
    from that(3) have "h + x \<le> h + y" by simp
    with that(4) have "n dvd (h + y) - (h + x)"
      by (metis mod_eq_dvd_iff_nat)
    then have "n dvd y - x" by simp
    with that(1,2,3) show ?thesis by (auto dest: dvd_imp_le)
  qed
  show ?thesis using eq [of a b] eq [of b a] assms by (metis nle_le)
qed

lemma ring_surj:
  assumes "h < n" and "i < (n::nat)"
  shows "\<exists>j<n. (h + j) mod n = i"
proof (cases "h \<le> i")
  case True
  then show ?thesis using assms by (intro exI [of _ "i - h"]) simp
next
  case False
  then show ?thesis using assms by (intro exI [of _ "i + n - h"]) simp
qed

lemma ring_next:
  assumes "h < n" and "j < (n::nat)"
  shows "(h + Suc j) mod n = h \<longleftrightarrow> Suc j = n"
proof
  assume eq: "(h + Suc j) mod n = h"
  show "Suc j = n"
  proof (rule ccontr)
    assume "Suc j \<noteq> n"
    with assms have "Suc j < n" "0 < n" by simp_all
    from ring_inj [OF this, of h] eq assms(1) show False by simp
  qed
qed (use assms in auto)

section \<open>Powers of two\<close>

text \<open>The loop that counts the bits of \<open>max_ent\<close>.\<close>

fun pop_cnt :: "nat \<Rightarrow> nat" where
  "pop_cnt max_ent = (if max_ent = 0 then 0 else max_ent mod 2 + pop_cnt (max_ent div 2))"

text \<open>\<open>pop_cnt\<close> is 1 exactly on the powers of two.\<close>

declare pop_cnt.simps [simp del]

lemma pop_cnt_0: "pop_cnt n = 0 \<longleftrightarrow> n = 0"
proof (induction n rule: pop_cnt.induct)
  case (1 n)
  then show ?case by (cases "n = 0") (auto simp: pop_cnt.simps [of n] pop_cnt.simps [of 0])
qed

lemma pop_cnt_1: "pop_cnt n = 1 \<longleftrightarrow> (\<exists>k. n = 2 ^ k)"
proof (induction n rule: pop_cnt.induct)
  case (1 n)
  have one: "\<exists>k. Suc 0 = 2 ^ k" by (rule exI [of _ 0]) simp
  consider "n = 0" | "n = 1" | "1 < n" "n mod 2 = 1" | "1 < n" "n mod 2 = 0" by linarith
  then show ?case
  proof cases
    case 3
    then have "n div 2 \<noteq> 0" by simp
    then have "pop_cnt n \<noteq> 1" using 3 by (simp add: pop_cnt.simps [of n] pop_cnt_0)
    moreover have "n \<noteq> 2 ^ k" for k using 3 by (cases k) auto
    ultimately show ?thesis by blast
  next
    case 4
    have "(\<exists>k. n = 2 ^ k) \<longleftrightarrow> (\<exists>k. n div 2 = 2 ^ k)"
    proof
      assume "\<exists>k. n = 2 ^ k"
      then obtain k where "n = 2 ^ k" by blast
      with 4 show "\<exists>k. n div 2 = 2 ^ k" by (cases k) auto
    next
      assume "\<exists>k. n div 2 = 2 ^ k"
      then obtain k where "n div 2 = 2 ^ k" by blast
      with 4(2) have "n = 2 ^ Suc k" by (metis add.right_neutral div_mult_mod_eq mult.commute power_Suc)
      then show "\<exists>k. n = 2 ^ k" by blast
    qed
    with 4 1 show ?thesis by (simp add: pop_cnt.simps [of n])
  qed (use one in \<open>auto simp: pop_cnt.simps\<close>)
qed

text \<open>The mask of a power of two is the remainder.\<close>

unbundle bit_operations_syntax

lemma nat_and_mask: "(x::nat) AND (2 ^ k - 1) = x mod 2 ^ k"
  using take_bit_eq_mask [of k x] by (simp add: take_bit_eq_mod mask_eq_exp_minus_1)

end
