(* ===== verification/Simulation.thy ===== *)
theory Simulation
  imports Prelude
begin

text \<open>
  Runs of a state machine over a list of calls, and the contract that one machine simulates
  another: \<open>abs\<close> maps the states of the detailed machine to those of its specification, and
  every call that is well-formed keeps the invariant and returns what the specification
  returns. The component interfaces extend this contract.
\<close>

fun run :: "('s \<Rightarrow> 'o \<Rightarrow> 's \<times> 'r) \<Rightarrow> 's \<Rightarrow> 'o list \<Rightarrow> 's \<times> 'r list" where
  "run step s [] = (s, [])"
| "run step s (x # xs) =
     (case step s x of (s', r) \<Rightarrow> (case run step s' xs of (s'', rs) \<Rightarrow> (s'', r # rs)))"

lemma run_append:
  "run step s (xs @ ys) =
     (let (s', rs) = run step s xs; (s'', rs') = run step s' ys in (s'', rs @ rs'))"
  by (induction xs arbitrary: s) (auto split: prod.splits)

text \<open>The well-formed calls and the specification may depend on the fixed configuration of a
  state, which no call changes.\<close>

locale simulation =
  fixes inv :: "'s \<Rightarrow> bool"
    and abs :: "'s \<Rightarrow> 'a"
    and ok :: "'s \<Rightarrow> 'o \<Rightarrow> bool"
    and step :: "'s \<Rightarrow> 'o \<Rightarrow> 's \<times> 'r"
    and spec :: "'s \<Rightarrow> 'a \<Rightarrow> 'o \<Rightarrow> 'a \<times> 'r"
  assumes sim_keeps: "inv s \<Longrightarrow> ok s x \<Longrightarrow>
      inv (fst (step s x)) \<and> ok (fst (step s x)) = ok s \<and> spec (fst (step s x)) = spec s"
    and sim_step: "inv s \<Longrightarrow> ok s x \<Longrightarrow>
      (abs (fst (step s x)), snd (step s x)) = spec s (abs s) x"
begin

lemma sim_run:
  assumes "inv s" and "\<forall>x\<in>set xs. ok s x"
  shows "inv (fst (run step s xs)) \<and>
    (abs (fst (run step s xs)), snd (run step s xs)) = run (spec s) (abs s) xs"
  using assms
proof (induction xs arbitrary: s)
  case (Cons x xs)
  obtain s' r where s': "step s x = (s', r)" by fastforce
  have x: "ok s x" using Cons.prems by simp
  from sim_keeps [OF Cons.prems(1) x] sim_step [OF Cons.prems(1) x] s'
  have keep: "inv s'" "ok s' = ok s" "spec s' = spec s" "spec s (abs s) x = (abs s', r)" by simp_all
  from Cons.IH [OF keep(1)] Cons.prems(2) keep(2,3) show ?case
    by (simp add: s' keep(4) prod_eq_iff split: prod.splits)
qed simp

text \<open>A property of the specification's states that its well-formed calls keep is a property
  of every state the detailed machine reaches.\<close>

lemma sim_invariant:
  assumes "inv s" and "\<forall>x\<in>set xs. ok s x" and "P (abs s)"
    and "\<And>a x. P a \<Longrightarrow> ok s x \<Longrightarrow> P (fst (spec s a x))"
  shows "P (abs (fst (run step s xs)))"
  using assms
proof (induction xs arbitrary: s)
  case (Cons x xs)
  obtain s' r where s': "step s x = (s', r)" by fastforce
  have x: "ok s x" using Cons.prems by simp
  from sim_keeps [OF Cons.prems(1) x] sim_step [OF Cons.prems(1) x] s'
  have keep: "inv s'" "ok s' = ok s" "spec s' = spec s" "spec s (abs s) x = (abs s', r)" by simp_all
  have "P (abs s')" using Cons.prems(4) [OF Cons.prems(3) x] keep(4) by simp
  then have "P (abs (fst (run step s' xs)))"
    using Cons.IH [OF keep(1)] Cons.prems(2,4) keep(2,3) by simp
  then show ?case by (cases "run step s' xs") (simp add: s')
qed simp

end

end
