(* ===== verification/Push_Pop_Spec.thy ===== *)
theory Push_Pop_Spec
  imports Simulation
begin

text \<open>
  The contract shared by the queue and the stack map: a bounded sequence of fixed-width
  values. Values enter at the end; they leave from the front (\<open>FIFO\<close>) or from the end
  (\<open>LIFO\<close>). A push on a full container with \<open>BPF_EXIST\<close> drops the oldest value. The
  locale \<open>push_pop\<close> is the interface: what every operation does to the abstract sequence.
  Its clients (runs of operations, the drain order, the capacity bound) are proved once.
\<close>

section \<open>The abstract container\<close>

datatype discipline = FIFO | LIFO

fun front :: "discipline \<Rightarrow> 'a list \<Rightarrow> 'a" where
  "front FIFO xs = hd xs"
| "front LIFO xs = last xs"

fun rest :: "discipline \<Rightarrow> 'a list \<Rightarrow> 'a list" where
  "rest FIFO xs = tl xs"
| "rest LIFO xs = butlast xs"

lemma length_rest [simp]: "length (rest d xs) = length xs - 1"
  by (cases d) simp_all

lemma set_rest: "x \<in> set (rest d xs) \<Longrightarrow> x \<in> set xs"
  by (cases d) (auto dest: list.set_sel(2) in_set_butlastD, cases xs, auto)

lemma front_in_set: "xs \<noteq> [] \<Longrightarrow> front d xs \<in> set xs"
  by (cases d) simp_all

text \<open>
  The calls a client makes. A value or key pointer is \<open>None\<close> for \<open>nullptr\<close> and otherwise the
  bytes it points to; the flag of \<open>Pop\<close> and \<open>Peek\<close> says whether the out pointer is non-null.
\<close>

datatype pp_op =
    Push "bytes option" nat
  | Update "bytes option" "bytes option" nat
  | Pop bool
  | Peek bool
  | Lookup
  | Delete

datatype pp_res = Status "unit outcome" | Value "bytes outcome"

definition spec_insert ::
    "nat \<Rightarrow> bytes list \<Rightarrow> bytes \<Rightarrow> nat \<Rightarrow> bytes list \<times> unit outcome" where
  "spec_insert cap xs v flags =
     (if length xs < cap then (xs @ [v], Ok ())
      else if flags = BPF_EXIST then (tl xs @ [v], Ok ())
      else (xs, Err E2BIG))"

fun spec_step ::
    "discipline \<Rightarrow> nat \<Rightarrow> nat \<Rightarrow> bytes list \<Rightarrow> pp_op \<Rightarrow> bytes list \<times> pp_res" where
  "spec_step d w cap xs (Push None flags) = (xs, Status (Err EINVAL))"
| "spec_step d w cap xs (Push (Some v) flags) =
     (if flags \<noteq> BPF_ANY \<and> flags \<noteq> BPF_EXIST then (xs, Status (Err EINVAL))
      else apsnd Status (spec_insert cap xs (take w v) flags))"
| "spec_step d w cap xs (Update k None flags) = (xs, Status (Err EINVAL))"
| "spec_step d w cap xs (Update k (Some v) flags) =
     apsnd Status (spec_insert cap xs (take w v) flags)"
| "spec_step d w cap xs (Pop ptr) =
     (if \<not> ptr then (xs, Value (Err EINVAL))
      else if xs = [] then (xs, Value (Err ENOENT))
      else (rest d xs, Value (Ok (front d xs))))"
| "spec_step d w cap xs (Peek ptr) =
     (xs, Value (if \<not> ptr then Err EINVAL
        else if xs = [] then Err ENOENT else Ok (front d xs)))"
| "spec_step d w cap xs Lookup =
     (xs, Value (if xs = [] then Err ENOENT else Ok (front d xs)))"
| "spec_step d w cap xs Delete =
     (if xs = [] then (xs, Status (Err ENOENT)) else (rest d xs, Status (Ok ())))"

text \<open>A value pointer must point to at least one value.\<close>

fun op_ok :: "nat \<Rightarrow> pp_op \<Rightarrow> bool" where
  "op_ok w (Push (Some v) flags) = (w \<le> length v)"
| "op_ok w (Update k (Some v) flags) = (w \<le> length v)"
| "op_ok w _ = True"

text \<open>
  The comments of \<open>queue.hpp\<close> and \<open>stack.hpp\<close> promise \<open>EBUSY\<close> for an \<open>elem_update\<close> of a full container and
  \<open>EINVAL\<close> for flags other than \<open>BPF_ANY\<close> and \<open>BPF_EXIST\<close>, which the code does not do. An update with
  \<open>BPF_EXIST\<close> or with a null value is the part of \<open>elem_update\<close> on which comment and code agree.
\<close>

fun documented :: "pp_op \<Rightarrow> bool" where
  "documented (Update k (Some v) flags) = (flags = BPF_EXIST)"
| "documented _ = True"

text \<open>One call, dispatched to the operation of a concrete container.\<close>

fun pp_step ::
    "('s \<Rightarrow> bytes option \<Rightarrow> nat \<Rightarrow> 's \<times> unit outcome) \<Rightarrow>
     ('s \<Rightarrow> bytes option \<Rightarrow> bytes option \<Rightarrow> nat \<Rightarrow> 's \<times> unit outcome) \<Rightarrow>
     ('s \<Rightarrow> bool \<Rightarrow> 's \<times> bytes outcome) \<Rightarrow> ('s \<Rightarrow> bool \<Rightarrow> bytes outcome) \<Rightarrow>
     ('s \<Rightarrow> bytes outcome) \<Rightarrow> ('s \<Rightarrow> 's \<times> unit outcome) \<Rightarrow>
     's \<Rightarrow> pp_op \<Rightarrow> 's \<times> pp_res" where
  "pp_step push upd pop peek look del s (Push v flags) = apsnd Status (push s v flags)"
| "pp_step push upd pop peek look del s (Update k v flags) = apsnd Status (upd s k v flags)"
| "pp_step push upd pop peek look del s (Pop ptr) = apsnd Value (pop s ptr)"
| "pp_step push upd pop peek look del s (Peek ptr) = (s, Value (peek s ptr))"
| "pp_step push upd pop peek look del s Lookup = (s, Value (look s))"
| "pp_step push upd pop peek look del s Delete = apsnd Status (del s)"

section \<open>Facts of the abstract container\<close>

lemma spec_step_length:
  "length xs \<le> cap \<Longrightarrow> 0 < cap \<Longrightarrow> length (fst (spec_step d w cap xs x)) \<le> cap"
  by (cases "(d, w, cap, xs, x)" rule: spec_step.cases) (auto simp: spec_insert_def)

lemma spec_step_width:
  "\<forall>v\<in>set xs. length v = w \<Longrightarrow> op_ok w x \<Longrightarrow> \<forall>v\<in>set (fst (spec_step d w cap xs x)). length v = w"
  by (cases "(d, w, cap, xs, x)" rule: spec_step.cases)
     (auto simp: spec_insert_def dest: set_rest list.set_sel(2), (metis list.sel(2) list.set_sel(2))+)

text \<open>Popping \<open>n\<close> times returns the values in the container's order.\<close>

fun drain_order :: "discipline \<Rightarrow> 'a list \<Rightarrow> 'a list" where
  "drain_order FIFO xs = xs"
| "drain_order LIFO xs = rev xs"

lemma drain_order_Cons:
  "xs \<noteq> [] \<Longrightarrow> drain_order d xs = front d xs # drain_order d (rest d xs)"
proof (cases d)
  case LIFO
  assume "xs \<noteq> []"
  then have "rev xs = rev (butlast xs @ [last xs])" by simp
  with LIFO show ?thesis by (simp del: append_butlast_last_id)
qed simp

lemma spec_drain:
  "snd (run (spec_step d w cap) xs (replicate (length xs) (Pop True)))
     = map (\<lambda>v. Value (Ok v)) (drain_order d xs)"
proof (induction "length xs" arbitrary: xs)
  case 0
  then show ?case by (cases d) simp_all
next
  case (Suc n)
  then have ne: "xs \<noteq> []" by auto
  from Suc have "length (rest d xs) = n" by simp
  with Suc.hyps(1) [of "rest d xs"]
  have "snd (run (spec_step d w cap) (rest d xs) (replicate n (Pop True)))
     = map (\<lambda>v. Value (Ok v)) (drain_order d (rest d xs))" by simp
  then show ?case using ne Suc.hyps(2) [symmetric]
    by (auto simp: drain_order_Cons split: prod.splits)
qed

lemma spec_fill:
  "length xs + length vs \<le> cap \<Longrightarrow> \<forall>v\<in>set vs. length v = w \<Longrightarrow>
   run (spec_step d w cap) xs (map (\<lambda>v. Push (Some v) BPF_ANY) vs)
     = (xs @ vs, replicate (length vs) (Status (Ok ())))"
  by (induction vs arbitrary: xs) (auto simp: spec_insert_def)

section \<open>The interface\<close>

locale push_pop =
  fixes d :: discipline
    and inv :: "'s \<Rightarrow> bool"
    and seq :: "'s \<Rightarrow> bytes list"
    and width :: "'s \<Rightarrow> nat"
    and cap :: "'s \<Rightarrow> nat"
    and push :: "'s \<Rightarrow> bytes option \<Rightarrow> nat \<Rightarrow> 's \<times> unit outcome"
    and upd :: "'s \<Rightarrow> bytes option \<Rightarrow> bytes option \<Rightarrow> nat \<Rightarrow> 's \<times> unit outcome"
    and pop :: "'s \<Rightarrow> bool \<Rightarrow> 's \<times> bytes outcome"
    and peek :: "'s \<Rightarrow> bool \<Rightarrow> bytes outcome"
    and look :: "'s \<Rightarrow> bytes outcome"
    and del :: "'s \<Rightarrow> 's \<times> unit outcome"
  assumes inv_cap: "inv s \<Longrightarrow> 0 < cap s"
    and inv_length: "inv s \<Longrightarrow> length (seq s) \<le> cap s"
    and inv_width: "inv s \<Longrightarrow> v \<in> set (seq s) \<Longrightarrow> length v = width s"
    and step_keeps: "inv s \<Longrightarrow> op_ok (width s) x \<Longrightarrow>
      inv (fst (pp_step push upd pop peek look del s x)) \<and>
      width (fst (pp_step push upd pop peek look del s x)) = width s \<and>
      cap (fst (pp_step push upd pop peek look del s x)) = cap s"
    and step_refines: "inv s \<Longrightarrow> op_ok (width s) x \<Longrightarrow>
      (seq (fst (pp_step push upd pop peek look del s x)),
       snd (pp_step push upd pop peek look del s x))
        = spec_step d (width s) (cap s) (seq s) x"
begin

abbreviation step :: "'s \<Rightarrow> pp_op \<Rightarrow> 's \<times> pp_res" where
  "step \<equiv> pp_step push upd pop peek look del"

sublocale sim: simulation inv seq "\<lambda>s. op_ok (width s)" step "\<lambda>s. spec_step d (width s) (cap s)"
  using step_keeps step_refines by unfold_locales auto

lemma run_refines:
  assumes "inv s" and "\<forall>x\<in>set xs. op_ok (width s) x"
  shows "inv (fst (run step s xs)) \<and>
    (seq (fst (run step s xs)), snd (run step s xs))
      = run (spec_step d (width s) (cap s)) (seq s) xs"
  by (rule sim.sim_run [OF assms])

lemma fill_then_drain:
  assumes "inv s" and "seq s = []" and "length vs \<le> cap s"
    and "\<forall>v\<in>set vs. length v = width s"
  shows "snd (run step s (map (\<lambda>v. Push (Some v) BPF_ANY) vs
             @ replicate (length vs) (Pop True)))
     = replicate (length vs) (Status (Ok ())) @ map (\<lambda>v. Value (Ok v)) (drain_order d vs)"
proof -
  let ?ops = "map (\<lambda>v. Push (Some v) BPF_ANY) vs @ replicate (length vs) (Pop True)"
  have "\<forall>x\<in>set ?ops. op_ok (width s) x" using assms(4) by auto
  from run_refines [OF assms(1) this]
  have "snd (run step s ?ops) = snd (run (spec_step d (width s) (cap s)) [] ?ops)"
    using assms(2) by (metis snd_conv)
  then show ?thesis
    using spec_fill [of "[]" vs "cap s" "width s" d] assms(3,4)
      spec_drain [of d "width s" "cap s" vs]
    by (simp add: run_append split: prod.splits)
qed

lemma run_bounded:
  assumes "inv s" and "\<forall>x\<in>set xs. op_ok (width s) x"
  shows "length (seq (fst (run step s xs))) \<le> cap (fst (run step s xs))"
  using run_refines [OF assms] inv_length by blast

end

end
