(* ===== verification/Queue_Map.thy ===== *)
theory Queue_Map
  imports Push_Pop_Spec
begin

text \<open>
  \<open>queue_map_impl\<close> (bpf_map/userspace/queue.hpp and queue.cpp): a circular buffer of
  \<open>max_entries\<close> slots of \<open>value_size\<close> bytes with a head index, a tail index and a count, all
  \<open>unsigned int\<close>. The slots from the head on are the queue; \<open>queue_seq\<close> reads them off, and
  the interpretation at the end shows that every operation is the FIFO of the interface.
\<close>

section \<open>State and operations\<close>

record queue_map_impl =
  q_value_size :: nat
  q_max_entries :: nat
  q_data :: bytes
  q_head :: nat
  q_tail :: nat
  q_count :: nat

definition queue_map_impl_new :: "nat \<Rightarrow> nat \<Rightarrow> queue_map_impl outcome" where
  "queue_map_impl_new value_size max_entries =
     (if value_size = 0 \<or> max_entries = 0 then Thrown
      else Ok \<lparr>q_value_size = value_size, q_max_entries = max_entries,
               q_data = replicate (u32 (max_entries * value_size)) 0,
               q_head = 0, q_tail = 0, q_count = 0\<rparr>)"

definition queue_get_current_size :: "queue_map_impl \<Rightarrow> nat" where
  "queue_get_current_size q = q_count q"

definition queue_is_full :: "queue_map_impl \<Rightarrow> bool" where
  "queue_is_full q = (q_max_entries q \<le> q_count q)"

definition queue_is_empty :: "queue_map_impl \<Rightarrow> bool" where
  "queue_is_empty q = (q_count q = 0)"

definition queue_next_index :: "queue_map_impl \<Rightarrow> nat \<Rightarrow> nat" where
  "queue_next_index q index = u32 (index + 1) mod q_max_entries q"

text \<open>\<open>elem_lookup\<close> returns a pointer, here the offset of the element in \<open>data\<close>.\<close>

definition queue_elem_lookup :: "queue_map_impl \<Rightarrow> nat outcome" where
  "queue_elem_lookup q =
     (if queue_is_empty q then Err ENOENT else Ok (u32 (q_head q * q_value_size q)))"

text \<open>\<open>head = next_index(head); count--;\<close>\<close>

definition queue_drop_head :: "queue_map_impl \<Rightarrow> queue_map_impl" where
  "queue_drop_head q =
     q\<lparr>q_head := queue_next_index q (q_head q), q_count := dec32 (q_count q)\<rparr>"

text \<open>The \<open>memcpy\<close> of the value to the tail slot, \<open>tail = next_index(tail)\<close> and \<open>count++\<close>.\<close>

definition queue_put_tail :: "queue_map_impl \<Rightarrow> bytes \<Rightarrow> queue_map_impl \<times> unit outcome" where
  "queue_put_tail q value =
     (case read_at value 0 (q_value_size q) of
        None \<Rightarrow> (q, UB)
      | Some v \<Rightarrow>
         (case write_at (q_data q) (u32 (q_tail q * q_value_size q)) v of
            None \<Rightarrow> (q, UB)
          | Some data' \<Rightarrow>
              (q\<lparr>q_data := data', q_tail := queue_next_index q (q_tail q),
                 q_count := inc32 (q_count q)\<rparr>, Ok ())))"

definition queue_elem_update ::
    "queue_map_impl \<Rightarrow> bytes option \<Rightarrow> bytes option \<Rightarrow> nat \<Rightarrow> queue_map_impl \<times> unit outcome" where
  "queue_elem_update q key value flags =
     (case value of
        None \<Rightarrow> (q, Err EINVAL)
      | Some v \<Rightarrow>
          (if queue_is_full q then
             if flags = BPF_EXIST then queue_put_tail (queue_drop_head q) v
             else (q, Err E2BIG)
           else queue_put_tail q v))"

definition queue_elem_delete :: "queue_map_impl \<Rightarrow> queue_map_impl \<times> unit outcome" where
  "queue_elem_delete q =
     (if queue_is_empty q then (q, Err ENOENT) else (queue_drop_head q, Ok ()))"

definition queue_map_get_next_key :: "queue_map_impl \<Rightarrow> bytes option \<Rightarrow> bytes outcome" where
  "queue_map_get_next_key q key = Err EINVAL"

definition queue_map_push_elem ::
    "queue_map_impl \<Rightarrow> bytes option \<Rightarrow> nat \<Rightarrow> queue_map_impl \<times> unit outcome" where
  "queue_map_push_elem q value flags =
     (case value of
        None \<Rightarrow> (q, Err EINVAL)
      | Some v \<Rightarrow>
          (if flags \<noteq> 0 \<and> flags \<noteq> BPF_ANY \<and> flags \<noteq> BPF_EXIST then (q, Err EINVAL)
           else if queue_is_full q then
             if flags = BPF_EXIST then queue_put_tail (queue_drop_head q) v
             else (q, Err E2BIG)
           else queue_put_tail q v))"

text \<open>\<open>ptr\<close> says whether the out pointer is non-null; the bytes copied out are the result.\<close>

definition queue_map_pop_elem :: "queue_map_impl \<Rightarrow> bool \<Rightarrow> queue_map_impl \<times> bytes outcome" where
  "queue_map_pop_elem q ptr =
     (if \<not> ptr then (q, Err EINVAL)
      else if queue_is_empty q then (q, Err ENOENT)
      else (case read_at (q_data q) (u32 (q_head q * q_value_size q)) (q_value_size q) of
              None \<Rightarrow> (q, UB)
            | Some v \<Rightarrow> (queue_drop_head q, Ok v)))"

definition queue_map_peek_elem :: "queue_map_impl \<Rightarrow> bool \<Rightarrow> bytes outcome" where
  "queue_map_peek_elem q ptr =
     (if \<not> ptr then Err EINVAL
      else if queue_is_empty q then Err ENOENT
      else of_option (read_at (q_data q) (u32 (q_head q * q_value_size q)) (q_value_size q)))"

text \<open>What a caller of \<open>elem_lookup\<close> reads through the returned pointer.\<close>

definition queue_lookup_value :: "queue_map_impl \<Rightarrow> bytes outcome" where
  "queue_lookup_value q =
     bind_out (queue_elem_lookup q) (\<lambda>off. of_option (read_at (q_data q) off (q_value_size q)))"

lemmas queue_op_defs = queue_elem_lookup_def queue_elem_update_def queue_elem_delete_def
  queue_map_push_elem_def queue_map_pop_elem_def queue_map_peek_elem_def queue_lookup_value_def

section \<open>Invariant and abstraction\<close>

definition queue_inv :: "queue_map_impl \<Rightarrow> bool" where
  "queue_inv q \<longleftrightarrow>
     0 < q_value_size q \<and> 0 < q_max_entries q \<and>
     q_max_entries q * q_value_size q < 2 ^ 32 \<and>
     length (q_data q) = q_max_entries q * q_value_size q \<and>
     q_head q < q_max_entries q \<and> q_count q \<le> q_max_entries q \<and>
     q_tail q = (q_head q + q_count q) mod q_max_entries q"

definition queue_seq :: "queue_map_impl \<Rightarrow> bytes list" where
  "queue_seq q =
     map (\<lambda>i. slot (q_data q) (q_value_size q) ((q_head q + i) mod q_max_entries q)) [0..<q_count q]"

lemma length_queue_seq [simp]: "length (queue_seq q) = q_count q"
  by (simp add: queue_seq_def)

lemma queue_seq_Nil [simp]: "queue_seq q = [] \<longleftrightarrow> q_count q = 0"
  by (simp add: queue_seq_def)

lemma queue_seq_nth:
  "i < q_count q \<Longrightarrow>
   queue_seq q ! i = slot (q_data q) (q_value_size q) ((q_head q + i) mod q_max_entries q)"
  by (simp add: queue_seq_def)

text \<open>The offsets and indices do not wrap under the invariant.\<close>

lemma queue_inv_bounds:
  assumes "queue_inv q"
  shows "q_max_entries q < 4294967296" and "q_count q < 4294967296"
    and "q_tail q < q_max_entries q"
    and "i < q_max_entries q \<Longrightarrow> i * q_value_size q < 4294967296"
    and "i < q_max_entries q \<Longrightarrow> queue_next_index q i = Suc i mod q_max_entries q"
proof -
  have "q_max_entries q * 1 \<le> q_max_entries q * q_value_size q"
    using assms by (intro mult_le_mono) (auto simp: queue_inv_def)
  also have "\<dots> < 4294967296" using assms by (simp add: queue_inv_def)
  finally show b: "q_max_entries q < 4294967296" by simp
  then show "q_count q < 4294967296" using assms by (simp add: queue_inv_def)
  show "q_tail q < q_max_entries q" using assms by (simp add: queue_inv_def)
  show "i * q_value_size q < 4294967296" if "i < q_max_entries q"
    using slot_bound [OF that, of "q_value_size q"] assms by (simp add: queue_inv_def)
  show "queue_next_index q i = Suc i mod q_max_entries q" if "i < q_max_entries q"
    using that b by (simp add: queue_next_index_def)
qed

lemma queue_read_head:
  assumes "queue_inv q"
  shows "read_at (q_data q) (u32 (q_head q * q_value_size q)) (q_value_size q)
     = Some (slot (q_data q) (q_value_size q) (q_head q))"
proof -
  from assms have h: "q_head q < q_max_entries q" by (simp add: queue_inv_def)
  then show ?thesis using queue_inv_bounds(4) [OF assms h] assms
    by (simp add: queue_inv_def read_slot)
qed

lemma queue_seq_hd:
  assumes "queue_inv q" and "q_count q \<noteq> 0"
  shows "hd (queue_seq q) = slot (q_data q) (q_value_size q) (q_head q)"
  using assms by (simp add: hd_conv_nth queue_seq_nth queue_inv_def)

lemma queue_drop_head_inv:
  assumes "queue_inv q" and "q_count q \<noteq> 0"
  shows "queue_inv (queue_drop_head q)" and "queue_seq (queue_drop_head q) = tl (queue_seq q)"
    and "q_value_size (queue_drop_head q) = q_value_size q"
    and "q_max_entries (queue_drop_head q) = q_max_entries q"
    and "q_count (queue_drop_head q) = q_count q - 1"
proof -
  have h: "q_head q < q_max_entries q" using assms(1) by (simp add: queue_inv_def)
  note b = queue_inv_bounds [OF assms(1)]
  have hd': "q_head (queue_drop_head q) = Suc (q_head q) mod q_max_entries q"
    using b(5) [OF h] by (simp add: queue_drop_head_def)
  show c': "q_count (queue_drop_head q) = q_count q - 1"
    using b(2) assms(2) by (simp add: queue_drop_head_def)
  show "q_value_size (queue_drop_head q) = q_value_size q"
    and "q_max_entries (queue_drop_head q) = q_max_entries q"
    by (simp_all add: queue_drop_head_def)
  have t': "(Suc (q_head q) mod q_max_entries q + (q_count q - 1)) mod q_max_entries q
      = (q_head q + q_count q) mod q_max_entries q"
  proof -
    obtain c where "q_count q = Suc c" using assms(2) not0_implies_Suc by blast
    then show ?thesis by (simp add: mod_add_left_eq)
  qed
  show "queue_inv (queue_drop_head q)"
    using assms(1) c' hd' t' by (auto simp: queue_inv_def queue_drop_head_def)
  show "queue_seq (queue_drop_head q) = tl (queue_seq q)"
  proof (rule nth_equalityI)
    show "length (queue_seq (queue_drop_head q)) = length (tl (queue_seq q))" using c' by simp
    fix i assume "i < length (queue_seq (queue_drop_head q))"
    then have i: "i < q_count q - 1" using c' by simp
    then have "tl (queue_seq q) ! i = queue_seq q ! Suc i" by (simp add: nth_tl)
    then show "queue_seq (queue_drop_head q) ! i = tl (queue_seq q) ! i"
      using i c' hd' by (simp add: queue_seq_nth queue_drop_head_def mod_add_left_eq)
  qed
qed

lemma queue_put_tail_inv:
  assumes inv: "queue_inv q" and room: "q_count q < q_max_entries q"
    and v: "q_value_size q \<le> length v"
  obtains q' where "queue_put_tail q v = (q', Ok ())" and "queue_inv q'"
    and "queue_seq q' = queue_seq q @ [take (q_value_size q) v]"
    and "q_value_size q' = q_value_size q" and "q_max_entries q' = q_max_entries q"
proof -
  let ?w = "q_value_size q" and ?n = "q_max_entries q"
  let ?x = "take ?w v"
  note b = queue_inv_bounds [OF inv]
  have len: "length (q_data q) = ?n * ?w" using inv by (simp add: queue_inv_def)
  have x: "length ?x = ?w" using v by simp
  define q' where "q' = q\<lparr>q_data := set_slot (q_data q) ?w (q_tail q) ?x,
     q_tail := Suc (q_tail q) mod ?n, q_count := Suc (q_count q)\<rparr>"
  have "queue_put_tail q v = (q', Ok ())"
    using v b(1,2,3) b(4) [OF b(3)] b(5) [OF b(3)] room write_slot [OF b(3) len x]
    by (simp add: queue_put_tail_def q'_def read_at_def)
  moreover have "queue_inv q'"
    using inv room length_set_slot [OF b(3) len x]
    by (simp add: queue_inv_def q'_def mod_Suc_eq)
  moreover have "queue_seq q' = queue_seq q @ [?x]"
  proof (rule nth_equalityI)
    show "length (queue_seq q') = length (queue_seq q @ [?x])" by (simp add: q'_def)
    fix i assume "i < length (queue_seq q')"
    then have i: "i \<le> q_count q" by (simp add: q'_def)
    let ?j = "(q_head q + i) mod ?n"
    have j: "?j < ?n" using inv by (simp add: queue_inv_def)
    have "?j = q_tail q \<longleftrightarrow> i = q_count q"
      using ring_inj [of i ?n "q_count q" "q_head q"] i room inv
      by (auto simp: queue_inv_def)
    then show "queue_seq q' ! i = (queue_seq q @ [?x]) ! i"
      using i slot_set_slot [OF b(3) j len x]
      by (auto simp: queue_seq_nth nth_append q'_def)
  qed
  ultimately show ?thesis using that by (simp add: q'_def)
qed

lemma queue_insert_refines:
  fixes flags :: nat
  assumes inv: "queue_inv q" and v: "q_value_size q \<le> length v"
  defines "r \<equiv> (if queue_is_full q then
             if flags = BPF_EXIST then queue_put_tail (queue_drop_head q) v
             else (q, Err E2BIG)
           else queue_put_tail q v)"
  shows "queue_inv (fst r) \<and> q_value_size (fst r) = q_value_size q \<and>
     q_max_entries (fst r) = q_max_entries q \<and>
     (queue_seq (fst r), snd r)
       = spec_insert (q_max_entries q) (queue_seq q) (take (q_value_size q) v) flags"
proof (cases "queue_is_full q")
  case full: True
  then have cnt: "q_count q = q_max_entries q" "q_count q \<noteq> 0"
    using inv by (auto simp: queue_is_full_def queue_inv_def)
  show ?thesis
  proof (cases "flags = BPF_EXIST")
    case True
    note d = queue_drop_head_inv [OF inv cnt(2)]
    have room: "q_count (queue_drop_head q) < q_max_entries (queue_drop_head q)"
      using d cnt by simp
    obtain q' where "queue_put_tail (queue_drop_head q) v = (q', Ok ())" "queue_inv q'"
      "queue_seq q' = queue_seq (queue_drop_head q) @ [take (q_value_size (queue_drop_head q)) v]"
      "q_value_size q' = q_value_size (queue_drop_head q)"
      "q_max_entries q' = q_max_entries (queue_drop_head q)"
      using queue_put_tail_inv [OF d(1) room, of v] v d(3) by auto
    then show ?thesis using full True d cnt by (simp add: r_def spec_insert_def)
  next
    case False
    then show ?thesis using full cnt inv by (simp add: r_def spec_insert_def)
  qed
next
  case False
  then have room: "q_count q < q_max_entries q" by (simp add: queue_is_full_def)
  obtain q' where "queue_put_tail q v = (q', Ok ())" "queue_inv q'"
      "queue_seq q' = queue_seq q @ [take (q_value_size q) v]"
      "q_value_size q' = q_value_size q" "q_max_entries q' = q_max_entries q"
    using queue_put_tail_inv [OF inv room v] by blast
  then show ?thesis using False room by (simp add: r_def spec_insert_def)
qed

section \<open>The queue implements the interface\<close>

abbreviation queue_step :: "queue_map_impl \<Rightarrow> pp_op \<Rightarrow> queue_map_impl \<times> pp_res" where
  "queue_step \<equiv> pp_step queue_map_push_elem queue_elem_update queue_map_pop_elem
     queue_map_peek_elem queue_lookup_value queue_elem_delete"

lemma queue_step_simulates:
  assumes inv: "queue_inv q" and x: "op_ok (q_value_size q) x"
  shows "queue_inv (fst (queue_step q x)) \<and>
     q_value_size (fst (queue_step q x)) = q_value_size q \<and>
     q_max_entries (fst (queue_step q x)) = q_max_entries q \<and>
     (queue_seq (fst (queue_step q x)), snd (queue_step q x))
       = spec_step FIFO (q_value_size q) (q_max_entries q) (queue_seq q) x"
proof (cases x)
  case (Push v flags)
  then show ?thesis
    using inv x queue_insert_refines [OF inv, of _ flags]
    by (cases v) (auto simp: queue_map_push_elem_def BPF_ANY_def prod_eq_iff)
next
  case (Update k v flags)
  then show ?thesis
    using inv x queue_insert_refines [OF inv, of _ flags]
    by (cases v) (auto simp: queue_elem_update_def prod_eq_iff)
next
  case (Pop ptr)
  then show ?thesis
    using inv queue_read_head [OF inv] queue_drop_head_inv [OF inv] queue_seq_hd [OF inv]
    by (auto simp: queue_map_pop_elem_def queue_is_empty_def)
next
  case (Peek ptr)
  then show ?thesis
    using inv queue_read_head [OF inv] queue_seq_hd [OF inv]
    by (auto simp: queue_map_peek_elem_def queue_is_empty_def)
next
  case Lookup
  then show ?thesis
    using inv queue_read_head [OF inv] queue_seq_hd [OF inv]
    by (auto simp: queue_lookup_value_def queue_elem_lookup_def queue_is_empty_def)
next
  case Delete
  then show ?thesis
    using inv queue_drop_head_inv [OF inv]
    by (auto simp: queue_elem_delete_def queue_is_empty_def)
qed

interpretation qmap: push_pop FIFO queue_inv queue_seq q_value_size q_max_entries
  queue_map_push_elem queue_elem_update queue_map_pop_elem queue_map_peek_elem
  queue_lookup_value queue_elem_delete
proof unfold_locales
  show "length v = q_value_size s" if "queue_inv s" "v \<in> set (queue_seq s)" for s v
    using that by (auto simp: queue_seq_def queue_inv_def
        intro!: length_slot [where n = "q_max_entries s"])
qed (simp_all add: queue_step_simulates, simp_all add: queue_inv_def)

section \<open>Properties\<close>

lemma queue_new_inv:
  assumes "queue_map_impl_new w n = Ok q" and "n * w < 2 ^ 32"
  shows "queue_inv q" and "queue_seq q = []" and "q_value_size q = w" and "q_max_entries q = n"
  using assms by (auto simp: queue_map_impl_new_def queue_inv_def queue_seq_def split: if_splits)

text \<open>C3: every sequence of calls on a freshly constructed queue map returns, call by call, what a
  bounded FIFO of \<open>max_entries\<close> values returns, provided the buffer size fits in 32 bits. The calls
  are push with any flags, pop, peek, lookup and delete, also with null pointers, and \<open>elem_update\<close> with
  \<open>BPF_EXIST\<close>; with other flags \<open>elem_update\<close> departs from its comment (\<open>queue_update_undocumented\<close>).\<close>

theorem queue_refines_fifo:
  assumes "queue_map_impl_new w n = Ok q" and "n * w < 2 ^ 32"
    and "\<forall>x\<in>set ops. op_ok w x \<and> documented x"
  shows "queue_inv (fst (run queue_step q ops)) \<and>
    snd (run queue_step q ops) = snd (run (spec_step FIFO w n) [] ops)"
  using qmap.run_refines [of q ops] queue_new_inv [OF assms(1,2)] assms(3)
  by (metis snd_conv)

theorem queue_refines_fifo_witness:
  "snd (run queue_step
      \<lparr>q_value_size = 1, q_max_entries = 2, q_data = [0, 0], q_head = 0, q_tail = 0, q_count = 0\<rparr>
      [Push (Some [1]) 0, Push (Some [2]) 0, Push (Some [3]) 0, Update None (Some [4]) 2,
       Pop True, Peek True, Pop True, Pop True])
   = [Status (Ok ()), Status (Ok ()), Status (Err E2BIG), Status (Ok ()),
      Value (Ok [2]), Value (Ok [4]), Value (Ok [4]), Value (Err ENOENT)]"
  using queue_refines_fifo [of 1 2 "\<lparr>q_value_size = 1, q_max_entries = 2, q_data = [0, 0],
      q_head = 0, q_tail = 0, q_count = 0\<rparr>"
    "[Push (Some [1]) 0, Push (Some [2]) 0, Push (Some [3]) 0, Update None (Some [4]) 2,
       Pop True, Peek True, Pop True, Pop True]"]
  by (simp add: queue_map_impl_new_def spec_insert_def flag_defs replicate_numeral)

text \<open>an update of a full queue without \<open>BPF_EXIST\<close> fails with \<open>E2BIG\<close>, where the comment says \<open>EBUSY\<close>; and
  flags that are neither \<open>BPF_ANY\<close> nor \<open>BPF_EXIST\<close> are not refused.\<close>

theorem queue_update_undocumented:
  assumes "queue_inv q" and "q_value_size q \<le> length v" and "flags \<noteq> BPF_EXIST"
  shows "snd (queue_elem_update q k (Some v) flags) =
    (if length (queue_seq q) < q_max_entries q then Ok () else Err E2BIG)"
  using queue_step_simulates [OF assms(1), of "Update k (Some v) flags"] assms(2,3)
  by (cases "queue_elem_update q k (Some v) flags") (auto simp: spec_insert_def split: if_splits)

text \<open>the constructor computes the buffer size in 32 bits. When \<open>max_entries * value_size\<close>
  wraps to less than one value, the constructor succeeds and the first push writes outside
  the buffer.\<close>

theorem queue_size_overflow:
  assumes "0 < w" and "0 < n" and "u32 (n * w) < w" and "w \<le> length v"
  shows "\<exists>q. queue_map_impl_new w n = Ok q \<and> snd (queue_map_push_elem q (Some v) BPF_ANY) = UB"
  using assms
  by (simp add: queue_map_impl_new_def queue_map_push_elem_def queue_is_full_def flag_defs
      queue_put_tail_def read_at_def write_at_def)

theorem queue_size_overflow_witness:
  "\<exists>q. queue_map_impl_new 65536 65536 = Ok q \<and>
     snd (queue_map_push_elem q (Some (replicate 65536 0)) BPF_ANY) = UB"
  by (rule queue_size_overflow) (simp_all add: u32_def)

end
