(* ===== verification/Stack_Map.thy ===== *)
theory Stack_Map
  imports Push_Pop_Spec
begin

text \<open>
  \<open>stack_map_impl\<close> (bpf_map/userspace/stack.hpp and stack.cpp): a byte vector that grows at
  its end by one value per push and shrinks there by one value per pop; the oldest value is
  at the bottom. The operations implement the LIFO instance of the interface.
\<close>

section \<open>State and operations\<close>

record stack_map_impl =
  st_value_size :: nat
  st_max_entries :: nat
  st_data :: bytes

definition stack_map_impl_new :: "nat \<Rightarrow> nat \<Rightarrow> stack_map_impl outcome" where
  "stack_map_impl_new value_size max_entries =
     (if value_size = 0 \<or> max_entries = 0 then Thrown
      else Ok \<lparr>st_value_size = value_size, st_max_entries = max_entries, st_data = []\<rparr>)"

definition stack_get_current_size :: "stack_map_impl \<Rightarrow> nat" where
  "stack_get_current_size s = length (st_data s) div st_value_size s"

definition stack_is_full :: "stack_map_impl \<Rightarrow> bool" where
  "stack_is_full s = (st_max_entries s \<le> stack_get_current_size s)"

definition stack_is_empty :: "stack_map_impl \<Rightarrow> bool" where
  "stack_is_empty s = (st_data s = [])"

text \<open>\<open>(get_current_size() - 1) * _value_size\<close>, a \<open>size_t\<close>.\<close>

definition stack_top_offset :: "stack_map_impl \<Rightarrow> nat" where
  "stack_top_offset s = u64 (u64 (stack_get_current_size s + (2 ^ 64 - 1)) * st_value_size s)"

definition stack_elem_lookup :: "stack_map_impl \<Rightarrow> nat outcome" where
  "stack_elem_lookup s = (if stack_is_empty s then Err ENOENT else Ok (stack_top_offset s))"

text \<open>\<open>data.erase(data.begin(), data.begin() + _value_size)\<close> and
  \<open>data.erase(data.end() - _value_size, data.end())\<close>.\<close>

definition stack_erase_bottom :: "stack_map_impl \<Rightarrow> stack_map_impl outcome" where
  "stack_erase_bottom s =
     (if st_value_size s \<le> length (st_data s)
      then Ok (s\<lparr>st_data := drop (st_value_size s) (st_data s)\<rparr>) else UB)"

definition stack_erase_top :: "stack_map_impl \<Rightarrow> stack_map_impl outcome" where
  "stack_erase_top s =
     (if st_value_size s \<le> length (st_data s)
      then Ok (s\<lparr>st_data := take (length (st_data s) - st_value_size s) (st_data s)\<rparr>) else UB)"

definition stack_put_top :: "stack_map_impl \<Rightarrow> bytes \<Rightarrow> stack_map_impl \<times> unit outcome" where
  "stack_put_top s value =
     (case read_at value 0 (st_value_size s) of
        None \<Rightarrow> (s, UB)
      | Some v \<Rightarrow> (s\<lparr>st_data := st_data s @ v\<rparr>, Ok ()))"

text \<open>The part \<open>elem_update\<close> and \<open>map_push_elem\<close> share, from \<open>bool full = is_full()\<close> on.\<close>

definition stack_insert ::
    "stack_map_impl \<Rightarrow> bytes \<Rightarrow> nat \<Rightarrow> stack_map_impl \<times> unit outcome" where
  "stack_insert s v flags =
     (if stack_is_full s then
        if flags = BPF_EXIST then
          (case stack_erase_bottom s of Ok s' \<Rightarrow> stack_put_top s' v | _ \<Rightarrow> (s, UB))
        else (s, Err E2BIG)
      else stack_put_top s v)"

definition stack_elem_update ::
    "stack_map_impl \<Rightarrow> bytes option \<Rightarrow> bytes option \<Rightarrow> nat \<Rightarrow> stack_map_impl \<times> unit outcome" where
  "stack_elem_update s key value flags =
     (case value of None \<Rightarrow> (s, Err EINVAL) | Some v \<Rightarrow> stack_insert s v flags)"

definition stack_elem_delete :: "stack_map_impl \<Rightarrow> stack_map_impl \<times> unit outcome" where
  "stack_elem_delete s =
     (if stack_is_empty s then (s, Err ENOENT)
      else (case stack_erase_top s of Ok s' \<Rightarrow> (s', Ok ()) | _ \<Rightarrow> (s, UB)))"

definition stack_map_get_next_key :: "stack_map_impl \<Rightarrow> bytes option \<Rightarrow> bytes outcome" where
  "stack_map_get_next_key s key = Err EINVAL"

definition stack_map_push_elem ::
    "stack_map_impl \<Rightarrow> bytes option \<Rightarrow> nat \<Rightarrow> stack_map_impl \<times> unit outcome" where
  "stack_map_push_elem s value flags =
     (case value of
        None \<Rightarrow> (s, Err EINVAL)
      | Some v \<Rightarrow>
          (if flags \<noteq> 0 \<and> flags \<noteq> BPF_ANY \<and> flags \<noteq> BPF_EXIST then (s, Err EINVAL)
           else stack_insert s v flags))"

definition stack_map_pop_elem :: "stack_map_impl \<Rightarrow> bool \<Rightarrow> stack_map_impl \<times> bytes outcome" where
  "stack_map_pop_elem s ptr =
     (if \<not> ptr then (s, Err EINVAL)
      else if stack_is_empty s then (s, Err ENOENT)
      else (case read_at (st_data s) (stack_top_offset s) (st_value_size s) of
              None \<Rightarrow> (s, UB)
            | Some v \<Rightarrow> (case stack_erase_top s of Ok s' \<Rightarrow> (s', Ok v) | _ \<Rightarrow> (s, UB))))"

definition stack_map_peek_elem :: "stack_map_impl \<Rightarrow> bool \<Rightarrow> bytes outcome" where
  "stack_map_peek_elem s ptr =
     (if \<not> ptr then Err EINVAL
      else if stack_is_empty s then Err ENOENT
      else of_option (read_at (st_data s) (stack_top_offset s) (st_value_size s)))"

text \<open>What a caller of \<open>elem_lookup\<close> reads through the returned pointer.\<close>

definition stack_lookup_value :: "stack_map_impl \<Rightarrow> bytes outcome" where
  "stack_lookup_value s =
     bind_out (stack_elem_lookup s) (\<lambda>off. of_option (read_at (st_data s) off (st_value_size s)))"

section \<open>Invariant and abstraction\<close>

text \<open>
  The sizes are \<open>unsigned int\<close> values, and the vector holds a whole number of values, at
  most \<open>max_entries\<close>.
\<close>

definition stack_inv :: "stack_map_impl \<Rightarrow> bool" where
  "stack_inv s \<longleftrightarrow>
     0 < st_value_size s \<and> st_value_size s < 2 ^ 32 \<and>
     0 < st_max_entries s \<and> st_max_entries s < 2 ^ 32 \<and>
     st_value_size s dvd length (st_data s) \<and>
     length (st_data s) \<le> st_max_entries s * st_value_size s"

definition stack_seq :: "stack_map_impl \<Rightarrow> bytes list" where
  "stack_seq s = map (slot (st_data s) (st_value_size s)) [0..<stack_get_current_size s]"

lemma length_stack_seq [simp]: "length (stack_seq s) = stack_get_current_size s"
  by (simp add: stack_seq_def)

lemma stack_seq_nth:
  "i < stack_get_current_size s \<Longrightarrow> stack_seq s ! i = slot (st_data s) (st_value_size s) i"
  by (simp add: stack_seq_def)

text \<open>Under the invariant the data is a whole number of slots.\<close>

lemma stack_invD:
  assumes "stack_inv s"
  shows "length (st_data s) = stack_get_current_size s * st_value_size s"
    and "stack_get_current_size s \<le> st_max_entries s"
    and "stack_is_empty s \<longleftrightarrow> stack_get_current_size s = 0"
proof -
  from assms show len: "length (st_data s) = stack_get_current_size s * st_value_size s"
    by (simp add: stack_inv_def stack_get_current_size_def)
  with assms show "stack_get_current_size s \<le> st_max_entries s"
    by (simp add: stack_inv_def)
  from len assms show "stack_is_empty s \<longleftrightarrow> stack_get_current_size s = 0"
    by (auto simp: stack_is_empty_def stack_get_current_size_def)
qed

lemma stack_invI:
  assumes "stack_inv s" and "length d = n * st_value_size s" and "n \<le> st_max_entries s"
  shows "stack_inv (s\<lparr>st_data := d\<rparr>)" and "stack_get_current_size (s\<lparr>st_data := d\<rparr>) = n"
  using assms by (simp_all add: stack_inv_def stack_get_current_size_def)

lemma stack_top_offset_eq:
  assumes "stack_inv s" and "stack_get_current_size s = Suc n"
  shows "stack_top_offset s = n * st_value_size s"
    and "read_at (st_data s) (n * st_value_size s) (st_value_size s) = Some (last (stack_seq s))"
proof -
  from stack_invD(2) [OF assms(1)] assms have n: "n < 4294967296"
    by (simp add: stack_inv_def)
  have "n * st_value_size s < 4294967296 * 4294967296"
    using n assms(1) by (intro mult_strict_mono) (auto simp: stack_inv_def)
  then show "stack_top_offset s = n * st_value_size s"
    using n by (simp add: stack_top_offset_def assms(2) u64_def)
  have "last (stack_seq s) = slot (st_data s) (st_value_size s) n"
    by (simp add: stack_seq_def assms(2))
  then show "read_at (st_data s) (n * st_value_size s) (st_value_size s) = Some (last (stack_seq s))"
    using read_slot [of n "Suc n" "st_data s"] stack_invD(1) [OF assms(1)] assms(2) by simp
qed

lemma stack_erase_top_inv:
  assumes "stack_inv s" and "stack_get_current_size s \<noteq> 0"
  obtains s' where "stack_erase_top s = Ok s'" and "stack_inv s'"
    and "stack_seq s' = butlast (stack_seq s)"
    and "st_value_size s' = st_value_size s" and "st_max_entries s' = st_max_entries s"
proof -
  obtain n where n: "stack_get_current_size s = Suc n" using assms(2) not0_implies_Suc by blast
  note len = stack_invD(1) [OF assms(1), unfolded n]
  let ?d = "take (length (st_data s) - st_value_size s) (st_data s)"
  have d: "length ?d = n * st_value_size s" using len by simp
  have le: "n \<le> st_max_entries s" using stack_invD(2) [OF assms(1)] n by simp
  note I = stack_invI [OF assms(1) d le]
  have "stack_seq (s\<lparr>st_data := ?d\<rparr>) = butlast (stack_seq s)"
  proof (rule nth_equalityI)
    show "length (stack_seq (s\<lparr>st_data := ?d\<rparr>)) = length (butlast (stack_seq s))"
      using I(2) n by simp
    fix i assume "i < length (stack_seq (s\<lparr>st_data := ?d\<rparr>))"
    then have i: "i < n" using I(2) by simp
    from slot_bound [OF this, of "st_value_size s"]
    show "stack_seq (s\<lparr>st_data := ?d\<rparr>) ! i = butlast (stack_seq s) ! i"
      using i I(2) n len by (simp add: stack_seq_nth nth_butlast slot_def drop_take)
  qed
  moreover have "stack_erase_top s = Ok (s\<lparr>st_data := ?d\<rparr>)"
    using len by (simp add: stack_erase_top_def)
  ultimately show ?thesis using that I(1) by simp
qed

lemma stack_erase_bottom_inv:
  assumes "stack_inv s" and "stack_get_current_size s = Suc n"
  obtains s' where "stack_erase_bottom s = Ok s'" and "stack_inv s'"
    and "stack_seq s' = tl (stack_seq s)" and "stack_get_current_size s' = n"
    and "st_value_size s' = st_value_size s" and "st_max_entries s' = st_max_entries s"
proof -
  note len = stack_invD(1) [OF assms(1), unfolded assms(2)]
  let ?d = "drop (st_value_size s) (st_data s)"
  have d: "length ?d = n * st_value_size s" using len by simp
  have le: "n \<le> st_max_entries s" using stack_invD(2) [OF assms(1)] assms(2) by simp
  note I = stack_invI [OF assms(1) d le]
  have "stack_seq (s\<lparr>st_data := ?d\<rparr>) = tl (stack_seq s)"
    by (rule nth_equalityI) (simp_all add: I(2) assms(2) stack_seq_nth nth_tl slot_def add.commute)
  moreover have "stack_erase_bottom s = Ok (s\<lparr>st_data := ?d\<rparr>)"
    using len by (simp add: stack_erase_bottom_def)
  ultimately show ?thesis using that I by simp
qed

lemma stack_put_top_inv:
  assumes "stack_inv s" and "stack_get_current_size s < st_max_entries s"
    and "st_value_size s \<le> length v"
  obtains s' where "stack_put_top s v = (s', Ok ())" and "stack_inv s'"
    and "stack_seq s' = stack_seq s @ [take (st_value_size s) v]"
    and "st_value_size s' = st_value_size s" and "st_max_entries s' = st_max_entries s"
proof -
  let ?n = "stack_get_current_size s" and ?x = "take (st_value_size s) v"
  let ?d = "st_data s @ ?x"
  note len = stack_invD(1) [OF assms(1)]
  have d: "length ?d = Suc ?n * st_value_size s" using len assms(3) by simp
  have le: "Suc ?n \<le> st_max_entries s" using assms(2) by simp
  note I = stack_invI [OF assms(1) d le]
  have "stack_seq (s\<lparr>st_data := ?d\<rparr>) = stack_seq s @ [?x]"
  proof (rule nth_equalityI)
    show "length (stack_seq (s\<lparr>st_data := ?d\<rparr>)) = length (stack_seq s @ [?x])" using I(2) by simp
    fix i assume "i < length (stack_seq (s\<lparr>st_data := ?d\<rparr>))"
    then have i: "i < Suc ?n" using I(2) by simp
    show "stack_seq (s\<lparr>st_data := ?d\<rparr>) ! i = (stack_seq s @ [?x]) ! i"
    proof (cases "i = ?n")
      case True
      then show ?thesis using I(2) len by (simp add: stack_seq_nth nth_append slot_def)
    next
      case False
      then have "i < ?n" using i by simp
      from slot_bound [OF this, of "st_value_size s"] show ?thesis
        using \<open>i < ?n\<close> I(2) len by (simp add: stack_seq_nth nth_append slot_def)
    qed
  qed
  moreover have "stack_put_top s v = (s\<lparr>st_data := ?d\<rparr>, Ok ())"
    using assms(3) by (simp add: stack_put_top_def read_at_def)
  ultimately show ?thesis using that I(1) by simp
qed

lemma stack_insert_refines:
  assumes inv: "stack_inv s" and v: "st_value_size s \<le> length v"
  shows "stack_inv (fst (stack_insert s v flags)) \<and>
     st_value_size (fst (stack_insert s v flags)) = st_value_size s \<and>
     st_max_entries (fst (stack_insert s v flags)) = st_max_entries s \<and>
     (stack_seq (fst (stack_insert s v flags)), snd (stack_insert s v flags))
       = spec_insert (st_max_entries s) (stack_seq s) (take (st_value_size s) v) flags"
proof (cases "stack_is_full s")
  case full: True
  then have cnt: "stack_get_current_size s = st_max_entries s"
    using stack_invD(2) [OF inv] by (simp add: stack_is_full_def)
  then obtain n where n: "stack_get_current_size s = Suc n"
    using inv gr0_implies_Suc by (auto simp: stack_inv_def)
  show ?thesis
  proof (cases "flags = BPF_EXIST")
    case True
    obtain s' where b: "stack_erase_bottom s = Ok s'" "stack_inv s'" "stack_seq s' = tl (stack_seq s)"
      "stack_get_current_size s' = n" "st_value_size s' = st_value_size s"
      "st_max_entries s' = st_max_entries s"
      using stack_erase_bottom_inv [OF inv n] by blast
    have "stack_get_current_size s' < st_max_entries s'" using b cnt n by simp
    then obtain s'' where "stack_put_top s' v = (s'', Ok ())" "stack_inv s''"
      "stack_seq s'' = stack_seq s' @ [take (st_value_size s') v]"
      "st_value_size s'' = st_value_size s'" "st_max_entries s'' = st_max_entries s'"
      using stack_put_top_inv [OF b(2), of v] v b(5) by auto
    then show ?thesis using full True b cnt by (simp add: stack_insert_def spec_insert_def)
  next
    case False
    then show ?thesis using full cnt inv by (simp add: stack_insert_def spec_insert_def)
  qed
next
  case False
  then have "stack_get_current_size s < st_max_entries s" by (simp add: stack_is_full_def)
  moreover obtain s' where "stack_put_top s v = (s', Ok ())" "stack_inv s'"
    "stack_seq s' = stack_seq s @ [take (st_value_size s) v]"
    "st_value_size s' = st_value_size s" "st_max_entries s' = st_max_entries s"
    using stack_put_top_inv [OF inv \<open>stack_get_current_size s < st_max_entries s\<close> v] by blast
  ultimately show ?thesis using False by (simp add: stack_insert_def spec_insert_def)
qed

section \<open>The stack implements the interface\<close>

abbreviation stack_step :: "stack_map_impl \<Rightarrow> pp_op \<Rightarrow> stack_map_impl \<times> pp_res" where
  "stack_step \<equiv> pp_step stack_map_push_elem stack_elem_update stack_map_pop_elem
     stack_map_peek_elem stack_lookup_value stack_elem_delete"

lemma stack_step_simulates:
  assumes inv: "stack_inv s" and x: "op_ok (st_value_size s) x"
  shows "stack_inv (fst (stack_step s x)) \<and>
     st_value_size (fst (stack_step s x)) = st_value_size s \<and>
     st_max_entries (fst (stack_step s x)) = st_max_entries s \<and>
     (stack_seq (fst (stack_step s x)), snd (stack_step s x))
       = spec_step LIFO (st_value_size s) (st_max_entries s) (stack_seq s) x"
proof -
  note em = stack_invD(3) [OF inv]
  have nil: "stack_seq s = [] \<longleftrightarrow> stack_get_current_size s = 0" by (simp add: stack_seq_def)
  have top: "stack_get_current_size s \<noteq> 0 \<Longrightarrow>
      read_at (st_data s) (stack_top_offset s) (st_value_size s) = Some (last (stack_seq s))"
    using stack_top_offset_eq [OF inv] not0_implies_Suc by metis
  have er: "\<exists>s'. stack_erase_top s = Ok s' \<and> stack_inv s' \<and> stack_seq s' = butlast (stack_seq s) \<and>
      st_value_size s' = st_value_size s \<and> st_max_entries s' = st_max_entries s"
    if "stack_get_current_size s \<noteq> 0" using stack_erase_top_inv [OF inv that] by metis
  show ?thesis
  proof (cases x)
    case (Push v flags)
    then show ?thesis
      using inv x stack_insert_refines [OF inv, of _ flags]
      by (cases v) (auto simp: stack_map_push_elem_def BPF_ANY_def prod_eq_iff)
  next
    case (Update k v flags)
    then show ?thesis
      using inv x stack_insert_refines [OF inv, of _ flags]
      by (cases v) (auto simp: stack_elem_update_def prod_eq_iff)
  next
    case (Pop ptr)
    then show ?thesis
      using inv em nil top er by (cases "stack_is_empty s") (auto simp: stack_map_pop_elem_def)
  next
    case (Peek ptr)
    then show ?thesis using inv em nil top by (auto simp: stack_map_peek_elem_def)
  next
    case Lookup
    then show ?thesis
      using inv em nil top by (auto simp: stack_lookup_value_def stack_elem_lookup_def)
  next
    case Delete
    then show ?thesis
      using inv em nil er by (cases "stack_is_empty s") (auto simp: stack_elem_delete_def)
  qed
qed

interpretation smap: push_pop LIFO stack_inv stack_seq st_value_size st_max_entries
  stack_map_push_elem stack_elem_update stack_map_pop_elem stack_map_peek_elem
  stack_lookup_value stack_elem_delete
proof unfold_locales
  show "length v = st_value_size s" if "stack_inv s" "v \<in> set (stack_seq s)" for s v
    using that stack_invD(1) [of s]
    by (auto simp: stack_seq_def intro!: length_slot [where n = "stack_get_current_size s"])
  show "length (stack_seq s) \<le> st_max_entries s" if "stack_inv s" for s
    using stack_invD(2) [OF that] by simp
qed (simp_all add: stack_step_simulates, simp_all add: stack_inv_def)

section \<open>Properties\<close>

lemma stack_new_inv:
  assumes "stack_map_impl_new w n = Ok s" and "w < 2 ^ 32" and "n < 2 ^ 32"
  shows "stack_inv s" and "stack_seq s = []" and "st_value_size s = w" and "st_max_entries s = n"
  using assms by (auto simp: stack_map_impl_new_def stack_inv_def stack_seq_def
      stack_get_current_size_def split: if_splits)

text \<open>C4: every sequence of calls on a freshly constructed stack map returns, call by call, what
  a bounded LIFO of \<open>max_entries\<close> values returns; a push on a full stack with \<open>BPF_EXIST\<close> drops
  the bottom value. The sizes are any 32-bit values. The calls are push with any flags, pop, peek,
  lookup and delete, also with null pointers, and \<open>elem_update\<close> with \<open>BPF_EXIST\<close>; with other flags
  \<open>elem_update\<close> departs from its comment (\<open>stack_update_undocumented\<close>).\<close>

theorem stack_refines_lifo:
  assumes "stack_map_impl_new w n = Ok s" and "w < 2 ^ 32" and "n < 2 ^ 32"
    and "\<forall>x\<in>set ops. op_ok w x \<and> documented x"
  shows "stack_inv (fst (run stack_step s ops)) \<and>
    snd (run stack_step s ops) = snd (run (spec_step LIFO w n) [] ops)"
  using smap.run_refines [of s ops] stack_new_inv [OF assms(1-3)] assms(4)
  by (metis snd_conv)

theorem stack_refines_lifo_witness:
  "snd (run stack_step \<lparr>st_value_size = 1, st_max_entries = 2, st_data = []\<rparr>
      [Push (Some [1]) 0, Push (Some [2]) 0, Push (Some [3]) 0, Update None (Some [4]) 2,
       Pop True, Peek True, Pop True, Pop True])
   = [Status (Ok ()), Status (Ok ()), Status (Err E2BIG), Status (Ok ()),
      Value (Ok [4]), Value (Ok [2]), Value (Ok [2]), Value (Err ENOENT)]"
  using stack_refines_lifo [of 1 2 "\<lparr>st_value_size = 1, st_max_entries = 2, st_data = []\<rparr>"
    "[Push (Some [1]) 0, Push (Some [2]) 0, Push (Some [3]) 0, Update None (Some [4]) 2,
       Pop True, Peek True, Pop True, Pop True]"]
  by (simp add: stack_map_impl_new_def spec_insert_def flag_defs)

text \<open>an update of a full stack without \<open>BPF_EXIST\<close> fails with \<open>E2BIG\<close>, where the comment says \<open>EBUSY\<close>; and
  flags that are neither \<open>BPF_ANY\<close> nor \<open>BPF_EXIST\<close> are not refused.\<close>

theorem stack_update_undocumented:
  assumes "stack_inv s" and "st_value_size s \<le> length v" and "flags \<noteq> BPF_EXIST"
  shows "snd (stack_elem_update s k (Some v) flags) =
    (if length (stack_seq s) < st_max_entries s then Ok () else Err E2BIG)"
  using stack_step_simulates [OF assms(1), of "Update k (Some v) flags"] assms(2,3)
  by (cases "stack_elem_update s k (Some v) flags") (auto simp: spec_insert_def split: if_splits)

text \<open>values pushed into an empty stack, at most \<open>max_entries\<close> of them, are popped in the
  reverse order.\<close>

theorem stack_pops_reverse:
  assumes "stack_map_impl_new w n = Ok s" and "w < 2 ^ 32" and "n < 2 ^ 32"
    and "length vs \<le> n" and "\<forall>v\<in>set vs. length v = w"
  shows "snd (run stack_step s (map (\<lambda>v. Push (Some v) BPF_ANY) vs
       @ replicate (length vs) (Pop True)))
     = replicate (length vs) (Status (Ok ())) @ map (\<lambda>v. Value (Ok v)) (rev vs)"
  using smap.fill_then_drain [of s vs] stack_new_inv [OF assms(1-3)] assms(4,5) by simp

theorem stack_pops_reverse_witness:
  "snd (run stack_step \<lparr>st_value_size = 1, st_max_entries = 2, st_data = []\<rparr>
      [Push (Some [7]) BPF_ANY, Push (Some [8]) BPF_ANY, Pop True, Pop True])
   = [Status (Ok ()), Status (Ok ()), Value (Ok [8]), Value (Ok [7])]"
  using stack_pops_reverse [of 1 2 "\<lparr>st_value_size = 1, st_max_entries = 2, st_data = []\<rparr>"
    "[[7], [8]]"]
  by (simp add: stack_map_impl_new_def)

end
