(* ===== verification/Map_Spec.thy ===== *)
theory Map_Spec
  imports Push_Pop_Spec
begin

text \<open>
  Two contracts of the key/value maps. \<open>bounded_map\<close>: lookup, update and delete act on a
  partial map from keys to values; an update of a new key is rejected when the map holds
  \<open>cap\<close> keys. \<open>key_iter\<close>: \<open>map_get_next_key\<close> walks a list of distinct keys, the way
  user space dumps a map: a null key asks for the first key, and \<open>ENOENT\<close> ends the walk.
\<close>

section \<open>The abstract bounded map\<close>

datatype kv_op = KLookup bytes | KUpdate bytes bytes | KDelete bytes

datatype kv_res = Found "bytes option" | Done bool

fun kv_spec :: "nat \<Rightarrow> (bytes \<rightharpoonup> bytes) \<Rightarrow> kv_op \<Rightarrow> (bytes \<rightharpoonup> bytes) \<times> kv_res" where
  "kv_spec cap m (KLookup k) = (m, Found (m k))"
| "kv_spec cap m (KUpdate k v) =
     (if m k \<noteq> None \<or> card (dom m) < cap then (m(k \<mapsto> v), Done True) else (m, Done False))"
| "kv_spec cap m (KDelete k) = (m(k := None), Done (m k \<noteq> None))"

fun kv_ok :: "nat \<Rightarrow> nat \<Rightarrow> kv_op \<Rightarrow> bool" where
  "kv_ok kw vw (KLookup k) = (length k = kw)"
| "kv_ok kw vw (KUpdate k v) = (length k = kw \<and> length v = vw)"
| "kv_ok kw vw (KDelete k) = (length k = kw)"

fun kv_step ::
    "('s \<Rightarrow> bytes \<Rightarrow> bytes option outcome) \<Rightarrow> ('s \<Rightarrow> bytes \<Rightarrow> bytes \<Rightarrow> ('s \<times> bool) outcome) \<Rightarrow>
     ('s \<Rightarrow> bytes \<Rightarrow> ('s \<times> bool) outcome) \<Rightarrow> 's \<Rightarrow> kv_op \<Rightarrow> ('s \<times> kv_res) outcome" where
  "kv_step look upd del s (KLookup k) = bind_out (look s k) (\<lambda>v. Ok (s, Found v))"
| "kv_step look upd del s (KUpdate k v) = bind_out (upd s k v) (\<lambda>(s', b). Ok (s', Done b))"
| "kv_step look upd del s (KDelete k) = bind_out (del s k) (\<lambda>(s', b). Ok (s', Done b))"

text \<open>A run stops at the first call that does not return.\<close>

fun run_out :: "('s \<Rightarrow> 'o \<Rightarrow> ('s \<times> 'r) outcome) \<Rightarrow> 's \<Rightarrow> 'o list \<Rightarrow> ('s \<times> 'r list) outcome" where
  "run_out step s [] = Ok (s, [])"
| "run_out step s (x # xs) =
     bind_out (step s x) (\<lambda>(s', r).
       bind_out (run_out step s' xs) (\<lambda>(s'', rs). Ok (s'', r # rs)))"

section \<open>The bounded map interface\<close>

locale bounded_map =
  fixes inv :: "'s \<Rightarrow> bool"
    and abs :: "'s \<Rightarrow> bytes \<rightharpoonup> bytes"
    and cap :: "'s \<Rightarrow> nat"
    and kw :: "'s \<Rightarrow> nat"
    and vw :: "'s \<Rightarrow> nat"
    and look :: "'s \<Rightarrow> bytes \<Rightarrow> bytes option outcome"
    and upd :: "'s \<Rightarrow> bytes \<Rightarrow> bytes \<Rightarrow> ('s \<times> bool) outcome"
    and del :: "'s \<Rightarrow> bytes \<Rightarrow> ('s \<times> bool) outcome"
  assumes finite_abs: "inv s \<Longrightarrow> finite (dom (abs s))"
    and card_abs: "inv s \<Longrightarrow> card (dom (abs s)) \<le> cap s"
    and look_abs: "inv s \<Longrightarrow> length k = kw s \<Longrightarrow> look s k = Ok (abs s k)"
    and upd_abs: "inv s \<Longrightarrow> length k = kw s \<Longrightarrow> length v = vw s \<Longrightarrow>
      \<exists>s' b. upd s k v = Ok (s', b) \<and> inv s' \<and> cap s' = cap s \<and> kw s' = kw s \<and> vw s' = vw s \<and>
        kv_spec (cap s) (abs s) (KUpdate k v) = (abs s', Done b)"
    and del_abs: "inv s \<Longrightarrow> length k = kw s \<Longrightarrow>
      \<exists>s' b. del s k = Ok (s', b) \<and> inv s' \<and> cap s' = cap s \<and> kw s' = kw s \<and> vw s' = vw s \<and>
        kv_spec (cap s) (abs s) (KDelete k) = (abs s', Done b)"
begin

lemma step_abs:
  assumes "inv s" and "kv_ok (kw s) (vw s) x"
  shows "\<exists>s' r. kv_step look upd del s x = Ok (s', r) \<and> inv s' \<and> cap s' = cap s \<and> kw s' = kw s \<and>
    vw s' = vw s \<and> kv_spec (cap s) (abs s) x = (abs s', r)"
proof (cases x)
  case (KLookup k)
  then show ?thesis using assms look_abs [of s k] by simp
next
  case (KUpdate k v)
  with assms upd_abs [of s k v] obtain s' b where
    "upd s k v = Ok (s', b)" "inv s'" "cap s' = cap s" "kw s' = kw s" "vw s' = vw s"
    "kv_spec (cap s) (abs s) (KUpdate k v) = (abs s', Done b)" by auto
  then show ?thesis using KUpdate by simp
next
  case (KDelete k)
  with assms del_abs [of s k] obtain s' b where
    "del s k = Ok (s', b)" "inv s'" "cap s' = cap s" "kw s' = kw s" "vw s' = vw s"
    "kv_spec (cap s) (abs s) (KDelete k) = (abs s', Done b)" by auto
  then show ?thesis using KDelete by simp
qed

lemma run_abs:
  assumes "inv s" and "\<forall>x\<in>set xs. kv_ok (kw s) (vw s) x"
  shows "\<exists>s' rs. run_out (kv_step look upd del) s xs = Ok (s', rs) \<and> inv s' \<and>
    run (kv_spec (cap s)) (abs s) xs = (abs s', rs)"
  using assms
proof (induction xs arbitrary: s)
  case (Cons x xs)
  then obtain s' r where s': "kv_step look upd del s x = Ok (s', r)" "inv s'" "cap s' = cap s"
      "kw s' = kw s" "vw s' = vw s" "kv_spec (cap s) (abs s) x = (abs s', r)"
    using step_abs [of s x] by auto
  with Cons.IH [of s'] Cons.prems(2) obtain s'' rs where
    "run_out (kv_step look upd del) s' xs = Ok (s'', rs)" "inv s''"
    "run (kv_spec (cap s)) (abs s') xs = (abs s'', rs)" by auto
  with s' show ?case by simp
qed simp

lemma insert_then_lookup:
  assumes "inv s" and "length k = kw s" and "length v = vw s"
    and "abs s k \<noteq> None \<or> card (dom (abs s)) < cap s"
  shows "\<exists>s'. upd s k v = Ok (s', True) \<and> look s' k = Ok (Some v) \<and>
    (\<forall>k'. length k' = kw s \<longrightarrow> k' \<noteq> k \<longrightarrow> look s' k' = look s k')"
proof -
  obtain s' b where s': "upd s k v = Ok (s', b)" "inv s'" "kw s' = kw s"
    "kv_spec (cap s) (abs s) (KUpdate k v) = (abs s', Done b)"
    using upd_abs [OF assms(1-3)] by blast
  with assms(4) have "b" and a: "abs s' = (abs s)(k \<mapsto> v)" by (auto split: if_splits)
  with s' look_abs [OF s'(2)] look_abs [OF assms(1)] assms(2) show ?thesis by simp
qed

end

section \<open>The iteration interface\<close>

text \<open>The user-space loop \<open>while (map_get_next_key(key, &next) == 0) key = next;\<close>, cut off
  after \<open>n\<close> calls.\<close>

fun iterate_keys :: "('k option \<Rightarrow> 'k outcome) \<Rightarrow> nat \<Rightarrow> 'k option \<Rightarrow> 'k list \<times> 'k outcome" where
  "iterate_keys nxt 0 k = ([], NoReturn)"
| "iterate_keys nxt (Suc n) k =
     (case nxt k of
        Ok k' \<Rightarrow> apfst ((#) k') (iterate_keys nxt n (Some k'))
      | r \<Rightarrow> ([], r))"

locale key_iter =
  fixes inv :: "'s \<Rightarrow> bool"
    and keys :: "'s \<Rightarrow> 'k list"
    and nxt :: "'s \<Rightarrow> 'k option \<Rightarrow> 'k outcome"
  assumes keys_distinct: "inv s \<Longrightarrow> distinct (keys s)"
    and first_key: "inv s \<Longrightarrow>
      nxt s None = (case keys s of [] \<Rightarrow> Err ENOENT | k # ks \<Rightarrow> Ok k)"
    and next_key: "inv s \<Longrightarrow> i < length (keys s) \<Longrightarrow>
      nxt s (Some (keys s ! i)) = (if Suc i < length (keys s) then Ok (keys s ! Suc i) else Err ENOENT)"
begin

lemma iterate_from:
  assumes "inv s" and "i < length (keys s)" and "length (keys s) \<le> i + n"
  shows "iterate_keys (nxt s) n (Some (keys s ! i)) = (drop (Suc i) (keys s), Err ENOENT)"
  using assms
proof (induction n arbitrary: i)
  case (Suc n)
  show ?case
  proof (cases "Suc i < length (keys s)")
    case True
    with Suc next_key [OF Suc.prems(1,2)] show ?thesis by (simp add: Cons_nth_drop_Suc)
  next
    case False
    with Suc next_key [OF Suc.prems(1,2)] show ?thesis by simp
  qed
qed simp

text \<open>The loop returns every key once, in order, and then \<open>ENOENT\<close>.\<close>

lemma iterate_all:
  assumes "inv s" and "length (keys s) < n"
  shows "iterate_keys (nxt s) n None = (keys s, Err ENOENT)"
proof -
  obtain m where n: "n = Suc m" using assms(2) by (cases n) auto
  show ?thesis
  proof (cases "keys s")
    case Nil
    then show ?thesis using first_key [OF assms(1)] n by simp
  next
    case (Cons k ks)
    then have "iterate_keys (nxt s) m (Some k) = (ks, Err ENOENT)"
      using iterate_from [OF assms(1), of 0 m] assms(2) n by simp
    then show ?thesis using first_key [OF assms(1)] n Cons by simp
  qed
qed

end

end
