(* ===== verification/Hasher.thy ===== *)
theory Hasher
  imports Prelude
begin

text \<open>
  \<open>bpftime_hasher\<close> (bpf_map/bpftime_hash_map.hpp): the trial division with the wheel
  \<open>6k - 1, 6k + 1\<close>, the search for the next prime, and the byte hash. The two loops are
  partial functions whose value \<open>None\<close> is a loop that does not end; they are proved to end
  with the right result below \<open>2 ^ 62\<close>, where \<open>i * i\<close> does not wrap.
\<close>

section \<open>The hasher\<close>

text \<open>The loop of \<open>is_prime\<close> from the divisor \<open>i\<close> on; \<open>None\<close> when it does not return. All
  values are \<open>size_t\<close>.\<close>

partial_function (option) is_prime_loop :: "nat \<Rightarrow> nat \<Rightarrow> bool option" where
  "is_prime_loop n i =
     (if \<not> u64 (i * i) \<le> n then Some True
      else if n mod i = 0 \<or> n mod u64 (i + 2) = 0 then Some False
      else is_prime_loop n (u64 (i + 6)))"

definition is_prime :: "nat \<Rightarrow> bool option" where
  "is_prime n =
     (if n \<le> 1 then Some False
      else if n \<le> 3 then Some True
      else if n mod 2 = 0 \<or> n mod 3 = 0 then Some False
      else is_prime_loop n 5)"

partial_function (option) next_prime :: "nat \<Rightarrow> nat option" where
  "next_prime n =
     Option.bind (is_prime n) (\<lambda>p. if p then Some n else next_prime (u64 (n + 1)))"

definition hash_func :: "bytes \<Rightarrow> 64 word" where
  "hash_func key = foldl (\<lambda>hash b. hash * 31 + ucast b) 0 key"

section \<open>Primality\<close>

definition prime_number :: "nat \<Rightarrow> bool" where
  "prime_number p \<longleftrightarrow> 1 < p \<and> (\<forall>d. d dvd p \<longrightarrow> d = 1 \<or> d = p)"

lemma prime_by_trial:
  assumes "1 < n" and "\<And>d. 2 \<le> d \<Longrightarrow> d < i \<Longrightarrow> \<not> d dvd n" and "n < i * i"
  shows "prime_number n"
  unfolding prime_number_def
proof (intro conjI allI impI)
  fix d assume "d dvd n"
  then obtain e where e: "n = d * e" by (elim dvdE)
  have "d < i \<or> e < i"
  proof (rule ccontr)
    assume "\<not> ?thesis"
    then have "i * i \<le> d * e" by (intro mult_le_mono) simp_all
    with assms(3) e show False by simp
  qed
  moreover have "d \<noteq> 0" "e \<noteq> 0" using e assms(1) by (metis mult_0 mult_0_right not_less_zero)+
  moreover have "e dvd n" using e by simp
  ultimately have "d = 1 \<or> e = 1" 
    using assms(2) [of d] assms(2) [of e] \<open>d dvd n\<close> by (metis One_nat_def less_2_cases not_less)
  then show "d = 1 \<or> d = n" using e by auto
qed (rule assms(1))

lemma not_prime_by_divisor: "d dvd n \<Longrightarrow> 1 < d \<Longrightarrow> d < n \<Longrightarrow> \<not> prime_number n"
  by (metis less_irrefl prime_number_def)

text \<open>Of six consecutive numbers from \<open>6k + 5\<close> on, only the first and the third can divide a
  number that is not divisible by 2 or 3.\<close>

lemma wheel_step:
  assumes "i mod 6 = 5" and "\<not> 2 dvd n" and "\<not> 3 dvd n" and "\<not> i dvd n" and "\<not> i + 2 dvd n"
    and "\<And>d. 2 \<le> d \<Longrightarrow> d < i \<Longrightarrow> \<not> d dvd n" and "2 \<le> d" and "d < i + 6"
  shows "\<not> d dvd (n::nat)"
proof -
  consider "d < i" | "d = i" | "d = i + 1" | "d = i + 2" | "d = i + 3" | "d = i + 4" | "d = i + 5"
    using assms(8) by linarith
  then show ?thesis
  proof cases
    case 3
    then have "2 dvd d" using assms(1) by presburger
    then show ?thesis using assms(2) by (meson dvd_trans)
  next
    case 5
    then have "2 dvd d" using assms(1) by presburger
    then show ?thesis using assms(2) by (meson dvd_trans)
  next
    case 6
    then have "3 dvd d" using assms(1) by presburger
    then show ?thesis using assms(3) by (meson dvd_trans)
  next
    case 7
    then have "2 dvd d" using assms(1) by presburger
    then show ?thesis using assms(2) by (meson dvd_trans)
  qed (use assms in auto)
qed

lemma is_prime_loop_correct:
  assumes "5 \<le> i" and "i mod 6 = 5" and "i < 2 ^ 31 + 6" and "n < 2 ^ 62" and "3 < n"
    and "\<not> 2 dvd n" and "\<not> 3 dvd n" and "\<And>d. 2 \<le> d \<Longrightarrow> d < i \<Longrightarrow> \<not> d dvd n"
  shows "is_prime_loop n i = Some (prime_number n)"
  using assms(1-3,8)
proof (induction "n - i" arbitrary: i rule: less_induct)
  case less
  have "i * i < (2 ^ 31 + 6) * (2 ^ 31 + 6)" using less.prems(3) by (intro mult_strict_mono) auto
  then have sq: "u64 (i * i) = i * i" by simp
  have add: "u64 (i + 2) = i + 2" "u64 (i + 6) = i + 6" using less.prems(3) by simp_all
  show ?case
  proof (cases "i * i \<le> n")
    case False
    then show ?thesis using sq prime_by_trial [of n i] less.prems(4) assms(5)
      by (simp add: is_prime_loop.simps)
  next
    case True
    have "5 * i \<le> i * i" using less.prems(1) by simp
    with True less.prems(1) have lt: "i + 2 < n" by linarith
    have "i < 2 ^ 31"
    proof (rule ccontr)
      assume "\<not> ?thesis"
      then have "2 ^ 31 * 2 ^ 31 \<le> i * i" by (intro mult_le_mono) simp_all
      with True assms(4) show False by simp
    qed
    show ?thesis
    proof (cases "i dvd n \<or> i + 2 dvd n")
      case div: True
      then have "\<not> prime_number n"
        using not_prime_by_divisor [of i n] not_prime_by_divisor [of "i + 2" n] lt less.prems(1) by auto
      then show ?thesis using div sq add True
        by (subst is_prime_loop.simps) (auto simp: dvd_eq_mod_eq_0)
    next
      case False
      have "is_prime_loop n (i + 6) = Some (prime_number n)"
      proof (rule less.hyps)
        show "(i + 6) mod 6 = 5" using less.prems(2) by presburger
        show "\<not> d dvd n" if "2 \<le> d" "d < i + 6" for d
          using wheel_step [OF less.prems(2) assms(6,7) _ _ less.prems(4)] that False by blast
      qed (use lt \<open>i < 2 ^ 31\<close> in simp_all)
      then show ?thesis using False True sq add
        by (subst is_prime_loop.simps) (auto simp: dvd_eq_mod_eq_0)
    qed
  qed
qed

lemma is_prime_correct:
  assumes "n < 2 ^ 62"
  shows "is_prime n = Some (prime_number n)"
proof -
  consider "n \<le> 1" | "n = 2" | "n = 3" | "3 < n" by linarith
  then show ?thesis
  proof cases
    case 2
    then show ?thesis using prime_by_trial [of 2 2] by (simp add: is_prime_def)
  next
    case 3
    then show ?thesis using prime_by_trial [of 3 2] by (simp add: is_prime_def)
  next
    case 4
    show ?thesis
    proof (cases "2 dvd n \<or> 3 dvd n")
      case True
      then have "\<not> prime_number n" using 4 not_prime_by_divisor [of 2 n] not_prime_by_divisor [of 3 n] by auto
      then show ?thesis using True 4 by (auto simp: is_prime_def dvd_eq_mod_eq_0)
    next
      case False
      have "\<not> d dvd n" if "2 \<le> d" "d < 5" for d
      proof -
        have "d = 2 \<or> d = 3 \<or> d = 4" using that by linarith
        moreover have "\<not> 4 dvd n" using False by (metis dvd_trans even_numeral)
        ultimately show ?thesis using False by auto
      qed
      then have "is_prime_loop n 5 = Some (prime_number n)"
        by (intro is_prime_loop_correct) (use assms 4 False in simp_all)
      then show ?thesis using 4 False by (simp add: is_prime_def dvd_eq_mod_eq_0)
    qed
  qed (simp add: is_prime_def prime_number_def)
qed

lemma next_prime_least:
  assumes "n \<le> q" and "prime_number q" and "q < 2 ^ 62"
  shows "\<exists>p. next_prime n = Some p \<and> n \<le> p \<and> p \<le> q \<and> prime_number p \<and>
    (\<forall>m. n \<le> m \<longrightarrow> m < p \<longrightarrow> \<not> prime_number m)"
  using assms
proof (induction "q - n" arbitrary: n)
  case 0
  then show ?case using is_prime_correct [of n] by (subst next_prime.simps) auto
next
  case (Suc x)
  show ?case
  proof (cases "prime_number n")
    case True
    then show ?thesis using Suc is_prime_correct [of n] by (subst next_prime.simps) auto
  next
    case False
    have "u64 (n + 1) = Suc n" using Suc.hyps(2) Suc.prems by simp
    then have nx: "next_prime n = next_prime (Suc n)"
      using False is_prime_correct [of n] Suc.prems by (subst next_prime.simps) simp
    have "x = q - Suc n" "Suc n \<le> q" using Suc.hyps(2) by simp_all
    from Suc.hyps(1) [OF this Suc.prems(2,3)] obtain p where "next_prime (Suc n) = Some p"
      "Suc n \<le> p" "p \<le> q" "prime_number p" "\<forall>m. Suc n \<le> m \<longrightarrow> m < p \<longrightarrow> \<not> prime_number m" by blast
    then show ?thesis using nx False by (metis Suc_leD le_antisym not_less_eq_eq)
  qed
qed

section \<open>Property\<close>

text \<open>C24: \<open>next_prime\<close> returns, and its result is the least prime number that is not below its
  argument, whenever a prime lies between the argument and \<open>2 ^ 62\<close>; the hash map gets a prime
  number of buckets.\<close>

theorem next_prime_correct:
  assumes "n \<le> q" and "prime_number q" and "q < 2 ^ 62"
  shows "\<exists>p. next_prime n = Some p \<and> n \<le> p \<and> p \<le> q \<and> prime_number p \<and>
    (\<forall>m. n \<le> m \<longrightarrow> m < p \<longrightarrow> \<not> prime_number m)"
  by (rule next_prime_least [OF assms])

lemma prime_29: "prime_number 29"
proof (rule prime_by_trial [of 29 6])
  fix d :: nat
  assume "2 \<le> d" "d < 6"
  then have "d = 2 \<or> d = 3 \<or> d = 4 \<or> d = 5" by linarith
  then show "\<not> d dvd 29" by auto
qed simp_all

theorem next_prime_correct_witness:
  "\<exists>p. next_prime 24 = Some p \<and> 24 \<le> p \<and> p \<le> 29 \<and> prime_number p \<and>
    (\<forall>m. 24 \<le> m \<longrightarrow> m < p \<longrightarrow> \<not> prime_number m)"
  by (rule next_prime_correct) (simp_all add: prime_29)

end
