(* ===== verification/Hash_Map.thy ===== *)
theory Hash_Map
  imports Map_Spec Hasher
begin

text \<open>
  \<open>bpftime_hash_map\<close> (bpf_map/bpftime_hash_map.hpp): a prime number of
  buckets in one byte buffer, open addressing with linear probing and tombstones. A bucket is
  a 32-bit state, the key and the value. \<open>hm_map\<close> reads the buckets as a partial map; the
  invariant \<open>hm_inv\<close> says that keys are not duplicated and that no empty bucket lies between
  the hash position of a key and its bucket.
\<close>

section \<open>State and operations\<close>

definition BUCKET_EMPTY :: nat where "BUCKET_EMPTY = 0"
definition BUCKET_FILLED :: nat where "BUCKET_FILLED = 1"
definition BUCKET_DELETED :: nat where "BUCKET_DELETED = 2"

lemmas bucket_defs = BUCKET_EMPTY_def BUCKET_FILLED_def BUCKET_DELETED_def

lemma bucket_distinct [simp]:
  "BUCKET_DELETED \<noteq> BUCKET_EMPTY" "BUCKET_FILLED \<noteq> BUCKET_EMPTY" "BUCKET_DELETED \<noteq> BUCKET_FILLED"
  "BUCKET_EMPTY \<noteq> BUCKET_DELETED" "BUCKET_EMPTY \<noteq> BUCKET_FILLED" "BUCKET_FILLED \<noteq> BUCKET_DELETED"
  by (simp_all add: bucket_defs)

record bpftime_hash_map =
  hm_key_size :: nat
  hm_value_size :: nat
  hm_num_buckets :: nat
  hm_max_element_count :: nat
  hm_count :: nat
  hm_data_buffer :: bytes

definition hm_elem_size :: "bpftime_hash_map \<Rightarrow> nat" where
  "hm_elem_size h = u64 (4 + hm_key_size h + hm_value_size h)"

definition hm_get_elem_offset :: "bpftime_hash_map \<Rightarrow> nat \<Rightarrow> nat" where
  "hm_get_elem_offset h index = u64 (index * hm_elem_size h)"

definition bpftime_hash_map_new :: "nat \<Rightarrow> nat \<Rightarrow> nat \<Rightarrow> bpftime_hash_map outcome" where
  "bpftime_hash_map_new num_buckets key_size value_size =
     (case next_prime num_buckets of
        None \<Rightarrow> NoReturn
      | Some p \<Rightarrow>
          Ok \<lparr>hm_key_size = key_size, hm_value_size = value_size, hm_num_buckets = p,
              hm_max_element_count = num_buckets, hm_count = 0,
              hm_data_buffer = replicate (u64 (p * u64 (4 + key_size + value_size))) 0\<rparr>)"

definition hm_get_bucket_state :: "bpftime_hash_map \<Rightarrow> nat \<Rightarrow> nat outcome" where
  "hm_get_bucket_state h index =
     of_option (map_option le_nat (read_at (hm_data_buffer h) (hm_get_elem_offset h index) 4))"

definition hm_is_empty :: "bpftime_hash_map \<Rightarrow> nat \<Rightarrow> bool outcome" where
  "hm_is_empty h index = bind_out (hm_get_bucket_state h index) (\<lambda>st. Ok (st \<noteq> BUCKET_FILLED))"

text \<open>A \<open>memcpy\<close> into the buffer at an offset.\<close>

definition hm_write :: "bpftime_hash_map \<Rightarrow> nat \<Rightarrow> bytes \<Rightarrow> bpftime_hash_map outcome" where
  "hm_write h off xs =
     of_option (map_option (\<lambda>d. h\<lparr>hm_data_buffer := d\<rparr>) (write_at (hm_data_buffer h) off xs))"

definition hm_set_empty :: "bpftime_hash_map \<Rightarrow> nat \<Rightarrow> bpftime_hash_map outcome" where
  "hm_set_empty h index = hm_write h (hm_get_elem_offset h index) (le_bytes 4 BUCKET_EMPTY)"

definition hm_set_filled :: "bpftime_hash_map \<Rightarrow> nat \<Rightarrow> bpftime_hash_map outcome" where
  "hm_set_filled h index = hm_write h (hm_get_elem_offset h index) (le_bytes 4 BUCKET_FILLED)"

definition hm_set_deleted :: "bpftime_hash_map \<Rightarrow> nat \<Rightarrow> bpftime_hash_map outcome" where
  "hm_set_deleted h index = hm_write h (hm_get_elem_offset h index) (le_bytes 4 BUCKET_DELETED)"

text \<open>\<open>get_key\<close> and \<open>get_value\<close> return pointers, here offsets into the buffer.\<close>

definition hm_get_key :: "bpftime_hash_map \<Rightarrow> nat \<Rightarrow> nat" where
  "hm_get_key h index = u64 (hm_get_elem_offset h index + 4)"

definition hm_get_value :: "bpftime_hash_map \<Rightarrow> nat \<Rightarrow> nat" where
  "hm_get_value h index = u64 (hm_get_elem_offset h index + 4 + hm_key_size h)"

text \<open>The offset \<open>None\<close> stands for a null pointer; \<open>-1\<close> is the largest \<open>size_t\<close>.\<close>

definition hm_get_index_of_value :: "bpftime_hash_map \<Rightarrow> nat option \<Rightarrow> nat" where
  "hm_get_index_of_value h value =
     (case value of
        None \<Rightarrow> 2 ^ 64 - 1
      | Some off \<Rightarrow>
          if length (hm_data_buffer h) \<le> off then 2 ^ 64 - 1 else off div hm_elem_size h)"

text \<open>\<open>memcmp(get_key(index), key, _key_size) == 0\<close>.\<close>

definition hm_key_equals :: "bpftime_hash_map \<Rightarrow> nat \<Rightarrow> bytes \<Rightarrow> bool outcome" where
  "hm_key_equals h index key =
     of_option (map_option (\<lambda>k. k = take (hm_key_size h) key)
       (read_at (hm_data_buffer h) (hm_get_key h index) (hm_key_size h)))"

text \<open>\<open>hash_func(key, _key_size) % _num_buckets\<close>, with the read of the key.\<close>

definition hm_start_index :: "bpftime_hash_map \<Rightarrow> bytes \<Rightarrow> nat outcome" where
  "hm_start_index h key =
     of_option (map_option (\<lambda>k. unat (hash_func k) mod hm_num_buckets h)
       (read_at key 0 (hm_key_size h)))"

definition hm_next_index :: "bpftime_hash_map \<Rightarrow> nat \<Rightarrow> nat" where
  "hm_next_index h index = u64 (index + 1) mod hm_num_buckets h"

fun hm_lookup_loop ::
    "bpftime_hash_map \<Rightarrow> bytes \<Rightarrow> nat \<Rightarrow> nat \<Rightarrow> nat \<Rightarrow> nat option outcome" where
  "hm_lookup_loop h key start 0 index = NoReturn"
| "hm_lookup_loop h key start (Suc fuel) index =
     bind_out (hm_get_bucket_state h index) (\<lambda>state.
       if state = BUCKET_EMPTY then Ok None
       else bind_out (if state = BUCKET_FILLED then hm_key_equals h index key else Ok False)
         (\<lambda>match. if match then Ok (Some (hm_get_value h index))
           else if hm_next_index h index = start then Ok None
           else hm_lookup_loop h key start fuel (hm_next_index h index)))"

definition hm_elem_lookup :: "bpftime_hash_map \<Rightarrow> bytes \<Rightarrow> nat option outcome" where
  "hm_elem_lookup h key =
     bind_out (hm_start_index h key) (\<lambda>start.
       hm_lookup_loop h key start (hm_num_buckets h) start)"

text \<open>The insertion of a new element at a bucket: both \<open>memcpy\<close> calls, \<open>set_filled\<close> and
  \<open>_count++\<close>.\<close>

definition hm_put_value :: "bpftime_hash_map \<Rightarrow> nat \<Rightarrow> bytes \<Rightarrow> bpftime_hash_map outcome" where
  "hm_put_value h index value =
     bind_out (of_option (read_at value 0 (hm_value_size h))) (\<lambda>v.
       hm_write h (hm_get_value h index) v)"

definition hm_insert_at ::
    "bpftime_hash_map \<Rightarrow> nat \<Rightarrow> bytes \<Rightarrow> bytes \<Rightarrow> bpftime_hash_map outcome" where
  "hm_insert_at h index key value =
     bind_out (hm_write h (hm_get_key h index) (take (hm_key_size h) key)) (\<lambda>h.
     bind_out (hm_put_value h index value) (\<lambda>h.
     bind_out (hm_set_filled h index) (\<lambda>h.
       Ok (h\<lparr>hm_count := u64 (hm_count h + 1)\<rparr>))))"

fun hm_update_loop ::
    "bpftime_hash_map \<Rightarrow> bytes \<Rightarrow> bytes \<Rightarrow> nat \<Rightarrow> nat \<Rightarrow> nat \<Rightarrow> nat \<Rightarrow>
     (bpftime_hash_map \<times> bool) outcome" where
  "hm_update_loop h key value start 0 index first_deleted = NoReturn"
| "hm_update_loop h key value start (Suc fuel) index first_deleted =
     bind_out (hm_get_bucket_state h index) (\<lambda>state.
       if state = BUCKET_EMPTY then
         if hm_max_element_count h \<le> hm_count h then Ok (h, False)
         else bind_out
           (hm_insert_at h (if first_deleted \<noteq> hm_num_buckets h then first_deleted else index)
             key value) (\<lambda>h'. Ok (h', True))
       else bind_out (if state = BUCKET_DELETED then Ok False else hm_key_equals h index key)
         (\<lambda>match.
           if match then bind_out (hm_put_value h index value) (\<lambda>h'. Ok (h', True))
           else
             let first_deleted' =
               (if state = BUCKET_DELETED \<and> first_deleted = hm_num_buckets h then index
                else first_deleted)
             in if hm_next_index h index = start then
                  if first_deleted' \<noteq> hm_num_buckets h \<and> hm_count h < hm_max_element_count h
                  then bind_out (hm_insert_at h first_deleted' key value) (\<lambda>h'. Ok (h', True))
                  else Ok (h, False)
                else hm_update_loop h key value start fuel (hm_next_index h index) first_deleted'))"

definition hm_elem_update ::
    "bpftime_hash_map \<Rightarrow> bytes \<Rightarrow> bytes \<Rightarrow> (bpftime_hash_map \<times> bool) outcome" where
  "hm_elem_update h key value =
     bind_out (hm_start_index h key) (\<lambda>start.
       hm_update_loop h key value start (hm_num_buckets h) start (hm_num_buckets h))"

fun hm_delete_loop ::
    "bpftime_hash_map \<Rightarrow> bytes \<Rightarrow> nat \<Rightarrow> nat \<Rightarrow> nat \<Rightarrow> (bpftime_hash_map \<times> bool) outcome" where
  "hm_delete_loop h key start 0 index = NoReturn"
| "hm_delete_loop h key start (Suc fuel) index =
     bind_out (hm_get_bucket_state h index) (\<lambda>state.
       if state = BUCKET_EMPTY then Ok (h, False)
       else bind_out (if state = BUCKET_FILLED then hm_key_equals h index key else Ok False)
         (\<lambda>match. if match then
             bind_out (hm_set_deleted h index) (\<lambda>h'.
               Ok (h'\<lparr>hm_count := u64 (hm_count h' + (2 ^ 64 - 1))\<rparr>, True))
           else if hm_next_index h index = start then Ok (h, False)
           else hm_delete_loop h key start fuel (hm_next_index h index)))"

definition hm_elem_delete :: "bpftime_hash_map \<Rightarrow> bytes \<Rightarrow> (bpftime_hash_map \<times> bool) outcome" where
  "hm_elem_delete h key =
     bind_out (hm_start_index h key) (\<lambda>start.
       hm_delete_loop h key start (hm_num_buckets h) start)"

definition hm_get_elem_count :: "bpftime_hash_map \<Rightarrow> nat" where
  "hm_get_elem_count h = hm_count h"

text \<open>What a caller reads through the pointer that \<open>elem_lookup\<close> returns.\<close>

definition hm_lookup_value :: "bpftime_hash_map \<Rightarrow> bytes \<Rightarrow> bytes option outcome" where
  "hm_lookup_value h key =
     bind_out (hm_elem_lookup h key) (\<lambda>r. case r of
         None \<Rightarrow> Ok None
       | Some off \<Rightarrow> of_option (map_option Some (read_at (hm_data_buffer h) off (hm_value_size h))))"

section \<open>Buckets\<close>

abbreviation hm_width :: "bpftime_hash_map \<Rightarrow> nat" where
  "hm_width h \<equiv> 4 + hm_key_size h + hm_value_size h"

definition hm_bucket :: "bpftime_hash_map \<Rightarrow> nat \<Rightarrow> bytes" where
  "hm_bucket h i = slot (hm_data_buffer h) (hm_width h) i"

definition hm_state :: "bpftime_hash_map \<Rightarrow> nat \<Rightarrow> nat" where
  "hm_state h i = le_nat (take 4 (hm_bucket h i))"

definition hm_key :: "bpftime_hash_map \<Rightarrow> nat \<Rightarrow> bytes" where
  "hm_key h i = take (hm_key_size h) (drop 4 (hm_bucket h i))"

definition hm_val :: "bpftime_hash_map \<Rightarrow> nat \<Rightarrow> bytes" where
  "hm_val h i = drop (4 + hm_key_size h) (hm_bucket h i)"

text \<open>The buffer holds \<open>num_buckets\<close> buckets and its size does not wrap.\<close>

definition hm_shape :: "bpftime_hash_map \<Rightarrow> bool" where
  "hm_shape h \<longleftrightarrow> 0 < hm_num_buckets h \<and> hm_num_buckets h * hm_width h < 2 ^ 64 \<and>
     length (hm_data_buffer h) = hm_num_buckets h * hm_width h"

lemma hm_shape_bounds:
  assumes "hm_shape h"
  shows "hm_num_buckets h < 18446744073709551616" and "hm_width h < 18446744073709551616"
    and "hm_elem_size h = hm_width h"
    and "i < hm_num_buckets h \<Longrightarrow> i * hm_width h + hm_width h \<le> length (hm_data_buffer h)"
    and "i < hm_num_buckets h \<Longrightarrow> i * hm_width h + hm_width h < 18446744073709551616"
proof -
  have lt: "hm_num_buckets h * hm_width h < 18446744073709551616" and pos: "0 < hm_num_buckets h"
    using assms by (simp_all add: hm_shape_def)
  have "hm_num_buckets h * 1 \<le> hm_num_buckets h * hm_width h" by (intro mult_le_mono) auto
  then show "hm_num_buckets h < 18446744073709551616" using lt by linarith
  have "1 * hm_width h \<le> hm_num_buckets h * hm_width h" using pos by (intro mult_le_mono) auto
  from le_less_trans [OF this lt] show w: "hm_width h < 18446744073709551616" by simp
  then show "hm_elem_size h = hm_width h" by (simp add: hm_elem_size_def)
  show b: "i * hm_width h + hm_width h \<le> length (hm_data_buffer h)" if "i < hm_num_buckets h"
    using slot_bound [OF that, of "hm_width h"] assms by (simp add: hm_shape_def)
  show "i * hm_width h + hm_width h < 18446744073709551616" if "i < hm_num_buckets h"
    using slot_bound [OF that, of "hm_width h"] lt by linarith
qed

lemma hm_offsets:
  assumes "hm_shape h" and "i < hm_num_buckets h"
  shows "hm_get_elem_offset h i = i * hm_width h"
    and "hm_get_key h i = i * hm_width h + 4"
    and "hm_get_value h i = i * hm_width h + (4 + hm_key_size h)"
  using hm_shape_bounds(3) [OF assms(1)] hm_shape_bounds(5) [OF assms]
  by (simp_all add: hm_get_elem_offset_def hm_get_key_def hm_get_value_def)

lemma length_hm_bucket:
  assumes "hm_shape h" and "i < hm_num_buckets h"
  shows "length (hm_bucket h i) = hm_width h"
  using length_slot [OF assms(2), of "hm_data_buffer h" "hm_width h"] assms(1)
  by (simp add: hm_bucket_def hm_shape_def)

lemma hm_reads:
  assumes "hm_shape h" and "i < hm_num_buckets h"
  shows "hm_get_bucket_state h i = Ok (hm_state h i)"
    and "hm_key_equals h i key = Ok (hm_key h i = take (hm_key_size h) key)"
    and "read_at (hm_data_buffer h) (hm_get_key h i) (hm_key_size h) = Some (hm_key h i)"
    and "read_at (hm_data_buffer h) (hm_get_value h i) (hm_value_size h) = Some (hm_val h i)"
proof -
  note o = hm_offsets [OF assms] and b = hm_shape_bounds(4) [OF assms]
  show "hm_get_bucket_state h i = Ok (hm_state h i)"
    using b by (simp add: hm_get_bucket_state_def hm_state_def o read_at_def hm_bucket_def slot_def)
  show k: "read_at (hm_data_buffer h) (hm_get_key h i) (hm_key_size h) = Some (hm_key h i)"
    using b by (simp add: o read_at_def hm_key_def hm_bucket_def slot_def drop_take min_def add.commute)
  then show "hm_key_equals h i key = Ok (hm_key h i = take (hm_key_size h) key)"
    by (simp add: hm_key_equals_def)
  show "read_at (hm_data_buffer h) (hm_get_value h i) (hm_value_size h) = Some (hm_val h i)"
    using b by (simp add: o read_at_def hm_val_def hm_bucket_def slot_def drop_take add.commute)
qed

lemma hm_write_bucket:
  assumes "hm_shape h" and "i < hm_num_buckets h" and "c + length xs \<le> hm_width h"
  shows "\<exists>d. hm_write h (i * hm_width h + c) xs = Ok (h\<lparr>hm_data_buffer := d\<rparr>) \<and>
    hm_shape (h\<lparr>hm_data_buffer := d\<rparr>) \<and>
    (\<forall>j<hm_num_buckets h. hm_bucket (h\<lparr>hm_data_buffer := d\<rparr>) j =
      (if j = i then patch (hm_bucket h i) c xs else hm_bucket h j))"
proof -
  let ?d = "patch (hm_data_buffer h) (i * hm_width h + c) xs"
  have fit: "i * hm_width h + c + length xs \<le> length (hm_data_buffer h)"
    using hm_shape_bounds(4) [OF assms(1,2)] assms(3) by simp
  have "hm_write h (i * hm_width h + c) xs = Ok (h\<lparr>hm_data_buffer := ?d\<rparr>)"
    using fit by (simp add: hm_write_def write_at_def patch_def)
  moreover have "hm_shape (h\<lparr>hm_data_buffer := ?d\<rparr>)"
    using length_patch [OF fit] assms(1) by (simp add: hm_shape_def)
  moreover have "hm_bucket (h\<lparr>hm_data_buffer := ?d\<rparr>) j =
      (if j = i then patch (hm_bucket h i) c xs else hm_bucket h j)" if "j < hm_num_buckets h" for j
    using slot_patch [OF assms(2) that _ assms(3), of "hm_data_buffer h"] assms(1)
    by (simp add: hm_bucket_def hm_shape_def)
  ultimately show ?thesis by blast
qed

text \<open>The three changes to a bucket: a new value, a new state, a new element.\<close>

lemma hm_put_value_bucket:
  assumes "hm_shape h" and "i < hm_num_buckets h" and "length value = hm_value_size h"
  shows "\<exists>d. hm_put_value h i value = Ok (h\<lparr>hm_data_buffer := d\<rparr>) \<and>
    hm_shape (h\<lparr>hm_data_buffer := d\<rparr>) \<and>
    (\<forall>j<hm_num_buckets h. hm_bucket (h\<lparr>hm_data_buffer := d\<rparr>) j =
      (if j = i then take (4 + hm_key_size h) (hm_bucket h i) @ value else hm_bucket h j))"
proof -
  have "4 + hm_key_size h + length value \<le> hm_width h" using assms(3) by simp
  moreover have "patch (hm_bucket h i) (4 + hm_key_size h) value
      = take (4 + hm_key_size h) (hm_bucket h i) @ value"
    using assms(3) length_hm_bucket [OF assms(1,2)] by (simp add: patch_def)
  ultimately show ?thesis
    using hm_write_bucket [OF assms(1,2)] hm_offsets(3) [OF assms(1,2)] assms(3)
    by (metis bind_out.simps(1) hm_put_value_def le_refl of_option_simps(2) read_all)
qed

lemma hm_set_state_bucket:
  assumes "hm_shape h" and "i < hm_num_buckets h"
  shows "\<exists>d. hm_write h (hm_get_elem_offset h i) (le_bytes 4 st) = Ok (h\<lparr>hm_data_buffer := d\<rparr>) \<and>
    hm_shape (h\<lparr>hm_data_buffer := d\<rparr>) \<and>
    (\<forall>j<hm_num_buckets h. hm_bucket (h\<lparr>hm_data_buffer := d\<rparr>) j =
      (if j = i then le_bytes 4 st @ drop 4 (hm_bucket h i) else hm_bucket h j))"
proof -
  have p: "patch (hm_bucket h i) 0 (le_bytes 4 st) = le_bytes 4 st @ drop 4 (hm_bucket h i)"
    by (simp add: patch_def)
  show ?thesis
    using hm_write_bucket [OF assms, of 0 "le_bytes 4 st"]
    unfolding p hm_offsets(1) [OF assms] by simp
qed

lemma hm_insert_at_bucket:
  assumes "hm_shape h" and "i < hm_num_buckets h" and "length key = hm_key_size h"
    and "length value = hm_value_size h"
  shows "\<exists>d. hm_insert_at h i key value
      = Ok (h\<lparr>hm_data_buffer := d, hm_count := u64 (hm_count h + 1)\<rparr>) \<and>
    hm_shape (h\<lparr>hm_data_buffer := d\<rparr>) \<and>
    (\<forall>j<hm_num_buckets h. hm_bucket (h\<lparr>hm_data_buffer := d\<rparr>) j =
      (if j = i then le_bytes 4 BUCKET_FILLED @ key @ value else hm_bucket h j))"
proof -
  note i = assms(2) and len = length_hm_bucket [OF assms(1,2)]
  have "4 + length key \<le> hm_width h" using assms(3) by simp
  from hm_write_bucket [OF assms(1,2) this] obtain d1 where
    w1: "hm_write h (i * hm_width h + 4) key = Ok (h\<lparr>hm_data_buffer := d1\<rparr>)"
    and s1: "hm_shape (h\<lparr>hm_data_buffer := d1\<rparr>)"
    and b1: "\<forall>j<hm_num_buckets h. hm_bucket (h\<lparr>hm_data_buffer := d1\<rparr>) j =
      (if j = i then patch (hm_bucket h i) 4 key else hm_bucket h j)" by blast
  from hm_put_value_bucket [OF s1, of i "value"] i assms(4) obtain d2 where
    w2: "hm_put_value (h\<lparr>hm_data_buffer := d1\<rparr>) i value = Ok (h\<lparr>hm_data_buffer := d2\<rparr>)"
    and s2: "hm_shape (h\<lparr>hm_data_buffer := d2\<rparr>)"
    and b2: "\<forall>j<hm_num_buckets h. hm_bucket (h\<lparr>hm_data_buffer := d2\<rparr>) j =
      (if j = i then take (4 + hm_key_size h) (hm_bucket (h\<lparr>hm_data_buffer := d1\<rparr>) i) @ value
       else hm_bucket (h\<lparr>hm_data_buffer := d1\<rparr>) j)" by force
  from hm_set_state_bucket [OF s2, of i BUCKET_FILLED] i obtain d where
    w3: "hm_set_filled (h\<lparr>hm_data_buffer := d2\<rparr>) i = Ok (h\<lparr>hm_data_buffer := d\<rparr>)"
    and s3: "hm_shape (h\<lparr>hm_data_buffer := d\<rparr>)"
    and b3: "\<forall>j<hm_num_buckets h. hm_bucket (h\<lparr>hm_data_buffer := d\<rparr>) j =
      (if j = i then le_bytes 4 BUCKET_FILLED @ drop 4 (hm_bucket (h\<lparr>hm_data_buffer := d2\<rparr>) i)
       else hm_bucket (h\<lparr>hm_data_buffer := d2\<rparr>) j)"
    by (force simp: hm_set_filled_def)
  have "hm_insert_at h i key value
      = Ok (h\<lparr>hm_data_buffer := d, hm_count := u64 (hm_count h + 1)\<rparr>)"
    using w1 w2 w3 hm_offsets(2) [OF assms(1,2)] assms(3) by (simp add: hm_insert_at_def)
  moreover have "hm_bucket (h\<lparr>hm_data_buffer := d\<rparr>) j =
      (if j = i then le_bytes 4 BUCKET_FILLED @ key @ value else hm_bucket h j)"
    if "j < hm_num_buckets h" for j
    using b1 b2 b3 i that len assms(3) by (simp add: patch_def)
  ultimately show ?thesis using s3 by blast
qed

section \<open>Invariant and abstraction\<close>

definition hm_filled :: "bpftime_hash_map \<Rightarrow> nat set" where
  "hm_filled h = {i. i < hm_num_buckets h \<and> hm_state h i = BUCKET_FILLED}"

definition hm_home :: "bpftime_hash_map \<Rightarrow> bytes \<Rightarrow> nat" where
  "hm_home h k = unat (hash_func k) mod hm_num_buckets h"

text \<open>The \<open>j\<close>-th bucket that is probed for a key.\<close>

definition hm_pos :: "bpftime_hash_map \<Rightarrow> bytes \<Rightarrow> nat \<Rightarrow> nat" where
  "hm_pos h k j = (hm_home h k + j) mod hm_num_buckets h"

definition hm_inv :: "bpftime_hash_map \<Rightarrow> bool" where
  "hm_inv h \<longleftrightarrow> hm_shape h \<and>
     (\<forall>i<hm_num_buckets h. hm_state h i \<in> {BUCKET_EMPTY, BUCKET_FILLED, BUCKET_DELETED}) \<and>
     hm_count h = card (hm_filled h) \<and> hm_count h \<le> hm_max_element_count h \<and>
     hm_max_element_count h \<le> hm_num_buckets h \<and>
     inj_on (hm_key h) (hm_filled h) \<and>
     (\<forall>i\<in>hm_filled h. \<exists>j<hm_num_buckets h. i = hm_pos h (hm_key h i) j \<and>
        (\<forall>j'<j. hm_state h (hm_pos h (hm_key h i) j') \<noteq> BUCKET_EMPTY))"

definition hm_entries :: "bpftime_hash_map \<Rightarrow> (bytes \<times> bytes) list" where
  "hm_entries h = map (\<lambda>i. (hm_key h i, hm_val h i))
     (filter (\<lambda>i. hm_state h i = BUCKET_FILLED) [0..<hm_num_buckets h])"

definition hm_map :: "bpftime_hash_map \<Rightarrow> bytes \<rightharpoonup> bytes" where
  "hm_map h = map_of (hm_entries h)"

lemma hm_map_iff:
  assumes "inj_on (hm_key h) (hm_filled h)"
  shows "hm_map h k = Some v \<longleftrightarrow> (\<exists>i\<in>hm_filled h. hm_key h i = k \<and> hm_val h i = v)"
proof -
  have "distinct (map fst (hm_entries h))"
    using assms by (auto simp: hm_entries_def hm_filled_def distinct_map comp_def
        intro: inj_on_subset)
  then show ?thesis
    by (auto simp: hm_map_def map_of_eq_Some_iff hm_entries_def hm_filled_def)
qed

lemma hm_map_None: "hm_map h k = None \<longleftrightarrow> (\<forall>i\<in>hm_filled h. hm_key h i \<noteq> k)"
  by (auto simp: hm_map_def map_of_eq_None_iff hm_entries_def hm_filled_def image_image)

lemma dom_hm_map: "dom (hm_map h) = hm_key h ` hm_filled h"
  unfolding set_eq_iff domIff hm_map_None by auto

lemma finite_hm_filled [simp]: "finite (hm_filled h)"
  by (simp add: hm_filled_def)

lemma hm_card: "hm_inv h \<Longrightarrow> card (dom (hm_map h)) = hm_count h"
  by (simp add: dom_hm_map card_image hm_inv_def)

lemma hm_pos_less [simp]: "hm_shape h \<Longrightarrow> hm_pos h k j < hm_num_buckets h"
  by (simp add: hm_pos_def hm_shape_def)

lemma hm_pos_0 [simp]: "hm_pos h k 0 = hm_home h k"
  by (simp add: hm_pos_def hm_home_def)

lemma hm_next_index_pos:
  assumes "hm_shape h"
  shows "hm_next_index h (hm_pos h k j) = hm_pos h k (Suc j)"
  using hm_shape_bounds(1) [OF assms] hm_pos_less [OF assms, of k j]
  by (simp add: hm_next_index_def hm_pos_def mod_Suc_eq)

lemma hm_pos_wrap:
  assumes "hm_shape h" and "j < hm_num_buckets h"
  shows "hm_pos h k (Suc j) = hm_home h k \<longleftrightarrow> Suc j = hm_num_buckets h"
  using ring_next [OF _ assms(2), of "hm_home h k"] assms by (simp add: hm_pos_def hm_home_def hm_shape_def)

section \<open>Probing\<close>

definition hm_miss :: "bpftime_hash_map \<Rightarrow> bytes \<Rightarrow> nat \<Rightarrow> bool" where
  "hm_miss h k j \<longleftrightarrow> hm_state h (hm_pos h k j) \<noteq> BUCKET_EMPTY \<and>
     \<not> (hm_state h (hm_pos h k j) = BUCKET_FILLED \<and> hm_key h (hm_pos h k j) = k)"

lemma hm_home_less: "hm_shape h \<Longrightarrow> hm_home h k < hm_num_buckets h"
  by (simp add: hm_home_def hm_shape_def)

lemma hm_probe_cases:
  assumes inv: "hm_inv h"
  obtains
    (hit) j where "j < hm_num_buckets h" "\<forall>j'<j. hm_miss h k j'"
      "hm_pos h k j \<in> hm_filled h" "hm_key h (hm_pos h k j) = k"
  | (stop) j where "hm_map h k = None" "j < hm_num_buckets h" "\<forall>j'<j. hm_miss h k j'"
      "hm_state h (hm_pos h k j) = BUCKET_EMPTY"
  | (full) "hm_map h k = None" "\<forall>j<hm_num_buckets h. hm_miss h k j"
proof (cases "\<forall>j<hm_num_buckets h. hm_miss h k j")
  case True
  have "hm_shape h" using inv by (simp add: hm_inv_def)
  have "hm_key h i \<noteq> k" if "i \<in> hm_filled h" for i
    using ring_surj [OF hm_home_less [OF \<open>hm_shape h\<close>], of i k] that True
    by (auto simp: hm_filled_def hm_miss_def hm_pos_def)
  then have "hm_map h k = None" by (simp add: hm_map_None)
  with True show thesis by (rule full [rotated])
next
  case False
  define j where "j = (LEAST j. j < hm_num_buckets h \<and> \<not> hm_miss h k j)"
  from False have "\<exists>j. j < hm_num_buckets h \<and> \<not> hm_miss h k j" by auto
  then have j: "j < hm_num_buckets h" "\<not> hm_miss h k j" unfolding j_def by (metis (mono_tags, lifting) LeastI_ex)+
  have before: "\<forall>j'<j. hm_miss h k j'"
    using not_less_Least [of _ "\<lambda>j. j < hm_num_buckets h \<and> \<not> hm_miss h k j"] j(1)
    unfolding j_def by (meson less_trans)
  have "hm_shape h" using inv by (simp add: hm_inv_def)
  show thesis
  proof (cases "hm_state h (hm_pos h k j) = BUCKET_EMPTY")
    case False
    with j(2) have "hm_state h (hm_pos h k j) = BUCKET_FILLED" "hm_key h (hm_pos h k j) = k"
      by (auto simp: hm_miss_def)
    with hit [OF j(1) before] hm_pos_less [OF \<open>hm_shape h\<close>] show thesis
      by (simp add: hm_filled_def)
  next
    case True
    have "hm_key h i \<noteq> k" if i: "i \<in> hm_filled h" for i
    proof
      assume k: "hm_key h i = k"
      with inv i obtain j0 where j0: "i = hm_pos h k j0"
        "\<forall>j'<j0. hm_state h (hm_pos h k j') \<noteq> BUCKET_EMPTY"
        by (auto simp: hm_inv_def)
      with True have "\<not> j < j0" by blast
      moreover have "j0 \<noteq> j" using True i j0(1) by (auto simp: hm_filled_def bucket_defs)
      moreover have "\<not> j0 < j" using before i j0(1) k by (auto simp: hm_miss_def hm_filled_def)
      ultimately show False by linarith
    qed
    then have "hm_map h k = None" by (simp add: hm_map_None)
    with stop j(1) before True show thesis by blast
  qed
qed

lemma hm_lookup_skip:
  assumes "hm_shape h" and "length k = hm_key_size h" and "m < hm_num_buckets h"
    and "\<forall>j<m. hm_miss h k j"
  shows "hm_lookup_loop h k (hm_home h k) (hm_num_buckets h) (hm_home h k)
    = hm_lookup_loop h k (hm_home h k) (hm_num_buckets h - m) (hm_pos h k m)"
  using assms(3,4)
proof (induction m)
  case (Suc m)
  then have m: "m < hm_num_buckets h" and miss: "hm_miss h k m" by simp_all
  have f: "hm_num_buckets h - m = Suc (hm_num_buckets h - Suc m)" using m by simp
  show ?case
    using Suc.IH Suc.prems f miss hm_reads [OF assms(1) hm_pos_less [OF assms(1)]] assms(2)
      hm_pos_wrap [OF assms(1) m]
    by (auto simp: hm_next_index_pos [OF assms(1)] hm_miss_def)
qed simp

lemma hm_lookup_spec:
  assumes inv: "hm_inv h" and k: "length k = hm_key_size h"
  shows "hm_elem_lookup h k = Ok None \<and> hm_map h k = None \<or>
    (\<exists>i\<in>hm_filled h. hm_elem_lookup h k = Ok (Some (hm_get_value h i)) \<and> hm_key h i = k)"
proof -
  have sh: "hm_shape h" using inv by (simp add: hm_inv_def)
  note rd = hm_reads [OF sh hm_pos_less [OF sh]] and nx = hm_next_index_pos [OF sh]
  have start: "hm_elem_lookup h k = hm_lookup_loop h k (hm_home h k) (hm_num_buckets h) (hm_home h k)"
    using k by (simp add: hm_elem_lookup_def hm_start_index_def read_all hm_home_def)
  show ?thesis
  proof (cases rule: hm_probe_cases [OF inv, of k, case_names hit stop full])
    case (hit j)
    then obtain f where "hm_num_buckets h - j = Suc f" by (metis Suc_diff_Suc)
    with hit hm_lookup_skip [OF sh k, of j] start rd k show ?thesis
      by (auto simp: hm_filled_def bucket_defs)
  next
    case (stop j)
    then obtain f where "hm_num_buckets h - j = Suc f" by (metis Suc_diff_Suc)
    with stop hm_lookup_skip [OF sh k, of j] start rd show ?thesis by simp
  next
    case full
    obtain m where m: "hm_num_buckets h = Suc m"
      using sh gr0_implies_Suc by (auto simp: hm_shape_def)
    with full hm_lookup_skip [OF sh k, of m] start rd nx k hm_pos_wrap [OF sh, of m k]
    show ?thesis by (auto simp: hm_miss_def)
  qed
qed

lemma hm_lookup_value_map:
  assumes inv: "hm_inv h" and k: "length k = hm_key_size h"
  shows "hm_lookup_value h k = Ok (hm_map h k)"
proof -
  have sh: "hm_shape h" and inj: "inj_on (hm_key h) (hm_filled h)" using inv by (simp_all add: hm_inv_def)
  from hm_lookup_spec [OF assms] show ?thesis
  proof
    assume "\<exists>i\<in>hm_filled h. hm_elem_lookup h k = Ok (Some (hm_get_value h i)) \<and> hm_key h i = k"
    then obtain i where i: "i \<in> hm_filled h" "hm_elem_lookup h k = Ok (Some (hm_get_value h i))"
      "hm_key h i = k" by blast
    then have "hm_map h k = Some (hm_val h i)" using hm_map_iff [OF inj] by blast
    with i hm_reads(4) [OF sh, of i] show ?thesis
      by (simp add: hm_lookup_value_def hm_filled_def)
  qed (simp add: hm_lookup_value_def)
qed

section \<open>Updates of the table\<close>

lemma hm_frame [simp]:
  "hm_pos (h\<lparr>hm_data_buffer := d\<rparr>) = hm_pos h"
  "hm_pos (h\<lparr>hm_count := c\<rparr>) = hm_pos h"
  "hm_bucket (h\<lparr>hm_count := c\<rparr>) = hm_bucket h"
  "hm_shape (h\<lparr>hm_count := c\<rparr>) = hm_shape h"
  "hm_state (h\<lparr>hm_count := c\<rparr>) = hm_state h"
  "hm_key (h\<lparr>hm_count := c\<rparr>) = hm_key h"
  "hm_val (h\<lparr>hm_count := c\<rparr>) = hm_val h"
  "hm_filled (h\<lparr>hm_count := c\<rparr>) = hm_filled h"
  "hm_map (h\<lparr>hm_count := c\<rparr>) = hm_map h"
  by (simp_all add: hm_pos_def hm_home_def hm_bucket_def hm_shape_def hm_state_def hm_key_def
      hm_val_def hm_filled_def hm_map_def hm_entries_def fun_eq_iff)

definition hm_same :: "bpftime_hash_map \<Rightarrow> bpftime_hash_map \<Rightarrow> bool" where
  "hm_same h h' \<longleftrightarrow> hm_key_size h' = hm_key_size h \<and> hm_value_size h' = hm_value_size h \<and>
     hm_num_buckets h' = hm_num_buckets h \<and> hm_max_element_count h' = hm_max_element_count h"

lemma hm_invD:
  assumes "hm_inv h"
  shows "hm_shape h" and "inj_on (hm_key h) (hm_filled h)" and "hm_count h = card (hm_filled h)"
    and "hm_count h \<le> hm_max_element_count h" and "hm_max_element_count h \<le> hm_num_buckets h"
    and "hm_count h < 18446744073709551616"
    and "i < hm_num_buckets h \<Longrightarrow> hm_state h i = BUCKET_EMPTY \<or> hm_state h i = BUCKET_FILLED \<or>
      hm_state h i = BUCKET_DELETED"
    and "i \<in> hm_filled h \<Longrightarrow> \<exists>j<hm_num_buckets h. i = hm_pos h (hm_key h i) j \<and>
        (\<forall>j'<j. hm_state h (hm_pos h (hm_key h i) j') \<noteq> BUCKET_EMPTY)"
  using assms hm_shape_bounds(1) [of h] by (auto simp: hm_inv_def)

lemma hm_invI:
  assumes "hm_shape h" and "inj_on (hm_key h) (hm_filled h)" and "hm_count h = card (hm_filled h)"
    and "hm_count h \<le> hm_max_element_count h" and "hm_max_element_count h \<le> hm_num_buckets h"
    and "\<And>i. i < hm_num_buckets h \<Longrightarrow> hm_state h i = BUCKET_EMPTY \<or> hm_state h i = BUCKET_FILLED \<or>
      hm_state h i = BUCKET_DELETED"
    and "\<And>i. i \<in> hm_filled h \<Longrightarrow> \<exists>j<hm_num_buckets h. i = hm_pos h (hm_key h i) j \<and>
        (\<forall>j'<j. hm_state h (hm_pos h (hm_key h i) j') \<noteq> BUCKET_EMPTY)"
  shows "hm_inv h"
  using assms by (auto simp: hm_inv_def)

lemma hm_map_eqI:
  assumes "inj_on (hm_key h) (hm_filled h)"
    and "\<And>k v. m k = Some v \<longleftrightarrow> (\<exists>i\<in>hm_filled h. hm_key h i = k \<and> hm_val h i = v)"
  shows "hm_map h = m"
proof
  fix k
  show "hm_map h k = m k"
    using hm_map_iff [OF assms(1), of k] assms(2) [of k] by (metis option.exhaust)
qed

lemma hm_insert_inv:
  assumes inv: "hm_inv h" and k: "length k = hm_key_size h" and v: "length v = hm_value_size h"
    and new: "hm_map h k = None" and room: "hm_count h < hm_max_element_count h"
    and j: "j < hm_num_buckets h" and st: "hm_state h (hm_pos h k j) \<noteq> BUCKET_FILLED"
    and path: "\<forall>j'<j. hm_state h (hm_pos h k j') \<noteq> BUCKET_EMPTY"
  shows "\<exists>h'. hm_insert_at h (hm_pos h k j) k v = Ok h' \<and> hm_inv h' \<and> hm_same h h' \<and>
    hm_map h' = (hm_map h)(k \<mapsto> v)"
proof -
  note D = hm_invD [OF inv]
  let ?t = "hm_pos h k j"
  have t: "?t < hm_num_buckets h" by (rule hm_pos_less [OF D(1)])
  obtain d where d: "hm_insert_at h ?t k v
      = Ok (h\<lparr>hm_data_buffer := d, hm_count := u64 (hm_count h + 1)\<rparr>)"
    and sh: "hm_shape (h\<lparr>hm_data_buffer := d\<rparr>)"
    and b: "\<forall>j<hm_num_buckets h. hm_bucket (h\<lparr>hm_data_buffer := d\<rparr>) j =
      (if j = ?t then le_bytes 4 BUCKET_FILLED @ k @ v else hm_bucket h j)"
    using hm_insert_at_bucket [OF D(1) t k v] by blast
  define g where "g = h\<lparr>hm_data_buffer := d\<rparr>"
  let ?h' = "g\<lparr>hm_count := u64 (hm_count h + 1)\<rparr>"
  have same [simp]: "hm_num_buckets g = hm_num_buckets h" "hm_key_size g = hm_key_size h"
    "hm_value_size g = hm_value_size h" "hm_max_element_count g = hm_max_element_count h"
    "hm_pos g = hm_pos h" by (simp_all add: g_def)
  have bt: "hm_state g ?t = BUCKET_FILLED" "hm_key g ?t = k" "hm_val g ?t = v"
    using b t k v
    by (simp_all add: g_def hm_state_def hm_key_def hm_val_def le_nat_le_bytes bucket_defs)
  have bo: "hm_state g i = hm_state h i" "hm_key g i = hm_key h i" "hm_val g i = hm_val h i"
    if "i < hm_num_buckets h" "i \<noteq> ?t" for i
    using b that by (simp_all add: g_def hm_state_def hm_key_def hm_val_def)
  have nt: "?t \<notin> hm_filled h" using st by (simp add: hm_filled_def)
  have fl: "hm_filled g = insert ?t (hm_filled h)"
  proof (rule set_eqI)
    fix i show "i \<in> hm_filled g \<longleftrightarrow> i \<in> insert ?t (hm_filled h)"
      using bt bo [of i] t by (cases "i = ?t") (auto simp: hm_filled_def)
  qed
  have okey: "hm_key g i = hm_key h i \<and> hm_val g i = hm_val h i" if "i \<in> hm_filled h" for i
    using that nt bo [of i] by (auto simp: hm_filled_def)
  have nk: "hm_key h i \<noteq> k" if "i \<in> hm_filled h" for i using new that by (simp add: hm_map_None)
  have inj: "inj_on (hm_key g) (hm_filled g)"
    using D(2) okey nk bt nt unfolding fl by (auto simp: inj_on_def)
  have ne: "hm_state g i \<noteq> BUCKET_EMPTY" if "i < hm_num_buckets h" "hm_state h i \<noteq> BUCKET_EMPTY" for i
    using that bo [of i] bt by (cases "i = ?t") (auto simp: bucket_defs)
  have "hm_inv ?h'"
  proof (rule hm_invI)
    show "hm_shape ?h'" using sh by (simp add: g_def)
    show "hm_count ?h' = card (hm_filled ?h')" using D(3,6) fl nt room D(5)
        hm_shape_bounds(1) [OF D(1)] by simp
    show "hm_count ?h' \<le> hm_max_element_count ?h'" using room D(5) hm_shape_bounds(1) [OF D(1)] by simp
    fix i assume "i < hm_num_buckets ?h'"
    then show "hm_state ?h' i = BUCKET_EMPTY \<or> hm_state ?h' i = BUCKET_FILLED \<or>
        hm_state ?h' i = BUCKET_DELETED"
      using D(7) [of i] bo [of i] bt by (cases "i = ?t") auto
  next
    fix i assume "i \<in> hm_filled ?h'"
    then consider "i = ?t" | "i \<in> hm_filled h" using fl by auto
    then show "\<exists>j<hm_num_buckets ?h'. i = hm_pos ?h' (hm_key ?h' i) j \<and>
        (\<forall>j'<j. hm_state ?h' (hm_pos ?h' (hm_key ?h' i) j') \<noteq> BUCKET_EMPTY)"
    proof cases
      case 1
      then show ?thesis using j path bt ne hm_pos_less [OF D(1)] by auto
    next
      case 2
      then show ?thesis using D(8) [OF 2] okey [OF 2] ne hm_pos_less [OF D(1)] by auto
    qed
  qed (use inj D(5) in simp_all)
  moreover have "hm_map g = (hm_map h)(k \<mapsto> v)"
  proof (rule hm_map_eqI [OF inj])
    fix k' v'
    show "((hm_map h)(k \<mapsto> v)) k' = Some v' \<longleftrightarrow>
        (\<exists>i\<in>hm_filled g. hm_key g i = k' \<and> hm_val g i = v')"
      using bt okey nk hm_map_iff [OF D(2), of k' v'] unfolding fl by auto
  qed
  ultimately show ?thesis using d by (auto simp: g_def hm_same_def)
qed

lemma hm_put_value_inv:
  assumes inv: "hm_inv h" and t: "t \<in> hm_filled h" and v: "length v = hm_value_size h"
  shows "\<exists>h'. hm_put_value h t v = Ok h' \<and> hm_inv h' \<and> hm_same h h' \<and>
    hm_map h' = (hm_map h)(hm_key h t \<mapsto> v)"
proof -
  note D = hm_invD [OF inv]
  have tn: "t < hm_num_buckets h" using t by (simp add: hm_filled_def)
  obtain d where d: "hm_put_value h t v = Ok (h\<lparr>hm_data_buffer := d\<rparr>)"
    and sh: "hm_shape (h\<lparr>hm_data_buffer := d\<rparr>)"
    and b: "\<forall>j<hm_num_buckets h. hm_bucket (h\<lparr>hm_data_buffer := d\<rparr>) j =
      (if j = t then take (4 + hm_key_size h) (hm_bucket h t) @ v else hm_bucket h j)"
    using hm_put_value_bucket [OF D(1) tn v] by blast
  define g where "g = h\<lparr>hm_data_buffer := d\<rparr>"
  have same [simp]: "hm_num_buckets g = hm_num_buckets h" "hm_key_size g = hm_key_size h"
    "hm_value_size g = hm_value_size h" "hm_max_element_count g = hm_max_element_count h"
    "hm_pos g = hm_pos h" "hm_count g = hm_count h" by (simp_all add: g_def)
  note len = length_hm_bucket [OF D(1) tn]
  have bo: "hm_state g i = hm_state h i" "hm_key g i = hm_key h i"
    "hm_val g i = (if i = t then v else hm_val h i)" if "i < hm_num_buckets h" for i
    using b that len v
    by (simp_all add: g_def hm_state_def hm_key_def hm_val_def drop_take)
  have fl: "hm_filled g = hm_filled h" using bo by (auto simp: hm_filled_def)
  have key: "hm_key g i = hm_key h i" "hm_val g i = (if i = t then v else hm_val h i)"
    if "i \<in> hm_filled h" for i using bo that by (simp_all add: hm_filled_def)
  have inj: "inj_on (hm_key g) (hm_filled g)" using D(2) key by (simp add: fl inj_on_def)
  have "hm_inv g"
    using D(3-5) D(7,8) sh inj bo key hm_pos_less [OF D(1)]
    by (intro hm_invI) (simp_all add: fl, simp_all add: g_def)
  moreover have "hm_map g = (hm_map h)(hm_key h t \<mapsto> v)"
  proof (rule hm_map_eqI [OF inj])
    fix k' v'
    show "((hm_map h)(hm_key h t \<mapsto> v)) k' = Some v' \<longleftrightarrow>
        (\<exists>i\<in>hm_filled g. hm_key g i = k' \<and> hm_val g i = v')"
      using key t inj_onD [OF D(2), of t] hm_map_iff [OF D(2), of k' v'] unfolding fl
      by (cases "k' = hm_key h t") (auto, metis+)
  qed
  ultimately show ?thesis using d by (auto simp: g_def hm_same_def)
qed

lemma hm_delete_inv:
  assumes inv: "hm_inv h" and t: "t \<in> hm_filled h"
  shows "\<exists>g. hm_set_deleted h t = Ok g \<and>
    hm_inv (g\<lparr>hm_count := u64 (hm_count g + (2 ^ 64 - 1))\<rparr>) \<and> hm_same h g \<and>
    hm_map g = (hm_map h)(hm_key h t := None)"
proof -
  note D = hm_invD [OF inv]
  have tn: "t < hm_num_buckets h" using t by (simp add: hm_filled_def)
  obtain d where d: "hm_set_deleted h t = Ok (h\<lparr>hm_data_buffer := d\<rparr>)"
    and sh: "hm_shape (h\<lparr>hm_data_buffer := d\<rparr>)"
    and b: "\<forall>j<hm_num_buckets h. hm_bucket (h\<lparr>hm_data_buffer := d\<rparr>) j =
      (if j = t then le_bytes 4 BUCKET_DELETED @ drop 4 (hm_bucket h t) else hm_bucket h j)"
    using hm_set_state_bucket [OF D(1) tn, of BUCKET_DELETED] unfolding hm_set_deleted_def by blast
  define g where "g = h\<lparr>hm_data_buffer := d\<rparr>"
  let ?h' = "g\<lparr>hm_count := u64 (hm_count h + (2 ^ 64 - 1))\<rparr>"
  have same [simp]: "hm_num_buckets g = hm_num_buckets h" "hm_key_size g = hm_key_size h"
    "hm_value_size g = hm_value_size h" "hm_max_element_count g = hm_max_element_count h"
    "hm_pos g = hm_pos h" "hm_count g = hm_count h" by (simp_all add: g_def)
  have bo: "hm_state g i = (if i = t then BUCKET_DELETED else hm_state h i)"
    "hm_key g i = hm_key h i" "hm_val g i = hm_val h i" if "i < hm_num_buckets h" for i
    using b that
    by (simp_all add: g_def hm_state_def hm_key_def hm_val_def le_nat_le_bytes bucket_defs add.commute)
  have fl: "hm_filled g = hm_filled h - {t}" using bo by (auto simp: hm_filled_def bucket_defs split: if_splits)
  have key: "hm_key g i = hm_key h i" "hm_val g i = hm_val h i"
    if "i \<in> hm_filled h" for i using bo that by (simp_all add: hm_filled_def)
  have inj: "inj_on (hm_key g) (hm_filled g)" using D(2) key by (auto simp: fl inj_on_def)
  have pos: "0 < hm_count h" using t D(3) by (simp add: card_gt_0_iff) blast
  then have cnt: "u64 (hm_count h + (2 ^ 64 - 1)) = hm_count h - 1"
    using D(6) by (simp add: u64_def mod_if)
  have ne: "hm_state g i \<noteq> BUCKET_EMPTY" if "i < hm_num_buckets h" "hm_state h i \<noteq> BUCKET_EMPTY" for i
    using that bo [of i] by (simp add: bucket_defs)
  have reach: "\<exists>j<hm_num_buckets h. i = hm_pos h (hm_key g i) j \<and>
      (\<forall>j'<j. hm_state g (hm_pos h (hm_key g i) j') \<noteq> BUCKET_EMPTY)" if "i \<in> hm_filled h" for i
    using D(8) [OF that] key(1) [OF that] ne hm_pos_less [OF D(1)] by metis
  have "hm_inv ?h'"
    using D(3-5) D(7) sh inj bo(1) reach t cnt
    by (intro hm_invI) (simp_all add: fl card_Diff_singleton, simp_all add: g_def)
  moreover have "hm_map g = (hm_map h)(hm_key h t := None)"
  proof (rule hm_map_eqI [OF inj])
    fix k' v'
    show "((hm_map h)(hm_key h t := None)) k' = Some v' \<longleftrightarrow>
        (\<exists>i\<in>hm_filled g. hm_key g i = k' \<and> hm_val g i = v')"
      using key t D(2) hm_map_iff [OF D(2), of k' v'] unfolding fl
      by (auto dest: inj_onD)
  qed
  ultimately show ?thesis using d by (auto simp: g_def hm_same_def)
qed

section \<open>The update and delete loops\<close>

text \<open>The variable \<open>first_deleted\<close> after \<open>m\<close> probes.\<close>

fun hm_first_deleted :: "bpftime_hash_map \<Rightarrow> bytes \<Rightarrow> nat \<Rightarrow> nat" where
  "hm_first_deleted h k 0 = hm_num_buckets h"
| "hm_first_deleted h k (Suc m) =
     (if hm_state h (hm_pos h k m) = BUCKET_DELETED \<and> hm_first_deleted h k m = hm_num_buckets h
      then hm_pos h k m else hm_first_deleted h k m)"

lemma hm_first_deleted_cases:
  assumes "hm_shape h"
  shows "hm_first_deleted h k m = hm_num_buckets h \<and>
      (\<forall>j<m. hm_state h (hm_pos h k j) \<noteq> BUCKET_DELETED) \<or>
    (\<exists>j<m. hm_first_deleted h k m = hm_pos h k j \<and> hm_state h (hm_pos h k j) = BUCKET_DELETED)"
proof (induction m)
  case (Suc m)
  then show ?case using hm_pos_less [OF assms, of k] by (auto simp: less_Suc_eq)
qed simp

lemma hm_update_skip:
  assumes inv: "hm_inv h" and k: "length k = hm_key_size h" and "m < hm_num_buckets h"
    and "\<forall>j<m. hm_miss h k j"
  shows "hm_update_loop h k v (hm_home h k) (hm_num_buckets h) (hm_home h k) (hm_num_buckets h)
    = hm_update_loop h k v (hm_home h k) (hm_num_buckets h - m) (hm_pos h k m) (hm_first_deleted h k m)"
  using assms(3,4)
proof (induction m)
  case (Suc m)
  have sh: "hm_shape h" by (rule hm_invD(1) [OF inv])
  from Suc have m: "m < hm_num_buckets h" and miss: "hm_miss h k m" by simp_all
  have f: "hm_num_buckets h - m = Suc (hm_num_buckets h - Suc m)" using m by simp
  show ?case
    using Suc.IH Suc.prems f miss hm_reads(1,2) [OF sh hm_pos_less [OF sh]] k
      hm_pos_wrap [OF sh m] hm_invD(7) [OF inv hm_pos_less [OF sh], of k m]
    by (auto simp: hm_next_index_pos [OF sh] hm_miss_def)
qed simp

lemma hm_delete_skip:
  assumes "hm_shape h" and "length k = hm_key_size h" and "m < hm_num_buckets h"
    and "\<forall>j<m. hm_miss h k j"
  shows "hm_delete_loop h k (hm_home h k) (hm_num_buckets h) (hm_home h k)
    = hm_delete_loop h k (hm_home h k) (hm_num_buckets h - m) (hm_pos h k m)"
  using assms(3,4)
proof (induction m)
  case (Suc m)
  then have m: "m < hm_num_buckets h" and miss: "hm_miss h k m" by simp_all
  have f: "hm_num_buckets h - m = Suc (hm_num_buckets h - Suc m)" using m by simp
  show ?case
    using Suc.IH Suc.prems f miss hm_reads(1,2) [OF assms(1) hm_pos_less [OF assms(1)]] assms(2)
      hm_pos_wrap [OF assms(1) m]
    by (auto simp: hm_next_index_pos [OF assms(1)] hm_miss_def)
qed simp

lemma hm_start: 
  assumes "length k = hm_key_size h"
  shows "hm_start_index h k = Ok (hm_home h k)"
  using assms by (simp add: hm_start_index_def read_all hm_home_def)

text \<open>Where a new key goes: the first tombstone on its path, or else the bucket that ends it.\<close>

lemma hm_insert_target:
  assumes inv: "hm_inv h" and "length k = hm_key_size h" and "length v = hm_value_size h"
    and "hm_map h k = None" and room: "hm_count h < hm_max_element_count h"
    and m: "m < hm_num_buckets h" and miss: "\<forall>j<m. hm_miss h k j"
    and st: "hm_state h (hm_pos h k m) \<noteq> BUCKET_FILLED"
  shows "\<exists>h'. hm_insert_at h (if hm_first_deleted h k m \<noteq> hm_num_buckets h
        then hm_first_deleted h k m else hm_pos h k m) k v = Ok h' \<and>
      hm_inv h' \<and> hm_same h h' \<and> hm_map h' = (hm_map h)(k \<mapsto> v)"
proof -
  have sh: "hm_shape h" by (rule hm_invD(1) [OF inv])
  have ne: "hm_state h (hm_pos h k j) \<noteq> BUCKET_EMPTY" if "j < m" for j
    using miss that by (simp add: hm_miss_def)
  from hm_first_deleted_cases [OF sh, of k m] show ?thesis
  proof
    assume "\<exists>j<m. hm_first_deleted h k m = hm_pos h k j \<and> hm_state h (hm_pos h k j) = BUCKET_DELETED"
    then obtain j where j: "j < m" "hm_first_deleted h k m = hm_pos h k j"
      "hm_state h (hm_pos h k j) = BUCKET_DELETED" by blast
    moreover have "hm_pos h k j \<noteq> hm_num_buckets h" using hm_pos_less [OF sh, of k j] by simp
    ultimately show ?thesis
      using hm_insert_inv [OF assms(1-5), of j] m ne by simp
  next
    assume "hm_first_deleted h k m = hm_num_buckets h \<and>
      (\<forall>j<m. hm_state h (hm_pos h k j) \<noteq> BUCKET_DELETED)"
    then show ?thesis using hm_insert_inv [OF assms(1-6) st] ne by simp
  qed
qed

lemma hm_tombstone:
  assumes inv: "hm_inv h" and room: "hm_count h < hm_num_buckets h"
    and miss: "\<forall>j<hm_num_buckets h. hm_miss h k j"
  shows "\<exists>j<hm_num_buckets h. hm_state h (hm_pos h k j) = BUCKET_DELETED"
proof (rule ccontr)
  note D = hm_invD [OF inv]
  assume no: "\<not> ?thesis"
  have "i \<in> hm_filled h" if i: "i < hm_num_buckets h" for i
  proof -
    obtain j where "j < hm_num_buckets h" "i = hm_pos h k j"
      using ring_surj [OF hm_home_less [OF D(1)] i, of k] by (auto simp: hm_pos_def)
    with miss no D(7) [OF i] i show ?thesis by (auto simp: hm_filled_def hm_miss_def)
  qed
  then have "hm_filled h = {..<hm_num_buckets h}" by (auto simp: hm_filled_def)
  then show False using D(3) room by simp
qed

text \<open>The code after the loop, when the probe has visited every bucket.\<close>

lemma hm_update_full:
  assumes inv: "hm_inv h" and k: "length k = hm_key_size h"
    and miss: "\<forall>j<hm_num_buckets h. hm_miss h k j"
  shows "hm_update_loop h k v (hm_home h k) (hm_num_buckets h) (hm_home h k) (hm_num_buckets h) =
      (let t = hm_first_deleted h k (hm_num_buckets h) in
       if t \<noteq> hm_num_buckets h \<and> hm_count h < hm_max_element_count h
       then bind_out (hm_insert_at h t k v) (\<lambda>h'. Ok (h', True))
       else Ok (h, False))"
proof -
  have sh: "hm_shape h" by (rule hm_invD(1) [OF inv])
  note rd = hm_reads(1,2) [OF sh hm_pos_less [OF sh]] and nx = hm_next_index_pos [OF sh]
  obtain m where n: "hm_num_buckets h = Suc m"
    using sh gr0_implies_Suc by (auto simp: hm_shape_def)
  then have m: "m < hm_num_buckets h" "\<forall>j<m. hm_miss h k j" "hm_num_buckets h - m = Suc 0"
    and last: "hm_miss h k m" using miss by simp_all
  have wrap: "hm_pos h k (Suc m) = hm_home h k" using hm_pos_wrap [OF sh m(1)] n by simp
  have fd: "hm_first_deleted h k (hm_num_buckets h) =
      (if hm_state h (hm_pos h k m) = BUCKET_DELETED \<and> hm_first_deleted h k m = hm_num_buckets h
      then hm_pos h k m else hm_first_deleted h k m)" by (simp add: n)
  show ?thesis
    using last k hm_invD(7) [OF inv hm_pos_less [OF sh], of k m] hm_pos_less [OF sh, of k m]
    unfolding hm_update_skip [OF inv k m(1,2)] m(3) fd
    by (auto simp: hm_miss_def Let_def rd nx wrap)
qed

lemma hm_update_spec:
  assumes inv: "hm_inv h" and k: "length k = hm_key_size h" and v: "length v = hm_value_size h"
  shows "\<exists>h' b. hm_elem_update h k v = Ok (h', b) \<and> hm_inv h' \<and> hm_same h h' \<and>
    kv_spec (hm_max_element_count h) (hm_map h) (KUpdate k v) = (hm_map h', Done b)"
proof -
  note D = hm_invD [OF inv]
  note rd = hm_reads(1,2) [OF D(1) hm_pos_less [OF D(1)]] and nx = hm_next_index_pos [OF D(1)]
  have eq: "hm_elem_update h k v =
      hm_update_loop h k v (hm_home h k) (hm_num_buckets h) (hm_home h k) (hm_num_buckets h)"
    by (simp add: hm_elem_update_def hm_start [OF k])
  show ?thesis
  proof (cases rule: hm_probe_cases [OF inv, of k, case_names hit stop full])
    case (hit j)
    then have f: "hm_num_buckets h - j = Suc (hm_num_buckets h - Suc j)" by simp
    obtain h' where "hm_put_value h (hm_pos h k j) v = Ok h'" "hm_inv h'" "hm_same h h'"
      "hm_map h' = (hm_map h)(k \<mapsto> v)" using hm_put_value_inv [OF inv hit(3) v, unfolded hit(4)] by blast
    moreover have "hm_map h k \<noteq> None" unfolding hm_map_None using hit(3,4) by blast
    ultimately show ?thesis
      using hit hm_update_skip [OF inv k hit(1,2), of v] eq f rd k by (auto simp: hm_filled_def)
  next
    case (stop j)
    then have f: "hm_num_buckets h - j = Suc (hm_num_buckets h - Suc j)" by simp
    show ?thesis
      using stop hm_update_skip [OF inv k stop(2,3), of v] eq f rd hm_card [OF inv]
        hm_insert_target [OF inv k v stop(1) _ stop(2,3)] inv
      by (cases "hm_count h < hm_max_element_count h") (auto simp: hm_same_def)
  next
    case full
    show ?thesis
    proof (cases "hm_count h < hm_max_element_count h")
      case False
      then show ?thesis using eq hm_update_full [OF inv k full(2)] inv hm_card [OF inv] full(1)
        by (auto simp: hm_same_def)
    next
      case True
      then have "hm_count h < hm_num_buckets h" using D(5) by simp
      from hm_tombstone [OF inv this full(2)] obtain j where
        j: "j < hm_num_buckets h" "hm_first_deleted h k (hm_num_buckets h) = hm_pos h k j"
          "hm_state h (hm_pos h k j) = BUCKET_DELETED"
        using hm_first_deleted_cases [OF D(1), of k "hm_num_buckets h"] by metis
      have path: "\<forall>j'<j. hm_state h (hm_pos h k j') \<noteq> BUCKET_EMPTY"
        using full(2) j(1) by (simp add: hm_miss_def)
      obtain h' where "hm_insert_at h (hm_pos h k j) k v = Ok h'" "hm_inv h'" "hm_same h h'"
        "hm_map h' = (hm_map h)(k \<mapsto> v)"
        using hm_insert_inv [OF inv k v full(1) True j(1) _ path] j(3) by auto
      then show ?thesis
        using eq hm_update_full [OF inv k full(2), of v] True j(2) hm_card [OF inv]
          hm_pos_less [OF D(1), of k j] by auto
    qed
  qed
qed

lemma hm_delete_spec:
  assumes inv: "hm_inv h" and k: "length k = hm_key_size h"
  shows "\<exists>h' b. hm_elem_delete h k = Ok (h', b) \<and> hm_inv h' \<and> hm_same h h' \<and>
    kv_spec (hm_max_element_count h) (hm_map h) (KDelete k) = (hm_map h', Done b)"
proof -
  note D = hm_invD [OF inv]
  note rd = hm_reads(1,2) [OF D(1) hm_pos_less [OF D(1)]] and nx = hm_next_index_pos [OF D(1)]
  have eq: "hm_elem_delete h k = hm_delete_loop h k (hm_home h k) (hm_num_buckets h) (hm_home h k)"
    by (simp add: hm_elem_delete_def hm_start [OF k])
  show ?thesis
  proof (cases rule: hm_probe_cases [OF inv, of k, case_names hit stop full])
    case (hit j)
    then have f: "hm_num_buckets h - j = Suc (hm_num_buckets h - Suc j)" by simp
    obtain g where g: "hm_set_deleted h (hm_pos h k j) = Ok g"
      "hm_inv (g\<lparr>hm_count := u64 (hm_count g + (2 ^ 64 - 1))\<rparr>)" "hm_same h g"
      "hm_map g = (hm_map h)(k := None)" using hm_delete_inv [OF inv hit(3), unfolded hit(4)] by blast
    have "hm_elem_delete h k = Ok (g\<lparr>hm_count := u64 (hm_count g + (2 ^ 64 - 1))\<rparr>, True)"
      using hit hm_delete_skip [OF D(1) k hit(1,2)] eq f rd k g(1) by (simp add: hm_filled_def)
    moreover have "hm_map h k \<noteq> None" unfolding hm_map_None using hit(3,4) by blast
    ultimately show ?thesis using g(2-4) by (auto simp: hm_same_def)
  next
    case (stop j)
    then have f: "hm_num_buckets h - j = Suc (hm_num_buckets h - Suc j)" by simp
    have "hm_elem_delete h k = Ok (h, False)"
      using stop hm_delete_skip [OF D(1) k stop(2,3)] eq f rd by simp
    then show ?thesis using stop(1) inv by (auto simp: hm_same_def fun_upd_idem)
  next
    case full
    obtain m where n: "hm_num_buckets h = Suc m"
      using D(1) gr0_implies_Suc by (auto simp: hm_shape_def)
    have "hm_elem_delete h k = Ok (h, False)"
      using full hm_delete_skip [OF D(1) k, of m] eq rd nx k hm_pos_wrap [OF D(1), of m k] n
      by (auto simp: hm_miss_def)
    then show ?thesis using full(1) inv by (auto simp: hm_same_def fun_upd_idem)
  qed
qed

interpretation hmap: bounded_map hm_inv hm_map hm_max_element_count hm_key_size hm_value_size
  hm_lookup_value hm_elem_update hm_elem_delete
proof unfold_locales
  show "finite (dom (hm_map s))" for s by (simp add: dom_hm_map)
  show "card (dom (hm_map s)) \<le> hm_max_element_count s" if "hm_inv s" for s
    using hm_card [OF that] hm_invD(4) [OF that] by simp
  show "\<exists>s' b. hm_elem_update s k v = Ok (s', b) \<and> hm_inv s' \<and>
      hm_max_element_count s' = hm_max_element_count s \<and> hm_key_size s' = hm_key_size s \<and>
      hm_value_size s' = hm_value_size s \<and>
      kv_spec (hm_max_element_count s) (hm_map s) (KUpdate k v) = (hm_map s', Done b)"
    if "hm_inv s" "length k = hm_key_size s" "length v = hm_value_size s" for s k v
    using hm_update_spec [OF that] unfolding hm_same_def by blast
  show "\<exists>s' b. hm_elem_delete s k = Ok (s', b) \<and> hm_inv s' \<and>
      hm_max_element_count s' = hm_max_element_count s \<and> hm_key_size s' = hm_key_size s \<and>
      hm_value_size s' = hm_value_size s \<and>
      kv_spec (hm_max_element_count s) (hm_map s) (KDelete k) = (hm_map s', Done b)"
    if "hm_inv s" "length k = hm_key_size s" for s k
    using hm_delete_spec [OF that] unfolding hm_same_def by blast
qed (rule hm_lookup_value_map)

section \<open>Properties\<close>

lemma hm_new_inv:
  assumes new: "bpftime_hash_map_new n ks vs = Ok h" and q: "n \<le> q" "prime_number q" "q < 2 ^ 62"
    and size: "q * (4 + ks + vs) < 2 ^ 64"
  shows "hm_inv h" and "hm_map h = Map.empty" and "hm_key_size h = ks" and "hm_value_size h = vs"
    and "hm_max_element_count h = n" and "n \<le> hm_num_buckets h" and "hm_num_buckets h \<le> q"
    and "prime_number (hm_num_buckets h)"
proof -
  obtain p where p: "next_prime n = Some p" "n \<le> p" "p \<le> q" "prime_number p"
    using next_prime_least [OF q] by blast
  have pos: "0 < p" using p(4) by (simp add: prime_number_def)
  have "p * (4 + ks + vs) \<le> q * (4 + ks + vs)" using p(3) by (rule mult_le_mono1)
  with size have sz: "p * (4 + ks + vs) < 2 ^ 64" by linarith
  have "1 * (4 + ks + vs) \<le> p * (4 + ks + vs)" using pos by (intro mult_le_mono) auto
  from le_less_trans [OF this sz] have w: "4 + ks + vs < 2 ^ 64" by simp
  have h: "h = \<lparr>hm_key_size = ks, hm_value_size = vs, hm_num_buckets = p,
      hm_max_element_count = n, hm_count = 0, hm_data_buffer = replicate (p * (4 + ks + vs)) 0\<rparr>"
    using new p(1) sz w by (simp add: bpftime_hash_map_new_def)
  have st: "hm_state h i = BUCKET_EMPTY" if "i < p" for i
  proof -
    have "4 \<le> p * (4 + ks + vs) - i * (4 + ks + vs)"
      using slot_bound [OF that, of "4 + ks + vs"] by linarith
    then show ?thesis
      by (simp add: hm_state_def hm_bucket_def slot_def h numeral_eq_Suc BUCKET_EMPTY_def)
  qed
  have fl: "hm_filled h = {}" using st by (auto simp: hm_filled_def h)
  have "hm_shape h" using sz pos by (simp add: hm_shape_def h)
  then show "hm_inv h" using fl st p(2) by (simp add: hm_inv_def) (simp add: h)
  show "hm_map h = Map.empty" using fl hm_map_None by blast
  show "hm_key_size h = ks" "hm_value_size h = vs" "hm_max_element_count h = n"
    "n \<le> hm_num_buckets h" "hm_num_buckets h \<le> q" "prime_number (hm_num_buckets h)"
    using p by (simp_all add: h)
qed

text \<open>C1: every sequence of lookups, updates and deletes on a fresh hash map returns, call by
  call, what a partial map bounded by \<open>num_buckets\<close> keys returns. No probe loop runs forever and
  no access leaves the buffer; a key stays reachable when tombstones are left on its path and
  reused.\<close>

theorem hash_map_refines_map:
  assumes "bpftime_hash_map_new n ks vs = Ok h" and "n \<le> q" and "prime_number q" and "q < 2 ^ 62"
    and "q * (4 + ks + vs) < 2 ^ 64" and "\<forall>x\<in>set ops. kv_ok ks vs x"
  shows "\<exists>h' rs. run_out (kv_step hm_lookup_value hm_elem_update hm_elem_delete) h ops = Ok (h', rs) \<and>
    hm_inv h' \<and> run (kv_spec n) Map.empty ops = (hm_map h', rs)"
  using hmap.run_abs [of h ops] hm_new_inv [OF assms(1-5)] assms(6) by simp

lemma prime_2: "prime_number 2"
  by (rule prime_by_trial [of 2 2]) simp_all

theorem hash_map_refines_map_witness:
  "\<exists>h'. run_out (kv_step hm_lookup_value hm_elem_update hm_elem_delete)
      \<lparr>hm_key_size = 1, hm_value_size = 1, hm_num_buckets = 2, hm_max_element_count = 2,
        hm_count = 0, hm_data_buffer = replicate 12 0\<rparr>
      [KUpdate [1] [7], KUpdate [3] [8], KUpdate [5] [9], KDelete [1], KUpdate [5] [9], KLookup [3]]
    = Ok (h', [Done True, Done True, Done False, Done True, Done True, Found (Some [8])])"
proof -
  have "next_prime 2 = Some 2" by (subst next_prime.simps) (simp add: is_prime_def)
  then have "bpftime_hash_map_new 2 1 1 =
      Ok \<lparr>hm_key_size = 1, hm_value_size = 1, hm_num_buckets = 2, hm_max_element_count = 2,
        hm_count = 0, hm_data_buffer = replicate 12 0\<rparr>"
    by (simp add: bpftime_hash_map_new_def)
  from hash_map_refines_map [OF this _ prime_2, of
    "[KUpdate [1] [7], KUpdate [3] [8], KUpdate [5] [9], KDelete [1], KUpdate [5] [9], KLookup [3]]"]
  show ?thesis by auto
qed

end
