(* ===== verification/Fix_Hash_Map.thy ===== *)
theory Fix_Hash_Map
  imports Hash_Map
begin

text \<open>
  \<open>fix_size_hash_map_impl\<close> (bpf_map/userspace/fix_hash_map.hpp and fix_hash_map.cpp): the
  hash map type of the runtime, a wrapper that drops the result of the update and of the
  delete of \<open>bpftime_hash_map\<close> and adds the key iteration over the buckets.
\<close>

section \<open>State and operations\<close>

record fix_size_hash_map_impl =
  fh_map_impl :: bpftime_hash_map
  fh_key_size :: nat
  fh_value_size :: nat
  fh_num_buckets :: nat

text \<open>The three size members are \<open>uint32_t\<close>.\<close>

definition fix_size_hash_map_impl_new :: "nat \<Rightarrow> nat \<Rightarrow> nat \<Rightarrow> fix_size_hash_map_impl outcome" where
  "fix_size_hash_map_impl_new num_buckets key_size value_size =
     bind_out (bpftime_hash_map_new num_buckets key_size value_size) (\<lambda>m.
       case next_prime num_buckets of
         None \<Rightarrow> NoReturn
       | Some p \<Rightarrow> Ok \<lparr>fh_map_impl = m, fh_key_size = u32 key_size,
                       fh_value_size = u32 value_size, fh_num_buckets = u32 p\<rparr>)"

definition fix_elem_lookup :: "fix_size_hash_map_impl \<Rightarrow> bytes \<Rightarrow> nat option outcome" where
  "fix_elem_lookup m key = hm_elem_lookup (fh_map_impl m) key"

definition fix_elem_update ::
    "fix_size_hash_map_impl \<Rightarrow> bytes \<Rightarrow> bytes \<Rightarrow> nat \<Rightarrow> fix_size_hash_map_impl outcome" where
  "fix_elem_update m key value flags =
     bind_out (hm_elem_update (fh_map_impl m) key value) (\<lambda>(h, b). Ok (m\<lparr>fh_map_impl := h\<rparr>))"

definition fix_elem_delete ::
    "fix_size_hash_map_impl \<Rightarrow> bytes \<Rightarrow> fix_size_hash_map_impl outcome" where
  "fix_elem_delete m key =
     bind_out (hm_elem_delete (fh_map_impl m) key) (\<lambda>(h, b). Ok (m\<lparr>fh_map_impl := h\<rparr>))"

text \<open>The loop over the buckets \<open>i, i + 1, ...\<close> below \<open>_num_buckets\<close>; \<open>n\<close> of them are left.\<close>

fun fix_scan :: "fix_size_hash_map_impl \<Rightarrow> nat \<Rightarrow> nat \<Rightarrow> bytes outcome" where
  "fix_scan m 0 i = Err ENOENT"
| "fix_scan m (Suc n) i =
     bind_out (hm_is_empty (fh_map_impl m) i) (\<lambda>e.
       if e then fix_scan m n (i + 1)
       else of_option (read_at (hm_data_buffer (fh_map_impl m)) (hm_get_key (fh_map_impl m) i)
         (fh_key_size m)))"

text \<open>\<open>ptr\<close> says whether \<open>next_key\<close> is non-null; the result is what is copied to it.\<close>

definition fix_map_get_next_key ::
    "fix_size_hash_map_impl \<Rightarrow> bytes option \<Rightarrow> bool \<Rightarrow> bytes outcome" where
  "fix_map_get_next_key m key ptr =
     (if \<not> ptr then Err EINVAL
      else case key of
        None \<Rightarrow> fix_scan m (fh_num_buckets m) 0
      | Some k \<Rightarrow>
          bind_out (fix_elem_lookup m k) (\<lambda>v.
            case v of
              None \<Rightarrow> fix_scan m (fh_num_buckets m) 0
            | Some p \<Rightarrow>
                let index = hm_get_index_of_value (fh_map_impl m) (Some p)
                in fix_scan m (fh_num_buckets m - u64 (index + 1)) (u64 (index + 1))))"

section \<open>Iteration\<close>

definition fix_inv :: "fix_size_hash_map_impl \<Rightarrow> bool" where
  "fix_inv m \<longleftrightarrow> hm_inv (fh_map_impl m) \<and> 0 < hm_value_size (fh_map_impl m) \<and>
     fh_key_size m = hm_key_size (fh_map_impl m) \<and>
     fh_num_buckets m = hm_num_buckets (fh_map_impl m) \<and> fh_num_buckets m < 2 ^ 32"

definition fix_filled :: "fix_size_hash_map_impl \<Rightarrow> nat list" where
  "fix_filled m = filter (\<lambda>i. hm_state (fh_map_impl m) i = BUCKET_FILLED) [0..<fh_num_buckets m]"

definition fix_keys :: "fix_size_hash_map_impl \<Rightarrow> bytes list" where
  "fix_keys m = map (hm_key (fh_map_impl m)) (fix_filled m)"

lemma fix_scan_eq:
  assumes "fix_inv m" and "i + n = fh_num_buckets m"
  shows "fix_scan m n i =
    (case filter (\<lambda>i. hm_state (fh_map_impl m) i = BUCKET_FILLED) [i..<fh_num_buckets m] of
       [] \<Rightarrow> Err ENOENT | j # _ \<Rightarrow> Ok (hm_key (fh_map_impl m) j))"
  using assms(2)
proof (induction n arbitrary: i)
  case (Suc n)
  let ?h = "fh_map_impl m"
  have sh: "hm_shape ?h" and i: "i < hm_num_buckets ?h" and ks: "fh_key_size m = hm_key_size ?h"
    using assms(1) Suc.prems by (auto simp: fix_inv_def hm_inv_def)
  have "[i..<fh_num_buckets m] = i # [Suc i..<fh_num_buckets m]"
    using Suc.prems by (simp add: upt_conv_Cons)
  then show ?case using Suc.IH [of "Suc i"] Suc.prems hm_reads(1,3) [OF sh i] ks
    by (simp add: hm_is_empty_def)
qed simp

lemma filter_after:
  assumes "i < length (filter P [0..<n])"
  shows "filter P [Suc (filter P [0..<n] ! i)..<n] = drop (Suc i) (filter P [0..<n])"
  using assms
proof (induction n)
  case (Suc n)
  let ?xs = "filter P [0..<n]"
  show ?case
  proof (cases "i < length ?xs")
    case True
    then have "?xs ! i \<in> set ?xs" by (rule nth_mem)
    then have lt: "?xs ! i < n" by auto
    then show ?thesis using Suc.IH [OF True] True by (simp add: nth_append)
  next
    case False
    then have "P n" "i = length ?xs" using Suc.prems by (auto split: if_splits)
    then show ?thesis by (simp add: nth_append)
  qed
qed simp

lemma fix_index_of_value:
  assumes "fix_inv m" and "i < fh_num_buckets m"
  shows "hm_get_index_of_value (fh_map_impl m) (Some (hm_get_value (fh_map_impl m) i)) = i"
proof -
  let ?h = "fh_map_impl m"
  have sh: "hm_shape ?h" and i: "i < hm_num_buckets ?h" and vs: "0 < hm_value_size ?h"
    using assms by (auto simp: fix_inv_def hm_inv_def)
  have "(i * hm_width ?h + (4 + hm_key_size ?h)) div hm_width ?h = i"
    using vs by (intro div_nat_eqI) (simp_all add: algebra_simps)
  then show ?thesis
    using hm_offsets(3) [OF sh i] hm_shape_bounds(3) [OF sh] hm_shape_bounds(4) [OF sh i] vs
    by (simp add: hm_get_index_of_value_def)
qed

lemma fix_first:
  assumes "fix_inv m"
  shows "fix_scan m (fh_num_buckets m) 0 = (case fix_keys m of [] \<Rightarrow> Err ENOENT | k # _ \<Rightarrow> Ok k)"
  using fix_scan_eq [OF assms, of 0 "fh_num_buckets m"]
  by (simp add: fix_keys_def fix_filled_def split: list.splits)

lemma fix_lookup_index:
  assumes inv: "fix_inv m" and i: "i < length (fix_filled m)"
  shows "fix_elem_lookup m (fix_keys m ! i) = Ok (Some (hm_get_value (fh_map_impl m) (fix_filled m ! i)))"
proof -
  let ?h = "fh_map_impl m" and ?j = "fix_filled m ! i"
  have hi: "hm_inv ?h" using inv by (simp add: fix_inv_def)
  note D = hm_invD [OF hi]
  have "?j \<in> set (fix_filled m)" using i by simp
  then have j: "?j \<in> hm_filled ?h" using inv by (simp add: fix_filled_def hm_filled_def fix_inv_def)
  then have "length (hm_key ?h ?j) = hm_key_size ?h"
    using length_hm_bucket [OF D(1), of ?j] by (simp add: hm_key_def hm_filled_def)
  from hm_lookup_spec [OF hi this] j D(2)
  have "hm_elem_lookup ?h (hm_key ?h ?j) = Ok (Some (hm_get_value ?h ?j))"
    by (auto simp: hm_map_None dest: inj_onD)
  then show ?thesis using i by (simp add: fix_elem_lookup_def fix_keys_def)
qed

lemma fix_next:
  assumes inv: "fix_inv m" and i: "i < length (fix_keys m)"
  shows "fix_map_get_next_key m (Some (fix_keys m ! i)) True =
    (if Suc i < length (fix_keys m) then Ok (fix_keys m ! Suc i) else Err ENOENT)"
proof -
  let ?h = "fh_map_impl m" and ?n = "fh_num_buckets m" and ?j = "fix_filled m ! i"
  have i': "i < length (fix_filled m)" using i by (simp add: fix_keys_def)
  then have "?j \<in> set (fix_filled m)" by simp
  then have j: "?j < ?n" by (simp add: fix_filled_def)
  have n: "?n < 4294967296" using inv by (simp add: fix_inv_def)
  have rest: "filter (\<lambda>i. hm_state ?h i = BUCKET_FILLED) [Suc ?j..<?n] = drop (Suc i) (fix_filled m)"
    using filter_after [of i "\<lambda>i. hm_state ?h i = BUCKET_FILLED" ?n] i' by (simp add: fix_filled_def)
  have "fix_map_get_next_key m (Some (fix_keys m ! i)) True = fix_scan m (?n - Suc ?j) (Suc ?j)"
    using fix_lookup_index [OF inv i'] fix_index_of_value [OF inv j] j n
    by (simp add: fix_map_get_next_key_def Let_def)
  also have "\<dots> = (case drop (Suc i) (fix_filled m) of [] \<Rightarrow> Err ENOENT | j # _ \<Rightarrow> Ok (hm_key ?h j))"
    using fix_scan_eq [OF inv, of "Suc ?j" "?n - Suc ?j"] j rest by simp
  also have "\<dots> = (if Suc i < length (fix_keys m) then Ok (fix_keys m ! Suc i) else Err ENOENT)"
    by (cases "Suc i < length (fix_filled m)")
       (simp_all add: fix_keys_def Cons_nth_drop_Suc [symmetric])
  finally show ?thesis .
qed

interpretation fix_iter: key_iter fix_inv fix_keys "\<lambda>m k. fix_map_get_next_key m k True"
proof unfold_locales
  fix m assume inv: "fix_inv m"
  then have "inj_on (hm_key (fh_map_impl m)) (hm_filled (fh_map_impl m))"
    by (simp add: fix_inv_def hm_inv_def)
  then show "distinct (fix_keys m)"
    using inv by (auto simp: fix_keys_def fix_filled_def distinct_map hm_filled_def fix_inv_def
        intro: inj_on_subset)
  show "fix_map_get_next_key m None True = (case fix_keys m of [] \<Rightarrow> Err ENOENT | k # ks \<Rightarrow> Ok k)"
    using fix_first [OF inv] by (simp add: fix_map_get_next_key_def)
qed (rule fix_next)

section \<open>Properties\<close>

text \<open>Calls on a map, each with the flags its update carries, one after another.\<close>

fun fix_call :: "fix_size_hash_map_impl \<Rightarrow> kv_op \<Rightarrow> nat \<Rightarrow> fix_size_hash_map_impl outcome" where
  "fix_call m (KLookup k) flags = bind_out (fix_elem_lookup m k) (\<lambda>v. Ok m)"
| "fix_call m (KUpdate k v) flags = fix_elem_update m k v flags"
| "fix_call m (KDelete k) flags = fix_elem_delete m k"

fun fix_calls :: "fix_size_hash_map_impl \<Rightarrow> (kv_op \<times> nat) list \<Rightarrow> fix_size_hash_map_impl outcome" where
  "fix_calls m [] = Ok m"
| "fix_calls m ((x, flags) # xs) = bind_out (fix_call m x flags) (\<lambda>m'. fix_calls m' xs)"

lemma fix_new_inv:
  assumes new: "fix_size_hash_map_impl_new n ks vs = Ok m" and q: "n \<le> q" "prime_number q" "q < 2 ^ 32"
    and size: "q * (4 + ks + vs) < 2 ^ 64" "ks < 2 ^ 32" "0 < vs"
  shows "fix_inv m" "hm_map (fh_map_impl m) = Map.empty" "hm_key_size (fh_map_impl m) = ks"
    "hm_value_size (fh_map_impl m) = vs" "hm_max_element_count (fh_map_impl m) = n"
proof -
  obtain h p where h: "bpftime_hash_map_new n ks vs = Ok h" "next_prime n = Some p"
      and m: "m = \<lparr>fh_map_impl = h, fh_key_size = u32 ks, fh_value_size = u32 vs, fh_num_buckets = u32 p\<rparr>"
    using new by (auto simp: fix_size_hash_map_impl_new_def bind_out_Ok split: option.splits)
  have q': "q < 2 ^ 62" using q(3) by simp
  note N = hm_new_inv [OF h(1) q(1,2) q' size(1)]
  have p: "hm_num_buckets h = p" using h by (auto simp: bpftime_hash_map_new_def split: if_splits)
  then show "fix_inv m" using N q(3) size(2,3) by (simp add: fix_inv_def m u32_def)
  show "hm_map (fh_map_impl m) = Map.empty" "hm_key_size (fh_map_impl m) = ks"
    "hm_value_size (fh_map_impl m) = vs" "hm_max_element_count (fh_map_impl m) = n"
    using N by (simp_all add: m)
qed

lemma fix_call_ok:
  assumes inv: "fix_inv m" and ok: "kv_ok (hm_key_size (fh_map_impl m)) (hm_value_size (fh_map_impl m)) x"
  shows "\<exists>m'. fix_call m x flags = Ok m' \<and> fix_inv m' \<and> hm_same (fh_map_impl m) (fh_map_impl m') \<and>
    hm_map (fh_map_impl m') = fst (kv_spec (hm_max_element_count (fh_map_impl m)) (hm_map (fh_map_impl m)) x)"
proof -
  have hi: "hm_inv (fh_map_impl m)" using inv by (simp add: fix_inv_def)
  show ?thesis
  proof (cases x)
    case (KLookup k)
    then show ?thesis using hm_lookup_spec [OF hi, of k] ok inv
      by (auto simp: fix_elem_lookup_def hm_same_def split: option.splits)
  next
    case (KUpdate k v)
    then obtain h b where "hm_elem_update (fh_map_impl m) k v = Ok (h, b)" "hm_inv h" "hm_same (fh_map_impl m) h"
        "kv_spec (hm_max_element_count (fh_map_impl m)) (hm_map (fh_map_impl m)) (KUpdate k v) = (hm_map h, Done b)"
      using hm_update_spec [OF hi, of k v] ok by auto
    then show ?thesis using KUpdate inv
      by (auto simp: fix_elem_update_def fix_inv_def hm_same_def)
  next
    case (KDelete k)
    then obtain h b where "hm_elem_delete (fh_map_impl m) k = Ok (h, b)" "hm_inv h" "hm_same (fh_map_impl m) h"
        "kv_spec (hm_max_element_count (fh_map_impl m)) (hm_map (fh_map_impl m)) (KDelete k) = (hm_map h, Done b)"
      using hm_delete_spec [OF hi, of k] ok by auto
    then show ?thesis using KDelete inv
      by (auto simp: fix_elem_delete_def fix_inv_def hm_same_def)
  qed
qed

lemma fix_calls_ok:
  assumes "fix_inv m" and "\<forall>x\<in>set xs. kv_ok (hm_key_size (fh_map_impl m)) (hm_value_size (fh_map_impl m)) (fst x)"
  shows "\<exists>m'. fix_calls m xs = Ok m' \<and> fix_inv m' \<and> hm_same (fh_map_impl m) (fh_map_impl m') \<and>
    hm_map (fh_map_impl m') =
      fst (run (kv_spec (hm_max_element_count (fh_map_impl m))) (hm_map (fh_map_impl m)) (map fst xs))"
  using assms
proof (induction xs arbitrary: m)
  case Nil
  then show ?case by (simp add: hm_same_def)
next
  case (Cons c xs)
  obtain x flags where c: "c = (x, flags)" by fastforce
  obtain m' where m': "fix_call m x flags = Ok m'" "fix_inv m'" "hm_same (fh_map_impl m) (fh_map_impl m')"
      "hm_map (fh_map_impl m') = fst (kv_spec (hm_max_element_count (fh_map_impl m)) (hm_map (fh_map_impl m)) x)"
    using fix_call_ok [OF Cons.prems(1), of x flags] Cons.prems(2) c by auto
  with Cons.IH [OF m'(2)] Cons.prems(2) c show ?case
    by (auto simp: hm_same_def case_prod_beta)
qed

lemma dump_complete:
  assumes "fix_inv m" and "hm_count (fh_map_impl m) < n"
  shows "\<exists>ks. iterate_keys (\<lambda>k. fix_map_get_next_key m k True) n None = (ks, Err ENOENT) \<and>
    distinct ks \<and> set ks = dom (hm_map (fh_map_impl m))"
proof -
  have hi: "hm_inv (fh_map_impl m)" using assms(1) by (simp add: fix_inv_def)
  have s: "set (fix_keys m) = dom (hm_map (fh_map_impl m))"
    using assms(1) by (auto simp: dom_hm_map fix_keys_def fix_filled_def hm_filled_def fix_inv_def)
  have "length (fix_keys m) = hm_count (fh_map_impl m)"
    using distinct_card [OF fix_iter.keys_distinct [OF assms(1)]] s hm_card [OF hi] by simp
  then show ?thesis
    using fix_iter.iterate_all [OF assms(1), of n] fix_iter.keys_distinct [OF assms(1)] assms(2) s
    by auto
qed

text \<open>C22: take a hash map constructed with \<open>n\<close> as the number of elements and a positive value
  size, its sizes such that the least prime not below \<open>n\<close> is below \<open>2 ^ 32\<close> and the buffer below
  \<open>2 ^ 64\<close> bytes, and any lookups, updates and deletes with keys and values of the map's sizes:
  they all return, and the user-space loop over \<open>map_get_next_key\<close> on the resulting map returns
  every key of the map bounded by \<open>n\<close> that the same calls give, each exactly once, and stops with
  \<open>ENOENT\<close> after at most \<open>n + 1\<close> calls. (With a value size of 0 the value's address is already
  in the next bucket, which the loop then skips.)\<close>

theorem hash_dump_complete:
  assumes "fix_size_hash_map_impl_new n ks vs = Ok m0" and "n \<le> q" and "prime_number q" and "q < 2 ^ 32"
    and "q * (4 + ks + vs) < 2 ^ 64" and "ks < 2 ^ 32" and "0 < vs"
    and "\<forall>x\<in>set calls. kv_ok ks vs (fst x)"
  shows "\<exists>m keys. fix_calls m0 calls = Ok m \<and>
    iterate_keys (\<lambda>k. fix_map_get_next_key m k True) (n + 1) None = (keys, Err ENOENT) \<and>
    distinct keys \<and> set keys = dom (fst (run (kv_spec n) Map.empty (map fst calls)))"
proof -
  note N = fix_new_inv [OF assms(1-7)]
  obtain m where m: "fix_calls m0 calls = Ok m" "fix_inv m" "hm_same (fh_map_impl m0) (fh_map_impl m)"
      "hm_map (fh_map_impl m) = fst (run (kv_spec n) Map.empty (map fst calls))"
    using fix_calls_ok [OF N(1), of calls] assms(8) N(2-5) by auto
  then have "hm_count (fh_map_impl m) < n + 1"
    using hm_invD(4) [of "fh_map_impl m"] N(5) by (simp add: fix_inv_def hm_same_def)
  from dump_complete [OF m(2) this] m(1,4) show ?thesis by auto
qed

text \<open>an update of a hash map that already holds its maximum number of keys with a new key
  changes nothing and still reports success, whatever the flags; so does an update of an
  existing key with \<open>BPF_NOEXIST\<close>, which replaces the value. Every other update stores the
  value.\<close>

theorem hash_update_silent:
  assumes "fix_inv m" and "length k = hm_key_size (fh_map_impl m)"
    and "length v = hm_value_size (fh_map_impl m)"
  shows "\<exists>m'. fix_elem_update m k v flags = Ok m' \<and>
    hm_map (fh_map_impl m') =
      (if hm_map (fh_map_impl m) k = None \<and>
          hm_count (fh_map_impl m) = hm_max_element_count (fh_map_impl m)
       then hm_map (fh_map_impl m) else (hm_map (fh_map_impl m))(k \<mapsto> v))"
proof -
  have hi: "hm_inv (fh_map_impl m)" using assms(1) by (simp add: fix_inv_def)
  obtain h' b where h': "hm_elem_update (fh_map_impl m) k v = Ok (h', b)"
    "kv_spec (hm_max_element_count (fh_map_impl m)) (hm_map (fh_map_impl m)) (KUpdate k v)
       = (hm_map h', Done b)"
    using hm_update_spec [OF hi assms(2,3)] by blast
  then show ?thesis using hm_card [OF hi] hm_invD(4) [OF hi]
    by (auto simp: fix_elem_update_def split: if_splits)
qed

section \<open>A concrete map\<close>

text \<open>Two buckets of one-byte keys and values; the second holds the key 5 with the value 9.\<close>

definition fix_sample :: fix_size_hash_map_impl where
  "fix_sample = \<lparr>fh_map_impl = \<lparr>hm_key_size = 1, hm_value_size = 1, hm_num_buckets = 2,
      hm_max_element_count = 1, hm_count = 1,
      hm_data_buffer = [0, 0, 0, 0, 0, 0, 1, 0, 0, 0, 5, 9]\<rparr>,
    fh_key_size = 1, fh_value_size = 1, fh_num_buckets = 2\<rparr>"

lemma fix_sample_buckets:
  "hm_state (fh_map_impl fix_sample) 0 = BUCKET_EMPTY"
  "hm_state (fh_map_impl fix_sample) 1 = BUCKET_FILLED"
  "hm_key (fh_map_impl fix_sample) 1 = [5]"
  "hm_filled (fh_map_impl fix_sample) = {1}"
  "hm_pos (fh_map_impl fix_sample) [5] 0 = 1"
proof -
  show s0: "hm_state (fh_map_impl fix_sample) 0 = BUCKET_EMPTY"
    and s1: "hm_state (fh_map_impl fix_sample) 1 = BUCKET_FILLED"
    and "hm_key (fh_map_impl fix_sample) 1 = [5]"
    by (simp_all add: hm_state_def hm_key_def hm_bucket_def slot_def fix_sample_def bucket_defs)
  show "hm_pos (fh_map_impl fix_sample) [5] 0 = 1"
    by (simp add: hm_pos_def hm_home_def hash_func_def fix_sample_def)
  have n: "hm_num_buckets (fh_map_impl fix_sample) = 2" by (simp add: fix_sample_def)
  show "hm_filled (fh_map_impl fix_sample) = {1}"
  proof (rule set_eqI)
    fix i :: nat
    consider "i = 0" | "i = 1" | "2 \<le> i" by linarith
    then show "i \<in> hm_filled (fh_map_impl fix_sample) \<longleftrightarrow> i \<in> {1}"
      by cases (use s0 s1 in \<open>simp_all add: hm_filled_def n\<close>)
  qed
qed

lemma fix_sample_inv: "fix_inv fix_sample"
proof -
  let ?h = "fh_map_impl fix_sample"
  have "hm_inv ?h"
  proof (rule hm_invI)
    show "hm_shape ?h" by (simp add: hm_shape_def fix_sample_def)
    show "hm_count ?h = card (hm_filled ?h)" unfolding fix_sample_buckets(4) by (simp add: fix_sample_def)
    fix i assume "i < hm_num_buckets ?h"
    then have "i = 0 \<or> i = 1" by (auto simp: fix_sample_def)
    then show "hm_state ?h i = BUCKET_EMPTY \<or> hm_state ?h i = BUCKET_FILLED \<or> hm_state ?h i = BUCKET_DELETED"
      using fix_sample_buckets(1,2) by auto
  next
    fix i assume "i \<in> hm_filled ?h"
    then have "i = 1" using fix_sample_buckets(4) by simp
    moreover have "0 < hm_num_buckets ?h" by (simp add: fix_sample_def)
    ultimately show "\<exists>j<hm_num_buckets ?h. i = hm_pos ?h (hm_key ?h i) j \<and>
        (\<forall>j'<j. hm_state ?h (hm_pos ?h (hm_key ?h i) j') \<noteq> BUCKET_EMPTY)"
      using fix_sample_buckets(3,5) by auto
  qed (simp_all add: fix_sample_buckets(4), simp_all add: fix_sample_def)
  then show ?thesis by (simp add: fix_inv_def) (simp add: fix_sample_def)
qed

theorem hash_dump_complete_witness:
  "\<exists>m0 m keys. fix_size_hash_map_impl_new 2 1 1 = Ok m0 \<and>
    fix_calls m0 [(KUpdate [1] [7], 0), (KUpdate [3] [8], 0), (KDelete [1], 0), (KUpdate [5] [9], 0)] = Ok m \<and>
    iterate_keys (\<lambda>k. fix_map_get_next_key m k True) 3 None = (keys, Err ENOENT) \<and>
    distinct keys \<and> set keys = {[3], [5]}"
proof -
  have "next_prime 2 = Some 2" by (subst next_prime.simps) (simp add: is_prime_def)
  then obtain m0 where m0: "fix_size_hash_map_impl_new 2 1 1 = Ok m0"
    by (simp add: fix_size_hash_map_impl_new_def bpftime_hash_map_new_def)
  have spec: "dom (fst (run (kv_spec 2) Map.empty
      (map fst [(KUpdate [1] [7], 0), (KUpdate [3] [8], 0), (KDelete [1], 0), (KUpdate [5] [9], 0 :: nat)]))) = {[3], [5]}"
    by (simp add: dom_fun_upd) (auto simp: card_insert_if)
  have "\<exists>m keys. fix_calls m0 [(KUpdate [1] [7], 0), (KUpdate [3] [8], 0), (KDelete [1], 0), (KUpdate [5] [9], 0)] = Ok m \<and>
    iterate_keys (\<lambda>k. fix_map_get_next_key m k True) (2 + 1) None = (keys, Err ENOENT) \<and>
    distinct keys \<and> set keys = dom (fst (run (kv_spec 2) Map.empty
      (map fst [(KUpdate [1] [7], 0), (KUpdate [3] [8], 0), (KDelete [1], 0), (KUpdate [5] [9], 0 :: nat)])))"
    by (rule hash_dump_complete [OF m0, of 2]) (simp_all add: prime_2)
  with m0 show ?thesis unfolding spec by simp
qed

theorem hash_update_silent_witness:
  "\<exists>m'. fix_elem_update fix_sample [7] [1] BPF_ANY = Ok m' \<and>
     hm_map (fh_map_impl m') = hm_map (fh_map_impl fix_sample)"
proof -
  have "hm_map (fh_map_impl fix_sample) [7] = None"
    using fix_sample_buckets(3,4) by (simp add: hm_map_None)
  moreover have "hm_count (fh_map_impl fix_sample) = hm_max_element_count (fh_map_impl fix_sample)"
    "length [7 :: byte] = hm_key_size (fh_map_impl fix_sample)"
    "length [1 :: byte] = hm_value_size (fh_map_impl fix_sample)" by (simp_all add: fix_sample_def)
  ultimately show ?thesis
    using hash_update_silent [OF fix_sample_inv, of "[7]" "[1]" BPF_ANY] by simp
qed

end
