(* ===== verification/Array_Map.thy ===== *)
theory Array_Map
  imports Map_Spec
begin

text \<open>
  \<open>check_update_flags\<close> (bpf_map/map_common_def.hpp), the array map (userspace/array_map.hpp,
  array_map.cpp) and the array of maps (userspace/map_in_maps.hpp). The locale \<open>array_like\<close> is
  the contract of an array map: a fixed number of slots of fixed width, addressed by a 32-bit
  key, that can be overwritten and never deleted.
\<close>

section \<open>Update flags\<close>

text \<open>Only the low 32 bits of the flags are checked.\<close>

definition check_update_flags :: "nat \<Rightarrow> bool" where
  "check_update_flags flags =
     (let base_flags = flags mod 2 ^ 32
      in \<not> (base_flags \<noteq> BPF_ANY \<and> base_flags \<noteq> BPF_NOEXIST \<and> base_flags \<noteq> BPF_EXIST))"

section \<open>The array interface\<close>

definition array_look_spec :: "bytes list \<Rightarrow> bytes \<Rightarrow> bytes outcome" where
  "array_look_spec xs key =
     (if le_nat key < length xs then Ok (xs ! le_nat key) else Err ENOENT)"

definition array_upd_spec ::
    "bytes list \<Rightarrow> bytes \<Rightarrow> bytes \<Rightarrow> nat \<Rightarrow> bytes list \<times> unit outcome" where
  "array_upd_spec xs key v flags =
     (if \<not> check_update_flags flags then (xs, Err EINVAL)
      else if le_nat key < length xs \<and> flags = BPF_NOEXIST then (xs, Err EEXIST)
      else if length xs \<le> le_nat key then (xs, Err E2BIG)
      else (xs[le_nat key := v], Ok ()))"

datatype arr_op = ALookup bytes | AUpdate bytes bytes nat

fun arr_ok :: "nat \<Rightarrow> arr_op \<Rightarrow> bool" where
  "arr_ok w (ALookup k) = (length k = 4)"
| "arr_ok w (AUpdate k v flags) = (length k = 4 \<and> length v = w)"

fun arr_spec :: "bytes list \<Rightarrow> arr_op \<Rightarrow> bytes list \<times> pp_res" where
  "arr_spec xs (ALookup k) = (xs, Value (array_look_spec xs k))"
| "arr_spec xs (AUpdate k v flags) = apsnd Status (array_upd_spec xs k v flags)"

fun arr_step ::
    "('s \<Rightarrow> bytes \<Rightarrow> bytes outcome) \<Rightarrow> ('s \<Rightarrow> bytes \<Rightarrow> bytes \<Rightarrow> nat \<Rightarrow> 's \<times> unit outcome) \<Rightarrow>
     's \<Rightarrow> arr_op \<Rightarrow> 's \<times> pp_res" where
  "arr_step look upd s (ALookup k) = (s, Value (look s k))"
| "arr_step look upd s (AUpdate k v flags) = apsnd Status (upd s k v flags)"

locale array_like =
  fixes inv :: "'s \<Rightarrow> bool"
    and slots :: "'s \<Rightarrow> bytes list"
    and width :: "'s \<Rightarrow> nat"
    and look :: "'s \<Rightarrow> bytes \<Rightarrow> bytes outcome"
    and upd :: "'s \<Rightarrow> bytes \<Rightarrow> bytes \<Rightarrow> nat \<Rightarrow> 's \<times> unit outcome"
  assumes look_slots: "inv s \<Longrightarrow> length k = 4 \<Longrightarrow> look s k = array_look_spec (slots s) k"
    and upd_keeps: "inv s \<Longrightarrow> length k = 4 \<Longrightarrow> length v = width s \<Longrightarrow>
      inv (fst (upd s k v flags)) \<and> width (fst (upd s k v flags)) = width s"
    and upd_slots: "inv s \<Longrightarrow> length k = 4 \<Longrightarrow> length v = width s \<Longrightarrow>
      (slots (fst (upd s k v flags)), snd (upd s k v flags)) = array_upd_spec (slots s) k v flags"
begin

lemma step_slots:
  assumes "inv s" and "arr_ok (width s) x"
  shows "inv (fst (arr_step look upd s x)) \<and> width (fst (arr_step look upd s x)) = width s \<and>
    (slots (fst (arr_step look upd s x)), snd (arr_step look upd s x)) = arr_spec (slots s) x"
proof (cases x)
  case (ALookup k)
  then show ?thesis using assms look_slots [of s k] by auto
next
  case (AUpdate k v flags)
  then show ?thesis using assms upd_keeps [of s k v flags] upd_slots [of s k v flags]
    by (auto simp: prod_eq_iff)
qed

sublocale sim: simulation inv slots "\<lambda>s. arr_ok (width s)" "arr_step look upd" "\<lambda>s. arr_spec"
  using step_slots by unfold_locales auto

lemma run_slots:
  assumes "inv s" and "\<forall>x\<in>set xs. arr_ok (width s) x"
  shows "inv (fst (run (arr_step look upd) s xs)) \<and>
    (slots (fst (run (arr_step look upd) s xs)), snd (run (arr_step look upd) s xs))
      = run arr_spec (slots s) xs"
  by (rule sim.sim_run [OF assms])

lemma lookup_after_update:
  assumes "inv s" and "length k = 4" and "length k' = 4" and "length v = width s"
    and "snd (upd s k v flags) = Ok ()"
  shows "look (fst (upd s k v flags)) k' = (if k' = k then Ok v else look s k')"
proof -
  have sp: "array_upd_spec (slots s) k v flags = (slots (fst (upd s k v flags)), Ok ())"
    using upd_slots [OF assms(1,2,4), of flags] assms(5) by simp
  then have "le_nat k < length (slots s)" "slots (fst (upd s k v flags)) = (slots s)[le_nat k := v]"
    by (auto simp: array_upd_spec_def not_le split: if_splits)
  moreover have "le_nat k = le_nat k' \<longleftrightarrow> k' = k" using le_nat_inj assms(2,3) by metis
  ultimately show ?thesis
    using look_slots [OF _ assms(3)] upd_keeps [OF assms(1,2,4), of flags] assms(1)
    by (simp add: array_look_spec_def nth_list_update)
qed

end

section \<open>The array map\<close>

record array_map_impl =
  ar_data :: bytes
  ar_value_size :: nat
  ar_max_entries :: nat

definition array_map_impl_new :: "nat \<Rightarrow> nat \<Rightarrow> array_map_impl" where
  "array_map_impl_new value_size max_entries =
     \<lparr>ar_data = replicate (u32 (value_size * max_entries)) 0, ar_value_size = value_size,
      ar_max_entries = max_entries\<rparr>"

text \<open>The returned pointer is an offset into \<open>data\<close>.\<close>

definition array_elem_lookup :: "array_map_impl \<Rightarrow> bytes \<Rightarrow> nat outcome" where
  "array_elem_lookup a key =
     bind_out (read_u32 key) (\<lambda>key_val.
       if ar_max_entries a \<le> key_val then Err ENOENT else Ok (u32 (key_val * ar_value_size a)))"

definition array_elem_update ::
    "array_map_impl \<Rightarrow> bytes \<Rightarrow> bytes \<Rightarrow> nat \<Rightarrow> array_map_impl \<times> unit outcome" where
  "array_elem_update a key value flags =
     (if \<not> check_update_flags flags then (a, Err EINVAL)
      else case read_u32 key of
        Ok key_val \<Rightarrow>
          if key_val < ar_max_entries a \<and> flags = BPF_NOEXIST then (a, Err EEXIST)
          else if ar_max_entries a \<le> key_val then (a, Err E2BIG)
          else (case read_at value 0 (ar_value_size a) of
              None \<Rightarrow> (a, UB)
            | Some v \<Rightarrow> (case write_at (ar_data a) (u32 (key_val * ar_value_size a)) v of
                  None \<Rightarrow> (a, UB)
                | Some d \<Rightarrow> (a\<lparr>ar_data := d\<rparr>, Ok ())))
      | _ \<Rightarrow> (a, UB))"

definition array_elem_delete :: "array_map_impl \<Rightarrow> bytes \<Rightarrow> unit outcome" where
  "array_elem_delete a key = bind_out (read_u32 key) (\<lambda>key_val. Err EINVAL)"

definition array_map_get_next_key :: "array_map_impl \<Rightarrow> bytes option \<Rightarrow> bytes outcome" where
  "array_map_get_next_key a key =
     (case key of
        None \<Rightarrow> Ok (le_bytes 4 0)
      | Some k \<Rightarrow> bind_out (read_u32 k) (\<lambda>key_val.
          if ar_max_entries a \<le> key_val then Ok (le_bytes 4 0)
          else if key_val = dec32 (ar_max_entries a) then Err ENOENT
          else Ok (le_bytes 4 (inc32 key_val))))"

text \<open>What a caller reads through the pointer that \<open>elem_lookup\<close> returns.\<close>

definition array_lookup_value :: "array_map_impl \<Rightarrow> bytes \<Rightarrow> bytes outcome" where
  "array_lookup_value a key =
     bind_out (array_elem_lookup a key) (\<lambda>off. of_option (read_at (ar_data a) off (ar_value_size a)))"

text \<open>The array of maps returns the stored map id itself, as a pointer-sized integer; a
  negative \<open>int\<close> is sign-extended.\<close>

definition array_of_maps_new :: "nat \<Rightarrow> array_map_impl" where
  "array_of_maps_new max_entries = array_map_impl_new 4 max_entries"

definition array_of_maps_elem_lookup :: "array_map_impl \<Rightarrow> bytes \<Rightarrow> nat outcome" where
  "array_of_maps_elem_lookup a key =
     bind_out (array_elem_lookup a key) (\<lambda>off.
     bind_out (of_option (read_at (ar_data a) off 4)) (\<lambda>b.
       Ok (nat (i32_of_u32 (le_nat b) mod 2 ^ 64))))"

section \<open>Invariant and interpretation\<close>

definition array_inv :: "array_map_impl \<Rightarrow> bool" where
  "array_inv a \<longleftrightarrow> 0 < ar_value_size a \<and> 0 < ar_max_entries a \<and>
     ar_max_entries a * ar_value_size a < 2 ^ 32 \<and>
     length (ar_data a) = ar_max_entries a * ar_value_size a"

definition array_slots :: "array_map_impl \<Rightarrow> bytes list" where
  "array_slots a = map (slot (ar_data a) (ar_value_size a)) [0..<ar_max_entries a]"

lemma length_array_slots [simp]: "length (array_slots a) = ar_max_entries a"
  by (simp add: array_slots_def)

lemma array_inv_bounds:
  assumes "array_inv a"
  shows "ar_max_entries a < 4294967296"
    and "i < ar_max_entries a \<Longrightarrow> u32 (i * ar_value_size a) = i * ar_value_size a"
proof -
  have lt: "ar_max_entries a * ar_value_size a < 4294967296" and pos: "0 < ar_value_size a"
    using assms by (simp_all add: array_inv_def)
  have "ar_max_entries a * 1 \<le> ar_max_entries a * ar_value_size a"
    using pos by (intro mult_le_mono) auto
  then show "ar_max_entries a < 4294967296" using lt by linarith
  show "u32 (i * ar_value_size a) = i * ar_value_size a" if "i < ar_max_entries a"
    using slot_bound [OF that, of "ar_value_size a"] lt pos by simp
qed

lemma array_lookup_slots:
  assumes "array_inv a" and "length k = 4"
  shows "array_lookup_value a k = array_look_spec (array_slots a) k"
  using assms array_inv_bounds(2) [OF assms(1), of "le_nat k"]
    read_slot [of "le_nat k" "ar_max_entries a" "ar_data a" "ar_value_size a"]
  by (auto simp: array_lookup_value_def array_elem_lookup_def array_look_spec_def read_u32_4
      array_slots_def array_inv_def)

lemma array_update_slots:
  assumes inv: "array_inv a" and k: "length k = 4" and v: "length v = ar_value_size a"
  shows "array_inv (fst (array_elem_update a k v flags)) \<and>
    ar_value_size (fst (array_elem_update a k v flags)) = ar_value_size a \<and>
    ar_max_entries (fst (array_elem_update a k v flags)) = ar_max_entries a \<and>
    (array_slots (fst (array_elem_update a k v flags)), snd (array_elem_update a k v flags))
      = array_upd_spec (array_slots a) k v flags"
proof (cases "check_update_flags flags \<and> le_nat k < ar_max_entries a \<and> flags \<noteq> BPF_NOEXIST")
  case False
  then show ?thesis using inv k
    by (auto simp: array_elem_update_def array_upd_spec_def read_u32_4)
next
  case True
  let ?i = "le_nat k"
  have len: "length (ar_data a) = ar_max_entries a * ar_value_size a" and i: "?i < ar_max_entries a"
    using inv True by (simp_all add: array_inv_def)
  let ?d = "set_slot (ar_data a) (ar_value_size a) ?i v"
  have r: "array_elem_update a k v flags = (a\<lparr>ar_data := ?d\<rparr>, Ok ())"
    using True k v array_inv_bounds(2) [OF inv i] write_slot [OF i len v]
    by (simp add: array_elem_update_def read_u32_4 read_all)
  have "array_slots (a\<lparr>ar_data := ?d\<rparr>) = (array_slots a)[?i := v]"
    by (rule nth_equalityI)
       (auto simp: array_slots_def nth_list_update slot_set_slot [OF i _ len v])
  then show ?thesis using r True inv length_set_slot [OF i len v] len
    by (simp add: array_upd_spec_def array_inv_def)
qed

interpretation arr: array_like array_inv array_slots ar_value_size array_lookup_value array_elem_update
  by unfold_locales (simp_all add: array_lookup_slots array_update_slots)

definition array_keys :: "array_map_impl \<Rightarrow> bytes list" where
  "array_keys a = map (le_bytes 4) [0..<ar_max_entries a]"

interpretation arr_iter: key_iter array_inv array_keys array_map_get_next_key
proof unfold_locales
  fix a assume inv: "array_inv a"
  note b = array_inv_bounds(1) [OF inv]
  show "distinct (array_keys a)" using b
    by (auto simp: array_keys_def distinct_map intro!: inj_on_subset [OF le_bytes_4_inj])
  have "[0..<ar_max_entries a] = 0 # [1..<ar_max_entries a]"
    using inv by (simp add: array_inv_def upt_conv_Cons)
  then show "array_map_get_next_key a None =
      (case array_keys a of [] \<Rightarrow> Err ENOENT | k # ks \<Rightarrow> Ok k)"
    by (simp add: array_map_get_next_key_def array_keys_def)
  fix i assume "i < length (array_keys a)"
  then have i: "i < ar_max_entries a" by (simp add: array_keys_def)
  with b have "le_nat (le_bytes 4 i) = i" by (simp add: le_nat_le_bytes)
  then show "array_map_get_next_key a (Some (array_keys a ! i)) =
      (if Suc i < length (array_keys a) then Ok (array_keys a ! Suc i) else Err ENOENT)"
    using i b by (auto simp: array_map_get_next_key_def array_keys_def read_u32_4)
qed

section \<open>Properties\<close>

lemma array_new_inv:
  assumes "0 < w" and "0 < n" and "n * w < 2 ^ 32"
  shows "array_inv (array_map_impl_new w n)"
    and "array_slots (array_map_impl_new w n) = replicate n (replicate w 0)"
proof -
  have sz: "u32 (w * n) = n * w" using assms(3) by (simp add: mult.commute)
  then show "array_inv (array_map_impl_new w n)"
    using assms by (simp add: array_inv_def array_map_impl_new_def)
  show "array_slots (array_map_impl_new w n) = replicate n (replicate w 0)"
  proof (rule nth_equalityI)
    fix i assume "i < length (array_slots (array_map_impl_new w n))"
    then have i: "i < n" by (simp add: array_map_impl_new_def)
    then have "w \<le> n * w - i * w" using slot_bound [OF i, of w] by linarith
    then show "array_slots (array_map_impl_new w n) ! i = replicate n (replicate w 0) ! i"
      using i sz by (simp add: array_slots_def array_map_impl_new_def slot_def min_def)
  qed (simp add: array_map_impl_new_def)
qed

text \<open>C21: any sequence of lookups and updates on a fresh array map with a positive value size
  \<open>w\<close> and a positive number \<open>n\<close> of entries, whose data take less than \<open>2 ^ 32\<close> bytes, returns what an array of
  \<open>max_entries\<close> zeroed slots returns: updates with bad flags, with \<open>BPF_NOEXIST\<close> or past the end
  fail with \<open>EINVAL\<close>, \<open>EEXIST\<close> and \<open>E2BIG\<close> and change nothing.\<close>

theorem array_map_refines:
  assumes "0 < w" and "0 < n" and "n * w < 2 ^ 32" and "\<forall>x\<in>set ops. arr_ok w x"
  shows "snd (run (arr_step array_lookup_value array_elem_update) (array_map_impl_new w n) ops)
    = snd (run arr_spec (replicate n (replicate w 0)) ops)"
  using arr.run_slots [OF array_new_inv(1) [OF assms(1-3)], of ops] assms(4)
    array_new_inv(2) [OF assms(1-3)]
  by (simp add: array_map_impl_new_def prod_eq_iff)

theorem array_map_refines_witness:
  "snd (run (arr_step array_lookup_value array_elem_update) (array_map_impl_new 1 2)
      [AUpdate [1, 0, 0, 0] [7] 0, AUpdate [2, 0, 0, 0] [7] 0, AUpdate [0, 0, 0, 0] [8] 1,
       AUpdate [0, 0, 0, 0] [8] 4, ALookup [1, 0, 0, 0], ALookup [0, 0, 0, 0], ALookup [2, 0, 0, 0]])
   = [Status (Ok ()), Status (Err E2BIG), Status (Err EEXIST), Status (Err EINVAL),
      Value (Ok [7]), Value (Ok [0]), Value (Err ENOENT)]"
  using array_map_refines [of 1 2 "[AUpdate [1, 0, 0, 0] [7] 0, AUpdate [2, 0, 0, 0] [7] 0,
      AUpdate [0, 0, 0, 0] [8] 1, AUpdate [0, 0, 0, 0] [8] 4, ALookup [1, 0, 0, 0],
      ALookup [0, 0, 0, 0], ALookup [2, 0, 0, 0]]"]
  by (simp add: array_upd_spec_def array_look_spec_def check_update_flags_def flag_defs
      replicate_numeral)

text \<open>an update with \<open>BPF_NOEXIST\<close> in the low 32 bits and any bit set above them passes the
  flag check and overwrites the existing element, although \<open>BPF_NOEXIST\<close> alone is refused.\<close>

theorem array_noexist_bypass:
  assumes "array_inv a" and "le_nat k < ar_max_entries a" and "length k = 4"
    and "length v = ar_value_size a" and "flags mod 2 ^ 32 = BPF_NOEXIST" and "2 ^ 32 \<le> flags"
  shows "snd (array_elem_update a k v flags) = Ok () \<and>
    array_lookup_value (fst (array_elem_update a k v flags)) k = Ok v \<and>
    snd (array_elem_update a k v BPF_NOEXIST) = Err EEXIST"
proof -
  have ok: "snd (array_elem_update a k v flags) = Ok ()"
    using array_update_slots [OF assms(1,3,4), of flags] assms(2,5,6)
    by (auto simp: array_upd_spec_def check_update_flags_def flag_defs)
  moreover have "snd (array_elem_update a k v BPF_NOEXIST) = Err EEXIST"
    using array_update_slots [OF assms(1,3,4), of BPF_NOEXIST] assms(2)
    by (auto simp: array_upd_spec_def check_update_flags_def flag_defs)
  ultimately show ?thesis
    using arr.lookup_after_update [OF assms(1,3,3,4) ok] by simp
qed

theorem array_noexist_bypass_witness:
  "snd (array_elem_update (array_map_impl_new 1 2) [0, 0, 0, 0] [9] 4294967297) = Ok () \<and>
    array_lookup_value (fst (array_elem_update (array_map_impl_new 1 2) [0, 0, 0, 0] [9] 4294967297))
      [0, 0, 0, 0] = Ok [9] \<and>
    snd (array_elem_update (array_map_impl_new 1 2) [0, 0, 0, 0] [9] BPF_NOEXIST) = Err EEXIST"
  by (rule array_noexist_bypass)
     (simp_all add: array_new_inv, simp_all add: array_map_impl_new_def BPF_NOEXIST_def)

end
