(* ===== verification/Per_Cpu_Array.thy ===== *)
theory Per_Cpu_Array
  imports Array_Map
begin

text \<open>
  \<open>per_cpu_array_map_impl\<close> (bpf_map/userspace/per_cpu_array_map.hpp, per_cpu_array_map.cpp): one
  buffer that holds, for every index, the values of all CPUs side by side. The current CPU
  (\<open>my_sched_getcpu\<close>) and the number of CPUs (\<open>sysconf\<close>) are parameters. Seen from one CPU it
  is an array of its own values; seen from user space it is an array of rows.
\<close>

section \<open>State and operations\<close>

record per_cpu_array_map_impl =
  pca_data :: bytes
  pca_ncpu :: nat
  pca_value_size :: nat
  pca_max_ent :: nat

definition pca_data_at :: "per_cpu_array_map_impl \<Rightarrow> nat \<Rightarrow> nat \<Rightarrow> nat" where
  "pca_data_at a idx cpu =
     u64 (u64 (u64 (idx * pca_value_size a) * pca_ncpu a) + u64 (cpu * pca_value_size a))"

definition per_cpu_array_map_impl_new :: "nat \<Rightarrow> nat \<Rightarrow> nat \<Rightarrow> per_cpu_array_map_impl" where
  "per_cpu_array_map_impl_new value_size max_entries ncpu =
     \<lparr>pca_data = replicate (u32 (u32 (max_entries * ncpu) * value_size)) 0, pca_ncpu = ncpu,
      pca_value_size = value_size, pca_max_ent = max_entries\<rparr>"

text \<open>The index a key pointer denotes; a null key is \<open>ENOENT\<close>.\<close>

definition pca_key :: "bytes option \<Rightarrow> nat outcome" where
  "pca_key key = (case key of None \<Rightarrow> Err ENOENT | Some k \<Rightarrow> read_u32 k)"

definition pca_elem_lookup :: "nat \<Rightarrow> per_cpu_array_map_impl \<Rightarrow> bytes option \<Rightarrow> nat outcome" where
  "pca_elem_lookup cpu a key =
     bind_out (pca_key key) (\<lambda>key_val.
       if pca_max_ent a \<le> key_val then Err ENOENT else Ok (pca_data_at a key_val cpu))"

text \<open>The checks and the copy of \<open>n\<close> bytes that both updates make; \<open>cpu\<close> is 0 for the
  user-space one.\<close>

definition pca_store ::
    "nat \<Rightarrow> nat \<Rightarrow> per_cpu_array_map_impl \<Rightarrow> bytes option \<Rightarrow> bytes \<Rightarrow> nat \<Rightarrow>
     per_cpu_array_map_impl \<times> unit outcome" where
  "pca_store cpu n a key value flags =
     (if \<not> check_update_flags flags then (a, Err EINVAL)
      else case pca_key key of
        Ok key_val \<Rightarrow>
          if key_val < pca_max_ent a \<and> flags = BPF_NOEXIST then (a, Err EEXIST)
          else if pca_max_ent a \<le> key_val then (a, Err E2BIG)
          else (case read_at value 0 n of
              None \<Rightarrow> (a, UB)
            | Some v \<Rightarrow> (case write_at (pca_data a) (pca_data_at a key_val cpu) v of
                  None \<Rightarrow> (a, UB)
                | Some d \<Rightarrow> (a\<lparr>pca_data := d\<rparr>, Ok ())))
      | Err e \<Rightarrow> (a, Err e)
      | _ \<Rightarrow> (a, UB))"

definition pca_elem_update ::
    "nat \<Rightarrow> per_cpu_array_map_impl \<Rightarrow> bytes option \<Rightarrow> bytes \<Rightarrow> nat \<Rightarrow>
     per_cpu_array_map_impl \<times> unit outcome" where
  "pca_elem_update cpu a key value flags = pca_store cpu (pca_value_size a) a key value flags"

definition pca_elem_delete :: "per_cpu_array_map_impl \<Rightarrow> bytes option \<Rightarrow> unit outcome" where
  "pca_elem_delete a key = Err EINVAL"

definition pca_map_get_next_key :: "per_cpu_array_map_impl \<Rightarrow> bytes option \<Rightarrow> bytes outcome" where
  "pca_map_get_next_key a key =
     (case key of
        None \<Rightarrow> Ok (le_bytes 4 0)
      | Some k \<Rightarrow> bind_out (read_u32 k) (\<lambda>key_val.
          if pca_max_ent a \<le> key_val then Ok (le_bytes 4 0)
          else if key_val = dec32 (pca_max_ent a) then Err ENOENT
          else Ok (le_bytes 4 (inc32 key_val))))"

definition pca_elem_lookup_userspace :: "per_cpu_array_map_impl \<Rightarrow> bytes option \<Rightarrow> nat outcome" where
  "pca_elem_lookup_userspace a key =
     bind_out (pca_key key) (\<lambda>key_val.
       if pca_max_ent a \<le> key_val then Err ENOENT else Ok (pca_data_at a key_val 0))"

definition pca_elem_update_userspace ::
    "per_cpu_array_map_impl \<Rightarrow> bytes option \<Rightarrow> bytes \<Rightarrow> nat \<Rightarrow>
     per_cpu_array_map_impl \<times> unit outcome" where
  "pca_elem_update_userspace a key value flags =
     pca_store 0 (u32 (pca_ncpu a * pca_value_size a)) a key value flags"

definition pca_elem_delete_userspace :: "per_cpu_array_map_impl \<Rightarrow> bytes option \<Rightarrow> unit outcome" where
  "pca_elem_delete_userspace a key = Err EINVAL"

text \<open>What the two kinds of caller read through the returned pointer: one value on the
  current CPU, and a row of \<open>ncpu\<close> values in user space.\<close>

definition pca_lookup_value :: "nat \<Rightarrow> per_cpu_array_map_impl \<Rightarrow> bytes \<Rightarrow> bytes outcome" where
  "pca_lookup_value cpu a key =
     bind_out (pca_elem_lookup cpu a (Some key)) (\<lambda>off.
       of_option (read_at (pca_data a) off (pca_value_size a)))"

definition pca_lookup_row :: "per_cpu_array_map_impl \<Rightarrow> bytes \<Rightarrow> bytes outcome" where
  "pca_lookup_row a key =
     bind_out (pca_elem_lookup_userspace a (Some key)) (\<lambda>off.
       of_option (read_at (pca_data a) off (pca_ncpu a * pca_value_size a)))"

section \<open>Invariant and views\<close>

definition pca_inv :: "per_cpu_array_map_impl \<Rightarrow> bool" where
  "pca_inv a \<longleftrightarrow> 0 < pca_ncpu a \<and> 0 < pca_value_size a \<and> 0 < pca_max_ent a \<and>
     pca_max_ent a * (pca_ncpu a * pca_value_size a) < 2 ^ 32 \<and>
     length (pca_data a) = pca_max_ent a * (pca_ncpu a * pca_value_size a)"

definition pca_rows :: "per_cpu_array_map_impl \<Rightarrow> bytes list" where
  "pca_rows a = map (slot (pca_data a) (pca_ncpu a * pca_value_size a)) [0..<pca_max_ent a]"

definition pca_column :: "nat \<Rightarrow> per_cpu_array_map_impl \<Rightarrow> bytes list" where
  "pca_column cpu a =
     map (\<lambda>i. slot (pca_data a) (pca_value_size a) (i * pca_ncpu a + cpu)) [0..<pca_max_ent a]"

lemma length_pca_views [simp]:
  "length (pca_rows a) = pca_max_ent a" "length (pca_column cpu a) = pca_max_ent a"
  by (simp_all add: pca_rows_def pca_column_def)

lemma pca_index:
  assumes "i < pca_max_ent a" and "cpu < pca_ncpu a"
  shows "i * pca_ncpu a + cpu < pca_max_ent a * pca_ncpu a"
  using slot_bound [OF assms(1), of "pca_ncpu a"] assms(2) by linarith

lemma pca_offset:
  assumes inv: "pca_inv a" and i: "i < pca_max_ent a" and c: "cpu < pca_ncpu a"
  shows "pca_data_at a i cpu = (i * pca_ncpu a + cpu) * pca_value_size a"
proof -
  let ?n = "pca_ncpu a" and ?w = "pca_value_size a"
  have "(i * ?n + cpu) * ?w + ?w \<le> pca_max_ent a * ?n * ?w"
    using slot_bound [OF pca_index [OF i c], of ?w] .
  also have "\<dots> < 4294967296" using inv by (simp add: pca_inv_def mult.assoc)
  finally have lt: "(i * ?n + cpu) * ?w < 4294967296" by simp
  then have s: "i * ?w * ?n + cpu * ?w < 4294967296" by (simp add: algebra_simps)
  have "i * ?w * 1 \<le> i * ?w * ?n" using inv by (intro mult_le_mono) (auto simp: pca_inv_def)
  with s have "i * ?w < 4294967296" "i * ?w * ?n < 4294967296" "cpu * ?w < 4294967296" by linarith+
  then show ?thesis using s by (simp add: pca_data_at_def algebra_simps)
qed

lemma pca_lookup_column:
  assumes inv: "pca_inv a" and c: "cpu < pca_ncpu a" and k: "length k = 4"
  shows "pca_lookup_value cpu a k = array_look_spec (pca_column cpu a) k"
proof (cases "le_nat k < pca_max_ent a")
  case True
  have len: "length (pca_data a) = pca_max_ent a * pca_ncpu a * pca_value_size a"
    using inv by (simp add: pca_inv_def mult.assoc)
  show ?thesis
    using True k pca_offset [OF inv True c] read_slot [OF pca_index [OF True c] len]
    by (simp add: pca_lookup_value_def pca_elem_lookup_def pca_key_def read_u32_4
        array_look_spec_def pca_column_def)
qed (use k in \<open>simp add: pca_lookup_value_def pca_elem_lookup_def pca_key_def read_u32_4
        array_look_spec_def\<close>)

lemma pca_lookup_rows:
  assumes inv: "pca_inv a" and k: "length k = 4"
  shows "pca_lookup_row a k = array_look_spec (pca_rows a) k"
proof (cases "le_nat k < pca_max_ent a")
  case True
  have c: "0 < pca_ncpu a" and
    len: "length (pca_data a) = pca_max_ent a * (pca_ncpu a * pca_value_size a)"
    using inv by (simp_all add: pca_inv_def)
  show ?thesis
    using True k pca_offset [OF inv True c] read_slot [OF True len]
    by (simp add: pca_lookup_row_def pca_elem_lookup_userspace_def pca_key_def read_u32_4
        array_look_spec_def pca_rows_def mult.assoc)
qed (use k in \<open>simp add: pca_lookup_row_def pca_elem_lookup_userspace_def pca_key_def read_u32_4
        array_look_spec_def\<close>)

text \<open>An update on a CPU writes one value slot.\<close>

lemma pca_update_slot:
  assumes inv: "pca_inv a" and c: "cpu < pca_ncpu a" and k: "length k = 4"
    and v: "length v = pca_value_size a"
  shows "pca_elem_update cpu a (Some k) v flags =
    (if \<not> check_update_flags flags then (a, Err EINVAL)
     else if le_nat k < pca_max_ent a \<and> flags = BPF_NOEXIST then (a, Err EEXIST)
     else if pca_max_ent a \<le> le_nat k then (a, Err E2BIG)
     else (a\<lparr>pca_data := set_slot (pca_data a) (pca_value_size a) (le_nat k * pca_ncpu a + cpu) v\<rparr>,
           Ok ()))"
proof -
  have len: "length (pca_data a) = pca_max_ent a * pca_ncpu a * pca_value_size a"
    using inv by (simp add: pca_inv_def mult.assoc)
  have "write_at (pca_data a) (pca_data_at a (le_nat k) cpu) v
      = Some (set_slot (pca_data a) (pca_value_size a) (le_nat k * pca_ncpu a + cpu) v)"
    if "le_nat k < pca_max_ent a"
    using pca_offset [OF inv that c] write_slot [OF pca_index [OF that c] len v] by simp
  then show ?thesis using k v
    by (auto simp: pca_elem_update_def pca_store_def pca_key_def read_u32_4 read_all)
qed

lemma pca_set_slot_column:
  assumes inv: "pca_inv a" and c: "cpu < pca_ncpu a" and c': "cpu' < pca_ncpu a"
    and i: "i < pca_max_ent a" and v: "length v = pca_value_size a"
  defines "a' \<equiv> a\<lparr>pca_data := set_slot (pca_data a) (pca_value_size a) (i * pca_ncpu a + cpu) v\<rparr>"
  shows "pca_inv a'" and "pca_column cpu' a' =
    (if cpu' = cpu then (pca_column cpu a)[i := v] else pca_column cpu' a)"
proof -
  have len: "length (pca_data a) = pca_max_ent a * pca_ncpu a * pca_value_size a"
    using inv by (simp add: pca_inv_def mult.assoc)
  show "pca_inv a'"
    using inv length_set_slot [OF pca_index [OF i c] len v] by (simp add: pca_inv_def a'_def)
  have idx: "j * pca_ncpu a + cpu' = i * pca_ncpu a + cpu \<longleftrightarrow> j = i \<and> cpu' = cpu" for j
  proof
    assume e: "j * pca_ncpu a + cpu' = i * pca_ncpu a + cpu"
    have "(j * pca_ncpu a + cpu') div pca_ncpu a = j" "(i * pca_ncpu a + cpu) div pca_ncpu a = i"
      using c c' by simp_all
    with e show "j = i \<and> cpu' = cpu" by simp
  qed auto
  show "pca_column cpu' a' = (if cpu' = cpu then (pca_column cpu a)[i := v] else pca_column cpu' a)"
    using slot_set_slot [OF pca_index [OF i c] pca_index [OF _ c'] len v] idx
    by (intro nth_equalityI) (auto simp: a'_def pca_column_def nth_list_update)
qed

interpretation pca_cpu: array_like "\<lambda>a. pca_inv a \<and> cpu < pca_ncpu a" "pca_column cpu" pca_value_size
  "pca_lookup_value cpu" "\<lambda>a k v flags. pca_elem_update cpu a (Some k) v flags" for cpu
proof unfold_locales
  fix a and k v :: bytes and flags
  assume inv: "pca_inv a \<and> cpu < pca_ncpu a" and k: "length k = (4 :: nat)"
    and v: "length v = pca_value_size a"
  show "(pca_inv (fst (pca_elem_update cpu a (Some k) v flags)) \<and>
      cpu < pca_ncpu (fst (pca_elem_update cpu a (Some k) v flags))) \<and>
      pca_value_size (fst (pca_elem_update cpu a (Some k) v flags)) = pca_value_size a"
    and "(pca_column cpu (fst (pca_elem_update cpu a (Some k) v flags)),
       snd (pca_elem_update cpu a (Some k) v flags)) = array_upd_spec (pca_column cpu a) k v flags"
    using pca_update_slot [of a cpu k v flags] pca_set_slot_column [of a cpu cpu "le_nat k" v]
      inv k v by (auto simp: array_upd_spec_def)
qed (simp add: pca_lookup_column)

lemma pca_update_rows:
  assumes inv: "pca_inv a" and k: "length k = 4" and v: "length v = pca_ncpu a * pca_value_size a"
  shows "pca_inv (fst (pca_elem_update_userspace a (Some k) v flags)) \<and>
    pca_ncpu (fst (pca_elem_update_userspace a (Some k) v flags)) *
      pca_value_size (fst (pca_elem_update_userspace a (Some k) v flags))
      = pca_ncpu a * pca_value_size a \<and>
    (pca_rows (fst (pca_elem_update_userspace a (Some k) v flags)),
     snd (pca_elem_update_userspace a (Some k) v flags)) = array_upd_spec (pca_rows a) k v flags"
proof -
  let ?w = "pca_ncpu a * pca_value_size a" and ?i = "le_nat k"
  have c: "0 < pca_ncpu a" and len: "length (pca_data a) = pca_max_ent a * ?w"
    using inv by (simp_all add: pca_inv_def)
  have "1 * ?w \<le> pca_max_ent a * ?w" using inv by (intro mult_le_mono) (auto simp: pca_inv_def)
  also have "\<dots> < 4294967296" using inv by (simp add: pca_inv_def)
  finally have w: "u32 ?w = ?w" by simp
  have wr: "write_at (pca_data a) (pca_data_at a ?i 0) v = Some (set_slot (pca_data a) ?w ?i v)"
    if "?i < pca_max_ent a"
    using pca_offset [OF inv that c] write_slot [OF that len v] by (simp add: mult.assoc)
  have rows: "pca_rows (a\<lparr>pca_data := set_slot (pca_data a) ?w ?i v\<rparr>) = (pca_rows a)[?i := v]"
    if "?i < pca_max_ent a"
    using slot_set_slot [OF that _ len v]
    by (intro nth_equalityI) (auto simp: pca_rows_def nth_list_update)
  have inv': "pca_inv (a\<lparr>pca_data := set_slot (pca_data a) ?w ?i v\<rparr>)" if "?i < pca_max_ent a"
    using inv length_set_slot [OF that len v] by (simp add: pca_inv_def)
  show ?thesis using inv k v wr rows inv' w
    by (auto simp: pca_elem_update_userspace_def pca_store_def pca_key_def read_u32_4 read_all
        array_upd_spec_def)
qed

interpretation pca_user: array_like pca_inv pca_rows "\<lambda>a. pca_ncpu a * pca_value_size a"
  pca_lookup_row "\<lambda>a k v flags. pca_elem_update_userspace a (Some k) v flags"
  by unfold_locales (simp_all add: pca_lookup_rows pca_update_rows)

text \<open>A row is the values of the CPUs in order.\<close>

lemma concat_slots:
  "concat (map (slot buf w) [0..<n]) = take (n * w) buf"
proof (induction n)
  case (Suc n)
  have "take (Suc n * w) buf = take (n * w) buf @ slot buf w n"
    unfolding slot_def by (metis add.commute mult_Suc take_add)
  with Suc show ?case by simp
qed simp

lemma pca_row_concat:
  assumes inv: "pca_inv a" and i: "i < pca_max_ent a"
  shows "pca_rows a ! i = concat (map (\<lambda>cpu. pca_column cpu a ! i) [0..<pca_ncpu a])"
proof -
  let ?n = "pca_ncpu a" and ?w = "pca_value_size a"
  have "slot (pca_data a) ?w (i * ?n + cpu) = slot (drop (i * (?n * ?w)) (pca_data a)) ?w cpu" for cpu
    by (simp add: slot_def algebra_simps)
  then have "concat (map (\<lambda>cpu. pca_column cpu a ! i) [0..<?n])
      = concat (map (slot (drop (i * (?n * ?w)) (pca_data a)) ?w) [0..<?n])"
    using i by (simp add: pca_column_def)
  then show ?thesis using i by (simp add: concat_slots pca_rows_def slot_def)
qed

section \<open>Properties\<close>


text \<open>a user-space lookup returns the values that the CPUs see at that index, in CPU order.\<close>

theorem per_cpu_array_row:
  assumes "pca_inv a" and "length k = 4" and "le_nat k < pca_max_ent a"
  shows "\<exists>vs. length vs = pca_ncpu a \<and> pca_lookup_row a k = Ok (concat vs) \<and>
    (\<forall>cpu<pca_ncpu a. pca_lookup_value cpu a k = Ok (vs ! cpu))"
  using pca_row_concat [OF assms(1,3)] pca_lookup_rows [OF assms(1,2)] assms
    pca_lookup_column [OF assms(1) _ assms(2)]
  by (intro exI [of _ "map (\<lambda>cpu. pca_column cpu a ! le_nat k) [0..<pca_ncpu a]"])
     (simp add: array_look_spec_def)

definition pca_sample :: per_cpu_array_map_impl where
  "pca_sample = \<lparr>pca_data = [1, 2, 3, 4], pca_ncpu = 2, pca_value_size = 1, pca_max_ent = 2\<rparr>"


theorem per_cpu_array_row_witness:
  "\<exists>vs. length vs = 2 \<and> pca_lookup_row pca_sample [1, 0, 0, 0] = Ok (concat vs) \<and>
    (\<forall>cpu<2. pca_lookup_value cpu pca_sample [1, 0, 0, 0] = Ok (vs ! cpu))"
proof -
  have "pca_inv pca_sample" by (simp add: pca_inv_def pca_sample_def)
  moreover have "pca_ncpu pca_sample = 2" "le_nat [1, 0, 0, 0] < pca_max_ent pca_sample"
    by (simp_all add: pca_sample_def)
  ultimately show ?thesis using per_cpu_array_row [of pca_sample "[1, 0, 0, 0]"] by simp
qed

end
