(* ===== verification/Fd_Arrays.thy ===== *)
theory Fd_Arrays
  imports Map_Spec
begin

text \<open>
  The two maps that hold file descriptors: \<open>perf_event_array_map_impl\<close>
  (userspace/perf_event_array_map.cpp) and \<open>prog_array_map_impl\<close> (userspace/prog_array.cpp).
  Both are vectors of \<open>int32_t\<close> with \<open>-1\<close> for no entry. The program array stores a descriptor
  of this runtime as \<open>-fd - 2\<close> and a kernel program by its id; whether a descriptor belongs to
  the runtime (\<open>bpftime_is_prog_fd\<close>) and the two \<open>bpf\<close> system calls are parameters.
\<close>

section \<open>Operations\<close>

text \<open>\<open>k < 0 || (size_t)k >= data.size()\<close> is the range check of every operation.\<close>

definition fd_in_range :: "int list \<Rightarrow> int \<Rightarrow> bool" where
  "fd_in_range data k \<longleftrightarrow> 0 \<le> k \<and> nat k < length data"

definition fd_array_new :: "nat \<Rightarrow> nat \<Rightarrow> nat \<Rightarrow> int list outcome" where
  "fd_array_new key_size value_size max_entries =
     (if key_size \<noteq> 4 \<or> value_size \<noteq> 4 then Thrown else Ok (replicate max_entries (- 1)))"

text \<open>\<open>k + 1\<close> is an \<open>int\<close>; at its largest value the addition overflows, which is undefined.\<close>

definition fd_array_next :: "int list \<Rightarrow> bytes option \<Rightarrow> bytes outcome" where
  "fd_array_next data key =
     (case key of
        None \<Rightarrow> Ok (le_bytes 4 0)
      | Some p \<Rightarrow> bind_out (read_i32 p) (\<lambda>k.
          if k = 2 ^ 31 - 1 then UB
          else if (k + 1) mod 2 ^ 64 = int (length data) then Err ENOENT
          else if \<not> fd_in_range data k then Err EINVAL
          else Ok (le_bytes 4 (u32_of_i32 (k + 1)))))"

definition perf_event_array_new :: "nat \<Rightarrow> nat \<Rightarrow> nat \<Rightarrow> int list outcome" where
  "perf_event_array_new key_size value_size max_entries = fd_array_new key_size value_size max_entries"

definition perf_event_array_lookup :: "int list \<Rightarrow> bytes \<Rightarrow> int outcome" where
  "perf_event_array_lookup data key =
     bind_out (read_i32 key) (\<lambda>k. if \<not> fd_in_range data k then Err EINVAL else Ok (data ! nat k))"

definition perf_event_array_update ::
    "int list \<Rightarrow> bytes \<Rightarrow> bytes \<Rightarrow> nat \<Rightarrow> int list outcome" where
  "perf_event_array_update data key value flags =
     bind_out (read_i32 key) (\<lambda>k.
       if \<not> fd_in_range data k then Err EINVAL
       else bind_out (read_i32 value) (\<lambda>v. Ok (data[nat k := v])))"

definition perf_event_array_delete :: "int list \<Rightarrow> bytes \<Rightarrow> int list outcome" where
  "perf_event_array_delete data key =
     bind_out (read_i32 key) (\<lambda>k. if \<not> fd_in_range data k then Err EINVAL else Ok (data[nat k := - 1]))"

definition perf_event_array_get_next_key :: "int list \<Rightarrow> bytes option \<Rightarrow> bytes outcome" where
  "perf_event_array_get_next_key data key = fd_array_next data key"

definition INVALID_ENTRY :: int where "INVALID_ENTRY = - 1"

definition is_userspace_prog_fd_entry :: "int \<Rightarrow> bool" where
  "is_userspace_prog_fd_entry v = (v < INVALID_ENTRY)"

definition encode_userspace_prog_fd :: "int \<Rightarrow> int" where
  "encode_userspace_prog_fd fd = - fd - 2"

definition decode_userspace_prog_fd :: "int \<Rightarrow> int" where
  "decode_userspace_prog_fd v = - v - 2"

definition prog_array_new :: "nat \<Rightarrow> nat \<Rightarrow> nat \<Rightarrow> int list outcome" where
  "prog_array_new key_size value_size max_entries = fd_array_new key_size value_size max_entries"

text \<open>\<open>get_fd_by_id\<close> is \<open>my_bpf_prog_get_fd_by_id\<close>: the result of the system call.\<close>

definition prog_array_lookup ::
    "(int \<Rightarrow> bool) \<Rightarrow> (int \<Rightarrow> int) \<Rightarrow> int list \<Rightarrow> bytes \<Rightarrow> int outcome" where
  "prog_array_lookup is_prog_fd get_fd_by_id data key =
     bind_out (read_i32 key) (\<lambda>k.
       if \<not> fd_in_range data k then Err EINVAL
       else let value = data ! nat k in
         if value = INVALID_ENTRY then Err ENOENT
         else if is_userspace_prog_fd_entry value then
           let fd = decode_userspace_prog_fd value
           in if \<not> is_prog_fd fd then Err ENOENT else Ok fd
         else let fd = get_fd_by_id value in if fd < 0 then Err ENOENT else Ok fd)"

text \<open>\<open>get_info_by_fd\<close> is \<open>my_bpf_obj_get_info_by_fd\<close>: \<open>Inl\<close> the errno that the failing system
  call leaves behind, \<open>Inr\<close> the 32-bit program id, which is stored in an \<open>int32_t\<close>.\<close>

definition prog_array_update ::
    "(int \<Rightarrow> bool) \<Rightarrow> (int \<Rightarrow> errno + nat) \<Rightarrow> int list \<Rightarrow> bytes \<Rightarrow> bytes \<Rightarrow> nat \<Rightarrow>
     int list outcome" where
  "prog_array_update is_prog_fd get_info_by_fd data key value flags =
     bind_out (read_i32 key) (\<lambda>k.
       if \<not> fd_in_range data k then Err EINVAL
       else bind_out (read_i32 value) (\<lambda>v.
         if is_prog_fd v then Ok (data[nat k := encode_userspace_prog_fd v])
         else case get_info_by_fd v of
           Inl e \<Rightarrow> Err e
         | Inr pid \<Rightarrow> Ok (data[nat k := i32_of_u32 (u32 pid)])))"

definition prog_array_delete :: "int list \<Rightarrow> bytes \<Rightarrow> int list outcome" where
  "prog_array_delete data key =
     bind_out (read_i32 key) (\<lambda>k.
       if \<not> fd_in_range data k then Err EINVAL else Ok (data[nat k := INVALID_ENTRY]))"

definition prog_array_get_next_key :: "int list \<Rightarrow> bytes option \<Rightarrow> bytes outcome" where
  "prog_array_get_next_key data key = fd_array_next data key"

section \<open>Iteration\<close>

definition fd_inv :: "int list \<Rightarrow> bool" where
  "fd_inv data \<longleftrightarrow> 0 < length data \<and> length data < 2 ^ 31"

definition fd_keys :: "int list \<Rightarrow> bytes list" where
  "fd_keys data = map (le_bytes 4) [0..<length data]"

lemma read_i32_small: "i < 2147483648 \<Longrightarrow> read_i32 (le_bytes 4 i) = Ok (int i)"
  by (simp add: read_i32_def read_u32_4 le_nat_le_bytes i32_of_u32_def)

lemma fd_next_key:
  assumes "fd_inv data" and "i < length data"
  shows "fd_array_next data (Some (le_bytes 4 i)) =
    (if Suc i < length data then Ok (le_bytes 4 (Suc i)) else Err ENOENT)"
proof -
  have i: "i < 2147483647" and n: "length data < 2147483648" using assms by (simp_all add: fd_inv_def)
  have m: "(int i + 1) mod 18446744073709551616 = int i + 1" using i by simp
  have "nat ((int i + 1) mod 4294967296) = Suc i" using i by (simp add: nat_add_distrib)
  then show ?thesis using assms(2) i read_i32_small [of i] m
    by (auto simp: fd_array_next_def fd_in_range_def u32_of_i32_def)
qed

interpretation fd_iter: key_iter fd_inv fd_keys fd_array_next
proof unfold_locales
  fix data assume inv: "fd_inv data"
  then show "distinct (fd_keys data)"
    by (auto simp: fd_keys_def distinct_map fd_inv_def intro!: inj_on_subset [OF le_bytes_4_inj])
  have "[0..<length data] = 0 # [1..<length data]" using inv by (simp add: fd_inv_def upt_conv_Cons)
  then show "fd_array_next data None = (case fd_keys data of [] \<Rightarrow> Err ENOENT | k # ks \<Rightarrow> Ok k)"
    by (simp add: fd_array_next_def fd_keys_def)
  fix i assume "i < length (fd_keys data)"
  then show "fd_array_next data (Some (fd_keys data ! i)) =
      (if Suc i < length (fd_keys data) then Ok (fd_keys data ! Suc i) else Err ENOENT)"
    using fd_next_key [OF inv, of i] by (simp add: fd_keys_def)
qed

section \<open>Properties\<close>

lemma fd_codec:
  assumes "0 \<le> fd"
  shows "is_userspace_prog_fd_entry (encode_userspace_prog_fd fd)"
    and "encode_userspace_prog_fd fd \<noteq> INVALID_ENTRY"
    and "decode_userspace_prog_fd (encode_userspace_prog_fd fd) = fd"
  using assms by (simp_all add: is_userspace_prog_fd_entry_def encode_userspace_prog_fd_def
      decode_userspace_prog_fd_def INVALID_ENTRY_def)

text \<open>a descriptor of this runtime that is stored in a program array is what a lookup of
  that slot returns, as long as the descriptor is still a program; a slot that holds a kernel
  program with an id below \<open>2 ^ 31\<close> returns what the kernel gives for that id; the other slots
  keep their results.\<close>

theorem prog_array_lookup_after_update:
  assumes "prog_array_update is_prog_fd get_info data key val flags = Ok data'"
    and "read_i32 key = Ok k" and "read_i32 key' = Ok k'" and "read_i32 val = Ok v"
    and "is_prog_fd v \<longrightarrow> 0 \<le> v" and "\<forall>pid. get_info v = Inr pid \<longrightarrow> pid < 2 ^ 31"
  shows "prog_array_lookup is_prog_fd get_fd data' key' =
    (if k' = k then
       if is_prog_fd v then Ok v
       else case get_info v of
         Inr pid \<Rightarrow> if get_fd (int pid) < 0 then Err ENOENT else Ok (get_fd (int pid))
     else prog_array_lookup is_prog_fd get_fd data key')"
proof -
  have r: "fd_in_range data k" using assms(1,2) by (auto simp: prog_array_update_def split: if_splits)
  obtain w where d': "data' = data[nat k := w]"
    and w: "is_prog_fd v \<Longrightarrow> w = encode_userspace_prog_fd v"
      "\<not> is_prog_fd v \<Longrightarrow> \<exists>pid. get_info v = Inr pid \<and> w = i32_of_u32 (u32 pid)"
    using assms(1,2,4) r by (auto simp: prog_array_update_def split: if_splits sum.splits)
  have n: "nat k' = nat k \<longleftrightarrow> k' = k" if "fd_in_range data k'" for k'
    using that r by (auto simp: fd_in_range_def)
  have range: "fd_in_range data' k' \<longleftrightarrow> fd_in_range data k'" by (simp add: fd_in_range_def d')
  show ?thesis
  proof (cases "k' = k")
    case False
    then show ?thesis using assms(3) range n [of k']
      by (auto simp: prog_array_lookup_def d' Let_def)
  next
    case True
    have at: "data' ! nat k = w" using r by (simp add: d' fd_in_range_def)
    show ?thesis
    proof (cases "is_prog_fd v")
      case True
      then show ?thesis using \<open>k' = k\<close> assms(3,5) range r at w(1) fd_codec [of v]
        by (simp add: prog_array_lookup_def)
    next
      case False
      with w(2) obtain pid where id: "get_info v = Inr pid" "w = i32_of_u32 (u32 pid)" by blast
      then have "w = int pid" using assms(6) by (simp add: i32_of_u32_def)
      then show ?thesis using \<open>k' = k\<close> False id(1) assms(3) range r at
        by (simp add: prog_array_lookup_def INVALID_ENTRY_def is_userspace_prog_fd_entry_def Let_def)
    qed
  qed
qed

theorem prog_array_lookup_after_update_witness:
  "prog_array_lookup (\<lambda>fd. fd = 5) (\<lambda>id. id + 100) [- 1, - 7] [1, 0, 0, 0] = Ok 5 \<and>
   prog_array_update (\<lambda>fd. fd = 5) (\<lambda>fd. Inr 9) [- 1, - 1] [1, 0, 0, 0] [5, 0, 0, 0] BPF_ANY = Ok [- 1, - 7]"
proof -
  have u: "prog_array_update (\<lambda>fd. fd = 5) (\<lambda>fd. Inr 9) [- 1, - 1] [1, 0, 0, 0] [5, 0, 0, 0] BPF_ANY
      = Ok [- 1, - 7]"
    by (simp add: prog_array_update_def read_i32_def read_u32_def read_at_def i32_of_u32_def
        fd_in_range_def encode_userspace_prog_fd_def)
  have r: "read_i32 [1, 0, 0, 0] = Ok 1" "read_i32 [5, 0, 0, 0] = Ok 5"
    by (simp_all add: read_i32_def read_u32_def read_at_def i32_of_u32_def)
  have "prog_array_lookup (\<lambda>fd. fd = 5) (\<lambda>id. id + 100) [- 1, - 7] [1, 0, 0, 0] = Ok 5"
    using prog_array_lookup_after_update [OF u r(1) r(1) r(2), of "\<lambda>id. id + 100"] by simp
  with u show ?thesis by blast
qed

text \<open>walking a non-empty program or perf-event array with \<open>map_get_next_key\<close> visits every
  index once, in order, and ends with \<open>ENOENT\<close>.\<close>

theorem fd_arrays_walk:
  assumes "fd_inv data" and "length data < n"
  shows "iterate_keys (prog_array_get_next_key data) n None
      = (map (le_bytes 4) [0..<length data], Err ENOENT) \<and>
    iterate_keys (perf_event_array_get_next_key data) n None
      = (map (le_bytes 4) [0..<length data], Err ENOENT)"
proof -
  have "prog_array_get_next_key data = fd_array_next data"
    "perf_event_array_get_next_key data = fd_array_next data"
    by (simp_all add: fun_eq_iff prog_array_get_next_key_def perf_event_array_get_next_key_def)
  then show ?thesis
    using fd_iter.iterate_all [OF assms(1), of n] assms(2) by (simp add: fd_keys_def)
qed

theorem fd_arrays_walk_witness:
  "iterate_keys (prog_array_get_next_key [7, - 1]) 3 None
    = ([[0, 0, 0, 0], [1, 0, 0, 0]], Err ENOENT)"
  using fd_arrays_walk [of "[7, - 1]" 3] by (simp add: fd_inv_def le_bytes_numeral)

end
