(* ===== verification/Unordered_Map.thy ===== *)
theory Unordered_Map
  imports Map_Spec
begin

text \<open>
  \<open>boost::unordered_map\<close> as a parameter of the maps that use it: a record of its operations
  on an abstract container type, and \<open>um_laws\<close>, what its documentation promises of them. The
  order in which it is iterated is any list of its keys. \<open>al_ops\<close> is a container that keeps
  the laws. \<open>um_get_next_key\<close> is the iteration that three of the maps share, and \<open>flag_map\<close>
  the contract of the maps with update flags.
\<close>

section \<open>The container\<close>

record ('m, 'k, 'v) umap_ops =
  um_find :: "'m \<Rightarrow> 'k \<Rightarrow> 'v option"
  um_insert_or_assign :: "'m \<Rightarrow> 'k \<Rightarrow> 'v \<Rightarrow> 'm"
  um_erase :: "'m \<Rightarrow> 'k \<Rightarrow> 'm"
  um_keys :: "'m \<Rightarrow> 'k list"
  um_empty :: 'm

definition um_size :: "('m, 'k, 'v) umap_ops \<Rightarrow> 'm \<Rightarrow> nat" where
  "um_size ops m = length (um_keys ops m)"

text \<open>\<open>insert\<close> and \<open>emplace\<close> do nothing when the key is present.\<close>

definition um_insert :: "('m, 'k, 'v) umap_ops \<Rightarrow> 'm \<Rightarrow> 'k \<Rightarrow> 'v \<Rightarrow> 'm" where
  "um_insert ops m k v = (if um_find ops m k = None then um_insert_or_assign ops m k v else m)"

definition um_laws :: "('m, 'k, 'v) umap_ops \<Rightarrow> bool" where
  "um_laws ops \<longleftrightarrow>
     (\<forall>m. distinct (um_keys ops m) \<and> set (um_keys ops m) = dom (um_find ops m)) \<and>
     (\<forall>m k v. um_find ops (um_insert_or_assign ops m k v) = (um_find ops m)(k \<mapsto> v)) \<and>
     (\<forall>m k. um_find ops (um_erase ops m k) = (um_find ops m)(k := None)) \<and>
     um_find ops (um_empty ops) = Map.empty"

lemma um_lawsD:
  assumes "um_laws ops"
  shows "distinct (um_keys ops m)" and "set (um_keys ops m) = dom (um_find ops m)"
    and "um_find ops (um_insert_or_assign ops m k v) = (um_find ops m)(k \<mapsto> v)"
    and "um_find ops (um_erase ops m k) = (um_find ops m)(k := None)"
    and "um_find ops (um_empty ops) = Map.empty"
    and "finite (dom (um_find ops m))" and "um_size ops m = card (dom (um_find ops m))"
proof -
  show d: "distinct (um_keys ops m)" and s: "set (um_keys ops m) = dom (um_find ops m)"
    and "um_find ops (um_insert_or_assign ops m k v) = (um_find ops m)(k \<mapsto> v)"
    and "um_find ops (um_erase ops m k) = (um_find ops m)(k := None)"
    and "um_find ops (um_empty ops) = Map.empty"
    using assms by (simp_all add: um_laws_def)
  show "finite (dom (um_find ops m))" unfolding s [symmetric] by simp
  show "um_size ops m = card (dom (um_find ops m))"
    unfolding um_size_def using distinct_card [OF d] s by simp
qed

lemma um_insert_find:
  assumes "um_laws ops"
  shows "um_find ops (um_insert ops m k v) =
    (if um_find ops m k = None then (um_find ops m)(k \<mapsto> v) else um_find ops m)"
  by (simp add: um_insert_def um_lawsD(3) [OF assms])

definition al_ops :: "(('k \<times> 'v) list, 'k, 'v) umap_ops" where
  "al_ops = \<lparr>um_find = map_of, um_insert_or_assign = (\<lambda>m k v. (k, v) # m),
     um_erase = (\<lambda>m k. filter (\<lambda>p. fst p \<noteq> k) m), um_keys = (\<lambda>m. remdups (map fst m)),
     um_empty = []\<rparr>"

lemma map_of_filter_key: "map_of (filter (\<lambda>p. fst p \<noteq> k) m) = (map_of m)(k := None)"
  by (induction m) (auto simp: fun_eq_iff)

lemma al_laws: "um_laws al_ops"
  by (simp add: um_laws_def al_ops_def map_of_filter_key dom_map_of_conv_image_fst fun_eq_iff)

section \<open>Iteration\<close>

text \<open>\<open>itr++\<close> on an iterator at the key \<open>k\<close>; \<open>None\<close> is \<open>end()\<close>.\<close>

fun next_in :: "'k list \<Rightarrow> 'k \<Rightarrow> 'k option" where
  "next_in [] k = None"
| "next_in (x # xs) k = (if x = k then (case xs of [] \<Rightarrow> None | y # _ \<Rightarrow> Some y) else next_in xs k)"

lemma next_in_nth:
  "distinct xs \<Longrightarrow> i < length xs \<Longrightarrow>
   next_in xs (xs ! i) = (if Suc i < length xs then Some (xs ! Suc i) else None)"
proof (induction xs arbitrary: i)
  case (Cons x xs)
  show ?case
  proof (cases i)
    case 0
    then show ?thesis by (cases xs) simp_all
  next
    case (Suc j)
    then have "x \<noteq> xs ! j" using Cons.prems by auto
    then show ?thesis using Suc Cons.IH [of j] Cons.prems by simp
  qed
qed simp

definition um_first_key :: "('m, 'k, 'v) umap_ops \<Rightarrow> 'm \<Rightarrow> 'k outcome" where
  "um_first_key ops m = (case um_keys ops m of [] \<Rightarrow> Err ENOENT | k # _ \<Rightarrow> Ok k)"

text \<open>The body of \<open>map_get_next_key\<close> after the checks: a null key or a key that is not found
  gives the first key.\<close>

definition um_get_next_key ::
    "('m, bytes, 'v) umap_ops \<Rightarrow> nat \<Rightarrow> 'm \<Rightarrow> bytes option \<Rightarrow> bytes outcome" where
  "um_get_next_key ops key_size m key =
     (case key of
        None \<Rightarrow> um_first_key ops m
      | Some p \<Rightarrow> (case read_at p 0 key_size of
          None \<Rightarrow> UB
        | Some k \<Rightarrow>
            if um_find ops m k = None then um_first_key ops m
            else case next_in (um_keys ops m) k of None \<Rightarrow> Err ENOENT | Some k' \<Rightarrow> Ok k'))"

definition um_iter_inv :: "('m, bytes, 'v) umap_ops \<Rightarrow> nat \<Rightarrow> 'm \<Rightarrow> bool" where
  "um_iter_inv ops key_size m \<longleftrightarrow> um_laws ops \<and> (\<forall>k\<in>dom (um_find ops m). length k = key_size)"

interpretation um_iter: key_iter "um_iter_inv ops key_size" "um_keys ops" "um_get_next_key ops key_size"
  for ops :: "('m, bytes, 'v) umap_ops" and key_size
proof unfold_locales
  fix m :: 'm
  assume inv: "um_iter_inv ops key_size m"
  then have L: "um_laws ops" by (simp add: um_iter_inv_def)
  show d: "distinct (um_keys ops m)" by (rule um_lawsD(1) [OF L])
  show "um_get_next_key ops key_size m None = (case um_keys ops m of [] \<Rightarrow> Err ENOENT | k # ks \<Rightarrow> Ok k)"
    by (simp add: um_get_next_key_def um_first_key_def)
  fix i assume i: "i < length (um_keys ops m)"
  then have "um_keys ops m ! i \<in> dom (um_find ops m)"
    using um_lawsD(2) [OF L, of m] nth_mem by blast
  then have "um_find ops m (um_keys ops m ! i) \<noteq> None" "length (um_keys ops m ! i) = key_size"
    using inv by (auto simp: um_iter_inv_def)
  then show "um_get_next_key ops key_size m (Some (um_keys ops m ! i)) =
      (if Suc i < length (um_keys ops m) then Ok (um_keys ops m ! Suc i) else Err ENOENT)"
    using next_in_nth [OF d i] by (auto simp: um_get_next_key_def read_all)
qed

section \<open>The contract of a map with update flags\<close>

datatype fm_op = FLookup bytes | FUpdate bytes bytes nat | FDelete bytes | FLookupDelete bytes

fun fm_ok :: "nat \<Rightarrow> nat \<Rightarrow> fm_op \<Rightarrow> bool" where
  "fm_ok kw vw (FLookup k) = (length k = kw)"
| "fm_ok kw vw (FUpdate k v flags) = (length k = kw \<and> length v = vw)"
| "fm_ok kw vw (FDelete k) = (length k = kw)"
| "fm_ok kw vw (FLookupDelete k) = (length k = kw)"

definition fm_find :: "(bytes \<rightharpoonup> bytes) \<Rightarrow> bytes \<Rightarrow> bytes outcome" where
  "fm_find m k = (case m k of None \<Rightarrow> Err ENOENT | Some v \<Rightarrow> Ok v)"

text \<open>\<open>good\<close> is the check of the flags; the order of the tests is the order of the errors.\<close>

definition fm_update ::
    "(nat \<Rightarrow> bool) \<Rightarrow> nat \<Rightarrow> (bytes \<rightharpoonup> bytes) \<Rightarrow> bytes \<Rightarrow> bytes \<Rightarrow> nat \<Rightarrow>
     (bytes \<rightharpoonup> bytes) \<times> unit outcome" where
  "fm_update good cap m k v flags =
     (if \<not> good flags then (m, Err EINVAL)
      else if flags = BPF_NOEXIST \<and> m k \<noteq> None then (m, Err EEXIST)
      else if flags = BPF_EXIST \<and> m k = None then (m, Err ENOENT)
      else if m k = None \<and> card (dom m) = cap then (m, Err E2BIG)
      else (m(k \<mapsto> v), Ok ()))"

fun fm_spec ::
    "(nat \<Rightarrow> bool) \<Rightarrow> nat \<Rightarrow> (bytes \<rightharpoonup> bytes) \<Rightarrow> fm_op \<Rightarrow> (bytes \<rightharpoonup> bytes) \<times> pp_res" where
  "fm_spec good cap m (FLookup k) = (m, Value (fm_find m k))"
| "fm_spec good cap m (FUpdate k v flags) = apsnd Status (fm_update good cap m k v flags)"
| "fm_spec good cap m (FDelete k) =
     (m(k := None), Status (if m k = None then Err ENOENT else Ok ()))"
| "fm_spec good cap m (FLookupDelete k) = (m(k := None), Value (fm_find m k))"

fun fm_step ::
    "('s \<Rightarrow> bytes \<Rightarrow> bytes outcome) \<Rightarrow> ('s \<Rightarrow> bytes \<Rightarrow> bytes \<Rightarrow> nat \<Rightarrow> 's \<times> unit outcome) \<Rightarrow>
     ('s \<Rightarrow> bytes \<Rightarrow> 's \<times> unit outcome) \<Rightarrow> ('s \<Rightarrow> bytes \<Rightarrow> 's \<times> bytes outcome) \<Rightarrow>
     's \<Rightarrow> fm_op \<Rightarrow> 's \<times> pp_res" where
  "fm_step look upd del lookdel s (FLookup k) = (s, Value (look s k))"
| "fm_step look upd del lookdel s (FUpdate k v flags) = apsnd Status (upd s k v flags)"
| "fm_step look upd del lookdel s (FDelete k) = apsnd Status (del s k)"
| "fm_step look upd del lookdel s (FLookupDelete k) = apsnd Value (lookdel s k)"

lemma fm_spec_card:
  assumes "finite (dom m) \<and> card (dom m) \<le> cap"
  shows "finite (dom (fst (fm_spec good cap m x))) \<and> card (dom (fst (fm_spec good cap m x))) \<le> cap"
proof -
  have del: "card (dom m - {k}) \<le> cap" for k
    using assms card_Diff1_le [of "dom m" k] by linarith
  have ins: "card (insert k (dom m)) \<le> cap" if "\<not> (m k = None \<and> card (dom m) = cap)" for k
    using assms that by (cases "m k") (auto simp: card_insert_if)
  show ?thesis using assms del ins by (cases x) (simp_all add: fm_update_def)
qed

locale flag_map =
  fixes good :: "nat \<Rightarrow> bool"
    and inv :: "'s \<Rightarrow> bool"
    and abs :: "'s \<Rightarrow> bytes \<rightharpoonup> bytes"
    and cap :: "'s \<Rightarrow> nat"
    and kw :: "'s \<Rightarrow> nat"
    and vw :: "'s \<Rightarrow> nat"
    and look :: "'s \<Rightarrow> bytes \<Rightarrow> bytes outcome"
    and upd :: "'s \<Rightarrow> bytes \<Rightarrow> bytes \<Rightarrow> nat \<Rightarrow> 's \<times> unit outcome"
    and del :: "'s \<Rightarrow> bytes \<Rightarrow> 's \<times> unit outcome"
    and lookdel :: "'s \<Rightarrow> bytes \<Rightarrow> 's \<times> bytes outcome"
  assumes fm_keeps: "inv s \<Longrightarrow> fm_ok (kw s) (vw s) x \<Longrightarrow>
      inv (fst (fm_step look upd del lookdel s x)) \<and>
      cap (fst (fm_step look upd del lookdel s x)) = cap s \<and>
      kw (fst (fm_step look upd del lookdel s x)) = kw s \<and>
      vw (fst (fm_step look upd del lookdel s x)) = vw s"
    and fm_refines: "inv s \<Longrightarrow> fm_ok (kw s) (vw s) x \<Longrightarrow>
      (abs (fst (fm_step look upd del lookdel s x)), snd (fm_step look upd del lookdel s x))
        = fm_spec good (cap s) (abs s) x"
begin

sublocale sim: simulation inv abs "\<lambda>s. fm_ok (kw s) (vw s)" "fm_step look upd del lookdel"
  "\<lambda>s. fm_spec good (cap s)"
  using fm_keeps fm_refines by unfold_locales auto

lemma never_over_capacity:
  assumes "inv s" and "\<forall>x\<in>set xs. fm_ok (kw s) (vw s) x" and "abs s = Map.empty"
  shows "card (dom (abs (fst (run (fm_step look upd del lookdel) s xs)))) \<le> cap s"
  using sim.sim_invariant [OF assms(1,2), of "\<lambda>m. finite (dom m) \<and> card (dom m) \<le> cap s"]
    fm_spec_card assms(3) by simp

end

end
