(* ===== verification/Var_Hash_Map.thy ===== *)
theory Var_Hash_Map
  imports Unordered_Map
begin

text \<open>
  \<open>var_size_hash_map_impl\<close> (bpf_map/userspace/var_hash_map.hpp, var_hash_map.cpp): a hash map
  over \<open>boost::unordered_map\<close> with update flags, a capacity and the access flags of the map.
  The scratch vectors \<open>key_vec\<close> and \<open>value_vec\<close> are overwritten at the start of every call
  that reads them and are local values here. A pointer to a stored vector is the vector.
\<close>

section \<open>State and operations\<close>

record 'm var_size_hash_map_impl =
  vh_map_impl :: 'm
  vh_key_size :: nat
  vh_value_size :: nat
  vh_max_entries :: nat
  vh_flags :: nat

text \<open>\<open>flags & BPF_F_RDONLY\<close> (bit 3) and \<open>flags & BPF_F_WRONLY\<close> (bit 4).\<close>

definition has_rdonly :: "nat \<Rightarrow> bool" where "has_rdonly flags = odd (flags div 2 ^ 3)"
definition has_wronly :: "nat \<Rightarrow> bool" where "has_wronly flags = odd (flags div 2 ^ 4)"

definition is_good_update_flag :: "nat \<Rightarrow> bool" where
  "is_good_update_flag flags = (flags = BPF_ANY \<or> flags = BPF_EXIST \<or> flags = BPF_NOEXIST)"

definition var_size_hash_map_impl_new ::
    "('m, bytes, bytes) umap_ops \<Rightarrow> nat \<Rightarrow> nat \<Rightarrow> nat \<Rightarrow> nat \<Rightarrow> 'm var_size_hash_map_impl" where
  "var_size_hash_map_impl_new ops key_size value_size max_entries flags =
     \<lparr>vh_map_impl = um_empty ops, vh_key_size = key_size, vh_value_size = value_size,
      vh_max_entries = max_entries, vh_flags = flags\<rparr>"

definition var_elem_lookup ::
    "('m, bytes, bytes) umap_ops \<Rightarrow> 'm var_size_hash_map_impl \<Rightarrow> bytes \<Rightarrow> bytes outcome" where
  "var_elem_lookup ops s key =
     (if has_wronly (vh_flags s) then Err EPERM
      else case read_at key 0 (vh_key_size s) of
        None \<Rightarrow> UB
      | Some k \<Rightarrow>
          (case um_find ops (vh_map_impl s) k of Some v \<Rightarrow> Ok v | None \<Rightarrow> Err ENOENT))"

definition var_elem_update ::
    "('m, bytes, bytes) umap_ops \<Rightarrow> 'm var_size_hash_map_impl \<Rightarrow> bytes \<Rightarrow> bytes \<Rightarrow> nat \<Rightarrow>
     'm var_size_hash_map_impl \<times> unit outcome" where
  "var_elem_update ops s key value flags =
     (if \<not> is_good_update_flag flags then (s, Err EINVAL)
      else case (read_at key 0 (vh_key_size s), read_at value 0 (vh_value_size s)) of
        (Some k, Some v) \<Rightarrow>
          let element_exists = (um_find ops (vh_map_impl s) k \<noteq> None) in
          if flags = BPF_NOEXIST \<and> element_exists then (s, Err EEXIST)
          else if flags = BPF_EXIST \<and> \<not> element_exists then (s, Err ENOENT)
          else if \<not> element_exists \<and> um_size ops (vh_map_impl s) = vh_max_entries s
          then (s, Err E2BIG)
          else if \<not> element_exists \<and> has_rdonly (vh_flags s) then (s, Err EPERM)
          else (s\<lparr>vh_map_impl := um_insert_or_assign ops (vh_map_impl s) k v\<rparr>, Ok ())
      | _ \<Rightarrow> (s, UB))"

definition var_elem_delete ::
    "('m, bytes, bytes) umap_ops \<Rightarrow> 'm var_size_hash_map_impl \<Rightarrow> bytes \<Rightarrow>
     'm var_size_hash_map_impl \<times> unit outcome" where
  "var_elem_delete ops s key =
     (case read_at key 0 (vh_key_size s) of
        None \<Rightarrow> (s, UB)
      | Some k \<Rightarrow>
          (if um_find ops (vh_map_impl s) k = None then (s, Err ENOENT)
           else (s\<lparr>vh_map_impl := um_erase ops (vh_map_impl s) k\<rparr>, Ok ())))"

definition var_lookup_and_delete ::
    "('m, bytes, bytes) umap_ops \<Rightarrow> 'm var_size_hash_map_impl \<Rightarrow> bytes \<Rightarrow>
     'm var_size_hash_map_impl \<times> bytes outcome" where
  "var_lookup_and_delete ops s key =
     (case read_at key 0 (vh_key_size s) of
        None \<Rightarrow> (s, UB)
      | Some k \<Rightarrow>
          (case um_find ops (vh_map_impl s) k of
             None \<Rightarrow> (s, Err ENOENT)
           | Some v \<Rightarrow>
               (case read_at v 0 (vh_value_size s) of
                  None \<Rightarrow> (s, UB)
                | Some out \<Rightarrow> (s\<lparr>vh_map_impl := um_erase ops (vh_map_impl s) k\<rparr>, Ok out))))"

definition var_map_get_next_key ::
    "('m, bytes, bytes) umap_ops \<Rightarrow> 'm var_size_hash_map_impl \<Rightarrow> bytes option \<Rightarrow> bytes outcome" where
  "var_map_get_next_key ops s key =
     (if has_wronly (vh_flags s) then Err EPERM
      else um_get_next_key ops (vh_key_size s) (vh_map_impl s) key)"

section \<open>Refinement\<close>

definition vh_abs ::
    "('m, bytes, bytes) umap_ops \<Rightarrow> 'm var_size_hash_map_impl \<Rightarrow> bytes \<rightharpoonup> bytes" where
  "vh_abs ops s = um_find ops (vh_map_impl s)"

definition vh_inv :: "('m, bytes, bytes) umap_ops \<Rightarrow> 'm var_size_hash_map_impl \<Rightarrow> bool" where
  "vh_inv ops s \<longleftrightarrow> um_laws ops \<and> \<not> has_rdonly (vh_flags s) \<and> \<not> has_wronly (vh_flags s) \<and>
     (\<forall>k v. vh_abs ops s k = Some v \<longrightarrow> length k = vh_key_size s \<and> length v = vh_value_size s)"

abbreviation vh_step ::
    "('m, bytes, bytes) umap_ops \<Rightarrow> 'm var_size_hash_map_impl \<Rightarrow> fm_op \<Rightarrow>
     'm var_size_hash_map_impl \<times> pp_res" where
  "vh_step ops \<equiv> fm_step (var_elem_lookup ops) (var_elem_update ops) (var_elem_delete ops)
     (var_lookup_and_delete ops)"

lemma vh_step_simulates:
  assumes inv: "vh_inv ops s" and x: "fm_ok (vh_key_size s) (vh_value_size s) x"
  shows "vh_inv ops (fst (vh_step ops s x)) \<and>
    vh_max_entries (fst (vh_step ops s x)) = vh_max_entries s \<and>
    vh_key_size (fst (vh_step ops s x)) = vh_key_size s \<and>
    vh_value_size (fst (vh_step ops s x)) = vh_value_size s \<and>
    (vh_abs ops (fst (vh_step ops s x)), snd (vh_step ops s x))
      = fm_spec is_good_update_flag (vh_max_entries s) (vh_abs ops s) x"
proof -
  have L: "um_laws ops" using inv by (simp add: vh_inv_def)
  note um = um_lawsD(3,4,7) [OF L]
  show ?thesis
  proof (cases x)
    case (FLookup k)
    then show ?thesis using inv x
      by (auto simp: var_elem_lookup_def read_all vh_inv_def fm_find_def vh_abs_def split: option.splits)
  next
    case (FUpdate k v flags)
    then show ?thesis using inv x um
      by (auto simp: var_elem_update_def read_all vh_inv_def fm_update_def vh_abs_def Let_def)
  next
    case (FDelete k)
    then show ?thesis using inv x um
      by (auto simp: var_elem_delete_def read_all vh_inv_def vh_abs_def fun_upd_idem)
  next
    case (FLookupDelete k)
    then show ?thesis using inv x um
      by (auto simp: var_lookup_and_delete_def read_all vh_inv_def vh_abs_def fm_find_def fun_upd_idem
          split: option.splits)
  qed
qed

interpretation vhm: flag_map is_good_update_flag "vh_inv ops" "vh_abs ops" vh_max_entries vh_key_size
  vh_value_size "var_elem_lookup ops" "var_elem_update ops" "var_elem_delete ops"
  "var_lookup_and_delete ops" for ops
  using vh_step_simulates by unfold_locales blast+

section \<open>Properties\<close>

lemma vh_new_inv:
  assumes "um_laws ops" and "\<not> has_rdonly flags" and "\<not> has_wronly flags"
  shows "vh_inv ops (var_size_hash_map_impl_new ops kw vw n flags)"
    and "vh_abs ops (var_size_hash_map_impl_new ops kw vw n flags) = Map.empty"
  using assms um_lawsD(5) [OF assms(1)]
  by (simp_all add: vh_inv_def vh_abs_def var_size_hash_map_impl_new_def)

text \<open>C20: every sequence of lookups, updates with any flags, deletes and lookup-and-deletes on
  a fresh variable-size hash map that was created with neither \<open>BPF_F_RDONLY\<close> nor \<open>BPF_F_WRONLY\<close>
  returns what a partial map with a capacity returns, errors
  included, and the map never holds more than \<open>max_entries\<close> keys, for any container that keeps
  the documented laws of \<open>boost::unordered_map\<close>. Keys and values have the map's sizes.\<close>

theorem var_hash_refines:
  assumes "um_laws ops" and "\<not> has_rdonly flags" and "\<not> has_wronly flags"
    and "\<forall>x\<in>set xs. fm_ok kw vw x"
  shows "snd (run (vh_step ops) (var_size_hash_map_impl_new ops kw vw n flags) xs)
      = snd (run (fm_spec is_good_update_flag n) Map.empty xs) \<and>
    card (dom (vh_abs ops (fst (run (vh_step ops) (var_size_hash_map_impl_new ops kw vw n flags) xs)))) \<le> n"
  using vhm.sim.sim_run [OF vh_new_inv(1) [OF assms(1-3)], of xs kw vw n]
    vhm.never_over_capacity [OF vh_new_inv(1) [OF assms(1-3)], of xs kw vw n]
    vh_new_inv(2) [OF assms(1-3), of kw vw n] assms(4)
  by (simp add: prod_eq_iff var_size_hash_map_impl_new_def)

theorem var_hash_refines_witness:
  "snd (run (vh_step al_ops) (var_size_hash_map_impl_new al_ops 1 1 1 0)
     [FUpdate [1] [7] 0, FUpdate [2] [8] 0, FUpdate [1] [9] 1, FUpdate [1] [9] 2, FLookup [1],
      FLookupDelete [1], FLookup [1], FUpdate [2] [8] 3])
   = [Status (Ok ()), Status (Err E2BIG), Status (Err EEXIST), Status (Ok ()), Value (Ok [9]),
      Value (Ok [9]), Value (Err ENOENT), Status (Err EINVAL)]"
  using var_hash_refines [OF al_laws, of 0
     "[FUpdate [1] [7] 0, FUpdate [2] [8] 0, FUpdate [1] [9] 1, FUpdate [1] [9] 2, FLookup [1],
      FLookupDelete [1], FLookup [1], FUpdate [2] [8] 3]" 1 1 1]
  by (simp add: has_rdonly_def has_wronly_def fm_update_def is_good_update_flag_def flag_defs
      fm_find_def)

text \<open>a map created with \<open>BPF_F_RDONLY\<close> refuses new keys with \<open>EPERM\<close> but still overwrites
  the value of an existing key and deletes keys.\<close>

theorem var_hash_rdonly:
  assumes "um_laws ops" and "has_rdonly (vh_flags s)" and "length k = vh_key_size s"
    and "length v = vh_value_size s" and "vh_abs ops s k = Some w"
  shows "snd (var_elem_update ops s k v BPF_ANY) = Ok () \<and>
    vh_abs ops (fst (var_elem_update ops s k v BPF_ANY)) = (vh_abs ops s)(k \<mapsto> v) \<and>
    snd (var_elem_delete ops s k) = Ok () \<and>
    vh_abs ops (fst (var_elem_delete ops s k)) = (vh_abs ops s)(k := None) \<and>
    (\<forall>k'. length k' = vh_key_size s \<longrightarrow> vh_abs ops s k' = None \<longrightarrow>
       card (dom (vh_abs ops s)) \<noteq> vh_max_entries s \<longrightarrow>
       snd (var_elem_update ops s k' v BPF_ANY) = Err EPERM)"
  using assms um_lawsD(3,4,7) [OF assms(1)]
  by (simp add: var_elem_update_def var_elem_delete_def vh_abs_def read_all is_good_update_flag_def
      flag_defs)

theorem var_hash_rdonly_witness:
  "snd (var_elem_update al_ops \<lparr>vh_map_impl = [([1], [7])], vh_key_size = 1, vh_value_size = 1,
      vh_max_entries = 1, vh_flags = 8\<rparr> [1] [9] BPF_ANY) = Ok ()"
  using var_hash_rdonly [OF al_laws, of "\<lparr>vh_map_impl = [([1], [7])], vh_key_size = 1,
      vh_value_size = 1, vh_max_entries = 1, vh_flags = 8\<rparr>" "[1]" "[9]" "[7]"]
  by (simp add: has_rdonly_def vh_abs_def al_ops_def)

end
