(* ===== verification/Per_Cpu_Hash.thy ===== *)
theory Per_Cpu_Hash
  imports Unordered_Map Array_Map
begin

text \<open>
  \<open>per_cpu_hash_map_impl\<close> (bpf_map/userspace/per_cpu_hash_map.hpp, per_cpu_hash_map.cpp): a
  hash map whose values are rows with one value for each CPU. The operations of a program act
  on the value of the current CPU; those of user space act on rows. The current CPU is a
  parameter. The vectors \<open>key_templates\<close> and \<open>single_value_templates\<close> are scratch space with
  \<open>ncpu\<close> elements; an access to them with a larger CPU number is undefined.
\<close>

section \<open>State and operations\<close>

record 'm per_cpu_hash_map_impl =
  pch_impl :: 'm
  pch_key_size :: nat
  pch_value_size :: nat
  pch_ncpu :: nat
  pch_max_entries :: nat

definition per_cpu_hash_map_impl_new ::
    "('m, bytes, bytes) umap_ops \<Rightarrow> nat \<Rightarrow> nat \<Rightarrow> nat \<Rightarrow> nat \<Rightarrow> 'm per_cpu_hash_map_impl" where
  "per_cpu_hash_map_impl_new ops key_size value_size max_entries ncpu =
     \<lparr>pch_impl = um_empty ops, pch_key_size = key_size, pch_value_size = value_size,
      pch_ncpu = ncpu, pch_max_entries = max_entries\<rparr>"

definition pch_value_template :: "'m per_cpu_hash_map_impl \<Rightarrow> bytes" where
  "pch_value_template s = replicate (u32 (pch_value_size s * pch_ncpu s)) 0"

definition pch_cpu_offset :: "'m per_cpu_hash_map_impl \<Rightarrow> nat \<Rightarrow> nat" where
  "pch_cpu_offset s cpu = u32 (cpu * pch_value_size s)"

text \<open>\<open>key_templates[cpu].assign(key, key + key_size)\<close>.\<close>

definition pch_key :: "nat \<Rightarrow> 'm per_cpu_hash_map_impl \<Rightarrow> bytes \<Rightarrow> bytes option" where
  "pch_key cpu s key = (if cpu < pch_ncpu s then read_at key 0 (pch_key_size s) else None)"

text \<open>The pointer \<open>&itr->second[value_size * cpu]\<close> is the row and the offset in it.\<close>

definition pch_elem_lookup ::
    "('m, bytes, bytes) umap_ops \<Rightarrow> nat \<Rightarrow> 'm per_cpu_hash_map_impl \<Rightarrow> bytes option \<Rightarrow>
     (bytes \<times> nat) outcome" where
  "pch_elem_lookup ops cpu s key =
     (case key of
        None \<Rightarrow> Err ENOENT
      | Some p \<Rightarrow> (case pch_key cpu s p of
          None \<Rightarrow> UB
        | Some k \<Rightarrow> (case um_find ops (pch_impl s) k of
            Some row \<Rightarrow> Ok (row, pch_cpu_offset s cpu)
          | None \<Rightarrow> Err ENOENT)))"

definition pch_elem_update ::
    "('m, bytes, bytes) umap_ops \<Rightarrow> nat \<Rightarrow> 'm per_cpu_hash_map_impl \<Rightarrow> bytes \<Rightarrow> bytes \<Rightarrow> nat \<Rightarrow>
     'm per_cpu_hash_map_impl \<times> unit outcome" where
  "pch_elem_update ops cpu s key value flags =
     (if \<not> check_update_flags flags then (s, Err EINVAL)
      else case (pch_key cpu s key, read_at value 0 (pch_value_size s)) of
        (Some k, Some v) \<Rightarrow>
          (case um_find ops (pch_impl s) k of
             Some row \<Rightarrow>
               (case write_at row (pch_cpu_offset s cpu) v of
                  None \<Rightarrow> (s, UB)
                | Some row' \<Rightarrow> (s\<lparr>pch_impl := um_insert_or_assign ops (pch_impl s) k row'\<rparr>, Ok ()))
           | None \<Rightarrow>
               (case write_at (pch_value_template s) (pch_cpu_offset s cpu) v of
                  None \<Rightarrow> (s, UB)
                | Some row' \<Rightarrow> (s\<lparr>pch_impl := um_insert ops (pch_impl s) k row'\<rparr>, Ok ())))
      | _ \<Rightarrow> (s, UB))"

text \<open>\<open>std::fill(itr->second.begin(), itr->second.begin() + cpu * value_size, 0)\<close>.\<close>

definition pch_elem_delete ::
    "('m, bytes, bytes) umap_ops \<Rightarrow> nat \<Rightarrow> 'm per_cpu_hash_map_impl \<Rightarrow> bytes \<Rightarrow>
     'm per_cpu_hash_map_impl \<times> unit outcome" where
  "pch_elem_delete ops cpu s key =
     (case pch_key cpu s key of
        None \<Rightarrow> (s, UB)
      | Some k \<Rightarrow>
          (case um_find ops (pch_impl s) k of
             None \<Rightarrow> (s, Ok ())
           | Some row \<Rightarrow>
               (case write_at row 0 (replicate (pch_cpu_offset s cpu) 0) of
                  None \<Rightarrow> (s, UB)
                | Some row' \<Rightarrow> (s\<lparr>pch_impl := um_insert_or_assign ops (pch_impl s) k row'\<rparr>, Ok ()))))"

definition pch_map_get_next_key ::
    "('m, bytes, bytes) umap_ops \<Rightarrow> 'm per_cpu_hash_map_impl \<Rightarrow> bytes option \<Rightarrow> bytes outcome" where
  "pch_map_get_next_key ops s key =
     (if key \<noteq> None \<and> pch_ncpu s = 0 then UB
      else um_get_next_key ops (pch_key_size s) (pch_impl s) key)"

definition pch_elem_lookup_userspace ::
    "('m, bytes, bytes) umap_ops \<Rightarrow> 'm per_cpu_hash_map_impl \<Rightarrow> bytes option \<Rightarrow> bytes outcome" where
  "pch_elem_lookup_userspace ops s key =
     (case key of
        None \<Rightarrow> Err ENOENT
      | Some p \<Rightarrow> (case pch_key 0 s p of
          None \<Rightarrow> UB
        | Some k \<Rightarrow> (case um_find ops (pch_impl s) k of Some row \<Rightarrow> Ok row | None \<Rightarrow> Err ENOENT)))"

definition pch_elem_update_userspace ::
    "('m, bytes, bytes) umap_ops \<Rightarrow> 'm per_cpu_hash_map_impl \<Rightarrow> bytes \<Rightarrow> bytes \<Rightarrow> nat \<Rightarrow>
     'm per_cpu_hash_map_impl \<times> unit outcome" where
  "pch_elem_update_userspace ops s key value flags =
     (if \<not> check_update_flags flags then (s, Err EINVAL)
      else case (pch_key 0 s key, read_at value 0 (u32 (pch_value_size s * pch_ncpu s))) of
        (Some k, Some v) \<Rightarrow>
          let elem_exists = (um_find ops (pch_impl s) k \<noteq> None) in
          if flags = BPF_NOEXIST \<and> elem_exists then (s, Err EEXIST)
          else if flags = BPF_EXIST \<and> \<not> elem_exists then (s, Err ENOENT)
          else if \<not> elem_exists \<and> um_size ops (pch_impl s) = pch_max_entries s
          then (s, Err E2BIG)
          else (s\<lparr>pch_impl := um_insert_or_assign ops (pch_impl s) k v\<rparr>, Ok ())
      | _ \<Rightarrow> (s, UB))"

definition pch_elem_delete_userspace ::
    "('m, bytes, bytes) umap_ops \<Rightarrow> 'm per_cpu_hash_map_impl \<Rightarrow> bytes \<Rightarrow>
     'm per_cpu_hash_map_impl \<times> unit outcome" where
  "pch_elem_delete_userspace ops s key =
     (case pch_key 0 s key of
        None \<Rightarrow> (s, UB)
      | Some k \<Rightarrow>
          (if um_find ops (pch_impl s) k = None then (s, Err ENOENT)
           else (s\<lparr>pch_impl := um_erase ops (pch_impl s) k\<rparr>, Ok ())))"

definition pch_lookup_and_delete_userspace ::
    "('m, bytes, bytes) umap_ops \<Rightarrow> 'm per_cpu_hash_map_impl \<Rightarrow> bytes \<Rightarrow>
     'm per_cpu_hash_map_impl \<times> bytes outcome" where
  "pch_lookup_and_delete_userspace ops s key =
     (case pch_key 0 s key of
        None \<Rightarrow> (s, UB)
      | Some k \<Rightarrow>
          (case um_find ops (pch_impl s) k of
             None \<Rightarrow> (s, Err ENOENT)
           | Some row \<Rightarrow>
               (case read_at row 0 (u32 (pch_ncpu s * pch_value_size s)) of
                  None \<Rightarrow> (s, UB)
                | Some out \<Rightarrow> (s\<lparr>pch_impl := um_erase ops (pch_impl s) k\<rparr>, Ok out))))"

section \<open>Invariant and views\<close>

definition pch_rows ::
    "('m, bytes, bytes) umap_ops \<Rightarrow> 'm per_cpu_hash_map_impl \<Rightarrow> bytes \<rightharpoonup> bytes" where
  "pch_rows ops s = um_find ops (pch_impl s)"

text \<open>What a program on a CPU finds under a key.\<close>

definition pch_lookup_value ::
    "('m, bytes, bytes) umap_ops \<Rightarrow> nat \<Rightarrow> 'm per_cpu_hash_map_impl \<Rightarrow> bytes \<Rightarrow> bytes outcome" where
  "pch_lookup_value ops cpu s key =
     bind_out (pch_elem_lookup ops cpu s (Some key)) (\<lambda>(row, off).
       of_option (read_at row off (pch_value_size s)))"

definition pch_inv :: "('m, bytes, bytes) umap_ops \<Rightarrow> 'm per_cpu_hash_map_impl \<Rightarrow> bool" where
  "pch_inv ops s \<longleftrightarrow> um_laws ops \<and> 0 < pch_ncpu s \<and> pch_ncpu s * pch_value_size s < 2 ^ 32 \<and>
     (\<forall>k row. pch_rows ops s k = Some row \<longrightarrow>
        length k = pch_key_size s \<and> length row = pch_ncpu s * pch_value_size s)"

lemma pch_offsets:
  assumes "pch_inv ops s"
  shows "cpu < pch_ncpu s \<Longrightarrow> pch_cpu_offset s cpu = cpu * pch_value_size s"
    and "u32 (pch_value_size s * pch_ncpu s) = pch_ncpu s * pch_value_size s"
    and "u32 (pch_ncpu s * pch_value_size s) = pch_ncpu s * pch_value_size s"
proof -
  have lt: "pch_ncpu s * pch_value_size s < 4294967296" using assms by (simp add: pch_inv_def)
  then show "u32 (pch_value_size s * pch_ncpu s) = pch_ncpu s * pch_value_size s"
    and "u32 (pch_ncpu s * pch_value_size s) = pch_ncpu s * pch_value_size s"
    by (simp_all add: mult.commute)
  show "pch_cpu_offset s cpu = cpu * pch_value_size s" if "cpu < pch_ncpu s"
    using slot_bound [OF that, of "pch_value_size s"] lt by (simp add: pch_cpu_offset_def)
qed

lemma pch_lookup_value_eq:
  assumes inv: "pch_inv ops s" and c: "cpu < pch_ncpu s" and k: "length k = pch_key_size s"
  shows "pch_lookup_value ops cpu s k =
    (case pch_rows ops s k of None \<Rightarrow> Err ENOENT | Some row \<Rightarrow> Ok (slot row (pch_value_size s) cpu))"
proof (cases "pch_rows ops s k")
  case None
  then show ?thesis using c k
    by (simp add: pch_lookup_value_def pch_elem_lookup_def pch_key_def read_all pch_rows_def)
next
  case (Some row)
  then have "length row = pch_ncpu s * pch_value_size s" using inv by (simp add: pch_inv_def)
  from read_slot [OF c this] show ?thesis
    using Some c k pch_offsets(1) [OF inv c]
    by (simp add: pch_lookup_value_def pch_elem_lookup_def pch_key_def read_all pch_rows_def)
qed

text \<open>The row that the update of one CPU's value leaves under the key.\<close>

lemma pch_update_eq:
  assumes inv: "pch_inv ops s" and c: "cpu < pch_ncpu s" and k: "length k = pch_key_size s"
    and v: "length v = pch_value_size s" and fl: "check_update_flags flags"
  defines "row \<equiv> (case pch_rows ops s k of None \<Rightarrow> replicate (pch_ncpu s * pch_value_size s) 0
                 | Some row \<Rightarrow> row)"
  shows "\<exists>m'. pch_elem_update ops cpu s k v flags = (s\<lparr>pch_impl := m'\<rparr>, Ok ()) \<and>
      pch_inv ops (s\<lparr>pch_impl := m'\<rparr>) \<and>
      pch_rows ops (s\<lparr>pch_impl := m'\<rparr>) = (pch_rows ops s)(k \<mapsto> set_slot row (pch_value_size s) cpu v)"
    and "length row = pch_ncpu s * pch_value_size s"
proof -
  have L: "um_laws ops" using inv by (simp add: pch_inv_def)
  show len: "length row = pch_ncpu s * pch_value_size s"
    using inv by (auto simp: row_def pch_inv_def split: option.splits)
  note w = write_slot [OF c len v] and o = pch_offsets [OF inv]
  show "\<exists>m'. pch_elem_update ops cpu s k v flags = (s\<lparr>pch_impl := m'\<rparr>, Ok ()) \<and>
      pch_inv ops (s\<lparr>pch_impl := m'\<rparr>) \<and>
      pch_rows ops (s\<lparr>pch_impl := m'\<rparr>) = (pch_rows ops s)(k \<mapsto> set_slot row (pch_value_size s) cpu v)"
  proof (intro exI conjI)
    let ?m = "um_insert_or_assign ops (pch_impl s) k (set_slot row (pch_value_size s) cpu v)"
    show "pch_elem_update ops cpu s k v flags = (s\<lparr>pch_impl := ?m\<rparr>, Ok ())"
      using c k v fl w o(1) [OF c] o(2)
      by (auto simp: pch_elem_update_def pch_key_def read_all pch_rows_def row_def um_insert_def
          pch_value_template_def split: option.splits)
    show r: "pch_rows ops (s\<lparr>pch_impl := ?m\<rparr>)
        = (pch_rows ops s)(k \<mapsto> set_slot row (pch_value_size s) cpu v)"
      by (simp add: pch_rows_def um_lawsD(3) [OF L])
    show "pch_inv ops (s\<lparr>pch_impl := ?m\<rparr>)"
      using inv k length_set_slot [OF c len v] len unfolding pch_inv_def r by auto
  qed
qed

abbreviation pch_user_step ::
    "('m, bytes, bytes) umap_ops \<Rightarrow> 'm per_cpu_hash_map_impl \<Rightarrow> fm_op \<Rightarrow>
     'm per_cpu_hash_map_impl \<times> pp_res" where
  "pch_user_step ops \<equiv> fm_step (\<lambda>s k. pch_elem_lookup_userspace ops s (Some k))
     (pch_elem_update_userspace ops) (pch_elem_delete_userspace ops)
     (pch_lookup_and_delete_userspace ops)"

lemma pch_user_step_simulates:
  assumes inv: "pch_inv ops s" and x: "fm_ok (pch_key_size s) (pch_ncpu s * pch_value_size s) x"
  shows "pch_inv ops (fst (pch_user_step ops s x)) \<and>
    pch_max_entries (fst (pch_user_step ops s x)) = pch_max_entries s \<and>
    pch_key_size (fst (pch_user_step ops s x)) = pch_key_size s \<and>
    pch_ncpu (fst (pch_user_step ops s x)) * pch_value_size (fst (pch_user_step ops s x))
      = pch_ncpu s * pch_value_size s \<and>
    (pch_rows ops (fst (pch_user_step ops s x)), snd (pch_user_step ops s x))
      = fm_spec check_update_flags (pch_max_entries s) (pch_rows ops s) x"
proof -
  have L: "um_laws ops" and c: "0 < pch_ncpu s" using inv by (simp_all add: pch_inv_def)
  note um = um_lawsD(3,4,7) [OF L] and o = pch_offsets(2,3) [OF inv]
  have key: "pch_key 0 s k = Some k" if "length k = pch_key_size s" for k
    using that c by (simp add: pch_key_def read_all)
  show ?thesis
  proof (cases x)
    case (FLookup k)
    then show ?thesis using inv x key
      by (auto simp: pch_elem_lookup_userspace_def fm_find_def pch_rows_def split: option.splits)
  next
    case (FUpdate k v flags)
    then show ?thesis using inv x um key o
      by (auto simp: pch_elem_update_userspace_def read_all pch_inv_def fm_update_def pch_rows_def Let_def)
  next
    case (FDelete k)
    then show ?thesis using inv x um key
      by (auto simp: pch_elem_delete_userspace_def pch_inv_def pch_rows_def fun_upd_idem)
  next
    case (FLookupDelete k)
    then show ?thesis using inv x um key o
      by (auto simp: pch_lookup_and_delete_userspace_def read_all pch_inv_def pch_rows_def fm_find_def
          fun_upd_idem split: option.splits)
  qed
qed

interpretation pch_user: flag_map check_update_flags "pch_inv ops" "pch_rows ops" pch_max_entries
  pch_key_size "\<lambda>s. pch_ncpu s * pch_value_size s" "\<lambda>s k. pch_elem_lookup_userspace ops s (Some k)"
  "pch_elem_update_userspace ops" "pch_elem_delete_userspace ops"
  "pch_lookup_and_delete_userspace ops" for ops
  using pch_user_step_simulates by unfold_locales blast+

section \<open>Properties\<close>

text \<open>an update from one CPU sets that CPU's value under the key; every other CPU keeps its
  value under it, or finds zeroes when the key is new; values under other keys are unchanged.\<close>

theorem per_cpu_hash_update:
  assumes "pch_inv ops s" and "cpu < pch_ncpu s" and "cpu' < pch_ncpu s"
    and "length k = pch_key_size s" and "length k' = pch_key_size s"
    and "length v = pch_value_size s" and "check_update_flags flags"
  shows "snd (pch_elem_update ops cpu s k v flags) = Ok () \<and>
    pch_lookup_value ops cpu' (fst (pch_elem_update ops cpu s k v flags)) k' =
      (if k' \<noteq> k then pch_lookup_value ops cpu' s k'
       else if cpu' = cpu then Ok v
       else if pch_rows ops s k = None then Ok (replicate (pch_value_size s) 0)
       else pch_lookup_value ops cpu' s k')"
proof -
  let ?w = "pch_value_size s"
  let ?row = "case pch_rows ops s k of None \<Rightarrow> replicate (pch_ncpu s * ?w) 0 | Some row \<Rightarrow> row"
  note u = pch_update_eq [OF assms(1,2,4,6,7)]
  obtain m' where m': "pch_elem_update ops cpu s k v flags = (s\<lparr>pch_impl := m'\<rparr>, Ok ())"
    and inv': "pch_inv ops (s\<lparr>pch_impl := m'\<rparr>)"
    and rows: "pch_rows ops (s\<lparr>pch_impl := m'\<rparr>) = (pch_rows ops s)(k \<mapsto> set_slot ?row ?w cpu v)"
    using u(1) by blast
  have zero: "slot (replicate (pch_ncpu s * ?w) 0) ?w cpu' = replicate ?w (0 :: byte)"
    using slot_bound [OF assms(3), of ?w] by (simp add: slot_def min_def)
  show ?thesis
    using m' rows pch_lookup_value_eq [OF inv', of cpu' k'] pch_lookup_value_eq [OF assms(1,3), of k']
      slot_set_slot [OF assms(2,3) u(2) assms(6)] assms(3,5) zero
    by (cases "pch_rows ops s k") (auto split: option.splits)
qed

text \<open>a delete from a CPU reports success, leaves the value of that CPU as it was, and
  zeroes the values of the CPUs with smaller numbers.\<close>

theorem per_cpu_hash_delete:
  assumes "pch_inv ops s" and "cpu < pch_ncpu s" and "cpu' < pch_ncpu s"
    and "length k = pch_key_size s" and "pch_rows ops s k = Some row"
  shows "snd (pch_elem_delete ops cpu s k) = Ok () \<and>
    pch_lookup_value ops cpu' (fst (pch_elem_delete ops cpu s k)) k =
      Ok (if cpu' < cpu then replicate (pch_value_size s) 0 else slot row (pch_value_size s) cpu')"
proof -
  let ?w = "pch_value_size s"
  have L: "um_laws ops" and len: "length row = pch_ncpu s * ?w"
    using assms(1,5) by (auto simp: pch_inv_def)
  have le: "cpu * ?w \<le> pch_ncpu s * ?w" using assms(2) by simp
  let ?row = "replicate (cpu * ?w) 0 @ drop (cpu * ?w) row"
  let ?s = "s\<lparr>pch_impl := um_insert_or_assign ops (pch_impl s) k ?row\<rparr>"
  have d: "pch_elem_delete ops cpu s k = (?s, Ok ())"
    using assms(2,4,5) pch_offsets(1) [OF assms(1,2)] len le
    by (simp add: pch_elem_delete_def pch_key_def read_all pch_rows_def write_at_def)
  have rows: "pch_rows ops ?s = (pch_rows ops s)(k \<mapsto> ?row)"
    by (simp add: pch_rows_def um_lawsD(3) [OF L])
  have "length ?row = pch_ncpu s * ?w" using len le by simp
  then have inv': "pch_inv ops ?s" using assms(1,4) unfolding pch_inv_def rows by auto
  have "slot ?row ?w cpu' = (if cpu' < cpu then replicate ?w 0 else slot row ?w cpu')"
  proof (cases "cpu' < cpu")
    case True
    then show ?thesis using slot_bound [OF True, of ?w] by (simp add: slot_def min_def)
  next
    case False
    then have "cpu * ?w \<le> cpu' * ?w" by simp
    then show ?thesis using False by (simp add: slot_def)
  qed
  then show ?thesis
    using d rows pch_lookup_value_eq [OF inv', of cpu' k] assms(3,4) by simp
qed

text \<open>C26: every sequence of user-space calls on a fresh per-CPU hash map returns what a partial
  map of rows with a capacity returns, for any container that keeps the laws.\<close>

theorem per_cpu_hash_user_refines:
  assumes "um_laws ops" and "0 < ncpu" and "ncpu * vw < 2 ^ 32"
    and "\<forall>x\<in>set xs. fm_ok kw (ncpu * vw) x"
  shows "snd (run (pch_user_step ops) (per_cpu_hash_map_impl_new ops kw vw n ncpu) xs)
      = snd (run (fm_spec check_update_flags n) Map.empty xs)"
proof -
  let ?s = "per_cpu_hash_map_impl_new ops kw vw n ncpu"
  have r: "pch_rows ops ?s = Map.empty"
    using um_lawsD(5) [OF assms(1)] by (simp add: pch_rows_def per_cpu_hash_map_impl_new_def)
  then have "pch_inv ops ?s"
    unfolding pch_inv_def using assms(1-3) by (simp add: per_cpu_hash_map_impl_new_def)
  from pch_user.sim.sim_run [OF this, of xs] r assms(4) show ?thesis
    by (simp add: prod_eq_iff per_cpu_hash_map_impl_new_def)
qed

definition pch_sample :: "((bytes \<times> bytes) list) per_cpu_hash_map_impl" where
  "pch_sample = \<lparr>pch_impl = [([1], [7, 8])], pch_key_size = 1, pch_value_size = 1, pch_ncpu = 2,
     pch_max_entries = 4\<rparr>"

lemma pch_sample_inv: "pch_inv al_ops pch_sample" and pch_sample_rows:
  "pch_rows al_ops pch_sample [1] = Some [7, 8]"
  by (simp_all add: pch_inv_def al_laws, simp_all add: pch_rows_def al_ops_def pch_sample_def)

theorem per_cpu_hash_update_witness:
  "pch_lookup_value al_ops 0 (fst (pch_elem_update al_ops 1 pch_sample [2] [5] BPF_ANY)) [2] = Ok [0]"
  using per_cpu_hash_update [OF pch_sample_inv, of 1 0 "[2]" "[2]" "[5]" BPF_ANY]
  by (simp add: pch_sample_def pch_rows_def al_ops_def check_update_flags_def flag_defs)

theorem per_cpu_hash_delete_witness:
  "snd (pch_elem_delete al_ops 1 pch_sample [1]) = Ok () \<and>
   pch_lookup_value al_ops 1 (fst (pch_elem_delete al_ops 1 pch_sample [1])) [1] = Ok [8]"
  using per_cpu_hash_delete [OF pch_sample_inv _ _ _ pch_sample_rows, of 1 1]
  by (simp add: pch_sample_def slot_def)

theorem per_cpu_hash_user_refines_witness:
  "snd (run (pch_user_step al_ops) (per_cpu_hash_map_impl_new al_ops 1 1 1 2)
     [FUpdate [1] [7, 8] 0, FUpdate [2] [7, 8] 0, FLookup [1], FDelete [1], FLookup [1]])
   = [Status (Ok ()), Status (Err E2BIG), Value (Ok [7, 8]), Status (Ok ()), Value (Err ENOENT)]"
  using per_cpu_hash_user_refines [OF al_laws, of 2 1
     "[FUpdate [1] [7, 8] 0, FUpdate [2] [7, 8] 0, FLookup [1], FDelete [1], FLookup [1]]" 1 1]
  by (simp add: fm_update_def check_update_flags_def flag_defs fm_find_def)

end
