(* ===== verification/Stack_Trace_Map.thy ===== *)
theory Stack_Trace_Map
  imports Unordered_Map
begin

text \<open>
  \<open>stack_trace_map_impl\<close> (bpf_map/userspace/stack_trace_map.hpp, stack_trace_map.cpp): stack
  traces, lists of 64-bit addresses, under an id that is their hash modulo \<open>max_entries\<close>. The
  hash is built from \<open>boost::hash_combine\<close> and is a parameter, as is the container.
\<close>

section \<open>State and operations\<close>

record 'm stack_trace_map_impl =
  stm_max_stack_entries :: nat
  stm_max_entries :: nat
  stm_data :: 'm

definition stack_trace_map_impl_new ::
    "('m, nat, nat list) umap_ops \<Rightarrow> nat \<Rightarrow> nat \<Rightarrow> nat \<Rightarrow> 'm stack_trace_map_impl outcome" where
  "stack_trace_map_impl_new ops key_size value_size max_entries =
     (if key_size \<noteq> 4 then Thrown
      else if value_size mod 8 \<noteq> 0 then Thrown
      else Ok \<lparr>stm_max_stack_entries = value_size div 8, stm_max_entries = max_entries,
               stm_data = um_empty ops\<rparr>)"

definition stm_elem_lookup ::
    "('m, nat, nat list) umap_ops \<Rightarrow> 'm stack_trace_map_impl \<Rightarrow> bytes option \<Rightarrow> nat list outcome" where
  "stm_elem_lookup ops s key =
     (case key of
        None \<Rightarrow> Err EINVAL
      | Some p \<Rightarrow> bind_out (read_u32 p) (\<lambda>index.
          case um_find ops (stm_data s) index of None \<Rightarrow> Err ENOENT | Some stk \<Rightarrow> Ok stk))"

text \<open>The error is the return value \<open>-ENOTSUP\<close>; \<open>errno\<close> is not set.\<close>

definition stm_elem_update ::
    "'m stack_trace_map_impl \<Rightarrow> bytes option \<Rightarrow> bytes option \<Rightarrow> nat \<Rightarrow> unit outcome" where
  "stm_elem_update s key value flags = Err ENOTSUP"

definition stm_elem_delete ::
    "('m, nat, nat list) umap_ops \<Rightarrow> 'm stack_trace_map_impl \<Rightarrow> bytes option \<Rightarrow>
     'm stack_trace_map_impl \<times> unit outcome" where
  "stm_elem_delete ops s key =
     (case key of
        None \<Rightarrow> (s, Err EINVAL)
      | Some p \<Rightarrow> (case read_u32 p of
          Ok index \<Rightarrow>
            if um_find ops (stm_data s) index \<noteq> None
            then (s\<lparr>stm_data := um_erase ops (stm_data s) index\<rparr>, Ok ())
            else (s, Err ENOENT)
        | _ \<Rightarrow> (s, UB)))"

definition stm_map_get_next_key :: "'m stack_trace_map_impl \<Rightarrow> bytes option \<Rightarrow> bytes outcome" where
  "stm_map_get_next_key s key = Err ENOTSUP"

text \<open>\<open>equals\<close> of the source: the contents are compared only when the sizes already differ.\<close>

definition stm_equals :: "nat list \<Rightarrow> nat list \<Rightarrow> bool \<Rightarrow> bool" where
  "stm_equals old stk compare_only_by_hash =
     (if compare_only_by_hash then True
      else let equals = (length old = length stk)
           in if \<not> equals then equals \<and> stk = old else equals)"

text \<open>The ids are 64-bit values below \<open>max_entries\<close>, which is 32 bits wide; \<open>return to_put_hash\<close>
  narrows them to the return type \<open>int\<close>.\<close>

definition fill_stack_trace ::
    "('m, nat, nat list) umap_ops \<Rightarrow> (nat list \<Rightarrow> nat) \<Rightarrow> 'm stack_trace_map_impl \<Rightarrow> nat list \<Rightarrow>
     bool \<Rightarrow> bool \<Rightarrow> 'm stack_trace_map_impl \<times> int outcome" where
  "fill_stack_trace ops hash s stk discard_old_one compare_only_by_hash =
     (if stm_max_entries s = 0 then (s, UB)
      else let to_put_hash = hash stk mod stm_max_entries s in
        case um_find ops (stm_data s) to_put_hash of
          None \<Rightarrow> (s\<lparr>stm_data := um_insert ops (stm_data s) to_put_hash stk\<rparr>,
            Ok (i32_of_u32 (u32 to_put_hash)))
        | Some old \<Rightarrow>
            if stm_equals old stk compare_only_by_hash then (s, Ok (i32_of_u32 (u32 to_put_hash)))
            else if discard_old_one
            then (s\<lparr>stm_data := um_insert_or_assign ops (stm_data s) to_put_hash stk\<rparr>,
              Ok (i32_of_u32 (u32 to_put_hash)))
            else (s, Ok (i32_of_u32 (u32 to_put_hash))))"

section \<open>Properties\<close>

definition stm_inv :: "('m, nat, nat list) umap_ops \<Rightarrow> 'm stack_trace_map_impl \<Rightarrow> bool" where
  "stm_inv ops s \<longleftrightarrow> um_laws ops \<and> 0 < stm_max_entries s \<and> stm_max_entries s < 2 ^ 32 \<and>
     dom (um_find ops (stm_data s)) \<subseteq> {..<stm_max_entries s}"

text \<open>A map that was just constructed has the invariant, and deleting a trace keeps it, as storing
  one does.\<close>

lemma stm_new_inv:
  assumes "um_laws ops" "0 < max_entries" "max_entries < 2 ^ 32"
    and "stack_trace_map_impl_new ops key_size value_size max_entries = Ok s"
  shows "stm_inv ops s"
  using assms by (auto simp: stack_trace_map_impl_new_def stm_inv_def um_lawsD split: if_splits)

lemma stm_delete_inv:
  assumes "stm_inv ops s"
  shows "stm_inv ops (fst (stm_elem_delete ops s key))"
  using assms by (auto simp: stm_elem_delete_def stm_inv_def um_lawsD dom_def
      split: option.split outcome.split if_splits)

lemma fill_find:
  fixes hash :: "nat list \<Rightarrow> nat" and stk :: "nat list" and discard by_hash :: bool
  assumes "stm_inv ops s"
  defines "i \<equiv> hash stk mod stm_max_entries s"
    and "r \<equiv> fill_stack_trace ops hash s stk discard by_hash"
  shows "snd r = Ok (i32_of_u32 i)" and "stm_max_entries (fst r) = stm_max_entries s"
    and "um_find ops (stm_data (fst r)) =
      (case um_find ops (stm_data s) i of
         None \<Rightarrow> (um_find ops (stm_data s))(i \<mapsto> stk)
       | Some old \<Rightarrow>
           if by_hash \<or> length old = length stk \<or> \<not> discard then um_find ops (stm_data s)
           else (um_find ops (stm_data s))(i \<mapsto> stk))"
proof -
  have L: "um_laws ops" and n: "stm_max_entries s \<noteq> 0" using assms(1) by (simp_all add: stm_inv_def)
  have "i < stm_max_entries s" using n by (simp add: i_def)
  then have u: "u32 i = i" using assms(1) by (simp add: stm_inv_def u32_def)
  have r: "r = (case um_find ops (stm_data s) i of
      None \<Rightarrow> (s\<lparr>stm_data := um_insert ops (stm_data s) i stk\<rparr>, Ok (i32_of_u32 i))
    | Some old \<Rightarrow> if stm_equals old stk by_hash then (s, Ok (i32_of_u32 i))
        else if discard
          then (s\<lparr>stm_data := um_insert_or_assign ops (stm_data s) i stk\<rparr>, Ok (i32_of_u32 i))
        else (s, Ok (i32_of_u32 i)))"
    using n unfolding r_def fill_stack_trace_def Let_def i_def [symmetric] u by simp
  have eq: "stm_equals old stk by_hash \<longleftrightarrow> by_hash \<or> length old = length stk" for old
    by (simp add: stm_equals_def)
  show "snd r = Ok (i32_of_u32 i)" and "stm_max_entries (fst r) = stm_max_entries s"
    unfolding r by (simp_all split: option.split)
  show "um_find ops (stm_data (fst r)) =
      (case um_find ops (stm_data s) i of
         None \<Rightarrow> (um_find ops (stm_data s))(i \<mapsto> stk)
       | Some old \<Rightarrow>
           if by_hash \<or> length old = length stk \<or> \<not> discard then um_find ops (stm_data s)
           else (um_find ops (stm_data s))(i \<mapsto> stk))"
    unfolding r eq by (simp add: um_insert_find [OF L] um_lawsD(3) [OF L] split: option.split)
qed

lemma u32_i32: "n < 2 ^ 32 \<Longrightarrow> u32_of_i32 (i32_of_u32 n) = n"
  by (cases "n < 2 ^ 31") (simp_all add: u32_of_i32_def i32_of_u32_def)

text \<open>C27: storing a trace returns an \<open>int\<close> whose 32 bits, which the caller
  \<open>bpftime_get_stackid\<close> reads as a \<open>uint32_t\<close>, are an id below \<open>max_entries\<close>; the \<open>int\<close> itself
  is that id when \<open>max_entries\<close> is at most \<open>2 ^ 31\<close>, and may be negative above. Every stored trace
  stays under an id below \<open>max_entries\<close>, so that there are never more than \<open>max_entries\<close>, and no
  other id changes; a lookup of the id returns the trace itself when the slot was free, or when
  the old trace had another length, replacing was asked for, and comparison by hash alone was
  not. The map is one whose ids are below \<open>max_entries\<close>, with \<open>0 < max_entries < 2 ^ 32\<close>.\<close>

theorem stack_trace_fill:
  assumes "stm_inv ops s" and "fill_stack_trace ops hash s stk discard by_hash = (s', Ok v)"
  defines "i \<equiv> u32_of_i32 v"
  shows "stm_inv ops s' \<and> i = hash stk mod stm_max_entries s \<and> i < stm_max_entries s \<and>
    (stm_max_entries s \<le> 2 ^ 31 \<longrightarrow> v = int i) \<and>
    card (dom (um_find ops (stm_data s'))) \<le> stm_max_entries s \<and>
    (\<forall>j. j \<noteq> i \<longrightarrow> um_find ops (stm_data s') j = um_find ops (stm_data s) j) \<and>
    (um_find ops (stm_data s) i = None \<longrightarrow> stm_elem_lookup ops s' (Some (le_bytes 4 i)) = Ok stk) \<and>
    (\<forall>old. um_find ops (stm_data s) i = Some old \<longrightarrow> length old \<noteq> length stk \<longrightarrow> discard \<longrightarrow>
       \<not> by_hash \<longrightarrow> stm_elem_lookup ops s' (Some (le_bytes 4 i)) = Ok stk)"
proof -
  have L: "um_laws ops" and n: "0 < stm_max_entries s" "stm_max_entries s < 2 ^ 32"
    using assms(1) by (simp_all add: stm_inv_def)
  note F = fill_find [OF assms(1), of hash stk discard by_hash, unfolded assms(2)]
  have m: "hash stk mod stm_max_entries s < stm_max_entries s" using n(1) by simp
  have v: "v = i32_of_u32 (hash stk mod stm_max_entries s)" using F(1) by simp
  have i: "i = hash stk mod stm_max_entries s" "stm_max_entries s' = stm_max_entries s"
    using F(2) m n(2) unfolding i_def v by (simp_all add: u32_i32)
  have lt: "i < stm_max_entries s" using m i(1) by simp
  then have vi: "stm_max_entries s \<le> 2 ^ 31 \<longrightarrow> v = int i"
    unfolding v i(1) [symmetric] by (simp add: i32_of_u32_def)
  have f: "um_find ops (stm_data s') =
      (case um_find ops (stm_data s) i of
         None \<Rightarrow> (um_find ops (stm_data s))(i \<mapsto> stk)
       | Some old \<Rightarrow>
           if by_hash \<or> length old = length stk \<or> \<not> discard then um_find ops (stm_data s)
           else (um_find ops (stm_data s))(i \<mapsto> stk))"
    using F(3) unfolding i(1) [symmetric] by simp
  have dom: "dom (um_find ops (stm_data s')) \<subseteq> {..<stm_max_entries s}"
    using assms(1) lt unfolding f by (auto simp: stm_inv_def split: option.splits if_splits)
  have "card (dom (um_find ops (stm_data s'))) \<le> stm_max_entries s"
    using card_mono [OF _ dom] by simp
  moreover have "stm_inv ops s'" using dom assms(1) i(2) by (simp add: stm_inv_def)
  moreover have "read_u32 (le_bytes 4 i) = Ok i"
    using lt n(2) by (simp add: read_u32_4 le_nat_le_bytes)
  ultimately show ?thesis
    using lt i(1) vi by (cases "um_find ops (stm_data s) i") (simp_all add: f stm_elem_lookup_def)
qed

text \<open>a trace of the same length as the one stored under its id is never stored, even when
  its contents differ, comparison by content is asked for and the old trace is to be
  discarded; a lookup of the returned id gives the other trace.\<close>

theorem stack_trace_alias:
  assumes "stm_inv ops s" and "um_find ops (stm_data s) (hash stk mod stm_max_entries s) = Some old"
    and "length old = length stk"
  shows "fill_stack_trace ops hash s stk True False =
      (s, Ok (i32_of_u32 (hash stk mod stm_max_entries s))) \<and>
    stm_elem_lookup ops s (Some (le_bytes 4 (hash stk mod stm_max_entries s))) = Ok old"
proof -
  have n: "0 < stm_max_entries s" "stm_max_entries s < 2 ^ 32"
    using assms(1) by (simp_all add: stm_inv_def)
  have "hash stk mod stm_max_entries s < stm_max_entries s" using n(1) by simp
  then have "hash stk mod stm_max_entries s < 4294967296" using n(2) by simp
  then show ?thesis using n assms(2,3)
    by (simp add: fill_stack_trace_def stm_equals_def stm_elem_lookup_def read_u32_4 le_nat_le_bytes
        u32_def)
qed

definition stm_sample :: "((nat \<times> nat list) list) stack_trace_map_impl" where
  "stm_sample = \<lparr>stm_max_stack_entries = 2, stm_max_entries = 4, stm_data = [(1, [10, 20])]\<rparr>"

lemma stm_sample_inv: "stm_inv al_ops stm_sample"
  by (simp add: stm_inv_def al_laws) (simp add: al_ops_def stm_sample_def)

theorem stack_trace_fill_witness:
  "stm_elem_lookup al_ops (fst (fill_stack_trace al_ops (\<lambda>stk. length stk) stm_sample [3, 4] True False))
     (Some (le_bytes 4 2)) = Ok [3, 4]"
  using stack_trace_fill [OF stm_sample_inv, of length "[3, 4]" True False
      "fst (fill_stack_trace al_ops length stm_sample [3, 4] True False)" 2]
  by (simp add: fill_stack_trace_def stm_sample_def al_ops_def um_insert_def u32_def
      i32_of_u32_def u32_of_i32_def)

theorem stack_trace_alias_witness:
  "fill_stack_trace al_ops (\<lambda>stk. 5) stm_sample [30, 40] True False = (stm_sample, Ok 1) \<and>
   stm_elem_lookup al_ops stm_sample (Some (le_bytes 4 1)) = Ok [10, 20]"
  using stack_trace_alias [OF stm_sample_inv, of "\<lambda>stk. 5" "[30, 40]" "[10, 20]"]
  by (simp add: stm_sample_def al_ops_def i32_of_u32_def)

end
