(* ===== verification/Lru_Map.thy ===== *)
theory Lru_Map
  imports Unordered_Map Var_Hash_Map
begin

text \<open>
  \<open>lru_var_hash_map_impl\<close> (bpf_map/userspace/lru_var_hash_map.hpp, lru_var_hash_map.cpp): a hash
  map whose values point into a doubly linked list of keys in order of use. The list nodes
  live in a store from node numbers to nodes; a null pointer is \<open>None\<close> and following it is
  undefined. A node that has left the list stays in the store, where nothing points to it.
  \<open>lru_seq\<close> reads the map as the list of its entries, the most recently used first.
\<close>

section \<open>State and operations\<close>

record lru_linklist_entry =
  le_key :: bytes
  le_next :: "nat option"
  le_prev :: "nat option"

record 'm lru_var_hash_map_impl =
  lru_map_impl :: 'm
  lru_head :: "nat option"
  lru_tail :: "nat option"
  lru_store :: "nat \<rightharpoonup> lru_linklist_entry"
  lru_fresh :: nat
  lru_key_size :: nat
  lru_value_size :: nat
  lru_max_entries :: nat

type_synonym 'm lru_ops = "('m, bytes, bytes \<times> nat) umap_ops"

definition lru_var_hash_map_impl_new ::
    "'m lru_ops \<Rightarrow> nat \<Rightarrow> nat \<Rightarrow> nat \<Rightarrow> 'm lru_var_hash_map_impl" where
  "lru_var_hash_map_impl_new ops key_size value_size max_entries =
     \<lparr>lru_map_impl = um_empty ops, lru_head = None, lru_tail = None, lru_store = Map.empty,
      lru_fresh = 0, lru_key_size = key_size, lru_value_size = value_size,
      lru_max_entries = max_entries\<rparr>"

text \<open>\<open>p->field\<close> and \<open>p->field = ...\<close> through a node pointer.\<close>

definition lru_deref :: "'m lru_var_hash_map_impl \<Rightarrow> nat option \<Rightarrow> lru_linklist_entry outcome" where
  "lru_deref s p = of_option (Option.bind p (lru_store s))"

definition lru_modify ::
    "nat option \<Rightarrow> (lru_linklist_entry \<Rightarrow> lru_linklist_entry) \<Rightarrow> 'm lru_var_hash_map_impl \<Rightarrow>
     'm lru_var_hash_map_impl outcome" where
  "lru_modify p f s =
     (case p of
        None \<Rightarrow> UB
      | Some x \<Rightarrow> (case lru_store s x of
          None \<Rightarrow> UB
        | Some n \<Rightarrow> Ok (s\<lparr>lru_store := (lru_store s)(x \<mapsto> f n)\<rparr>)))"

definition lru_move_to_head ::
    "nat \<Rightarrow> 'm lru_var_hash_map_impl \<Rightarrow> 'm lru_var_hash_map_impl outcome" where
  "lru_move_to_head entry s =
     (if lru_head s = Some entry then Ok s
      else bind_out (lru_deref s (Some entry)) (\<lambda>e.
        let prev = le_prev e; next = le_next e in
        bind_out (lru_modify prev (\<lambda>n. n\<lparr>le_next := next\<rparr>) s) (\<lambda>s.
        bind_out
          (if next \<noteq> None then lru_modify next (\<lambda>n. n\<lparr>le_prev := prev\<rparr>) s
           else Ok (s\<lparr>lru_tail := prev\<rparr>)) (\<lambda>s.
        bind_out (lru_modify (Some entry) (\<lambda>n. n\<lparr>le_next := lru_head s, le_prev := None\<rparr>) s) (\<lambda>s.
        bind_out (lru_modify (lru_head s) (\<lambda>n. n\<lparr>le_prev := Some entry\<rparr>) s) (\<lambda>s.
          Ok (s\<lparr>lru_head := Some entry\<rparr>)))))))"

definition lru_insert_new_entry ::
    "bytes \<Rightarrow> 'm lru_var_hash_map_impl \<Rightarrow> ('m lru_var_hash_map_impl \<times> nat) outcome" where
  "lru_insert_new_entry key s =
     (let x = lru_fresh s;
          s = s\<lparr>lru_fresh := x + 1,
                lru_store := (lru_store s)(x \<mapsto> \<lparr>le_key = key, le_next = None, le_prev = None\<rparr>)\<rparr>
      in if lru_head s = None then Ok (s\<lparr>lru_head := Some x, lru_tail := Some x\<rparr>, x)
         else bind_out (lru_modify (Some x) (\<lambda>n. n\<lparr>le_next := lru_head s\<rparr>) s) (\<lambda>s.
              bind_out (lru_modify (lru_head s) (\<lambda>n. n\<lparr>le_prev := Some x\<rparr>) s) (\<lambda>s.
                Ok (s\<lparr>lru_head := Some x\<rparr>, x))))"

definition lru_evict_entry ::
    "nat option \<Rightarrow> 'm lru_var_hash_map_impl \<Rightarrow> 'm lru_var_hash_map_impl outcome" where
  "lru_evict_entry entry s =
     (if entry = lru_tail s then
        if entry = lru_head s then Ok (s\<lparr>lru_head := None, lru_tail := None\<rparr>)
        else bind_out (lru_deref s entry) (\<lambda>e.
             bind_out (lru_modify (le_prev e) (\<lambda>n. n\<lparr>le_next := None\<rparr>) s) (\<lambda>s.
               Ok (s\<lparr>lru_tail := le_prev e\<rparr>)))
      else bind_out (lru_deref s entry) (\<lambda>e.
        if entry = lru_head s then
          bind_out (lru_modify (le_next e) (\<lambda>n. n\<lparr>le_prev := None\<rparr>) s) (\<lambda>s.
            Ok (s\<lparr>lru_head := le_next e\<rparr>))
        else
          bind_out (lru_modify (le_prev e) (\<lambda>n. n\<lparr>le_next := le_next e\<rparr>) s) (\<lambda>s.
            lru_modify (le_next e) (\<lambda>n. n\<lparr>le_prev := le_prev e\<rparr>) s)))"

definition lru_elem_lookup ::
    "'m lru_ops \<Rightarrow> 'm lru_var_hash_map_impl \<Rightarrow> bytes \<Rightarrow>
     ('m lru_var_hash_map_impl \<times> bytes option) outcome" where
  "lru_elem_lookup ops s key =
     bind_out (of_option (read_at key 0 (lru_key_size s))) (\<lambda>k.
       case um_find ops (lru_map_impl s) k of
         Some (v, x) \<Rightarrow> bind_out (lru_move_to_head x s) (\<lambda>s. Ok (s, Some v))
       | None \<Rightarrow> Ok (s, None))"

text \<open>The eviction of the least recently used entry when the map is full.\<close>

definition lru_make_room ::
    "'m lru_ops \<Rightarrow> 'm lru_var_hash_map_impl \<Rightarrow> 'm lru_var_hash_map_impl outcome" where
  "lru_make_room ops s =
     (if um_size ops (lru_map_impl s) = lru_max_entries s then
        bind_out (lru_deref s (lru_tail s)) (\<lambda>t.
          let s = s\<lparr>lru_map_impl := um_erase ops (lru_map_impl s) (le_key t)\<rparr>
          in lru_evict_entry (lru_tail s) s)
      else Ok s)"

definition lru_elem_update ::
    "'m lru_ops \<Rightarrow> 'm lru_var_hash_map_impl \<Rightarrow> bytes \<Rightarrow> bytes \<Rightarrow> nat \<Rightarrow>
     ('m lru_var_hash_map_impl \<times> unit outcome) outcome" where
  "lru_elem_update ops s key value flags =
     (if \<not> is_good_update_flag flags then Ok (s, Err EINVAL)
      else bind_out (of_option (read_at key 0 (lru_key_size s))) (\<lambda>k.
        case um_find ops (lru_map_impl s) k of
          Some (v, x) \<Rightarrow>
            if flags = BPF_NOEXIST then Ok (s, Err EEXIST)
            else bind_out (of_option (read_at value 0 (lru_value_size s))) (\<lambda>v'.
              bind_out (lru_move_to_head x
                  (s\<lparr>lru_map_impl := um_insert_or_assign ops (lru_map_impl s) k (v', x)\<rparr>))
                (\<lambda>s. Ok (s, Ok ())))
        | None \<Rightarrow>
            if flags = BPF_EXIST then Ok (s, Err ENOENT)
            else bind_out (lru_make_room ops s) (\<lambda>s.
              bind_out (of_option (read_at value 0 (lru_value_size s))) (\<lambda>v'.
              bind_out (lru_insert_new_entry k s) (\<lambda>(s, x).
                Ok (s\<lparr>lru_map_impl := um_insert ops (lru_map_impl s) k (v', x)\<rparr>, Ok ()))))))"

definition lru_elem_delete ::
    "'m lru_ops \<Rightarrow> 'm lru_var_hash_map_impl \<Rightarrow> bytes \<Rightarrow>
     ('m lru_var_hash_map_impl \<times> unit outcome) outcome" where
  "lru_elem_delete ops s key =
     bind_out (of_option (read_at key 0 (lru_key_size s))) (\<lambda>k.
       case um_find ops (lru_map_impl s) k of
         None \<Rightarrow> Ok (s, Err ENOENT)
       | Some (v, x) \<Rightarrow> bind_out (lru_evict_entry (Some x) s) (\<lambda>s.
           Ok (s\<lparr>lru_map_impl := um_erase ops (lru_map_impl s) k\<rparr>, Ok ())))"

definition lru_map_get_next_key ::
    "'m lru_ops \<Rightarrow> 'm lru_var_hash_map_impl \<Rightarrow> bytes option \<Rightarrow> bytes outcome" where
  "lru_map_get_next_key ops s key = um_get_next_key ops (lru_key_size s) (lru_map_impl s) key"

section \<open>Linked segments\<close>

text \<open>The node a list starts with, given what follows it, and the node it ends with, given what
  precedes it.\<close>

definition first_of :: "nat list \<Rightarrow> nat option \<Rightarrow> nat option" where
  "first_of xs q = (case xs of [] \<Rightarrow> q | x # _ \<Rightarrow> Some x)"

definition last_of :: "nat option \<Rightarrow> nat list \<Rightarrow> nat option" where
  "last_of p xs = (if xs = [] then p else Some (last xs))"

fun seg ::
    "(nat \<rightharpoonup> lru_linklist_entry) \<Rightarrow> nat option \<Rightarrow> nat list \<Rightarrow> nat option \<Rightarrow> bool" where
  "seg st p [] q = True"
| "seg st p (x # xs) q =
     (\<exists>n. st x = Some n \<and> le_prev n = p \<and> le_next n = first_of xs q \<and> seg st (Some x) xs q)"

lemma first_of_simps [simp]: "first_of [] q = q" "first_of (x # xs) q = Some x"
  by (simp_all add: first_of_def)

lemma last_of_simps [simp]: "last_of p [] = p" "last_of p (xs @ [x]) = Some x"
    "last_of p (x # xs) = last_of (Some x) xs"
  by (simp_all add: last_of_def)

lemma first_of_append [simp]: "first_of (xs @ ys) q = first_of xs (first_of ys q)"
  by (cases xs) simp_all

lemma seg_append:
  "seg st p (xs @ ys) q \<longleftrightarrow> seg st p xs (first_of ys q) \<and> seg st (last_of p xs) ys q"
  by (induction xs arbitrary: p) auto

lemma seg_frame [simp]: "x \<notin> set xs \<Longrightarrow> seg (st(x \<mapsto> n)) p xs q = seg st p xs q"
  by (induction xs arbitrary: p) auto

lemma seg_nodes: "seg st p xs q \<Longrightarrow> x \<in> set xs \<Longrightarrow> \<exists>n. st x = Some n"
  by (induction xs arbitrary: p) auto

text \<open>Walking the list from its head, at most \<open>n\<close> nodes.\<close>

fun lru_walk :: "(nat \<rightharpoonup> lru_linklist_entry) \<Rightarrow> nat \<Rightarrow> nat option \<Rightarrow> nat list" where
  "lru_walk st 0 p = []"
| "lru_walk st (Suc n) p =
     (case p of
        None \<Rightarrow> []
      | Some x \<Rightarrow> x # (case st x of None \<Rightarrow> [] | Some e \<Rightarrow> lru_walk st n (le_next e)))"

lemma lru_walk_seg:
  "seg st p xs None \<Longrightarrow> length xs \<le> n \<Longrightarrow> lru_walk st n (first_of xs None) = xs"
proof (induction xs arbitrary: p n)
  case Nil
  then show ?case by (cases n) simp_all
next
  case (Cons x xs)
  then show ?case by (cases n) auto
qed

lemma seg_relink_last:
  assumes "seg st p (xs @ [l]) q" and "l \<notin> set xs" and "st l = Some n"
  shows "seg (st(l \<mapsto> n\<lparr>le_next := q'\<rparr>)) p (xs @ [l]) q'"
  using assms by (auto simp: seg_append)

lemma seg_relink_first:
  assumes "seg st p (x # xs) q" and "x \<notin> set xs" and "st x = Some n"
  shows "seg (st(x \<mapsto> n\<lparr>le_prev := p'\<rparr>)) p' (x # xs) q"
  using assms by simp

text \<open>The linked list of a map holds exactly the nodes \<open>xs\<close>, from its head to its tail.\<close>

definition lru_list :: "'m lru_var_hash_map_impl \<Rightarrow> nat list \<Rightarrow> bool" where
  "lru_list s xs \<longleftrightarrow> distinct xs \<and> seg (lru_store s) None xs None \<and>
     lru_head s = first_of xs None \<and> lru_tail s = last_of None xs"

text \<open>What the list operations leave alone: the map, the sizes, and the keys of the nodes.\<close>

definition lru_same :: "'m lru_var_hash_map_impl \<Rightarrow> 'm lru_var_hash_map_impl \<Rightarrow> bool" where
  "lru_same s s' \<longleftrightarrow> lru_map_impl s' = lru_map_impl s \<and> lru_key_size s' = lru_key_size s \<and>
     lru_value_size s' = lru_value_size s \<and> lru_max_entries s' = lru_max_entries s \<and>
     lru_fresh s' = lru_fresh s \<and>
     (\<forall>y. map_option le_key (lru_store s' y) = map_option le_key (lru_store s y))"

lemma lru_list_nodes:
  assumes "lru_list s (A @ x # B)"
  obtains e where "lru_store s x = Some e" "le_prev e = last_of None A" "le_next e = first_of B None"
    "seg (lru_store s) None A (Some x)" "seg (lru_store s) (Some x) B None"
    "x \<notin> set A" "x \<notin> set B" "set A \<inter> set B = {}" "distinct A" "distinct B"
  using assms by (auto simp: lru_list_def seg_append)

lemma move_store:
  assumes d: "distinct (h # A)" "x \<notin> set (h # A)" "x \<notin> set B" "set (h # A) \<inter> set B = {}"
    and x: "st x = Some e" and A: "seg st None (h # A) (first_of B None)"
    and B: "seg st (last_of None (h # A)) B None"
  shows "\<exists>n. (st(x \<mapsto> e\<lparr>le_next := Some h, le_prev := None\<rparr>)) h = Some n \<and>
    seg (st(x \<mapsto> e\<lparr>le_next := Some h, le_prev := None\<rparr>, h \<mapsto> n\<lparr>le_prev := Some x\<rparr>))
      None (x # (h # A) @ B) None"
proof -
  let ?st = "st(x \<mapsto> e\<lparr>le_next := Some h, le_prev := None\<rparr>)"
  have hx: "h \<noteq> x" using d(2) by auto
  obtain n where n: "st h = Some n" using A by auto
  have "seg ?st None (h # A) (first_of B None)" using A d(2) hx by simp
  from seg_relink_first [OF this, of n "Some x"] d(1) n hx
  have A': "seg (?st(h \<mapsto> n\<lparr>le_prev := Some x\<rparr>)) (Some x) (h # A) (first_of B None)" by simp
  have B': "seg (?st(h \<mapsto> n\<lparr>le_prev := Some x\<rparr>)) (last_of (Some x) (h # A)) B None"
    using B d(3,4) by simp
  have "seg (?st(h \<mapsto> n\<lparr>le_prev := Some x\<rparr>)) (Some x) ((h # A) @ B) None"
    using A' B' by (simp only: seg_append)
  then show ?thesis using n hx by (auto simp: seg_append)
qed

lemma lru_move_to_head_list:
  assumes l: "lru_list s (A @ x # B)"
  shows "\<exists>s'. lru_move_to_head x s = Ok s' \<and> lru_list s' (x # A @ B) \<and> lru_same s s'"
proof (cases A rule: rev_cases)
  case Nil
  then show ?thesis using l by (simp add: lru_move_to_head_def lru_list_def lru_same_def)
next
  case (snoc A' z)
  obtain e where e: "lru_store s x = Some e" "le_prev e = Some z" "le_next e = first_of B None"
    and A: "seg (lru_store s) None A (Some x)" and B: "seg (lru_store s) (Some x) B None"
    and d: "x \<notin> set A" "x \<notin> set B" "set A \<inter> set B = {}" "distinct A" "distinct B"
    using lru_list_nodes [OF l] snoc by (auto simp: last_of_def)
  have "A \<noteq> []" using snoc by simp
  then obtain h T where h: "A = h # T" by (auto simp: neq_Nil_conv)
  have head: "lru_head s = Some h" and tail: "lru_tail s = last_of None (A @ x # B)"
    using l h by (simp_all add: lru_list_def)
  have hx: "h \<noteq> x" using d(1) h by auto
  obtain nz where nz: "lru_store s z = Some nz" using A snoc by (auto simp: seg_append)
  let ?st1 = "(lru_store s)(z \<mapsto> nz\<lparr>le_next := first_of B None\<rparr>)"
  have A1: "seg ?st1 None A (first_of B None)"
    using seg_relink_last [of _ _ A' z] A d(4) nz snoc by simp
  have B1: "seg ?st1 (Some x) B None" and x1: "?st1 x = Some e"
    using B d snoc e(1) by auto
  have lz: "last_of None A = Some z" using snoc by simp
  show ?thesis
  proof (cases B)
    case Nil
    have "seg ?st1 (last_of None (h # T)) [] None" by simp
    with move_store [of h T x "[]" ?st1 e] A1 d x1 h Nil obtain n where
      n: "(?st1(x \<mapsto> e\<lparr>le_next := Some h, le_prev := None\<rparr>)) h = Some n"
      "seg (?st1(x \<mapsto> e\<lparr>le_next := Some h, le_prev := None\<rparr>, h \<mapsto> n\<lparr>le_prev := Some x\<rparr>))
        None (x # A @ B) None" by auto
    then show ?thesis
      using e nz head hx Nil h snoc l x1 d lz
      by (auto simp: lru_move_to_head_def lru_deref_def lru_modify_def lru_list_def lru_same_def Let_def
          last_of_def split: if_splits)
  next
    case (Cons b B')
    obtain nb where nb: "lru_store s b = Some nb" using B Cons by auto
    have bz: "b \<noteq> z" "b \<noteq> x" "b \<notin> set A" using d Cons snoc by auto
    let ?st2 = "?st1(b \<mapsto> nb\<lparr>le_prev := Some z\<rparr>)"
    have A2: "seg ?st2 None A (first_of B None)" using A1 bz(3) by simp
    have B2: "seg ?st2 (Some z) B None"
      using seg_relink_first [of ?st1 "Some x" b B' None nb "Some z"] B1 Cons d(5) nb bz(1) by auto
    have x2: "?st2 x = Some e" using x1 bz(2) by auto
    from move_store [of h T x B ?st2 e] A2 B2 d x2 h lz obtain n where
      n: "(?st2(x \<mapsto> e\<lparr>le_next := Some h, le_prev := None\<rparr>)) h = Some n"
      "seg (?st2(x \<mapsto> e\<lparr>le_next := Some h, le_prev := None\<rparr>, h \<mapsto> n\<lparr>le_prev := Some x\<rparr>))
        None (x # A @ B) None" by auto
    then show ?thesis
      using e nz head hx Cons h snoc l x2 d lz nb bz
      by (auto simp: lru_move_to_head_def lru_deref_def lru_modify_def lru_list_def lru_same_def Let_def
          last_of_def split: if_splits)
  qed
qed

lemma lru_evict_list:
  assumes l: "lru_list s (A @ x # B)"
  shows "\<exists>s'. lru_evict_entry (Some x) s = Ok s' \<and> lru_list s' (A @ B) \<and> lru_same s s'"
proof -
  obtain e where e: "lru_store s x = Some e" "le_prev e = last_of None A" "le_next e = first_of B None"
    and A: "seg (lru_store s) None A (Some x)" and B: "seg (lru_store s) (Some x) B None"
    and d: "x \<notin> set A" "x \<notin> set B" "set A \<inter> set B = {}" "distinct A" "distinct B"
    using lru_list_nodes [OF l] by blast
  have head: "lru_head s = first_of A (Some x)" and tail: "lru_tail s = last_of (Some x) B"
    using l by (auto simp: lru_list_def last_of_def)
  have hd: "lru_head s = Some x \<longleftrightarrow> A = []" "Some x = lru_head s \<longleftrightarrow> A = []"
    using d(1) head by (cases A; auto)+
  have tl: "lru_tail s = Some x \<longleftrightarrow> B = []" "Some x = lru_tail s \<longleftrightarrow> B = []"
    using d(2) tail by (auto simp: last_of_def)
  show ?thesis
  proof (cases A rule: rev_cases)
    case Anil: Nil
    show ?thesis
    proof (cases B)
      case Nil
      then show ?thesis using Anil hd(2) tl(2)
        by (simp add: lru_evict_entry_def lru_list_def lru_same_def)
    next
      case (Cons b B')
      obtain nb where nb: "lru_store s b = Some nb" using B Cons by auto
      have "seg ((lru_store s)(b \<mapsto> nb\<lparr>le_prev := None\<rparr>)) None B None"
        using seg_relink_first [of _ "Some x" b B' None nb None] B Cons nb d(5) by simp
      then show ?thesis using Anil Cons hd(1) tl(2) e nb d(5) tail
        by (simp add: lru_evict_entry_def lru_deref_def lru_modify_def lru_list_def lru_same_def)
    qed
  next
    case (snoc A' z)
    obtain nz where nz: "lru_store s z = Some nz" using A snoc by (auto simp: seg_append)
    let ?st = "(lru_store s)(z \<mapsto> nz\<lparr>le_next := first_of B None\<rparr>)"
    have A1: "seg ?st None A (first_of B None)"
      using seg_relink_last [of _ _ A' z] A d(4) nz snoc by simp
    have B1: "seg ?st (Some x) B None" using B d snoc by simp
    have lz: "last_of None A = Some z" using snoc by simp
    have head0: "lru_head s = first_of A None" using head snoc by (cases A') simp_all
    show ?thesis
    proof (cases B)
      case Nil
      have "lru_evict_entry (Some x) s = Ok (s\<lparr>lru_store := ?st, lru_tail := Some z\<rparr>)"
        using snoc Nil tl(1) hd(2) e nz by (simp add: lru_evict_entry_def lru_deref_def lru_modify_def)
      moreover have "lru_list (s\<lparr>lru_store := ?st, lru_tail := Some z\<rparr>) (A @ B)"
        using A1 d(4) head0 Nil lz by (simp add: lru_list_def)
      moreover have "lru_same s (s\<lparr>lru_store := ?st, lru_tail := Some z\<rparr>)"
        using nz by (simp add: lru_same_def)
      ultimately show ?thesis by blast
    next
      case (Cons b B')
      obtain nb where nb: "lru_store s b = Some nb" using B Cons by auto
      have bz: "b \<noteq> z" "b \<notin> set A" using d Cons snoc by auto
      have "seg (?st(b \<mapsto> nb\<lparr>le_prev := Some z\<rparr>)) (Some z) B None"
        using seg_relink_first [of ?st "Some x" b B' None nb "Some z"] B1 Cons d(5) nb bz(1) by simp
      moreover have "seg (?st(b \<mapsto> nb\<lparr>le_prev := Some z\<rparr>)) None A (first_of B None)"
        using A1 bz(2) by simp
      ultimately have sg: "seg (?st(b \<mapsto> nb\<lparr>le_prev := Some z\<rparr>)) None (A @ B) None"
        using lz by (simp add: seg_append)
      have "lru_evict_entry (Some x) s = Ok (s\<lparr>lru_store := ?st(b \<mapsto> nb\<lparr>le_prev := Some z\<rparr>)\<rparr>)"
        using snoc Cons hd(2) tl(2) e nz nb bz(1)
        by (simp add: lru_evict_entry_def lru_deref_def lru_modify_def)
      moreover have "lru_list (s\<lparr>lru_store := ?st(b \<mapsto> nb\<lparr>le_prev := Some z\<rparr>)\<rparr>) (A @ B)"
        using sg d(3-5) head0 tail Cons snoc by (cases A') (simp_all add: lru_list_def last_of_def)
      moreover have "lru_same s (s\<lparr>lru_store := ?st(b \<mapsto> nb\<lparr>le_prev := Some z\<rparr>)\<rparr>)"
        using nz nb bz(1) by (simp add: lru_same_def)
      ultimately show ?thesis by blast
    qed
  qed
qed

lemma lru_insert_list:
  assumes l: "lru_list s xs" and fresh: "lru_fresh s \<notin> set xs"
  shows "\<exists>s'. lru_insert_new_entry k s = Ok (s', lru_fresh s) \<and> lru_list s' (lru_fresh s # xs) \<and>
    lru_fresh s' = Suc (lru_fresh s) \<and> lru_map_impl s' = lru_map_impl s \<and>
    lru_key_size s' = lru_key_size s \<and> lru_value_size s' = lru_value_size s \<and>
    lru_max_entries s' = lru_max_entries s \<and>
    (\<forall>y. map_option le_key (lru_store s' y) =
       (if y = lru_fresh s then Some k else map_option le_key (lru_store s y)))"
proof (cases xs)
  case Nil
  then show ?thesis using l by (simp add: lru_insert_new_entry_def lru_list_def Let_def)
next
  case (Cons h T)
  let ?x = "lru_fresh s"
  let ?e = "\<lparr>le_key = k, le_next = Some h, le_prev = None\<rparr>"
  obtain nh where nh: "lru_store s h = Some nh" using l Cons by (auto simp: lru_list_def)
  have hx: "h \<noteq> ?x" using fresh Cons by auto
  let ?st = "(lru_store s)(?x \<mapsto> ?e, h \<mapsto> nh\<lparr>le_prev := Some ?x\<rparr>)"
  have sx: "seg ((lru_store s)(?x \<mapsto> ?e)) None xs None" and di: "distinct xs"
    and hd: "lru_head s = Some h" and tl: "lru_tail s = last_of None (?x # xs)"
    using l fresh Cons by (simp_all add: lru_list_def)
  have "seg ?st (Some ?x) xs None"
    using seg_relink_first [of "(lru_store s)(?x \<mapsto> ?e)" None h T None nh "Some ?x"] sx di Cons nh hx
    by simp
  then have sg: "seg ?st None (?x # xs) None" using Cons hx by simp
  have "lru_insert_new_entry k s = Ok (s\<lparr>lru_fresh := Suc ?x, lru_store := ?st, lru_head := Some ?x\<rparr>, ?x)"
    using hd nh hx by (simp add: lru_insert_new_entry_def lru_modify_def Let_def)
  moreover have "lru_list (s\<lparr>lru_fresh := Suc ?x, lru_store := ?st, lru_head := Some ?x\<rparr>) (?x # xs)"
    using sg di fresh tl by (simp add: lru_list_def)
  ultimately show ?thesis using nh hx by auto
qed

section \<open>The abstract cache\<close>

text \<open>A list of entries, the most recently used first; a new key drops the last one when the
  list is full.\<close>

definition cache_drop :: "bytes \<Rightarrow> (bytes \<times> bytes) list \<Rightarrow> (bytes \<times> bytes) list" where
  "cache_drop k L = filter (\<lambda>p. fst p \<noteq> k) L"

fun cache_spec ::
    "nat \<Rightarrow> (bytes \<times> bytes) list \<Rightarrow> fm_op \<Rightarrow> (bytes \<times> bytes) list \<times> pp_res" where
  "cache_spec cap L (FLookup k) =
     (case map_of L k of
        None \<Rightarrow> (L, Value (Err ENOENT))
      | Some v \<Rightarrow> ((k, v) # cache_drop k L, Value (Ok v)))"
| "cache_spec cap L (FUpdate k v flags) =
     (if \<not> is_good_update_flag flags then (L, Status (Err EINVAL))
      else if map_of L k \<noteq> None then
        if flags = BPF_NOEXIST then (L, Status (Err EEXIST))
        else ((k, v) # cache_drop k L, Status (Ok ()))
      else if flags = BPF_EXIST then (L, Status (Err ENOENT))
      else ((k, v) # (if length L = cap then butlast L else L), Status (Ok ())))"
| "cache_spec cap L (FDelete k) =
     (if map_of L k = None then (L, Status (Err ENOENT)) else (cache_drop k L, Status (Ok ())))"
| "cache_spec cap L (FLookupDelete k) = (L, Status (Err ENOTSUP))"

fun cache_ok :: "nat \<Rightarrow> nat \<Rightarrow> fm_op \<Rightarrow> bool" where
  "cache_ok kw vw (FLookupDelete k) = False"
| "cache_ok kw vw x = fm_ok kw vw x"

text \<open>One call; lookup-and-delete is not an operation of this map.\<close>

fun lru_step ::
    "'m lru_ops \<Rightarrow> 'm lru_var_hash_map_impl \<Rightarrow> fm_op \<Rightarrow> 'm lru_var_hash_map_impl \<times> pp_res" where
  "lru_step ops s (FLookup k) =
     (case lru_elem_lookup ops s k of
        Ok (s', Some v) \<Rightarrow> (s', Value (Ok v))
      | Ok (s', None) \<Rightarrow> (s', Value (Err ENOENT))
      | _ \<Rightarrow> (s, Value UB))"
| "lru_step ops s (FUpdate k v flags) =
     (case lru_elem_update ops s k v flags of Ok (s', r) \<Rightarrow> (s', Status r) | _ \<Rightarrow> (s, Status UB))"
| "lru_step ops s (FDelete k) =
     (case lru_elem_delete ops s k of Ok (s', r) \<Rightarrow> (s', Status r) | _ \<Rightarrow> (s, Status UB))"
| "lru_step ops s (FLookupDelete k) = (s, Status (Err ENOTSUP))"

section \<open>Invariant and abstraction\<close>

definition lru_entry :: "'m lru_ops \<Rightarrow> 'm lru_var_hash_map_impl \<Rightarrow> nat \<Rightarrow> bytes \<times> bytes" where
  "lru_entry ops s x =
     (case map_option le_key (lru_store s x) of
        None \<Rightarrow> ([], [])
      | Some k \<Rightarrow> (k, case um_find ops (lru_map_impl s) k of None \<Rightarrow> [] | Some (v, _) \<Rightarrow> v))"

definition lru_seq :: "'m lru_ops \<Rightarrow> 'm lru_var_hash_map_impl \<Rightarrow> (bytes \<times> bytes) list" where
  "lru_seq ops s =
     map (lru_entry ops s) (lru_walk (lru_store s) (um_size ops (lru_map_impl s)) (lru_head s))"

text \<open>The map and the list \<open>xs\<close> hold the same keys, and each points to the other.\<close>

definition lru_rep :: "'m lru_ops \<Rightarrow> 'm lru_var_hash_map_impl \<Rightarrow> nat list \<Rightarrow> bool" where
  "lru_rep ops s xs \<longleftrightarrow> um_laws ops \<and> lru_list s xs \<and> (\<forall>x\<in>set xs. x < lru_fresh s) \<and>
     (\<forall>k v x. um_find ops (lru_map_impl s) k = Some (v, x) \<longrightarrow> x \<in> set xs \<and>
        map_option le_key (lru_store s x) = Some k \<and>
        length k = lru_key_size s \<and> length v = lru_value_size s) \<and>
     (\<forall>x\<in>set xs. \<exists>k v. map_option le_key (lru_store s x) = Some k \<and>
        um_find ops (lru_map_impl s) k = Some (v, x))"

definition lru_inv :: "'m lru_ops \<Rightarrow> 'm lru_var_hash_map_impl \<Rightarrow> bool" where
  "lru_inv ops s \<longleftrightarrow> 0 < lru_max_entries s \<and> um_size ops (lru_map_impl s) \<le> lru_max_entries s \<and>
     (\<exists>xs. lru_rep ops s xs)"

lemma lru_rep_entry:
  assumes "lru_rep ops s xs" and "x \<in> set xs"
  obtains k v where "lru_entry ops s x = (k, v)" "um_find ops (lru_map_impl s) k = Some (v, x)"
    "map_option le_key (lru_store s x) = Some k"
  using assms by (fastforce simp: lru_rep_def lru_entry_def)

lemma lru_rep_keys:
  assumes r: "lru_rep ops s xs"
  shows "inj_on (fst \<circ> lru_entry ops s) (set xs)"
    and "(fst \<circ> lru_entry ops s) ` set xs = dom (um_find ops (lru_map_impl s))"
    and "length xs = um_size ops (lru_map_impl s)"
proof -
  show inj: "inj_on (fst \<circ> lru_entry ops s) (set xs)"
    by (rule inj_onI) (metis comp_apply fst_conv lru_rep_entry [OF r] option.inject prod.inject)
  show img: "(fst \<circ> lru_entry ops s) ` set xs = dom (um_find ops (lru_map_impl s))"
  proof (intro equalityI subsetI)
    fix k assume "k \<in> dom (um_find ops (lru_map_impl s))"
    then obtain v x where f: "um_find ops (lru_map_impl s) k = Some (v, x)" by auto
    then have "x \<in> set xs" "map_option le_key (lru_store s x) = Some k"
      using r by (auto simp: lru_rep_def)
    then have "k = (fst \<circ> lru_entry ops s) x" by (auto simp: lru_entry_def)
    then show "k \<in> (fst \<circ> lru_entry ops s) ` set xs" using \<open>x \<in> set xs\<close> by blast
  next
    fix k assume "k \<in> (fst \<circ> lru_entry ops s) ` set xs"
    then obtain x where x: "x \<in> set xs" "k = fst (lru_entry ops s x)" by auto
    obtain k' v where "lru_entry ops s x = (k', v)" "um_find ops (lru_map_impl s) k' = Some (v, x)"
      using lru_rep_entry [OF r x(1)] by blast
    with x(2) show "k \<in> dom (um_find ops (lru_map_impl s))" by auto
  qed
  have "distinct xs" "um_laws ops" using r by (auto simp: lru_rep_def lru_list_def)
  then show "length xs = um_size ops (lru_map_impl s)"
    using card_image [OF inj] img um_lawsD(7) [of ops] distinct_card [of xs] by metis
qed

lemma lru_seq_rep:
  assumes r: "lru_rep ops s xs"
  shows "lru_seq ops s = map (lru_entry ops s) xs"
proof -
  have "seg (lru_store s) None xs None" "lru_head s = first_of xs None"
    using r by (auto simp: lru_rep_def lru_list_def)
  then show ?thesis using lru_walk_seg [of _ None xs] lru_rep_keys(3) [OF r] by (simp add: lru_seq_def)
qed

text \<open>A key of the map splits the list at its node.\<close>

lemma lru_rep_split:
  assumes r: "lru_rep ops s xs" and f: "um_find ops (lru_map_impl s) k = Some (v, x)"
  obtains A B where "xs = A @ x # B" and "lru_entry ops s x = (k, v)"
    and "lru_seq ops s = map (lru_entry ops s) A @ (k, v) # map (lru_entry ops s) B"
    and "cache_drop k (lru_seq ops s) = map (lru_entry ops s) (A @ B)"
    and "map_of (lru_seq ops s) k = Some v"
proof -
  have x: "x \<in> set xs" "map_option le_key (lru_store s x) = Some k" using r f by (auto simp: lru_rep_def)
  then have e: "lru_entry ops s x = (k, v)" using f by (auto simp: lru_entry_def)
  obtain A B where xs: "xs = A @ x # B" using x(1) by (meson split_list)
  have d: "x \<notin> set A" "x \<notin> set B" using r xs by (auto simp: lru_rep_def lru_list_def)
  have ne: "fst (lru_entry ops s y) \<noteq> k" if "y \<in> set A \<union> set B" for y
    using inj_onD [OF lru_rep_keys(1) [OF r], of y x] that d e xs by auto
  have seq: "lru_seq ops s = map (lru_entry ops s) A @ (k, v) # map (lru_entry ops s) B"
    using lru_seq_rep [OF r] xs e by simp
  have "filter (\<lambda>p. fst p \<noteq> k) (map (lru_entry ops s) ys) = map (lru_entry ops s) ys"
    if "set ys \<subseteq> set A \<union> set B" for ys using ne that by (auto simp: filter_id_conv)
  then have dr: "cache_drop k (lru_seq ops s) = map (lru_entry ops s) (A @ B)"
    unfolding seq cache_drop_def by simp
  have "map_of (map (lru_entry ops s) A) k = None"
    using ne by (force simp: map_of_eq_None_iff)
  then have "map_of (lru_seq ops s) k = Some v" unfolding seq by (simp add: map_add_def)
  with that [OF xs e seq dr] show thesis .
qed

lemma lru_rep_absent:
  assumes r: "lru_rep ops s xs" and f: "um_find ops (lru_map_impl s) k = None"
  shows "map_of (lru_seq ops s) k = None"
  using lru_rep_keys(2) [OF r] f
  by (auto simp: lru_seq_rep [OF r] map_of_eq_None_iff image_image comp_def set_eq_iff image_iff domIff)

section \<open>The operations keep the invariant\<close>

text \<open>Entries are the same when the keys of the nodes and the map are the same.\<close>

lemma lru_entry_same:
  assumes "lru_same s s'"
  shows "lru_entry ops s' = lru_entry ops s"
proof
  fix x
  have m: "lru_map_impl s' = lru_map_impl s"
    and k: "map_option le_key (lru_store s' x) = map_option le_key (lru_store s x)"
    using assms by (simp_all add: lru_same_def)
  show "lru_entry ops s' x = lru_entry ops s x" unfolding lru_entry_def m k ..
qed

lemma lru_rep_same:
  assumes "lru_rep ops s xs" and "lru_same s s'" and "lru_list s' ys" and "set ys = set xs"
  shows "lru_rep ops s' ys"
  using assms unfolding lru_rep_def lru_same_def by simp

lemma lru_use_entry:
  assumes r: "lru_rep ops s xs" and f: "um_find ops (lru_map_impl s) k = Some (v, x)"
  shows "\<exists>s' ys. lru_move_to_head x s = Ok s' \<and> lru_rep ops s' ys \<and> lru_same s s' \<and>
    lru_seq ops s' = (k, v) # cache_drop k (lru_seq ops s)"
proof -
  obtain A B where sp: "xs = A @ x # B" "lru_entry ops s x = (k, v)"
    "cache_drop k (lru_seq ops s) = map (lru_entry ops s) (A @ B)"
    using lru_rep_split [OF r f] by metis
  have "lru_list s (A @ x # B)" using r sp(1) by (simp add: lru_rep_def)
  from lru_move_to_head_list [OF this] obtain s' where
    s': "lru_move_to_head x s = Ok s'" "lru_list s' (x # A @ B)" "lru_same s s'" by blast
  have r': "lru_rep ops s' (x # A @ B)" using lru_rep_same [OF r s'(3,2)] sp(1) by auto
  then show ?thesis using s' sp lru_seq_rep [OF r'] lru_entry_same [OF s'(3), of ops] by auto
qed

lemma lru_remove_entry:
  assumes r: "lru_rep ops s xs" and f: "um_find ops (lru_map_impl s) k = Some (v, x)"
  shows "\<exists>s' ys. lru_evict_entry (Some x) s = Ok s' \<and> lru_same s s' \<and>
    lru_rep ops (s'\<lparr>lru_map_impl := um_erase ops (lru_map_impl s) k\<rparr>) ys \<and>
    lru_seq ops (s'\<lparr>lru_map_impl := um_erase ops (lru_map_impl s) k\<rparr>) = cache_drop k (lru_seq ops s)"
proof -
  have L: "um_laws ops" using r by (simp add: lru_rep_def)
  obtain A B where sp: "xs = A @ x # B" "lru_entry ops s x = (k, v)"
    "cache_drop k (lru_seq ops s) = map (lru_entry ops s) (A @ B)"
    using lru_rep_split [OF r f] by metis
  have "lru_list s (A @ x # B)" using r sp(1) by (simp add: lru_rep_def)
  from lru_evict_list [OF this] obtain s' where
    s': "lru_evict_entry (Some x) s = Ok s'" "lru_list s' (A @ B)" "lru_same s s'" by blast
  let ?t = "s'\<lparr>lru_map_impl := um_erase ops (lru_map_impl s) k\<rparr>"
  have fd: "um_find ops (lru_map_impl ?t) = (um_find ops (lru_map_impl s))(k := None)"
    by (simp add: um_lawsD(4) [OF L])
  have d: "x \<notin> set (A @ B)" using r sp(1) by (auto simp: lru_rep_def lru_list_def)
  have kx: "map_option le_key (lru_store s x) = Some k" using r f unfolding lru_rep_def by blast
  have key: "map_option le_key (lru_store ?t y) = map_option le_key (lru_store s y)" for y
    using s'(3) by (simp add: lru_same_def)
  have ne: "\<exists>k' v'. k' \<noteq> k \<and> map_option le_key (lru_store s y) = Some k' \<and>
      um_find ops (lru_map_impl s) k' = Some (v', y)" if "y \<in> set (A @ B)" for y
  proof -
    have "y \<in> set xs" "y \<noteq> x" using that sp(1) d by auto
    with r f show ?thesis unfolding lru_rep_def by (metis option.inject prod.inject)
  qed
  have r': "lru_rep ops ?t (A @ B)"
    unfolding lru_rep_def fd key
  proof (intro conjI ballI allI impI)
    show "lru_list ?t (A @ B)" using s'(2) by (simp add: lru_list_def)
    show "y < lru_fresh ?t" if "y \<in> set (A @ B)" for y
      using r s'(3) that sp(1) by (auto simp: lru_rep_def lru_same_def)
    show "\<exists>k' v'. map_option le_key (lru_store s y) = Some k' \<and>
        ((um_find ops (lru_map_impl s))(k := None)) k' = Some (v', y)" if "y \<in> set (A @ B)" for y
      using ne [OF that] by auto
  next
    fix k' v' y assume "((um_find ops (lru_map_impl s))(k := None)) k' = Some (v', y)"
    then have k': "k' \<noteq> k" and f': "um_find ops (lru_map_impl s) k' = Some (v', y)"
      by (auto split: if_splits)
    then have y: "y \<in> set xs" "map_option le_key (lru_store s y) = Some k'"
      "length k' = lru_key_size s" "length v' = lru_value_size s"
      using r by (auto simp: lru_rep_def)
    moreover have "y \<noteq> x" using y(2) k' kx by auto
    ultimately show "y \<in> set (A @ B)" "map_option le_key (lru_store s y) = Some k'"
      "length k' = lru_key_size ?t" "length v' = lru_value_size ?t"
      using sp(1) s'(3) by (auto simp: lru_same_def)
  qed (rule L)
  have "lru_entry ops ?t y = lru_entry ops s y" if y: "y \<in> set (A @ B)" for y
  proof -
    obtain k' v' where n: "k' \<noteq> k" "map_option le_key (lru_store s y) = Some k'"
      "um_find ops (lru_map_impl s) k' = Some (v', y)" using ne [OF y] by blast
    show ?thesis unfolding lru_entry_def key n(2) fd using n(1,3) by simp
  qed
  then have "lru_seq ops ?t = cache_drop k (lru_seq ops s)"
    using lru_seq_rep [OF r'] sp(3) by simp
  then show ?thesis using s'(1,3) r' by blast
qed

lemma lru_add_entry:
  assumes r: "lru_rep ops s xs" and f: "um_find ops (lru_map_impl s) k = None"
    and k: "length k = lru_key_size s" and v: "length v = lru_value_size s"
  shows "\<exists>s' ys. lru_insert_new_entry k s = Ok (s', lru_fresh s) \<and>
    lru_map_impl s' = lru_map_impl s \<and> lru_max_entries s' = lru_max_entries s \<and>
    lru_key_size s' = lru_key_size s \<and> lru_value_size s' = lru_value_size s \<and>
    lru_rep ops (s'\<lparr>lru_map_impl := um_insert ops (lru_map_impl s) k (v, lru_fresh s)\<rparr>) ys \<and>
    lru_seq ops (s'\<lparr>lru_map_impl := um_insert ops (lru_map_impl s) k (v, lru_fresh s)\<rparr>)
      = (k, v) # lru_seq ops s"
proof -
  let ?x = "lru_fresh s"
  have L: "um_laws ops" and l: "lru_list s xs" and fr: "?x \<notin> set xs"
    using r by (auto simp: lru_rep_def)
  obtain s' where s': "lru_insert_new_entry k s = Ok (s', ?x)" "lru_list s' (?x # xs)"
    "lru_fresh s' = Suc ?x" "lru_map_impl s' = lru_map_impl s" "lru_key_size s' = lru_key_size s"
    "lru_value_size s' = lru_value_size s" "lru_max_entries s' = lru_max_entries s"
    and key: "\<And>y. map_option le_key (lru_store s' y) =
       (if y = ?x then Some k else map_option le_key (lru_store s y))"
    using lru_insert_list [OF l fr, of k] by blast
  let ?t = "s'\<lparr>lru_map_impl := um_insert ops (lru_map_impl s) k (v, ?x)\<rparr>"
  have fd: "um_find ops (lru_map_impl ?t) = (um_find ops (lru_map_impl s))(k \<mapsto> (v, ?x))"
    using f by (simp add: um_insert_find [OF L])
  have st: "lru_store ?t = lru_store s'" by simp
  have old: "\<exists>k' v'. k' \<noteq> k \<and> map_option le_key (lru_store s y) = Some k' \<and>
      um_find ops (lru_map_impl s) k' = Some (v', y)" if "y \<in> set xs" for y
    using r f that unfolding lru_rep_def by (metis option.distinct(1))
  have r': "lru_rep ops ?t (?x # xs)"
    unfolding lru_rep_def fd st key
  proof (intro conjI ballI allI impI)
    show "lru_list ?t (?x # xs)" using s'(2) by (simp add: lru_list_def)
    show "y < lru_fresh ?t" if "y \<in> set (?x # xs)" for y
      using r s'(3) that by (auto simp: lru_rep_def)
    show "\<exists>k' v'. (if y = ?x then Some k else map_option le_key (lru_store s y)) = Some k' \<and>
        ((um_find ops (lru_map_impl s))(k \<mapsto> (v, ?x))) k' = Some (v', y)" if "y \<in> set (?x # xs)" for y
      using that old [of y] fr by (cases "y = ?x") auto
  next
    fix k' v' y assume a: "((um_find ops (lru_map_impl s))(k \<mapsto> (v, ?x))) k' = Some (v', y)"
    show "y \<in> set (?x # xs)" "(if y = ?x then Some k else map_option le_key (lru_store s y)) = Some k'"
      "length k' = lru_key_size ?t" "length v' = lru_value_size ?t"
      using a r k v s'(5,6) fr unfolding lru_rep_def by (cases "k' = k"; fastforce)+
  qed (rule L)
  have ex: "lru_entry ops ?t ?x = (k, v)"
    unfolding lru_entry_def st key fd by simp
  have "lru_entry ops ?t y = lru_entry ops s y" if y: "y \<in> set xs" for y
  proof -
    obtain k' v' where n: "k' \<noteq> k" "map_option le_key (lru_store s y) = Some k'"
      "um_find ops (lru_map_impl s) k' = Some (v', y)" using old [OF y] by blast
    have "y \<noteq> ?x" using y fr by auto
    then have "map_option le_key (lru_store ?t y) = Some k'" using key n(2) by simp
    then show ?thesis unfolding lru_entry_def n(2) fd using n(1,3) by auto
  qed
  then have "lru_seq ops ?t = (k, v) # lru_seq ops s"
    using lru_seq_rep [OF r'] lru_seq_rep [OF r] ex by simp
  then show ?thesis using s' r' by blast
qed

text \<open>Evicting a node does not read or change the map.\<close>

lemma lru_evict_erase:
  assumes "lru_evict_entry x s = Ok s'"
  shows "lru_evict_entry x (s\<lparr>lru_map_impl := m\<rparr>) = Ok (s'\<lparr>lru_map_impl := m\<rparr>)"
  using assms
  by (auto simp: lru_evict_entry_def lru_deref_def lru_modify_def of_option_def
      split: if_splits option.splits)

text \<open>Making room drops the last entry when the map is full.\<close>

lemma lru_make_room_seq:
  assumes inv: "lru_inv ops s"
  shows "\<exists>s' ys. lru_make_room ops s = Ok s' \<and> lru_rep ops s' ys \<and>
    lru_max_entries s' = lru_max_entries s \<and> lru_key_size s' = lru_key_size s \<and>
    lru_value_size s' = lru_value_size s \<and> um_size ops (lru_map_impl s') < lru_max_entries s \<and>
    (\<forall>k. um_find ops (lru_map_impl s) k = None \<longrightarrow> um_find ops (lru_map_impl s') k = None) \<and>
    lru_seq ops s' = (if length (lru_seq ops s) = lru_max_entries s then butlast (lru_seq ops s)
                      else lru_seq ops s)"
proof -
  obtain xs where r: "lru_rep ops s xs" using inv by (auto simp: lru_inv_def)
  have L: "um_laws ops" using r by (simp add: lru_rep_def)
  have len: "length (lru_seq ops s) = um_size ops (lru_map_impl s)"
    using lru_seq_rep [OF r] lru_rep_keys(3) [OF r] by simp
  show ?thesis
  proof (cases "um_size ops (lru_map_impl s) = lru_max_entries s")
    case False
    then show ?thesis using r len inv by (auto simp: lru_make_room_def lru_inv_def)
  next
    case full: True
    then have "xs \<noteq> []" using lru_rep_keys(3) [OF r] inv by (auto simp: lru_inv_def)
    then obtain A x where xs: "xs = A @ [x]" by (meson rev_exhaust)
    have tail: "lru_tail s = Some x" using r xs by (auto simp: lru_rep_def lru_list_def)
    obtain k v where e: "lru_entry ops s x = (k, v)" "um_find ops (lru_map_impl s) k = Some (v, x)"
      "map_option le_key (lru_store s x) = Some k"
      using lru_rep_entry [OF r, of x] xs by auto
    then obtain n where n: "lru_store s x = Some n" "le_key n = k" by auto
    obtain s' ys where s': "lru_evict_entry (Some x) s = Ok s'" "lru_same s s'"
      "lru_rep ops (s'\<lparr>lru_map_impl := um_erase ops (lru_map_impl s) k\<rparr>) ys"
      "lru_seq ops (s'\<lparr>lru_map_impl := um_erase ops (lru_map_impl s) k\<rparr>) = cache_drop k (lru_seq ops s)"
      using lru_remove_entry [OF r e(2)] by blast
    obtain A' B' where sp: "xs = A' @ x # B'" "cache_drop k (lru_seq ops s) = map (lru_entry ops s) (A' @ B')"
      using lru_rep_split [OF r e(2)] by metis
    have "x \<notin> set B'" using r sp(1) by (auto simp: lru_rep_def lru_list_def)
    then have "B' = []" using xs sp(1) by (cases B' rule: rev_cases) auto
    then have AB: "A' = A" "B' = []" using xs sp(1) by simp_all
    have seq: "cache_drop k (lru_seq ops s) = butlast (lru_seq ops s)"
      using sp(2) AB lru_seq_rep [OF r] xs by simp
    have mr: "lru_make_room ops s = Ok (s'\<lparr>lru_map_impl := um_erase ops (lru_map_impl s) k\<rparr>)"
      using full tail n lru_evict_erase [OF s'(1)] by (simp add: lru_make_room_def lru_deref_def)
    have "length ys = length (lru_seq ops s) - 1"
      using lru_seq_rep [OF s'(3)] s'(4) seq by (metis length_butlast length_map)
    then have "um_size ops (um_erase ops (lru_map_impl s) k) < lru_max_entries s"
      using lru_rep_keys(3) [OF s'(3)] len full inv by (simp add: lru_inv_def)
    then show ?thesis using mr s'(2,3,4) seq len full um_lawsD(4) [OF L]
      by (auto simp: lru_same_def)
  qed
qed

lemma um_size_less_insert:
  assumes "um_laws ops" and "um_size ops m < n"
  shows "um_size ops (um_insert ops m k v) \<le> n"
proof -
  have "card (dom (um_find ops (um_insert ops m k v))) \<le> Suc (card (dom (um_find ops m)))"
    using um_lawsD(6) [OF assms(1), of m]
    by (auto simp: um_insert_find [OF assms(1)] card_insert_if)
  then show ?thesis using assms(2) um_lawsD(7) [OF assms(1)] by simp
qed

text \<open>Assigning a new value to a key leaves the list and the other entries alone.\<close>

lemma lru_assign_rep:
  assumes r: "lru_rep ops s xs" and f: "um_find ops (lru_map_impl s) k = Some (v, y)"
    and v': "length v' = lru_value_size s"
  defines "t \<equiv> s\<lparr>lru_map_impl := um_insert_or_assign ops (lru_map_impl s) k (v', y)\<rparr>"
  shows "lru_rep ops t xs" and "cache_drop k (lru_seq ops t) = cache_drop k (lru_seq ops s)"
    and "um_find ops (lru_map_impl t) k = Some (v', y)"
    and "um_size ops (lru_map_impl t) = um_size ops (lru_map_impl s)"
proof -
  have L: "um_laws ops" using r by (simp add: lru_rep_def)
  have fd: "um_find ops (lru_map_impl t) = (um_find ops (lru_map_impl s))(k \<mapsto> (v', y))"
    by (simp add: t_def um_lawsD(3) [OF L])
  then show fk: "um_find ops (lru_map_impl t) k = Some (v', y)" by simp
  have st: "lru_store t = lru_store s" "lru_fresh t = lru_fresh s" "lru_key_size t = lru_key_size s"
    "lru_value_size t = lru_value_size s" by (simp_all add: t_def)
  have l: "lru_list t xs" using r by (simp add: lru_rep_def lru_list_def t_def)
  have kx: "y \<in> set xs" "map_option le_key (lru_store s y) = Some k" "length k = lru_key_size s"
    using r f unfolding lru_rep_def by blast+
  show r': "lru_rep ops t xs"
    unfolding lru_rep_def fd st
  proof (intro conjI ballI allI impI)
    show "z < lru_fresh s" if "z \<in> set xs" for z using r that by (simp add: lru_rep_def)
    show "\<exists>k' w. map_option le_key (lru_store s z) = Some k' \<and>
        ((um_find ops (lru_map_impl s))(k \<mapsto> (v', y))) k' = Some (w, z)" if "z \<in> set xs" for z
      using r that f unfolding lru_rep_def by (metis (no_types, lifting) fun_upd_apply kx(2) option.inject prod.inject)
  next
    fix k' w z assume a: "((um_find ops (lru_map_impl s))(k \<mapsto> (v', y))) k' = Some (w, z)"
    show "z \<in> set xs" "map_option le_key (lru_store s z) = Some k'" "length k' = lru_key_size s"
      "length w = lru_value_size s"
      using a kx v' r unfolding lru_rep_def by (cases "k' = k"; fastforce)+
  qed (use L l in simp_all)
  obtain A B where sp: "xs = A @ y # B" "cache_drop k (lru_seq ops s) = map (lru_entry ops s) (A @ B)"
    using lru_rep_split [OF r f] by metis
  obtain A' B' where sp': "xs = A' @ y # B'" "cache_drop k (lru_seq ops t) = map (lru_entry ops t) (A' @ B')"
    using lru_rep_split [OF r' fk] by metis
  have "distinct xs" using r by (simp add: lru_rep_def lru_list_def)
  then have AB: "A' = A" "B' = B"
    using sp(1) sp'(1) append_Cons_eq_iff [of y A B A' B'] by auto
  have "lru_entry ops t z = lru_entry ops s z" if "z \<in> set (A @ B)" for z
  proof -
    have z: "z \<in> set xs" "z \<noteq> y" using that sp(1) \<open>distinct xs\<close> by auto
    obtain k' w where n: "map_option le_key (lru_store s z) = Some k'"
      "um_find ops (lru_map_impl s) k' = Some (w, z)" using lru_rep_entry [OF r z(1)] by metis
    have "k' \<noteq> k" using n(2) f z(2) by auto
    then show ?thesis unfolding lru_entry_def st n(1) fd by simp
  qed
  then show "cache_drop k (lru_seq ops t) = cache_drop k (lru_seq ops s)" using sp(2) sp'(2) AB by simp
  show "um_size ops (lru_map_impl t) = um_size ops (lru_map_impl s)"
    using lru_rep_keys(3) [OF r] lru_rep_keys(3) [OF r'] by simp
qed

definition lru_sim :: "'m lru_ops \<Rightarrow> 'm lru_var_hash_map_impl \<Rightarrow> fm_op \<Rightarrow> bool" where
  "lru_sim ops s x \<longleftrightarrow> lru_inv ops (fst (lru_step ops s x)) \<and>
    lru_key_size (fst (lru_step ops s x)) = lru_key_size s \<and>
    lru_value_size (fst (lru_step ops s x)) = lru_value_size s \<and>
    lru_max_entries (fst (lru_step ops s x)) = lru_max_entries s \<and>
    (lru_seq ops (fst (lru_step ops s x)), snd (lru_step ops s x))
      = cache_spec (lru_max_entries s) (lru_seq ops s) x"

lemma lru_lookup_sim:
  assumes inv: "lru_inv ops s" and k: "length k = lru_key_size s"
  shows "lru_sim ops s (FLookup k)"
proof -
  obtain xs where r: "lru_rep ops s xs" using inv by (auto simp: lru_inv_def)
  show ?thesis
  proof (cases "um_find ops (lru_map_impl s) k")
    case None
    then show ?thesis using k inv lru_rep_absent [OF r None]
      by (simp add: lru_elem_lookup_def read_all lru_sim_def)
  next
    case (Some p)
    obtain v y where p: "p = (v, y)" by fastforce
    have f: "um_find ops (lru_map_impl s) k = Some (v, y)" using Some p by simp
    have mo: "map_of (lru_seq ops s) k = Some v" using lru_rep_split [OF r f] by metis
    obtain s' ys where s': "lru_move_to_head y s = Ok s'" "lru_rep ops s' ys" "lru_same s s'"
      "lru_seq ops s' = (k, v) # cache_drop k (lru_seq ops s)" using lru_use_entry [OF r f] by blast
    then show ?thesis using k f mo inv
      by (auto simp: lru_elem_lookup_def read_all lru_inv_def lru_same_def lru_sim_def)
  qed
qed

lemma lru_delete_sim:
  assumes inv: "lru_inv ops s" and k: "length k = lru_key_size s"
  shows "lru_sim ops s (FDelete k)"
proof -
  obtain xs where r: "lru_rep ops s xs" using inv by (auto simp: lru_inv_def)
  have L: "um_laws ops" using r by (simp add: lru_rep_def)
  show ?thesis
  proof (cases "um_find ops (lru_map_impl s) k")
    case None
    then show ?thesis using k inv lru_rep_absent [OF r None]
      by (simp add: lru_elem_delete_def read_all lru_sim_def)
  next
    case (Some p)
    obtain v y where p: "p = (v, y)" by fastforce
    have f: "um_find ops (lru_map_impl s) k = Some (v, y)" using Some p by simp
    have mo: "map_of (lru_seq ops s) k = Some v" using lru_rep_split [OF r f] by metis
    obtain s' ys where s': "lru_evict_entry (Some y) s = Ok s'" "lru_same s s'"
      "lru_rep ops (s'\<lparr>lru_map_impl := um_erase ops (lru_map_impl s) k\<rparr>) ys"
      "lru_seq ops (s'\<lparr>lru_map_impl := um_erase ops (lru_map_impl s) k\<rparr>) = cache_drop k (lru_seq ops s)"
      using lru_remove_entry [OF r f] by blast
    have "um_size ops (um_erase ops (lru_map_impl s) k) \<le> lru_max_entries s"
      using inv um_lawsD(4,6,7) [OF L] card_Diff1_le [of "dom (um_find ops (lru_map_impl s))" k]
      by (simp add: lru_inv_def order_trans)
    then show ?thesis using k f mo inv s'
      by (auto simp: lru_elem_delete_def read_all lru_inv_def lru_same_def lru_sim_def)
  qed
qed

lemma lru_update_sim:
  assumes inv: "lru_inv ops s" and k: "length k = lru_key_size s" and v: "length v = lru_value_size s"
  shows "lru_sim ops s (FUpdate k v flags)"
proof -
  obtain xs where r: "lru_rep ops s xs" using inv by (auto simp: lru_inv_def)
  have L: "um_laws ops" using r by (simp add: lru_rep_def)
  show ?thesis
  proof (cases "um_find ops (lru_map_impl s) k")
    case (Some p)
    obtain w y where p: "p = (w, y)" by fastforce
    have f: "um_find ops (lru_map_impl s) k = Some (w, y)" using Some p by simp
    have mo: "map_of (lru_seq ops s) k = Some w" using lru_rep_split [OF r f] by metis
    note T = lru_assign_rep [OF r f v]
    obtain s' ys where s': "lru_move_to_head y
        (s\<lparr>lru_map_impl := um_insert_or_assign ops (lru_map_impl s) k (v, y)\<rparr>) = Ok s'"
      "lru_rep ops s' ys"
      "lru_same (s\<lparr>lru_map_impl := um_insert_or_assign ops (lru_map_impl s) k (v, y)\<rparr>) s'"
      "lru_seq ops s' = (k, v) # cache_drop k (lru_seq ops s)"
      using lru_use_entry [OF T(1,3)] T(2) by auto
    then show ?thesis using k v f mo inv T(4)
      by (auto simp: lru_elem_update_def read_all lru_inv_def lru_same_def lru_sim_def)
  next
    case None
    have mo: "map_of (lru_seq ops s) k = None" by (rule lru_rep_absent [OF r None])
    obtain s1 ys where s1: "lru_make_room ops s = Ok s1" "lru_rep ops s1 ys"
      "lru_max_entries s1 = lru_max_entries s" "lru_key_size s1 = lru_key_size s"
      "lru_value_size s1 = lru_value_size s" "um_size ops (lru_map_impl s1) < lru_max_entries s"
      "um_find ops (lru_map_impl s1) k = None"
      "lru_seq ops s1 = (if length (lru_seq ops s) = lru_max_entries s then butlast (lru_seq ops s)
                        else lru_seq ops s)"
      using lru_make_room_seq [OF inv] None by blast
    obtain s2 zs where s2: "lru_insert_new_entry k s1 = Ok (s2, lru_fresh s1)"
      "lru_map_impl s2 = lru_map_impl s1" "lru_max_entries s2 = lru_max_entries s1"
      "lru_key_size s2 = lru_key_size s1" "lru_value_size s2 = lru_value_size s1"
      "lru_rep ops (s2\<lparr>lru_map_impl := um_insert ops (lru_map_impl s1) k (v, lru_fresh s1)\<rparr>) zs"
      "lru_seq ops (s2\<lparr>lru_map_impl := um_insert ops (lru_map_impl s1) k (v, lru_fresh s1)\<rparr>)
        = (k, v) # lru_seq ops s1"
      using lru_add_entry [OF s1(2,7)] k v s1(4,5) by metis
    have "um_size ops (um_insert ops (lru_map_impl s1) k (v, lru_fresh s1)) \<le> lru_max_entries s"
      using um_size_less_insert [OF L s1(6)] .
    then show ?thesis using k v None mo inv s1 s2
      by (auto simp: lru_elem_update_def read_all lru_inv_def lru_sim_def)
  qed
qed

section \<open>The map implements the cache\<close>

lemma lru_step_simulates:
  assumes "lru_inv ops s" and "cache_ok (lru_key_size s) (lru_value_size s) x"
  shows "lru_sim ops s x"
  using assms lru_lookup_sim [of ops s] lru_update_sim [of ops s] lru_delete_sim [of ops s]
  by (cases x) simp_all

interpretation lrum: simulation "lru_inv ops" "lru_seq ops"
  "\<lambda>s. cache_ok (lru_key_size s) (lru_value_size s)" "lru_step ops" "\<lambda>s. cache_spec (lru_max_entries s)"
  for ops
  using lru_step_simulates unfolding lru_sim_def by unfold_locales auto

lemma lru_new_inv:
  assumes "um_laws ops" and "0 < n"
  shows "lru_inv ops (lru_var_hash_map_impl_new ops kw vw n)"
    and "lru_seq ops (lru_var_hash_map_impl_new ops kw vw n) = []"
proof -
  let ?s = "lru_var_hash_map_impl_new ops kw vw n"
  have r: "lru_rep ops ?s []"
    using assms um_lawsD(5) [OF assms(1)]
    by (simp add: lru_rep_def lru_list_def lru_var_hash_map_impl_new_def)
  show "lru_seq ops ?s = []" using lru_seq_rep [OF r] by simp
  show "lru_inv ops ?s"
    using r lru_rep_keys(3) [OF r] assms(2) by (auto simp: lru_inv_def lru_var_hash_map_impl_new_def)
qed

section \<open>Properties\<close>

text \<open>C2: every sequence of lookups, updates and deletes on a fresh LRU hash map with
  \<open>max_entries > 0\<close> returns what an ideal cache returns that keeps its entries in order of use
  and drops the least recently used one when a new key does not fit. The pointer surgery on
  the doubly linked list never follows a null pointer.\<close>

theorem lru_refines_cache:
  assumes "um_laws ops" and "0 < n" and "\<forall>x\<in>set xs. cache_ok kw vw x"
  shows "snd (run (lru_step ops) (lru_var_hash_map_impl_new ops kw vw n) xs)
    = snd (run (cache_spec n) [] xs)"
  using lrum.sim_run [OF lru_new_inv(1) [OF assms(1,2)], of xs kw vw] assms(3)
    lru_new_inv(2) [OF assms(1,2), of kw vw]
  by (simp add: prod_eq_iff lru_var_hash_map_impl_new_def)

theorem lru_refines_cache_witness:
  "snd (run (lru_step al_ops) (lru_var_hash_map_impl_new al_ops 1 1 2)
     [FUpdate [1] [7] 0, FUpdate [2] [8] 0, FLookup [1], FUpdate [3] [9] 0, FLookup [2], FLookup [1],
      FDelete [1], FLookup [1], FLookup [3]])
   = [Status (Ok ()), Status (Ok ()), Value (Ok [7]), Status (Ok ()), Value (Err ENOENT),
      Value (Ok [7]), Status (Ok ()), Value (Err ENOENT), Value (Ok [9])]"
  using lru_refines_cache [OF al_laws, of 2 "[FUpdate [1] [7] 0, FUpdate [2] [8] 0, FLookup [1],
      FUpdate [3] [9] 0, FLookup [2], FLookup [1], FDelete [1], FLookup [1], FLookup [3]]" 1 1]
  by (simp add: is_good_update_flag_def flag_defs cache_drop_def)

text \<open>Calls that leave the key \<open>k\<close> alone.\<close>

fun cache_other :: "bytes \<Rightarrow> fm_op \<Rightarrow> bool" where
  "cache_other k (FUpdate k' v flags) = (k' \<noteq> k)"
| "cache_other k (FDelete k') = (k' \<noteq> k)"
| "cache_other k _ = True"

definition cache_depth :: "nat \<Rightarrow> bytes \<Rightarrow> bytes \<Rightarrow> nat \<Rightarrow> (bytes \<times> bytes) list \<Rightarrow> bool" where
  "cache_depth cap k v i L \<longleftrightarrow>
     (\<exists>A B. L = A @ (k, v) # B \<and> k \<notin> fst ` set A \<and> length A \<le> i \<and> length L \<le> cap)"

lemma cache_depth_find: "cache_depth cap k v i L \<Longrightarrow> map_of L k = Some v"
proof -
  assume "cache_depth cap k v i L"
  then obtain A B where L: "L = A @ (k, v) # B" "k \<notin> fst ` set A" by (auto simp: cache_depth_def)
  then have "map_of A k = None" by (simp add: map_of_eq_None_iff)
  then show ?thesis by (simp add: L(1) map_add_def)
qed

lemma cache_depth_head: "length R < cap \<Longrightarrow> cache_depth cap k v i ((k, v) # R)"
  unfolding cache_depth_def by (rule exI [of _ "[]"], rule exI [of _ R]) simp

lemma cache_drop_length:
  assumes "map_of L k \<noteq> None"
  shows "length (cache_drop k L) < length L"
proof -
  have "\<exists>p\<in>set L. fst p = k" using assms by (metis fst_conv map_of_SomeD not_None_eq)
  then show ?thesis by (auto simp: cache_drop_def intro: length_filter_less)
qed

text \<open>An entry moves down by at most one place with every call that does not use it.\<close>

lemma cache_depth_push:
  assumes "cache_depth cap k v i L" and "k' \<noteq> k" and "map_of L k' \<noteq> None"
  shows "cache_depth cap k v (Suc i) ((k', w) # cache_drop k' L)"
    and "cache_depth cap k v (Suc i) (cache_drop k' L)"
proof -
  obtain A B where L: "L = A @ (k, v) # B" "k \<notin> fst ` set A" "length A \<le> i" "length L \<le> cap"
    using assms(1) by (auto simp: cache_depth_def)
  have drop: "cache_drop k' L = cache_drop k' A @ (k, v) # cache_drop k' B"
    using L(1) assms(2) by (simp add: cache_drop_def)
  have lenA: "length (cache_drop k' A) \<le> i"
    using order_trans [OF length_filter_le L(3)] by (simp add: cache_drop_def)
  have lenL: "length (cache_drop k' L) < cap" using cache_drop_length [OF assms(3)] L(4) by simp
  have subA: "k \<notin> fst ` set (cache_drop k' A)" using L(2) by (auto simp: cache_drop_def)
  show "cache_depth cap k v (Suc i) ((k', w) # cache_drop k' L)"
    unfolding cache_depth_def using drop lenA lenL subA assms(2)
    by (intro exI [of _ "(k', w) # cache_drop k' A"] exI [of _ "cache_drop k' B"]) auto
  show "cache_depth cap k v (Suc i) (cache_drop k' L)"
    unfolding cache_depth_def using drop lenA lenL subA
    by (intro exI [of _ "cache_drop k' A"] exI [of _ "cache_drop k' B"]) auto
qed

lemma cache_depth_insert:
  assumes "cache_depth cap k v i L" and "k' \<noteq> k" and "Suc i < cap"
  shows "cache_depth cap k v (Suc i) ((k', w) # (if length L = cap then butlast L else L))"
proof -
  obtain A B where L: "L = A @ (k, v) # B" "k \<notin> fst ` set A" "length A \<le> i" "length L \<le> cap"
    using assms(1) by (auto simp: cache_depth_def)
  show ?thesis
  proof (cases "length L = cap")
    case True
    then have B: "B \<noteq> []" using L assms(3) by auto
    then have "Suc (length (butlast B)) = length B" by simp
    moreover from B have "butlast L = A @ (k, v) # butlast B" using L(1) by (simp add: butlast_append)
    ultimately show ?thesis unfolding cache_depth_def using True L assms(2)
      by (intro exI [of _ "(k', w) # A"] exI [of _ "butlast B"]) (auto simp del: length_butlast)
  next
    case False
    then show ?thesis unfolding cache_depth_def using L assms(2)
      by (intro exI [of _ "(k', w) # A"] exI [of _ B]) auto
  qed
qed

lemma cache_depth_step:
  assumes d: "cache_depth cap k v i L" and o: "cache_other k x" and lt: "Suc i < cap"
  shows "cache_depth cap k v (Suc i) (fst (cache_spec cap L x))"
proof -
  have keep: "cache_depth cap k v (Suc i) L" using d by (auto simp: cache_depth_def)
  have mo: "map_of L k = Some v" by (rule cache_depth_find [OF d])
  have "length L \<le> cap" using d by (auto simp: cache_depth_def)
  then have head: "cache_depth cap k v (Suc i) ((k, v) # cache_drop k L)"
    using cache_drop_length [of L k] mo by (intro cache_depth_head) simp
  show ?thesis
  proof (cases x)
    case (FLookup k')
    then show ?thesis using keep cache_depth_push(1) [OF d, of k'] mo head
      by (cases "k' = k") (auto split: option.splits)
  next
    case (FUpdate k' w flags)
    then show ?thesis using o keep cache_depth_push(1) [OF d, of k'] cache_depth_insert [OF d _ lt, of k']
      by simp
  next
    case (FDelete k')
    then show ?thesis using o keep cache_depth_push(2) [OF d, of k'] by simp
  qed (use keep in simp)
qed

lemma cache_depth_run:
  assumes "cache_depth cap k v i L" and "\<forall>x\<in>set xs. cache_other k x" and "i + length xs < cap"
  shows "cache_depth cap k v (i + length xs) (fst (run (cache_spec cap) L xs))"
  using assms
proof (induction xs arbitrary: i L)
  case (Cons x xs)
  obtain L' r where L': "cache_spec cap L x = (L', r)" by fastforce
  have "cache_depth cap k v (Suc i) L'"
    using cache_depth_step [of cap k v i L x] Cons.prems L' by simp
  from Cons.IH [OF this] Cons.prems show ?case
    by (cases "run (cache_spec cap) L' xs") (simp add: L')
qed simp

text \<open>C23: an entry that has just been written survives the next \<open>max_entries - 1\<close> calls that do
  not overwrite or delete it, whatever they are, and a lookup after them returns its value.\<close>

theorem lru_recent_survives:
  assumes "lru_inv ops s" and "length k = lru_key_size s" and "length v = lru_value_size s"
    and "snd (lru_step ops s (FUpdate k v flags)) = Status (Ok ())"
    and "\<forall>x\<in>set xs. cache_ok (lru_key_size s) (lru_value_size s) x"
    and "\<forall>x\<in>set xs. cache_other k x" and "length xs < lru_max_entries s"
  shows "last (snd (run (lru_step ops) s (FUpdate k v flags # xs @ [FLookup k]))) = Value (Ok v)"
proof -
  let ?n = "lru_max_entries s" and ?u = "FUpdate k v flags"
  obtain ys where r: "lru_rep ops s ys" using assms(1) by (auto simp: lru_inv_def)
  have len: "length (lru_seq ops s) \<le> ?n"
    using assms(1) lru_seq_rep [OF r] lru_rep_keys(3) [OF r] by (simp add: lru_inv_def)
  obtain L where L: "cache_spec ?n (lru_seq ops s) ?u = (L, Status (Ok ()))"
    using lru_update_sim [OF assms(1-3), of flags] assms(4) unfolding lru_sim_def
    by (metis prod.exhaust snd_conv)
  have "cache_depth ?n k v 0 L"
    using L len assms(7) cache_drop_length [of "lru_seq ops s" k]
    by (auto split: if_splits intro!: cache_depth_head)
  from cache_depth_run [OF this assms(6)] assms(7)
  have "cache_depth ?n k v (length xs) (fst (run (cache_spec ?n) L xs))" by simp
  then have mo: "map_of (fst (run (cache_spec ?n) L xs)) k = Some v" by (rule cache_depth_find)
  have ok: "\<forall>x\<in>set (?u # xs @ [FLookup k]). cache_ok (lru_key_size s) (lru_value_size s) x"
    using assms(2,3,5) by simp
  have "snd (run (lru_step ops) s (?u # xs @ [FLookup k]))
      = snd (run (cache_spec ?n) (lru_seq ops s) (?u # xs @ [FLookup k]))"
    using lrum.sim_run [OF assms(1) ok] by (metis snd_conv)
  also have "last \<dots> = Value (Ok v)"
    using mo L by (cases "run (cache_spec ?n) L xs")
      (simp del: cache_spec.simps(2) add: run_append)
  finally show ?thesis .
qed

text \<open>a map that was created with \<open>max_entries = 0\<close> follows the null tail pointer on the
  first update.\<close>

theorem lru_zero_entries:
  assumes "um_laws ops" and "length k = kw"
  shows "lru_elem_update ops (lru_var_hash_map_impl_new ops kw vw 0) k v BPF_ANY = UB"
  using assms um_lawsD(5) [OF assms(1)] um_lawsD(7) [OF assms(1), of "um_empty ops"]
  by (simp add: lru_elem_update_def lru_var_hash_map_impl_new_def read_all is_good_update_flag_def
      flag_defs lru_make_room_def lru_deref_def)

theorem lru_zero_entries_witness:
  "lru_elem_update al_ops (lru_var_hash_map_impl_new al_ops 1 1 0) [1] [2] BPF_ANY = UB"
  by (rule lru_zero_entries [OF al_laws]) simp

theorem lru_recent_survives_witness:
  "last (snd (run (lru_step al_ops) (lru_var_hash_map_impl_new al_ops 1 1 2)
     (FUpdate [1] [7] 0 # [FUpdate [2] [8] 0] @ [FLookup [1]]))) = Value (Ok [7])"
proof (rule lru_recent_survives)
  show "lru_inv al_ops (lru_var_hash_map_impl_new al_ops 1 1 2)"
    by (rule lru_new_inv(1) [OF al_laws]) simp
  show "snd (lru_step al_ops (lru_var_hash_map_impl_new al_ops 1 1 2) (FUpdate [1] [7] 0)) = Status (Ok ())"
    using lru_update_sim [OF lru_new_inv(1) [OF al_laws, of 2 1 1], of "[1]" "[7]" 0]
      lru_new_inv(2) [OF al_laws, of 2 1 1]
    by (simp add: lru_sim_def lru_var_hash_map_impl_new_def is_good_update_flag_def flag_defs)
qed (simp_all add: lru_var_hash_map_impl_new_def)

end
