(* ===== verification/Lpm_Trie.thy ===== *)
theory Lpm_Trie
  imports Unordered_Map "HOL-Library.Sublist"
begin

text \<open>
  The longest-prefix-match trie of \<open>lpm_trie_map.cpp\<close>. A node owns its two children, so the
  linked nodes are a value of a datatype and a slot of the code (\<open>node_unique_ptr *\<close>) is the
  place in the tree where a recursive call stands. A node keeps the key bytes followed by the
  value bytes in one vector; an intermediate node has no value bytes. The spin lock makes every
  call atomic; \<open>memory.construct\<close> is taken to find space. The theory holds the model and the
  facts on the matching loop; \<open>Lpm_Table\<close> proves the map correct.
\<close>

unbundle bit_operations_syntax

section \<open>The node and the map\<close>

text \<open>The field \<open>flags\<close> of a node is never read and is left out.\<close>

datatype lpm_trie_node =
    LNull
  | LNode (child0: lpm_trie_node) (child1: lpm_trie_node) (prefixlen: nat)
      (is_intermediate: bool) (node_data: bytes)

record lpm_trie_map_impl =
  lpm_key_size :: nat
  lpm_value_size :: nat
  lpm_max_entries :: nat
  lpm_data_size :: nat
  lpm_max_prefixlen :: nat
  lpm_root :: lpm_trie_node
  lpm_n_entries :: nat

definition LPM_KEY_SIZE_MIN :: nat where "LPM_KEY_SIZE_MIN = 5"
definition LPM_KEY_SIZE_MAX :: nat where "LPM_KEY_SIZE_MAX = 260"

definition lpm_trie_map_impl_new :: "nat \<Rightarrow> nat \<Rightarrow> nat \<Rightarrow> lpm_trie_map_impl outcome" where
  "lpm_trie_map_impl_new key_size value_size max_entries =
     (if key_size < LPM_KEY_SIZE_MIN \<or> LPM_KEY_SIZE_MAX < key_size then Thrown
      else if value_size = 0 \<or> max_entries = 0 then Thrown
      else Ok \<lparr>lpm_key_size = key_size, lpm_value_size = value_size,
        lpm_max_entries = max_entries, lpm_data_size = key_size - 4,
        lpm_max_prefixlen = (key_size - 4) * 8, lpm_root = LNull, lpm_n_entries = 0\<rparr>)"

definition extract_bit :: "nat \<Rightarrow> bytes \<Rightarrow> nat \<Rightarrow> nat" where
  "extract_bit data_size data index =
     (if data_size * 8 \<le> index then 0
      else unat (drop_bit (7 - index mod 8) (data ! (index div 8)) AND 1))"

function lpm_match_loop :: "nat \<Rightarrow> bytes \<Rightarrow> bytes \<Rightarrow> nat \<Rightarrow> nat \<Rightarrow> nat" where
  "lpm_match_loop ds a b limit matched =
     (if matched < limit \<and> extract_bit ds a matched = extract_bit ds b matched
      then lpm_match_loop ds a b limit (Suc matched) else matched)"
  by pat_completeness auto
termination
  by (relation "measure (\<lambda>(ds, a, b, limit, matched). limit - matched)") auto

declare lpm_match_loop.simps [simp del]

text \<open>The arguments are the prefix length and the bytes of the node and of the key.\<close>

definition longest_prefix_match :: "nat \<Rightarrow> nat \<Rightarrow> bytes \<Rightarrow> nat \<Rightarrow> bytes \<Rightarrow> nat" where
  "longest_prefix_match ds p d plen kd = lpm_match_loop ds d kd (min p plen) 0"

definition lpm_copy_value_data :: "nat \<Rightarrow> bytes \<Rightarrow> bytes \<Rightarrow> bytes" where
  "lpm_copy_value_data ds d v = patch d ds v"

definition lpm_copy_key_data :: "bytes \<Rightarrow> bytes \<Rightarrow> bytes" where
  "lpm_copy_key_data d kd = patch d 0 kd"

text \<open>\<open>create_node\<close> gives the vector of the new node; its length is zero-filled by
  \<open>resize\<close>.\<close>

definition lpm_create_node :: "nat \<Rightarrow> nat \<Rightarrow> bytes option \<Rightarrow> bool \<Rightarrow> bytes" where
  "lpm_create_node ds vs val im =
     (case val of
        Some v \<Rightarrow> if im then replicate ds 0 else lpm_copy_value_data ds (replicate (ds + vs) 0) v
      | None \<Rightarrow> replicate ds 0)"

definition lpm_new_node :: "nat \<Rightarrow> nat \<Rightarrow> nat \<Rightarrow> bytes \<Rightarrow> bytes \<Rightarrow> lpm_trie_node \<Rightarrow> lpm_trie_node \<Rightarrow>
    lpm_trie_node" where
  "lpm_new_node ds vs plen kd v l r =
     LNode l r plen False (lpm_copy_key_data (lpm_create_node ds vs (Some v) False) kd)"

text \<open>The intermediate node above \<open>this\<close> and \<open>new\<close>, which part at bit \<open>m\<close>.\<close>

definition lpm_split :: "nat \<Rightarrow> nat \<Rightarrow> nat \<Rightarrow> bytes \<Rightarrow> lpm_trie_node \<Rightarrow> lpm_trie_node \<Rightarrow> lpm_trie_node" where
  "lpm_split ds vs m kd new this =
     (let d = lpm_copy_key_data (lpm_create_node ds vs None True) kd in
      if extract_bit ds kd m \<noteq> 0 then LNode this new m True d else LNode new this m True d)"

section \<open>The operations\<close>

text \<open>\<open>*(bpf_lpm_trie_key *)key\<close>: the prefix length and the \<open>_data_size\<close> key bytes.\<close>

definition lpm_read_key :: "nat \<Rightarrow> bytes \<Rightarrow> (nat \<times> bytes) outcome" where
  "lpm_read_key ds key = bind_out (read_u32 key) (\<lambda>plen.
     bind_out (of_option (read_at key 4 ds)) (\<lambda>kd. Ok (plen, kd)))"

primrec lpm_lookup_walk :: "nat \<Rightarrow> nat \<Rightarrow> bytes \<Rightarrow> lpm_trie_node option \<Rightarrow> lpm_trie_node \<Rightarrow>
    lpm_trie_node option" where
  "lpm_lookup_walk ds plen kd found LNull = found"
| "lpm_lookup_walk ds plen kd found (LNode l r p im d) =
     (let m = longest_prefix_match ds p d plen kd;
          found' = (if \<not> im then Some (LNode l r p im d) else found) in
      if m = ds * 8 then Some (LNode l r p im d)
      else if m < p then found
      else if m < plen then
        (if extract_bit ds kd p \<noteq> 0 then lpm_lookup_walk ds plen kd found' r
         else lpm_lookup_walk ds plen kd found' l)
      else found')"

definition lpm_node_value :: "nat \<Rightarrow> nat \<Rightarrow> lpm_trie_node option \<Rightarrow> bytes outcome" where
  "lpm_node_value ds vs found =
     (case found of
        Some (LNode l r p im d) \<Rightarrow> if im then Err ENOENT else of_option (read_at d ds vs)
      | _ \<Rightarrow> Err ENOENT)"

definition lpm_elem_lookup :: "lpm_trie_map_impl \<Rightarrow> bytes option \<Rightarrow> bytes outcome" where
  "lpm_elem_lookup s key =
     (case key of None \<Rightarrow> Err EINVAL
      | Some key \<Rightarrow> bind_out (lpm_read_key (lpm_data_size s) key) (\<lambda>(plen, kd).
          if lpm_max_prefixlen s < plen then Err EINVAL
          else lpm_node_value (lpm_data_size s) (lpm_value_size s)
                 (lpm_lookup_walk (lpm_data_size s) plen kd None (lpm_root s))))"

text \<open>The checks before a new node is made, the same in every case of \<open>elem_update\<close>.\<close>

definition lpm_may_add :: "nat \<Rightarrow> nat \<Rightarrow> nat \<Rightarrow> unit outcome" where
  "lpm_may_add flags n max_entries =
     (if flags = 2 then Err ENOENT else if max_entries \<le> n then Err ENOSPC else Ok ())"

text \<open>The cases of \<open>elem_update\<close> after its loop, on the contents of the slot it stopped at;
  the results are the new contents and the new count.\<close>

fun lpm_place :: "nat \<Rightarrow> nat \<Rightarrow> nat \<Rightarrow> nat \<Rightarrow> nat \<Rightarrow> bytes \<Rightarrow> bytes \<Rightarrow> nat \<Rightarrow> lpm_trie_node \<Rightarrow>
    (lpm_trie_node \<times> nat) outcome" where
  "lpm_place ds vs cap n plen kd v flags LNull =
     bind_out (lpm_may_add flags n cap) (\<lambda>_. Ok (lpm_new_node ds vs plen kd v LNull LNull, n + 1))"
| "lpm_place ds vs cap n plen kd v flags (LNode l r p im d) =
     (let m = longest_prefix_match ds p d plen kd in
      if p = plen then
        (if m = plen then
           (if flags = 1 then Err EEXIST
            else if flags = 2 \<and> im then Err ENOENT
            else if im then
              (if cap \<le> n then Err ENOSPC
               else Ok (LNode l r p False
                      (lpm_copy_value_data ds (take (ds + vs) d @ replicate (ds + vs - length d) 0) v),
                    n + 1))
            else Ok (LNode l r p False (lpm_copy_value_data ds d v), n))
         else bind_out (lpm_may_add flags n cap) (\<lambda>_.
           Ok (lpm_split ds vs m kd (lpm_new_node ds vs plen kd v LNull LNull) (LNode l r p im d), n + 1)))
      else if m = plen then
        bind_out (lpm_may_add flags n cap) (\<lambda>_.
          Ok (if extract_bit ds d m \<noteq> 0 then lpm_new_node ds vs plen kd v LNull (LNode l r p im d)
              else lpm_new_node ds vs plen kd v (LNode l r p im d) LNull, n + 1))
      else bind_out (lpm_may_add flags n cap) (\<lambda>_.
        Ok (lpm_split ds vs m kd (lpm_new_node ds vs plen kd v LNull LNull) (LNode l r p im d), n + 1)))"

text \<open>The loop of \<open>elem_update\<close>: down to the slot, and the path above it as it was.\<close>

primrec lpm_update_walk :: "nat \<Rightarrow> nat \<Rightarrow> nat \<Rightarrow> nat \<Rightarrow> nat \<Rightarrow> bytes \<Rightarrow> bytes \<Rightarrow> nat \<Rightarrow> lpm_trie_node \<Rightarrow>
    (lpm_trie_node \<times> nat) outcome" where
  "lpm_update_walk ds vs cap n plen kd v flags LNull =
     lpm_place ds vs cap n plen kd v flags LNull"
| "lpm_update_walk ds vs cap n plen kd v flags (LNode l r p im d) =
     (let m = longest_prefix_match ds p d plen kd in
      if p \<noteq> m \<or> p = plen \<or> p = ds * 8
      then lpm_place ds vs cap n plen kd v flags (LNode l r p im d)
      else if extract_bit ds kd p \<noteq> 0
      then bind_out (lpm_update_walk ds vs cap n plen kd v flags r) (\<lambda>(r', n'). Ok (LNode l r' p im d, n'))
      else bind_out (lpm_update_walk ds vs cap n plen kd v flags l) (\<lambda>(l', n'). Ok (LNode l' r p im d, n')))"

definition lpm_elem_update :: "lpm_trie_map_impl \<Rightarrow> bytes option \<Rightarrow> bytes option \<Rightarrow> nat \<Rightarrow>
    lpm_trie_map_impl \<times> unit outcome" where
  "lpm_elem_update s key val flags =
     (case (key, val) of
        (Some key, Some v) \<Rightarrow>
          (if flags \<noteq> 0 \<and> flags \<noteq> 1 \<and> flags \<noteq> 2 then (s, Err EINVAL)
           else case bind_out (lpm_read_key (lpm_data_size s) key) (\<lambda>(plen, kd).
                  if lpm_max_prefixlen s < plen then Err EINVAL
                  else bind_out (of_option (read_at v 0 (lpm_value_size s))) (\<lambda>v.
                    lpm_update_walk (lpm_data_size s) (lpm_value_size s) (lpm_max_entries s)
                      (lpm_n_entries s) plen kd v flags (lpm_root s))) of
             Ok (t, n) \<Rightarrow> (s\<lparr>lpm_root := t, lpm_n_entries := n\<rparr>, Ok ())
           | Err e \<Rightarrow> (s, Err e) | Thrown \<Rightarrow> (s, Thrown) | UB \<Rightarrow> (s, UB) | NoReturn \<Rightarrow> (s, NoReturn))
      | _ \<Rightarrow> (s, Err EINVAL))"

primrec lpm_delete_walk :: "nat \<Rightarrow> nat \<Rightarrow> bytes \<Rightarrow> lpm_trie_node \<Rightarrow> lpm_trie_node outcome" where
  "lpm_delete_walk ds plen kd LNull = Err ENOENT"
| "lpm_delete_walk ds plen kd (LNode l r p im d) =
     (let m = longest_prefix_match ds p d plen kd in
      if p \<noteq> m \<or> p = plen
      then (if p \<noteq> plen \<or> m \<noteq> p \<or> im then Err ENOENT else Ok (LNode l r p True (take ds d)))
      else if extract_bit ds kd p \<noteq> 0
      then bind_out (lpm_delete_walk ds plen kd r) (\<lambda>r'. Ok (LNode l r' p im d))
      else bind_out (lpm_delete_walk ds plen kd l) (\<lambda>l'. Ok (LNode l' r p im d)))"

definition lpm_elem_delete :: "lpm_trie_map_impl \<Rightarrow> bytes option \<Rightarrow>
    lpm_trie_map_impl \<times> unit outcome" where
  "lpm_elem_delete s key =
     (case key of None \<Rightarrow> (s, Err EINVAL)
      | Some key \<Rightarrow>
          (case bind_out (lpm_read_key (lpm_data_size s) key) (\<lambda>(plen, kd).
                  if lpm_max_prefixlen s < plen then Err EINVAL
                  else lpm_delete_walk (lpm_data_size s) plen kd (lpm_root s)) of
             Ok t \<Rightarrow> (s\<lparr>lpm_root := t,
                lpm_n_entries := (if 0 < lpm_n_entries s then lpm_n_entries s - 1 else 0)\<rparr>, Ok ())
           | Err e \<Rightarrow> (s, Err e) | Thrown \<Rightarrow> (s, Thrown) | UB \<Rightarrow> (s, UB) | NoReturn \<Rightarrow> (s, NoReturn)))"

primrec lpm_leftmost :: "nat \<Rightarrow> lpm_trie_node \<Rightarrow> bytes outcome" where
  "lpm_leftmost ds LNull = Err ENOENT"
| "lpm_leftmost ds (LNode l r p im d) =
     (if \<not> im then bind_out (of_option (read_at d 0 ds)) (\<lambda>kd. Ok (le_bytes 4 p @ kd))
      else if l \<noteq> LNull then lpm_leftmost ds l else lpm_leftmost ds r)"

text \<open>The flag says whether \<open>next_key\<close> is not null.\<close>

definition lpm_map_get_next_key :: "lpm_trie_map_impl \<Rightarrow> bytes option \<Rightarrow> bool \<Rightarrow> bytes outcome" where
  "lpm_map_get_next_key s key has_next =
     (if \<not> has_next then Err EINVAL
      else if lpm_root s = LNull then Err ENOENT
      else case key of None \<Rightarrow> lpm_leftmost (lpm_data_size s) (lpm_root s)
           | Some _ \<Rightarrow> Err ENOENT)"

definition lpm_map_push_elem :: "lpm_trie_map_impl \<Rightarrow> bytes \<Rightarrow> nat \<Rightarrow> unit outcome" where
  "lpm_map_push_elem s v flags = Err ENOTSUP"

definition lpm_map_pop_elem :: "lpm_trie_map_impl \<Rightarrow> bytes outcome" where
  "lpm_map_pop_elem s = Err ENOTSUP"

definition lpm_map_peek_elem :: "lpm_trie_map_impl \<Rightarrow> bytes outcome" where
  "lpm_map_peek_elem s = Err ENOTSUP"

section \<open>Prefixes as bit strings\<close>

definition lpm_bits :: "nat \<Rightarrow> bytes \<Rightarrow> nat \<Rightarrow> bool list" where
  "lpm_bits ds d n = map (\<lambda>i. extract_bit ds d i \<noteq> 0) [0..<n]"

lemma extract_bit_le: "extract_bit ds d i \<le> 1"
proof -
  have "unat (w AND 1) \<le> 1" for w :: byte
    by (metis and.commute and_one_eq mod2_eq_if one_and_eq unat_1 unat_0 le_refl zero_le)
  then show ?thesis by (simp add: extract_bit_def)
qed

lemma extract_bit_eq: "extract_bit ds a i = extract_bit ds b j \<longleftrightarrow>
    (extract_bit ds a i \<noteq> 0) = (extract_bit ds b j \<noteq> 0)"
  using extract_bit_le [of ds a i] extract_bit_le [of ds b j] by linarith

lemma length_lpm_bits [simp]: "length (lpm_bits ds d n) = n"
  by (simp add: lpm_bits_def)

lemma lpm_bits_nth: "i < n \<Longrightarrow> lpm_bits ds d n ! i = (extract_bit ds d i \<noteq> 0)"
  by (simp add: lpm_bits_def)

lemma take_lpm_bits: "take k (lpm_bits ds d n) = lpm_bits ds d (min k n)"
  by (simp add: lpm_bits_def take_map min_def)

lemma lpm_bits_Suc: "lpm_bits ds d (Suc n) = lpm_bits ds d n @ [extract_bit ds d n \<noteq> 0]"
  by (simp add: lpm_bits_def)

text \<open>Only the first \<open>_data_size\<close> bytes of a vector count.\<close>

lemma lpm_bits_cong:
  assumes "take ds a = take ds b"
  shows "lpm_bits ds a n = lpm_bits ds b n"
proof -
  have "a ! j = b ! j" if "j < ds" for j using assms that by (metis nth_take)
  then show ?thesis by (simp add: lpm_bits_def extract_bit_def)
qed

lemma lpm_bits_append: "length kd = ds \<Longrightarrow> lpm_bits ds (kd @ v) n = lpm_bits ds kd n"
  by (rule lpm_bits_cong) simp

lemma lpm_bits_take: "lpm_bits ds (take ds d) n = lpm_bits ds d n"
  by (rule lpm_bits_cong) simp

lemma prefix_lpm_bits: "m \<le> n \<Longrightarrow> prefix (lpm_bits ds d m) (lpm_bits ds d n)"
  by (metis min.absorb1 take_lpm_bits take_is_prefix)

lemma prefix_lpm_bits_iff:
  "prefix (lpm_bits ds a m) (lpm_bits ds b n) \<longleftrightarrow> m \<le> n \<and> lpm_bits ds a m = lpm_bits ds b m"
proof
  assume p: "prefix (lpm_bits ds a m) (lpm_bits ds b n)"
  then have "m \<le> n" using prefix_length_le by fastforce
  with p show "m \<le> n \<and> lpm_bits ds a m = lpm_bits ds b m"
    by (metis append_eq_conv_conj length_lpm_bits min.absorb1 prefix_def take_lpm_bits)
qed (use prefix_lpm_bits in auto)

section \<open>The matching loop\<close>

lemma lpm_match_loop_spec:
  assumes "i \<le> limit" and "lpm_bits ds a i = lpm_bits ds b i"
  defines "m \<equiv> lpm_match_loop ds a b limit i"
  shows "m \<le> limit \<and> lpm_bits ds a m = lpm_bits ds b m \<and>
    (m < limit \<longrightarrow> (extract_bit ds a m \<noteq> 0) = (extract_bit ds b m = 0))"
  using assms(1,2) unfolding m_def
proof (induction ds a b limit i rule: lpm_match_loop.induct)
  case (1 ds a b limit i)
  show ?case
  proof (cases "i < limit \<and> extract_bit ds a i = extract_bit ds b i")
    case True
    then show ?thesis using 1 by (simp add: lpm_match_loop.simps [of ds a b limit i] lpm_bits_Suc)
  next
    case False
    then show ?thesis using "1.prems" extract_bit_eq [of ds a i b i]
      by (auto simp: lpm_match_loop.simps [of ds a b limit i])
  qed
qed

lemma longest_prefix_match_spec:
  assumes "longest_prefix_match ds p d plen kd = m"
  shows "m \<le> p" "m \<le> plen" "lpm_bits ds d m = lpm_bits ds kd m"
    "m < p \<Longrightarrow> m < plen \<Longrightarrow> (extract_bit ds d m \<noteq> 0) = (extract_bit ds kd m = 0)"
  using lpm_match_loop_spec [of 0 "min p plen" ds d kd] assms
  by (auto simp: longest_prefix_match_def lpm_bits_def)

text \<open>The three outcomes of a comparison: the node is a prefix of the key, the key is a prefix
  of the node, or they part at bit \<open>m\<close>.\<close>

lemma longest_prefix_match_node:
  "longest_prefix_match ds p d plen kd = p \<longleftrightarrow> prefix (lpm_bits ds d p) (lpm_bits ds kd plen)"
proof -
  obtain m where m: "longest_prefix_match ds p d plen kd = m" by blast
  note spec = longest_prefix_match_spec [OF m]
  have "m = p" if "p \<le> plen" "lpm_bits ds d p = lpm_bits ds kd p"
  proof (rule ccontr)
    assume "m \<noteq> p"
    then have "m < p" "m < plen" using spec(1) that(1) by simp_all
    with spec(4) that(2) show False by (metis lpm_bits_nth)
  qed
  then show ?thesis using spec m by (auto simp: prefix_lpm_bits_iff)
qed

lemma longest_prefix_match_commute:
  "longest_prefix_match ds p d plen kd = longest_prefix_match ds plen kd p d"
proof -
  have "lpm_match_loop ds a b limit i = lpm_match_loop ds b a limit i" for a b limit i
    by (induction ds a b limit i rule: lpm_match_loop.induct)
      (simp add: lpm_match_loop.simps eq_commute)
  then show ?thesis by (simp add: longest_prefix_match_def min.commute)
qed

lemma longest_prefix_match_key:
  "longest_prefix_match ds p d plen kd = plen \<longleftrightarrow> prefix (lpm_bits ds kd plen) (lpm_bits ds d p)"
  using longest_prefix_match_node [of ds plen kd p d] longest_prefix_match_commute by metis

lemma lpm_next_bit:
  assumes "prefix (lpm_bits ds d p) (lpm_bits ds kd plen)" and "p < plen"
  shows "prefix (lpm_bits ds d p @ [extract_bit ds kd p \<noteq> 0]) (lpm_bits ds kd plen)"
  using assms prefix_lpm_bits [of "Suc p" plen ds kd]
  by (simp add: prefix_lpm_bits_iff lpm_bits_Suc)

lemma lpm_split_ctx:
  assumes "prefix c (lpm_bits ds d p)" and "prefix c (lpm_bits ds kd plen)"
    and m: "longest_prefix_match ds p d plen kd = m" "m < p" "m < plen"
  shows "prefix c (lpm_bits ds kd m)"
    and "prefix (lpm_bits ds kd m @ [extract_bit ds kd m \<noteq> 0]) (lpm_bits ds kd plen)"
    and "prefix (lpm_bits ds kd m @ [extract_bit ds kd m = 0]) (lpm_bits ds d p)"
proof -
  note spec = longest_prefix_match_spec [OF m(1)]
  have c: "c = lpm_bits ds d (length c)" "c = lpm_bits ds kd (length c)" "length c \<le> p"
    using assms(1,2) prefix_length_le [OF assms(1)] prefix_length_le [OF assms(2)]
    by (metis append_eq_conv_conj length_lpm_bits min.absorb1 prefix_def take_lpm_bits)+
  have "length c \<le> m"
  proof (rule ccontr)
    assume "\<not> length c \<le> m"
    then have "m < length c" by simp
    then have "(extract_bit ds d m \<noteq> 0) = (extract_bit ds kd m \<noteq> 0)"
      using c(1,2) by (metis lpm_bits_nth)
    with spec(4) m(2,3) show False by auto
  qed
  then show "prefix c (lpm_bits ds kd m)" using c(2) by (metis prefix_lpm_bits)
  show "prefix (lpm_bits ds kd m @ [extract_bit ds kd m \<noteq> 0]) (lpm_bits ds kd plen)"
    using prefix_lpm_bits [of "Suc m" plen ds kd] m(3) by (simp add: lpm_bits_Suc)
  show "prefix (lpm_bits ds kd m @ [extract_bit ds kd m = 0]) (lpm_bits ds d p)"
    using prefix_lpm_bits [of "Suc m" p ds d] m(2,3) spec(3,4) by (simp add: lpm_bits_Suc)
qed

end
