(* ===== verification/Lpm_Table.thy ===== *)
theory Lpm_Table
  imports Lpm_Trie
begin

text \<open>
  The trie of \<open>lpm_trie_map.cpp\<close> implements a table from bit strings to values with
  longest-prefix lookup: the invariant of the nodes, the table a tree stands for, what lookup,
  update and deletion do to it, and the refinement over sequences of calls. The last sections
  show where the promise ends: what a deletion leaves behind, and the key iteration.
\<close>

section \<open>The trie as a table\<close>

text \<open>Every prefix of a subtree extends the bits \<open>c\<close> that lead to it.\<close>

primrec lpm_wf :: "nat \<Rightarrow> nat \<Rightarrow> bool list \<Rightarrow> lpm_trie_node \<Rightarrow> bool" where
  "lpm_wf ds vs c LNull = True"
| "lpm_wf ds vs c (LNode l r p im d) =
     (p \<le> ds * 8 \<and> length d = (if im then ds else ds + vs) \<and> prefix c (lpm_bits ds d p) \<and>
      lpm_wf ds vs (lpm_bits ds d p @ [False]) l \<and> lpm_wf ds vs (lpm_bits ds d p @ [True]) r)"

primrec lpm_table :: "nat \<Rightarrow> lpm_trie_node \<Rightarrow> bool list \<rightharpoonup> bytes" where
  "lpm_table ds LNull = Map.empty"
| "lpm_table ds (LNode l r p im d) =
     (\<lambda>q. if q = lpm_bits ds d p then (if im then None else Some (drop ds d))
          else if prefix (lpm_bits ds d p @ [False]) q then lpm_table ds l q
          else if prefix (lpm_bits ds d p @ [True]) q then lpm_table ds r q
          else None)"

text \<open>No node of maximal length is intermediate.\<close>

primrec lpm_no_ghost :: "nat \<Rightarrow> lpm_trie_node \<Rightarrow> bool" where
  "lpm_no_ghost ds LNull = True"
| "lpm_no_ghost ds (LNode l r p im d) =
     ((im \<longrightarrow> p < ds * 8) \<and> lpm_no_ghost ds l \<and> lpm_no_ghost ds r)"

lemma lpm_wf_weaken:
  "lpm_wf ds vs c (LNode l r p im d) \<Longrightarrow> prefix c' (lpm_bits ds d p) \<Longrightarrow> lpm_wf ds vs c' (LNode l r p im d)"
  by simp

lemma lpm_table_node: "lpm_table ds (LNode l r p im d) q \<noteq> None \<Longrightarrow> prefix (lpm_bits ds d p) q"
  by (auto split: if_splits dest: append_prefixD)

lemma lpm_table_None: "\<not> prefix (lpm_bits ds d p) q \<Longrightarrow> lpm_table ds (LNode l r p im d) q = None"
  using lpm_table_node by blast

lemma lpm_table_ctx:
  assumes "lpm_wf ds vs c t" and "lpm_table ds t q \<noteq> None"
  shows "prefix c q"
proof (cases t)
  case (LNode l r p im d)
  then have "prefix c (lpm_bits ds d p)" using assms(1) by simp
  moreover have "prefix (lpm_bits ds d p) q" using assms(2) lpm_table_node LNode by blast
  ultimately show ?thesis by (rule prefix_order.trans)
qed (use assms in simp)

lemma lpm_table_outside: "lpm_wf ds vs c t \<Longrightarrow> \<not> prefix c q \<Longrightarrow> lpm_table ds t q = None"
  using lpm_table_ctx by blast

lemma map_add_singleton: "m k = None \<Longrightarrow> [k \<mapsto> v] ++ m = m(k \<mapsto> v)"
  by (auto simp: map_add_def split: option.splits)

lemma prefix_branch: "prefix (c @ [b]) q \<Longrightarrow> prefix (c @ [b']) q \<longleftrightarrow> b' = b"
  by (auto simp: prefix_def)

lemma prefix_branch_neq: "prefix (c @ [b]) q \<Longrightarrow> q \<noteq> c"
  by (auto simp: prefix_def)

lemma finite_lpm_table: "finite (dom (lpm_table ds t))"
proof (induction t)
  case (LNode l r p im d)
  have "dom (lpm_table ds (LNode l r p im d)) \<subseteq>
      insert (lpm_bits ds d p) (dom (lpm_table ds l) \<union> dom (lpm_table ds r))"
    by (auto split: if_splits)
  then show ?case by (rule finite_subset) (use LNode in simp)
qed simp

section \<open>Longest match in a table\<close>

primrec lpm_best_upto :: "(bool list \<rightharpoonup> 'v) \<Rightarrow> bool list \<Rightarrow> nat \<Rightarrow> 'v option" where
  "lpm_best_upto m q 0 = m []"
| "lpm_best_upto m q (Suc n) =
     (case m (take (Suc n) q) of Some v \<Rightarrow> Some v | None \<Rightarrow> lpm_best_upto m q n)"

definition lpm_best :: "(bool list \<rightharpoonup> 'v) \<Rightarrow> bool list \<Rightarrow> 'v option" where
  "lpm_best m q = lpm_best_upto m q (length q)"

lemma lpm_best_upto_None: "lpm_best_upto m q n = None \<longleftrightarrow> (\<forall>i\<le>n. m (take i q) = None)"
  by (induction n) (auto simp: le_Suc_eq split: option.splits)

lemma lpm_best_upto_Some:
  "lpm_best_upto m q n = Some v \<longleftrightarrow>
     (\<exists>i\<le>n. m (take i q) = Some v \<and> (\<forall>j. i < j \<and> j \<le> n \<longrightarrow> m (take j q) = None))"
proof (induction n)
  case (Suc n)
  show ?case
  proof (cases "m (take (Suc n) q)")
    case None
    then show ?thesis using Suc by (auto simp: le_Suc_eq)
  next
    case (Some w)
    then show ?thesis by (auto simp: le_Suc_eq)
  qed
qed auto

lemma prefix_take_iff: "prefix p q \<longleftrightarrow> length p \<le> length q \<and> p = take (length p) q"
  by (metis append_eq_conv_conj prefix_def prefix_length_le take_is_prefix)

text \<open>\<open>lpm_best\<close> is the value of the longest prefix of \<open>q\<close> that the table has.\<close>

lemma lpm_best_None: "lpm_best m q = None \<longleftrightarrow> (\<forall>p. prefix p q \<longrightarrow> m p = None)"
  unfolding lpm_best_def lpm_best_upto_None
  by (metis length_take min.absorb2 prefix_take_iff take_is_prefix)

lemma lpm_best_Some:
  "lpm_best m q = Some v \<longleftrightarrow>
     (\<exists>p. prefix p q \<and> m p = Some v \<and> (\<forall>p'. prefix p' q \<and> m p' \<noteq> None \<longrightarrow> length p' \<le> length p))"
  (is "?L = ?R")
proof
  assume ?L
  then obtain i where i: "i \<le> length q" "m (take i q) = Some v"
      "\<forall>j. i < j \<and> j \<le> length q \<longrightarrow> m (take j q) = None"
    unfolding lpm_best_def lpm_best_upto_Some by blast
  have "length p' \<le> i" if "prefix p' q" "m p' \<noteq> None" for p'
    using i(3) that by (metis not_le_imp_less prefix_take_iff)
  then show ?R using i(1,2) take_is_prefix [of i q] by (intro exI [of _ "take i q"]) simp
next
  assume ?R
  then obtain p where p: "prefix p q" "m p = Some v"
      "\<forall>p'. prefix p' q \<and> m p' \<noteq> None \<longrightarrow> length p' \<le> length p" by blast
  have "m (take j q) = None" if "length p < j" "j \<le> length q" for j
    using p(3) that take_is_prefix [of j q] by (metis length_take min.absorb2 not_le)
  then show ?L unfolding lpm_best_def lpm_best_upto_Some
    using p(1,2) by (metis prefix_take_iff)
qed

lemma lpm_best_none_below:
  assumes "\<And>x. m x \<noteq> None \<Longrightarrow> prefix c x" and "\<not> prefix c q"
  shows "lpm_best m q = None"
  using assms prefix_order.trans unfolding lpm_best_None by blast

text \<open>The longest match at a node is the one in the child, and the node itself otherwise.\<close>

lemma lpm_best_step:
  assumes own: "prefix c q" and sub: "\<And>x. prefix x q \<Longrightarrow> m x = (if x = c then own else m' x)"
    and below: "\<And>x. m' x \<noteq> None \<Longrightarrow> prefix c x \<and> x \<noteq> c"
  shows "lpm_best m q = (case lpm_best m' q of Some v \<Rightarrow> Some v | None \<Rightarrow> own)"
proof (cases "lpm_best m' q")
  case None
  then have none: "m' x = None" if "prefix x q" for x using that by (simp add: lpm_best_None)
  have mc: "m c = own" using sub [OF own] by simp
  have only: "m x = None" if "prefix x q" "x \<noteq> c" for x using sub [OF that(1)] none that by simp
  have "lpm_best m q = own"
  proof (cases own)
    case None
    then have "m x = None" if "prefix x q" for x using only [OF that] mc by metis
    then show ?thesis using None by (simp add: lpm_best_None)
  next
    case (Some v)
    then show ?thesis using own mc only unfolding Some lpm_best_Some by (metis order_refl)
  qed
  with None show ?thesis by simp
next
  case (Some v)
  then obtain p where p: "prefix p q" "m' p = Some v"
      "\<And>x. prefix x q \<Longrightarrow> m' x \<noteq> None \<Longrightarrow> length x \<le> length p" by (auto simp: lpm_best_Some)
  have pc: "prefix c p" "p \<noteq> c" using below p(2) by auto
  have "length x \<le> length p" if "prefix x q" "m x \<noteq> None" for x
    using that sub [OF that(1)] p(3) [OF that(1)] prefix_length_le [OF pc(1)]
    by (auto split: if_splits)
  moreover have "m p = Some v" using sub [OF p(1)] pc p(2) by simp
  ultimately have "lpm_best m q = Some v" using p(1) by (auto simp: lpm_best_Some)
  with Some show ?thesis by simp
qed

section \<open>Lookup\<close>

definition lpm_res :: "bytes option \<Rightarrow> bytes outcome" where
  "lpm_res x = (case x of None \<Rightarrow> Err ENOENT | Some v \<Rightarrow> Ok v)"

abbreviation lpm_own :: "nat \<Rightarrow> bool \<Rightarrow> bytes \<Rightarrow> bytes option" where
  "lpm_own ds im d \<equiv> (if im then None else Some (drop ds d))"

lemma lpm_node_value_node:
  "lpm_wf ds vs c (LNode l r p im d) \<Longrightarrow>
     lpm_node_value ds vs (Some (LNode l r p im d)) = lpm_res (lpm_own ds im d)"
  by (simp add: lpm_node_value_def lpm_res_def read_at_def)

lemma lpm_table_child:
  assumes wf: "lpm_wf ds vs c (LNode l r p im d)"
    and q: "prefix (lpm_bits ds d p @ [b]) q" and x: "prefix x q \<or> prefix (lpm_bits ds d p @ [b]) x"
  shows "lpm_table ds (LNode l r p im d) x =
    (if x = lpm_bits ds d p then lpm_own ds im d else lpm_table ds (if b then r else l) x)"
proof -
  let ?P = "lpm_bits ds d p"
  have other: "\<not> prefix (?P @ [\<not> b]) x"
  proof
    assume px: "prefix (?P @ [\<not> b]) x"
    with x have "prefix (?P @ [\<not> b]) q \<or> prefix (?P @ [b]) x" using prefix_order.trans by blast
    with px q prefix_branch show False by metis
  qed
  have "lpm_wf ds vs (?P @ [b]) (if b then r else l)" using wf by (cases b) simp_all
  then have "\<not> prefix (?P @ [b]) x \<Longrightarrow> lpm_table ds (if b then r else l) x = None"
    using lpm_table_ctx by blast
  with other show ?thesis by (cases b) simp_all
qed

lemma lpm_best_self:
  assumes "lpm_wf ds vs c (LNode l r p im d)"
  shows "lpm_best (lpm_table ds (LNode l r p im d)) (lpm_bits ds d p) = lpm_own ds im d"
proof -
  let ?t = "LNode l r p im d" and ?P = "lpm_bits ds d p"
  have "lpm_table ds ?t x = (if x = ?P then lpm_own ds im d else Map.empty x)" if "prefix x ?P" for x
  proof (cases "x = ?P")
    case False
    then have "lpm_table ds ?t x = None" using lpm_table_node [of ds l r p im d x] that
      by (meson prefix_order.antisym)
    with False show ?thesis by simp
  qed simp
  then have "lpm_best (lpm_table ds ?t) ?P =
      (case lpm_best Map.empty ?P of Some v \<Rightarrow> Some v | None \<Rightarrow> lpm_own ds im d)"
    by (intro lpm_best_step) simp_all
  also have "lpm_best Map.empty ?P = (None :: bytes option)" by (simp add: lpm_best_None)
  finally show ?thesis by simp
qed

lemma lpm_lookup_walk_best:
  assumes "lpm_wf ds vs c t" and "lpm_no_ghost ds t" and "plen \<le> ds * 8"
    and "lpm_node_value ds vs found = lpm_res own"
  shows "lpm_node_value ds vs (lpm_lookup_walk ds plen kd found t) =
    lpm_res (case lpm_best (lpm_table ds t) (lpm_bits ds kd plen) of Some v \<Rightarrow> Some v | None \<Rightarrow> own)"
  using assms
proof (induction t arbitrary: c found own)
  case LNull
  have "lpm_best Map.empty (lpm_bits ds kd plen) = (None :: bytes option)" by (simp add: lpm_best_None)
  then show ?case using LNull by simp
next
  case (LNode l r p im d)
  let ?t = "LNode l r p im d" and ?P = "lpm_bits ds d p" and ?q = "lpm_bits ds kd plen"
  obtain m where m: "longest_prefix_match ds p d plen kd = m" by blast
  note spec = longest_prefix_match_spec [OF m]
  have pmax: "p \<le> ds * 8" using LNode.prems(1) by simp
  have val: "lpm_node_value ds vs (Some ?t) = lpm_res (lpm_own ds im d)"
    by (rule lpm_node_value_node [OF LNode.prems(1)])
  define found' where "found' = (if \<not> im then Some ?t else found)"
  have found': "lpm_node_value ds vs found' = lpm_res (if im then own else Some (drop ds d))"
    using val LNode.prems(4) by (cases im) (simp_all add: found'_def)
  consider (full) "m = ds * 8" | (part) "m < ds * 8" "m < p" | (here) "m < ds * 8" "m = p" "p = plen"
    | (down) "m < ds * 8" "m = p" "p < plen"
    using spec pmax by linarith
  then show ?case
  proof cases
    case full
    then have eq: "p = m" "plen = m" using spec(1,2) pmax LNode.prems(3) by simp_all
    then have "?q = ?P" using spec(3) by simp
    moreover have "\<not> im" using full eq LNode.prems(2) by simp
    ultimately show ?thesis using val lpm_best_self [OF LNode.prems(1)] full m by simp
  next
    case part
    then have "\<not> prefix ?P ?q" using m longest_prefix_match_node [of ds p d plen kd] by simp
    then have "lpm_best (lpm_table ds ?t) ?q = None"
      using lpm_table_node by (intro lpm_best_none_below) 
    then show ?thesis using part m LNode.prems(4) by simp
  next
    case here
    then have "?q = ?P" using spec(3) by simp
    then show ?thesis using here m lpm_best_self [OF LNode.prems(1)] found'
      by (cases im) (simp_all add: found'_def Let_def del: lpm_table.simps)
  next
    case down
    let ?b = "extract_bit ds kd p \<noteq> 0" and ?s = "if extract_bit ds kd p \<noteq> 0 then r else l"
    have pq: "prefix ?P ?q" using m down(2) longest_prefix_match_node by metis
    note nb = lpm_next_bit [OF pq down(3)]
    have wf: "lpm_wf ds vs (?P @ [?b]) ?s" using LNode.prems(1) by (cases ?b) simp_all
    have ih: "lpm_node_value ds vs (lpm_lookup_walk ds plen kd found' ?s) =
        lpm_res (case lpm_best (lpm_table ds ?s) ?q of
          Some v \<Rightarrow> Some v | None \<Rightarrow> if im then own else Some (drop ds d))"
    proof (cases ?b)
      case True
      then show ?thesis using LNode.IH(2) [OF _ _ _ found'] wf LNode.prems(2,3) by simp
    next
      case False
      then show ?thesis using LNode.IH(1) [OF _ _ _ found'] wf LNode.prems(2,3) by simp
    qed
    have below: "lpm_table ds ?s x \<noteq> None \<Longrightarrow> prefix ?P x \<and> x \<noteq> ?P" for x
      using lpm_table_ctx [OF wf] prefix_branch_neq by (metis append_prefixD)
    have best: "lpm_best (lpm_table ds ?t) ?q =
        (case lpm_best (lpm_table ds ?s) ?q of Some v \<Rightarrow> Some v | None \<Rightarrow> lpm_own ds im d)"
      by (rule lpm_best_step [OF pq _ below]) (use lpm_table_child [OF LNode.prems(1) nb] in blast)
    have walk: "lpm_lookup_walk ds plen kd found ?t = lpm_lookup_walk ds plen kd found' ?s"
      using m down by (simp add: found'_def [symmetric] Let_def)
    show ?thesis unfolding walk ih best by (simp split: option.splits)
  qed
qed

section \<open>Update\<close>

text \<open>A node's table is the union of the tables below it and its own entry.\<close>

lemma lpm_table_add:
  assumes wf: "lpm_wf ds vs c (LNode l r p im d)"
  shows "lpm_table ds (LNode l r p im d) =
    (lpm_table ds l ++ lpm_table ds r)(lpm_bits ds d p := lpm_own ds im d)"
proof
  fix x
  let ?P = "lpm_bits ds d p"
  have l: "lpm_table ds l x \<noteq> None \<Longrightarrow> prefix (?P @ [False]) x"
    and r: "lpm_table ds r x \<noteq> None \<Longrightarrow> prefix (?P @ [True]) x"
    using wf lpm_table_ctx by auto
  have "\<not> (prefix (?P @ [False]) x \<and> prefix (?P @ [True]) x)"
    using prefix_branch [of ?P False x True] by simp
  then show "lpm_table ds (LNode l r p im d) x =
      ((lpm_table ds l ++ lpm_table ds r)(?P := lpm_own ds im d)) x"
    using l r by (cases "lpm_table ds l x"; cases "lpm_table ds r x") (auto simp: map_add_def)
qed

lemma lpm_new_node_eq:
  assumes "length kd = ds" and "length v = vs"
  shows "lpm_new_node ds vs plen kd v l r = LNode l r plen False (kd @ v)"
  using assms
  by (simp add: lpm_new_node_def lpm_copy_key_data_def lpm_create_node_def lpm_copy_value_data_def
      patch_def)

lemma lpm_split_eq:
  assumes "length kd = ds"
  shows "lpm_split ds vs m kd new this =
    (if extract_bit ds kd m \<noteq> 0 then LNode this new m True kd else LNode new this m True kd)"
  using assms by (simp add: lpm_split_def lpm_copy_key_data_def lpm_create_node_def patch_def)

definition lpm_put :: "nat \<Rightarrow> nat \<Rightarrow> bool list \<Rightarrow> lpm_trie_node \<Rightarrow> bool list \<Rightarrow> bytes \<Rightarrow>
    lpm_trie_node \<Rightarrow> bool" where
  "lpm_put ds vs c t q v t' \<longleftrightarrow> lpm_wf ds vs c t' \<and> lpm_table ds t' = (lpm_table ds t)(q \<mapsto> v) \<and>
     (lpm_no_ghost ds t \<longrightarrow> lpm_no_ghost ds t')"

text \<open>What an update of prefix \<open>q\<close> may return.\<close>

definition lpm_update_post :: "nat \<Rightarrow> nat \<Rightarrow> nat \<Rightarrow> nat \<Rightarrow> nat \<Rightarrow> bool list \<Rightarrow> lpm_trie_node \<Rightarrow>
    bool list \<Rightarrow> bytes \<Rightarrow> (lpm_trie_node \<times> nat) outcome \<Rightarrow> bool" where
  "lpm_update_post ds vs cap n flags c t q v res \<longleftrightarrow>
     (case res of
        Ok (t', n') \<Rightarrow> lpm_put ds vs c t q v t' \<and>
          n' = (if lpm_table ds t q = None then n + 1 else n) \<and>
          (lpm_table ds t q = None \<longrightarrow> flags \<noteq> 2 \<and> n < cap) \<and> (flags = 1 \<longrightarrow> lpm_table ds t q = None)
      | Err e \<Rightarrow> e = ENOENT \<and> flags = 2 \<and> lpm_table ds t q = None \<or>
          e = ENOSPC \<and> flags \<noteq> 2 \<and> lpm_table ds t q = None \<and> cap \<le> n \<or> e = EEXIST \<and> flags = 1
      | _ \<Rightarrow> False)"

lemma lpm_update_post_add:
  assumes "lpm_table ds t q = None" and "lpm_put ds vs c t q v t'"
  shows "lpm_update_post ds vs cap n flags c t q v
    (bind_out (lpm_may_add flags n cap) (\<lambda>_. Ok (t', Suc n)))"
  using assms by (simp add: lpm_update_post_def lpm_may_add_def)

lemma lpm_put_split:
  assumes wf: "lpm_wf ds vs c (LNode l r p im d)" and kd: "length kd = ds" and v: "length v = vs"
    and plen: "plen \<le> ds * 8" and c: "prefix c (lpm_bits ds kd plen)"
    and m: "longest_prefix_match ds p d plen kd = m" "m < p" "m < plen"
  shows "lpm_put ds vs c (LNode l r p im d) (lpm_bits ds kd plen) v
      (lpm_split ds vs m kd (lpm_new_node ds vs plen kd v LNull LNull) (LNode l r p im d))"
    and "lpm_table ds (LNode l r p im d) (lpm_bits ds kd plen) = None"
proof -
  let ?nd = "LNode l r p im d" and ?q = "lpm_bits ds kd plen" and ?C = "lpm_bits ds kd m"
    and ?new = "LNode LNull LNull plen False (kd @ v)" and ?P = "lpm_bits ds d p"
  have cP: "prefix c ?P" using wf by simp
  note ctx = lpm_split_ctx [OF cP c m]
  have notP: "\<not> prefix ?P ?q" using longest_prefix_match_node [of ds p d plen kd] m(1,2) by simp
  then show none: "lpm_table ds ?nd ?q = None" by (rule lpm_table_None)
  have noneC: "lpm_table ds ?nd ?C = None"
    by (rule lpm_table_None) (use m(2) prefix_length_le [of ?P ?C] in auto)
  have new: "lpm_table ds ?new = [?q \<mapsto> v]"
    using kd by (auto simp: lpm_bits_append)
  have wf_this: "lpm_wf ds vs (?C @ [extract_bit ds kd m = 0]) ?nd"
    by (rule lpm_wf_weaken [OF wf ctx(3)])
  have wf_new: "lpm_wf ds vs (?C @ [extract_bit ds kd m \<noteq> 0]) ?new"
    using ctx(2) kd v plen by (simp add: lpm_bits_append)
  let ?s = "if extract_bit ds kd m \<noteq> 0 then LNode ?nd ?new m True kd else LNode ?new ?nd m True kd"
  have wf_s: "lpm_wf ds vs c ?s"
    using wf_this wf_new ctx(1) kd m(3) plen
    by (cases "extract_bit ds kd m = 0") (simp_all del: lpm_wf.simps(2) add: lpm_wf.simps(2) [of _ _ _ _ _ m])
  have qC: "?q \<noteq> ?C" using m(3) by (metis length_lpm_bits less_irrefl)
  have comm: "[?q \<mapsto> v] ++ lpm_table ds ?nd = (lpm_table ds ?nd)(?q \<mapsto> v)"
    by (rule map_add_singleton) (rule none)
  have "lpm_table ds ?s = ((lpm_table ds ?nd)(?q \<mapsto> v))(?C := None)"
  proof (cases "extract_bit ds kd m = 0")
    case True
    then show ?thesis using lpm_table_add [of ds vs c ?new ?nd m True kd] wf_s new comm by simp
  next
    case False
    then show ?thesis using lpm_table_add [of ds vs c ?nd ?new m True kd] wf_s new by simp
  qed
  also have "\<dots> = (lpm_table ds ?nd)(?q \<mapsto> v)" using noneC qC by (auto simp del: lpm_table.simps)
  finally have tab: "lpm_table ds ?s = (lpm_table ds ?nd)(?q \<mapsto> v)" .
  show "lpm_put ds vs c ?nd ?q v (lpm_split ds vs m kd (lpm_new_node ds vs plen kd v LNull LNull) ?nd)"
    unfolding lpm_put_def lpm_new_node_eq [OF kd v] lpm_split_eq [OF kd]
    using wf_s tab m(3) plen by (simp del: lpm_table.simps lpm_wf.simps)
qed

lemma lpm_put_above:
  assumes wf: "lpm_wf ds vs c (LNode l r p im d)" and kd: "length kd = ds" and v: "length v = vs"
    and plen: "plen \<le> ds * 8" and c: "prefix c (lpm_bits ds kd plen)"
    and m: "longest_prefix_match ds p d plen kd = plen" "p \<noteq> plen"
  shows "lpm_put ds vs c (LNode l r p im d) (lpm_bits ds kd plen) v
      (if extract_bit ds d plen \<noteq> 0 then lpm_new_node ds vs plen kd v LNull (LNode l r p im d)
       else lpm_new_node ds vs plen kd v (LNode l r p im d) LNull)"
    and "lpm_table ds (LNode l r p im d) (lpm_bits ds kd plen) = None"
proof -
  let ?nd = "LNode l r p im d" and ?q = "lpm_bits ds kd plen" and ?P = "lpm_bits ds d p"
  have qP: "prefix ?q ?P" using m(1) longest_prefix_match_key by metis
  then have lt: "plen < p" using m(2) prefix_length_le [OF qP] by simp
  have "\<not> prefix ?P ?q" using lt prefix_length_le [of ?P ?q] by auto
  then show none: "lpm_table ds ?nd ?q = None" by (rule lpm_table_None)
  have bq: "lpm_bits ds (kd @ v) plen = ?q" by (rule lpm_bits_append [OF kd])
  have wf_nd: "lpm_wf ds vs (?q @ [extract_bit ds d plen \<noteq> 0]) ?nd"
    by (rule lpm_wf_weaken [OF wf lpm_next_bit [OF qP lt]])
  let ?s = "if extract_bit ds d plen \<noteq> 0 then LNode LNull ?nd plen False (kd @ v)
      else LNode ?nd LNull plen False (kd @ v)"
  have wf_s: "lpm_wf ds vs c ?s" using wf_nd plen kd v c
    by (cases "extract_bit ds d plen = 0")
      (simp_all del: lpm_wf.simps(2) add: lpm_wf.simps(2) [of _ _ _ _ _ plen] bq)
  have "lpm_table ds ?s = (lpm_table ds ?nd)(?q \<mapsto> v)"
  proof (cases "extract_bit ds d plen = 0")
    case True
    then show ?thesis using lpm_table_add [of ds vs c ?nd LNull plen False "kd @ v"] wf_s bq kd by simp
  next
    case False
    then show ?thesis using lpm_table_add [of ds vs c LNull ?nd plen False "kd @ v"] wf_s bq kd by simp
  qed
  then show "lpm_put ds vs c ?nd ?q v
      (if extract_bit ds d plen \<noteq> 0 then lpm_new_node ds vs plen kd v LNull ?nd
       else lpm_new_node ds vs plen kd v ?nd LNull)"
    unfolding lpm_put_def lpm_new_node_eq [OF kd v] using wf_s by (simp del: lpm_table.simps lpm_wf.simps)
qed

lemma lpm_put_here:
  assumes wf: "lpm_wf ds vs c (LNode l r p im d)" and v: "length v = vs"
  shows "lpm_put ds vs c (LNode l r p im d) (lpm_bits ds d p) v (LNode l r p False (take ds d @ v))"
proof -
  have b: "lpm_bits ds (take ds d @ v) p = lpm_bits ds d p"
    by (rule lpm_bits_cong) (use wf in \<open>auto split: if_splits\<close>)
  have "drop ds (take ds d @ v) = v" using wf by (auto split: if_splits)
  then have "lpm_table ds (LNode l r p False (take ds d @ v)) =
      (lpm_table ds (LNode l r p im d))(lpm_bits ds d p \<mapsto> v)"
    by (intro ext) (simp add: b)
  then show ?thesis using wf v by (auto simp: lpm_put_def b simp del: lpm_table.simps split: if_splits)
qed

lemma lpm_put_child:
  assumes wf: "lpm_wf ds vs c (LNode l r p im d)" and q: "prefix (lpm_bits ds d p @ [b]) q"
    and put: "lpm_put ds vs (lpm_bits ds d p @ [b]) (if b then r else l) q v t'"
  shows "lpm_put ds vs c (LNode l r p im d) q v
    (if b then LNode l t' p im d else LNode t' r p im d)"
proof -
  let ?P = "lpm_bits ds d p"
  let ?s = "if b then LNode l t' p im d else LNode t' r p im d"
  have wf_s: "lpm_wf ds vs c ?s" using wf put by (cases b) (simp_all add: lpm_put_def)
  have qP: "q \<noteq> ?P" by (rule prefix_branch_neq [OF q])
  have "\<not> prefix (?P @ [\<not> b]) q" using prefix_branch [OF q] by simp
  then have other: "lpm_table ds (if b then l else r) q = None"
    using wf lpm_table_outside [of ds vs "?P @ [\<not> b]" "if b then l else r" q] by (cases b) simp_all
  have "lpm_table ds ?s = (lpm_table ds (LNode l r p im d))(q \<mapsto> v)"
  proof (cases b)
    case True
    then show ?thesis using lpm_table_add [of ds vs c l t' p im d] lpm_table_add [OF wf] wf_s put qP
      by (simp add: lpm_put_def fun_upd_twist [OF qP] del: lpm_table.simps)
  next
    case False
    then have "q \<notin> dom (lpm_table ds r)" using other by auto
    then show ?thesis
      using False lpm_table_add [of ds vs c t' r p im d] lpm_table_add [OF wf] wf_s put qP
      by (simp add: lpm_put_def map_add_upd_left fun_upd_twist [OF qP] del: lpm_table.simps)
  qed
  then show ?thesis using wf_s put by (cases b) (simp_all add: lpm_put_def del: lpm_table.simps)
qed

lemma lpm_place_post:
  assumes "lpm_wf ds vs c t" and kd: "length kd = ds" and v: "length v = vs"
    and plen: "plen \<le> ds * 8" and c: "prefix c (lpm_bits ds kd plen)"
    and stop: "t = LNull \<or> prefixlen t \<noteq> longest_prefix_match ds (prefixlen t) (node_data t) plen kd \<or>
      prefixlen t = plen"
  shows "lpm_update_post ds vs cap n flags c t (lpm_bits ds kd plen) v
    (lpm_place ds vs cap n plen kd v flags t)"
proof (cases t)
  case LNull
  have "lpm_put ds vs c LNull (lpm_bits ds kd plen) v (lpm_new_node ds vs plen kd v LNull LNull)"
    using c kd v plen by (auto simp: lpm_put_def lpm_new_node_eq lpm_bits_append)
  from lpm_update_post_add [OF _ this] show ?thesis using LNull by simp
next
  case (LNode l r p im d)
  let ?q = "lpm_bits ds kd plen"
  have wf: "lpm_wf ds vs c (LNode l r p im d)" using assms(1) LNode by simp
  obtain m where m: "longest_prefix_match ds p d plen kd = m" by blast
  note spec = longest_prefix_match_spec [OF m]
  consider (here) "p = plen" "m = plen" | (above) "p \<noteq> plen" "m = plen" | (split) "m \<noteq> plen" by blast
  then show ?thesis
  proof cases
    case here
    then have q: "lpm_bits ds d p = ?q" using spec(3) by simp
    have len: "length d = (if im then ds else ds + vs)" using wf by simp
    have data: "lpm_copy_value_data ds (if im then take (ds + vs) d @ replicate (ds + vs - length d) 0 else d) v
        = take ds d @ v"
      using len v by (cases im) (simp_all add: lpm_copy_value_data_def patch_def)
    have tab: "lpm_table ds (LNode l r p im d) ?q = lpm_own ds im d" using q by simp
    show ?thesis using here m lpm_put_here [OF wf v] data tab unfolding LNode q
      by (cases im) (simp_all add: lpm_update_post_def del: lpm_table.simps)
  next
    case above
    then show ?thesis using m lpm_put_above [OF wf kd v plen c] unfolding LNode
      by (cases "extract_bit ds d plen = 0") (simp_all add: lpm_update_post_add del: lpm_table.simps)
  next
    case split
    then have "m < plen" using spec(2) by simp
    moreover have "m < p" using stop LNode m spec(1) calculation by auto
    ultimately show ?thesis using split m lpm_put_split [OF wf kd v plen c m] unfolding LNode
      by (cases "p = plen") (simp_all add: lpm_update_post_add del: lpm_table.simps)
  qed
qed

lemma lpm_update_walk_post:
  assumes "lpm_wf ds vs c t" and kd: "length kd = ds" and v: "length v = vs"
    and plen: "plen \<le> ds * 8" and "prefix c (lpm_bits ds kd plen)"
  shows "lpm_update_post ds vs cap n flags c t (lpm_bits ds kd plen) v
    (lpm_update_walk ds vs cap n plen kd v flags t)"
  using assms(1,5)
proof (induction t arbitrary: c)
  case LNull
  then show ?case using lpm_place_post [OF _ kd v plen, of c LNull] by (simp del: lpm_place.simps)
next
  case (LNode l r p im d)
  let ?t = "LNode l r p im d" and ?P = "lpm_bits ds d p" and ?q = "lpm_bits ds kd plen"
  obtain m where m: "longest_prefix_match ds p d plen kd = m" by blast
  note spec = longest_prefix_match_spec [OF m]
  show ?case
  proof (cases "p \<noteq> m \<or> p = plen \<or> p = ds * 8")
    case True
    then have "p \<noteq> m \<or> p = plen" using spec(2) plen by auto
    then show ?thesis using True m lpm_place_post [OF LNode.prems(1) kd v plen LNode.prems(2)]
      by (simp add: Let_def del: lpm_place.simps lpm_table.simps)
  next
    case False
    let ?b = "extract_bit ds kd p \<noteq> 0"
    let ?s = "if ?b then r else l"
    have pq: "prefix ?P ?q" using m False longest_prefix_match_node by metis
    have nb: "prefix (?P @ [?b]) ?q" by (rule lpm_next_bit [OF pq]) (use False spec(2) in simp)
    have wf: "lpm_wf ds vs (?P @ [?b]) ?s" using LNode.prems(1) by (cases ?b) simp_all
    have ih: "lpm_update_post ds vs cap n flags (?P @ [?b]) ?s ?q v
        (lpm_update_walk ds vs cap n plen kd v flags ?s)"
      using LNode.IH [of "?P @ [?b]"] wf nb by (cases ?b) simp_all
    have tab: "lpm_table ds ?t ?q = lpm_table ds ?s ?q"
      using lpm_table_child [OF LNode.prems(1) nb, of ?q] prefix_branch_neq [OF nb]
      by (simp del: lpm_table.simps)
    have put: "lpm_put ds vs (?P @ [?b]) ?s ?q v t' \<Longrightarrow> lpm_put ds vs c ?t ?q v
        (if ?b then LNode l t' p im d else LNode t' r p im d)" for t'
      by (rule lpm_put_child [OF LNode.prems(1) nb])
    have walk: "lpm_update_walk ds vs cap n plen kd v flags ?t =
        bind_out (lpm_update_walk ds vs cap n plen kd v flags ?s)
          (\<lambda>(t', n'). Ok (if ?b then LNode l t' p im d else LNode t' r p im d, n'))"
      using False m by (simp add: Let_def)
    show ?thesis unfolding walk using ih put tab
      by (cases "lpm_update_walk ds vs cap n plen kd v flags ?s")
        (auto simp add: lpm_update_post_def simp del: lpm_table.simps split: prod.splits)
  qed
qed

section \<open>Deletion\<close>

definition lpm_del :: "nat \<Rightarrow> nat \<Rightarrow> bool list \<Rightarrow> lpm_trie_node \<Rightarrow> bool list \<Rightarrow> lpm_trie_node \<Rightarrow> bool" where
  "lpm_del ds vs c t q t' \<longleftrightarrow> lpm_wf ds vs c t' \<and> lpm_table ds t' = (lpm_table ds t)(q := None) \<and>
     (lpm_no_ghost ds t \<and> length q < ds * 8 \<longrightarrow> lpm_no_ghost ds t')"

lemma lpm_del_child:
  assumes wf: "lpm_wf ds vs c (LNode l r p im d)" and q: "prefix (lpm_bits ds d p @ [b]) q"
    and del: "lpm_del ds vs (lpm_bits ds d p @ [b]) (if b then r else l) q t'"
  shows "lpm_del ds vs c (LNode l r p im d) q (if b then LNode l t' p im d else LNode t' r p im d)"
proof -
  let ?P = "lpm_bits ds d p"
  let ?s = "if b then LNode l t' p im d else LNode t' r p im d"
  have wf_s: "lpm_wf ds vs c ?s" using wf del by (cases b) (simp_all add: lpm_del_def)
  have qP: "q \<noteq> ?P" by (rule prefix_branch_neq [OF q])
  have "\<not> prefix (?P @ [\<not> b]) q" using prefix_branch [OF q] by simp
  then have other: "lpm_table ds (if b then l else r) q = None"
    using wf lpm_table_outside [of ds vs "?P @ [\<not> b]" "if b then l else r" q] by (cases b) simp_all
  have drop: "m (k := None) ++ m' = (m ++ m')(k := None)" "m' ++ m (k := None) = (m' ++ m)(k := None)"
    if "m' k = None" for m m' :: "bool list \<rightharpoonup> bytes" and k
    using that by (auto simp: map_add_def fun_eq_iff split: option.splits)
  have "lpm_table ds ?s = (lpm_table ds (LNode l r p im d))(q := None)"
  proof (cases b)
    case True
    then show ?thesis
      using lpm_table_add [of ds vs c l t' p im d] lpm_table_add [OF wf] wf_s del qP other
      by (simp add: lpm_del_def drop fun_upd_twist [OF qP] del: lpm_table.simps)
  next
    case False
    then show ?thesis
      using lpm_table_add [of ds vs c t' r p im d] lpm_table_add [OF wf] wf_s del qP other
      by (simp add: lpm_del_def drop fun_upd_twist [OF qP] del: lpm_table.simps)
  qed
  then show ?thesis using wf_s del by (cases b) (simp_all add: lpm_del_def del: lpm_table.simps)
qed

lemma lpm_delete_walk_post:
  assumes "lpm_wf ds vs c t" and "plen \<le> ds * 8" and "prefix c (lpm_bits ds kd plen)"
  shows "case lpm_delete_walk ds plen kd t of
      Ok t' \<Rightarrow> lpm_del ds vs c t (lpm_bits ds kd plen) t' \<and> lpm_table ds t (lpm_bits ds kd plen) \<noteq> None
    | Err e \<Rightarrow> e = ENOENT \<and> lpm_table ds t (lpm_bits ds kd plen) = None
    | _ \<Rightarrow> False"
  using assms
proof (induction t arbitrary: c)
  case (LNode l r p im d)
  let ?t = "LNode l r p im d" and ?P = "lpm_bits ds d p" and ?q = "lpm_bits ds kd plen"
  obtain m where m: "longest_prefix_match ds p d plen kd = m" by blast
  note spec = longest_prefix_match_spec [OF m]
  consider (here) "p = m" "p = plen" | (part) "p \<noteq> m" | (down) "p = m" "p < plen"
    using spec(2) by linarith
  then show ?case
  proof cases
    case here
    then have q: "?q = ?P" using spec(3) by simp
    have b: "lpm_bits ds (take ds d) p = ?P" by (rule lpm_bits_take)
    have "lpm_table ds (LNode l r p True (take ds d)) = (lpm_table ds ?t)(?P := None)"
      by (intro ext) (simp add: b)
    then have "\<not> im \<Longrightarrow> lpm_del ds vs c ?t ?P (LNode l r p True (take ds d))"
      using LNode.prems(1) by (simp add: lpm_del_def b del: lpm_table.simps)
    then show ?thesis using here m unfolding q by simp
  next
    case part
    then have "\<not> prefix ?P ?q" using m longest_prefix_match_node [of ds p d plen kd] by simp
    then show ?thesis using part m lpm_table_None by (simp del: lpm_table.simps)
  next
    case down
    let ?b = "extract_bit ds kd p \<noteq> 0"
    let ?s = "if ?b then r else l"
    have pq: "prefix ?P ?q" using m down(1) longest_prefix_match_node by metis
    note nb = lpm_next_bit [OF pq down(2)]
    have wf: "lpm_wf ds vs (?P @ [?b]) ?s" using LNode.prems(1) by (cases ?b) simp_all
    have tab: "lpm_table ds ?t ?q = lpm_table ds ?s ?q"
      using lpm_table_child [OF LNode.prems(1) nb, of ?q] prefix_branch_neq [OF nb]
      by (simp del: lpm_table.simps)
    have walk: "lpm_delete_walk ds plen kd ?t = bind_out (lpm_delete_walk ds plen kd ?s)
        (\<lambda>t'. Ok (if ?b then LNode l t' p im d else LNode t' r p im d))"
      using down m by (simp add: Let_def)
    have "case lpm_delete_walk ds plen kd ?s of
        Ok t' \<Rightarrow> lpm_del ds vs (?P @ [?b]) ?s ?q t' \<and> lpm_table ds ?s ?q \<noteq> None
      | Err e \<Rightarrow> e = ENOENT \<and> lpm_table ds ?s ?q = None | _ \<Rightarrow> False"
      using LNode.IH [of "?P @ [?b]"] wf nb LNode.prems(2) by (cases ?b) simp_all
    then show ?thesis unfolding walk tab using lpm_del_child [OF LNode.prems(1) nb]
      by (cases "lpm_delete_walk ds plen kd ?s") (simp_all del: lpm_table.simps)
  qed
qed simp

section \<open>The map implements a table with longest-prefix lookup\<close>

definition lpm_prefix :: "nat \<Rightarrow> bytes \<Rightarrow> bool list option" where
  "lpm_prefix ds key = (if ds * 8 < le_nat (take 4 key) then None
     else Some (lpm_bits ds (drop 4 key) (le_nat (take 4 key))))"

text \<open>The specification: a partial map from bit strings. The map has no call that looks up and
  deletes.\<close>

fun lpm_spec :: "nat \<Rightarrow> nat \<Rightarrow> (bool list \<rightharpoonup> bytes) \<Rightarrow> fm_op \<Rightarrow> (bool list \<rightharpoonup> bytes) \<times> pp_res" where
  "lpm_spec ds cap m (FLookup k) =
     (m, Value (case lpm_prefix ds k of None \<Rightarrow> Err EINVAL | Some q \<Rightarrow> lpm_res (lpm_best m q)))"
| "lpm_spec ds cap m (FUpdate k v flags) =
     (if 2 < flags then (m, Status (Err EINVAL))
      else case lpm_prefix ds k of None \<Rightarrow> (m, Status (Err EINVAL))
        | Some q \<Rightarrow>
            if m q = None \<and> flags = BPF_EXIST then (m, Status (Err ENOENT))
            else if m q = None \<and> cap \<le> card (dom m) then (m, Status (Err ENOSPC))
            else (m(q \<mapsto> v), Status (Ok ())))"
| "lpm_spec ds cap m (FDelete k) =
     (case lpm_prefix ds k of None \<Rightarrow> (m, Status (Err EINVAL))
      | Some q \<Rightarrow> if m q = None then (m, Status (Err ENOENT)) else (m(q := None), Status (Ok ())))"
| "lpm_spec ds cap m (FLookupDelete k) = (m, Value (Err ENOTSUP))"

text \<open>The calls for which the trie keeps this promise: no \<open>BPF_NOEXIST\<close>, and no deletion of a
  key of maximal length.\<close>

fun lpm_ok :: "nat \<Rightarrow> nat \<Rightarrow> fm_op \<Rightarrow> bool" where
  "lpm_ok ds vs (FLookup k) = (length k = 4 + ds)"
| "lpm_ok ds vs (FUpdate k v flags) = (length k = 4 + ds \<and> length v = vs \<and> flags \<noteq> BPF_NOEXIST)"
| "lpm_ok ds vs (FDelete k) = (length k = 4 + ds \<and> le_nat (take 4 k) \<noteq> ds * 8)"
| "lpm_ok ds vs (FLookupDelete k) = False"

fun lpm_step :: "lpm_trie_map_impl \<Rightarrow> fm_op \<Rightarrow> lpm_trie_map_impl \<times> pp_res" where
  "lpm_step s (FLookup k) = (s, Value (lpm_elem_lookup s (Some k)))"
| "lpm_step s (FUpdate k v flags) = apsnd Status (lpm_elem_update s (Some k) (Some v) flags)"
| "lpm_step s (FDelete k) = apsnd Status (lpm_elem_delete s (Some k))"
| "lpm_step s (FLookupDelete k) = (s, Value (Err ENOTSUP))"

definition lpm_abs :: "lpm_trie_map_impl \<Rightarrow> bool list \<rightharpoonup> bytes" where
  "lpm_abs s = lpm_table (lpm_data_size s) (lpm_root s)"

definition lpm_inv :: "lpm_trie_map_impl \<Rightarrow> bool" where
  "lpm_inv s \<longleftrightarrow> lpm_data_size s \<le> 256 \<and> lpm_max_prefixlen s = lpm_data_size s * 8 \<and>
     lpm_wf (lpm_data_size s) (lpm_value_size s) [] (lpm_root s) \<and>
     lpm_n_entries s = card (dom (lpm_abs s))"

lemma lpm_new_inv:
  assumes "lpm_trie_map_impl_new ks vs n = Ok s"
  shows "lpm_inv s" "lpm_no_ghost (lpm_data_size s) (lpm_root s)" "lpm_abs s = Map.empty"
    "lpm_data_size s = ks - 4" "lpm_value_size s = vs" "lpm_max_entries s = n" "4 \<le> ks"
  using assms by (auto simp: lpm_trie_map_impl_new_def lpm_inv_def lpm_abs_def LPM_KEY_SIZE_MIN_def
      LPM_KEY_SIZE_MAX_def split: if_splits)

lemma lpm_read_key_eq:
  "length key = 4 + ds \<Longrightarrow> lpm_read_key ds key = Ok (le_nat (take 4 key), drop 4 key)"
  by (simp add: lpm_read_key_def read_u32_def read_at_def)

text \<open>Whatever was deleted before: an update that is not refused writes the entry.\<close>

lemma lpm_update_step:
  assumes inv: "lpm_inv s" and k: "length k = 4 + lpm_data_size s" and v: "length v = lpm_value_size s"
    and "lpm_elem_update s (Some k) (Some v) flags = (s', r)"
  shows "lpm_inv s' \<and> lpm_data_size s' = lpm_data_size s \<and> lpm_value_size s' = lpm_value_size s \<and>
    lpm_max_entries s' = lpm_max_entries s \<and>
    (lpm_no_ghost (lpm_data_size s) (lpm_root s) \<longrightarrow> lpm_no_ghost (lpm_data_size s) (lpm_root s')) \<and>
    ((lpm_abs s', Status r) = lpm_spec (lpm_data_size s) (lpm_max_entries s) (lpm_abs s) (FUpdate k v flags)
     \<or> r = Err EEXIST \<and> flags = BPF_NOEXIST \<and> s' = s)"
proof -
  let ?ds = "lpm_data_size s" and ?plen = "le_nat (take 4 k)" and ?kd = "drop 4 k"
  let ?q = "lpm_bits ?ds ?kd ?plen"
  let ?w = "lpm_update_walk ?ds (lpm_value_size s) (lpm_max_entries s) (lpm_n_entries s) ?plen ?kd v flags
      (lpm_root s)"
  have upd: "lpm_elem_update s (Some k) (Some v) flags =
     (if 2 < flags \<or> ?ds * 8 < ?plen then (s, Err EINVAL)
      else case ?w of Ok (t, n) \<Rightarrow> (s\<lparr>lpm_root := t, lpm_n_entries := n\<rparr>, Ok ())
           | Err e \<Rightarrow> (s, Err e) | Thrown \<Rightarrow> (s, Thrown) | UB \<Rightarrow> (s, UB) | NoReturn \<Rightarrow> (s, NoReturn))"
    using lpm_read_key_eq [OF k] read_all [OF v] inv
    by (auto simp: lpm_elem_update_def lpm_inv_def)
  show ?thesis
  proof (cases "2 < flags \<or> ?ds * 8 < ?plen")
    case True
    then show ?thesis using assms(4) inv unfolding upd by (auto simp: lpm_prefix_def)
  next
    case False
    have post: "lpm_update_post ?ds (lpm_value_size s) (lpm_max_entries s) (lpm_n_entries s) flags []
        (lpm_root s) ?q v ?w"
      using lpm_update_walk_post [of ?ds _ "[]"] inv k v False by (simp add: lpm_inv_def)
    have fin: "finite (dom (lpm_abs s))" by (simp add: lpm_abs_def finite_lpm_table)
    show ?thesis
    proof (cases ?w)
      case (Ok x)
      then obtain t n where w: "?w = Ok (t, n)" by (cases x) simp
      have s': "s' = s\<lparr>lpm_root := t, lpm_n_entries := n\<rparr>" "r = Ok ()"
        using assms(4) False w unfolding upd by auto
      have t: "lpm_put ?ds (lpm_value_size s) [] (lpm_root s) ?q v t"
        "n = (if lpm_abs s ?q = None then lpm_n_entries s + 1 else lpm_n_entries s)"
        "lpm_abs s ?q = None \<Longrightarrow> flags \<noteq> 2 \<and> lpm_n_entries s < lpm_max_entries s"
        using post w by (simp_all add: lpm_update_post_def lpm_abs_def)
      have abs: "lpm_abs s' = (lpm_abs s)(?q \<mapsto> v)" using t(1) by (simp add: lpm_abs_def lpm_put_def s')
      have "n = card (dom (lpm_abs s'))"
        using t(2) inv fin unfolding abs by (cases "lpm_abs s ?q") (auto simp: lpm_inv_def card_insert_if domIff)
      then have "lpm_inv s'" using inv t(1) by (simp add: lpm_inv_def lpm_put_def s')
      moreover have "lpm_n_entries s = card (dom (lpm_abs s))" using inv by (simp add: lpm_inv_def)
      ultimately show ?thesis using t(1,3) False unfolding abs
        by (auto simp: s' lpm_put_def lpm_prefix_def flag_defs)
    next
      case (Err e)
      then show ?thesis using post assms(4) False inv unfolding upd
        by (auto simp: lpm_update_post_def lpm_prefix_def flag_defs lpm_abs_def lpm_inv_def)
    qed (use post in \<open>simp_all add: lpm_update_post_def\<close>)
  qed
qed

lemma lpm_delete_step:
  assumes inv: "lpm_inv s" and k: "length k = 4 + lpm_data_size s"
    and "lpm_elem_delete s (Some k) = (s', r)"
  shows "lpm_inv s' \<and> lpm_data_size s' = lpm_data_size s \<and> lpm_value_size s' = lpm_value_size s \<and>
    lpm_max_entries s' = lpm_max_entries s \<and>
    (lpm_no_ghost (lpm_data_size s) (lpm_root s) \<and> le_nat (take 4 k) \<noteq> lpm_data_size s * 8 \<longrightarrow>
       lpm_no_ghost (lpm_data_size s) (lpm_root s')) \<and>
    (lpm_abs s', Status r) = lpm_spec (lpm_data_size s) (lpm_max_entries s) (lpm_abs s) (FDelete k)"
proof -
  let ?ds = "lpm_data_size s" and ?plen = "le_nat (take 4 k)" and ?kd = "drop 4 k"
  let ?q = "lpm_bits ?ds ?kd ?plen" and ?w = "lpm_delete_walk (lpm_data_size s) (le_nat (take 4 k)) (drop 4 k) (lpm_root s)"
  have del: "lpm_elem_delete s (Some k) =
     (if ?ds * 8 < ?plen then (s, Err EINVAL)
      else case ?w of Ok t \<Rightarrow> (s\<lparr>lpm_root := t, lpm_n_entries := lpm_n_entries s - 1\<rparr>, Ok ())
           | Err e \<Rightarrow> (s, Err e) | Thrown \<Rightarrow> (s, Thrown) | UB \<Rightarrow> (s, UB) | NoReturn \<Rightarrow> (s, NoReturn))"
    using lpm_read_key_eq [OF k] inv by (auto simp: lpm_elem_delete_def lpm_inv_def split: outcome.splits)
  show ?thesis
  proof (cases "?ds * 8 < ?plen")
    case True
    then show ?thesis using assms(3) inv unfolding del by (auto simp: lpm_prefix_def)
  next
    case False
    have post: "case ?w of
        Ok t' \<Rightarrow> lpm_del ?ds (lpm_value_size s) [] (lpm_root s) ?q t' \<and> lpm_table ?ds (lpm_root s) ?q \<noteq> None
      | Err e \<Rightarrow> e = ENOENT \<and> lpm_table ?ds (lpm_root s) ?q = None | _ \<Rightarrow> False"
      using lpm_delete_walk_post [of ?ds _ "[]"] inv False by (simp add: lpm_inv_def)
    have fin: "finite (dom (lpm_abs s))" by (simp add: lpm_abs_def finite_lpm_table)
    show ?thesis
    proof (cases ?w)
      case (Ok t)
      then have t: "lpm_del ?ds (lpm_value_size s) [] (lpm_root s) ?q t" "lpm_abs s ?q \<noteq> None"
        using post by (simp_all add: lpm_abs_def)
      have s': "s' = s\<lparr>lpm_root := t, lpm_n_entries := lpm_n_entries s - 1\<rparr>" "r = outcome.Ok ()"
        using assms(3) False Ok unfolding del by auto
      have abs: "lpm_abs s' = (lpm_abs s)(?q := None)" using t(1) by (simp add: lpm_abs_def lpm_del_def s')
      have "lpm_n_entries s - 1 = card (dom (lpm_abs s'))"
        using t(2) inv fin unfolding abs by (auto simp: lpm_inv_def card_Diff_singleton domI)
      then have "lpm_inv s'" using inv t(1) by (simp add: lpm_inv_def lpm_del_def s')
      then show ?thesis using t False unfolding abs
        by (auto simp: s' lpm_del_def lpm_prefix_def)
    next
      case (Err e)
      then show ?thesis using post assms(3) False inv unfolding del
        by (auto simp: lpm_prefix_def lpm_abs_def)
    qed (use post in simp_all)
  qed
qed

lemma lpm_lookup_step:
  assumes "lpm_inv s" and "lpm_no_ghost (lpm_data_size s) (lpm_root s)"
    and k: "length k = 4 + lpm_data_size s"
  shows "lpm_step s (FLookup k) = (s, snd (lpm_spec (lpm_data_size s) cap (lpm_abs s) (FLookup k)))"
proof -
  let ?ds = "lpm_data_size s" and ?plen = "le_nat (take 4 k)"
  have "lpm_node_value ?ds (lpm_value_size s) None = lpm_res None"
    by (simp add: lpm_node_value_def lpm_res_def)
  with lpm_lookup_walk_best [of ?ds "lpm_value_size s" "[]" "lpm_root s" ?plen None None "drop 4 k"]
  show ?thesis using assms(1,2) lpm_read_key_eq [OF k]
    by (auto simp: lpm_elem_lookup_def lpm_inv_def lpm_prefix_def lpm_abs_def split: option.splits)
qed

interpretation lpm: simulation "\<lambda>s. lpm_inv s \<and> lpm_no_ghost (lpm_data_size s) (lpm_root s)" lpm_abs
  "\<lambda>s. lpm_ok (lpm_data_size s) (lpm_value_size s)" lpm_step
  "\<lambda>s. lpm_spec (lpm_data_size s) (lpm_max_entries s)"
proof
  fix s x
  assume inv: "lpm_inv s \<and> lpm_no_ghost (lpm_data_size s) (lpm_root s)"
    and ok: "lpm_ok (lpm_data_size s) (lpm_value_size s) x"
  let ?s' = "fst (lpm_step s x)"
  have both: "(lpm_inv ?s' \<and> lpm_no_ghost (lpm_data_size s) (lpm_root ?s')) \<and>
      lpm_data_size ?s' = lpm_data_size s \<and> lpm_value_size ?s' = lpm_value_size s \<and>
      lpm_max_entries ?s' = lpm_max_entries s \<and>
      (lpm_abs ?s', snd (lpm_step s x)) = lpm_spec (lpm_data_size s) (lpm_max_entries s) (lpm_abs s) x"
  proof (cases x)
    case (FLookup k)
    then show ?thesis using lpm_lookup_step [of s k "lpm_max_entries s"] inv ok by simp
  next
    case (FUpdate k v flags)
    obtain s' r where u: "lpm_elem_update s (Some k) (Some v) flags = (s', r)" by fastforce
    show ?thesis using lpm_update_step [OF _ _ _ u] inv ok FUpdate u
      by (simp del: lpm_spec.simps)
  next
    case (FDelete k)
    obtain s' r where u: "lpm_elem_delete s (Some k) = (s', r)" by fastforce
    show ?thesis using lpm_delete_step [OF _ _ u] inv ok FDelete u by (simp del: lpm_spec.simps)
  qed (use ok in simp)
  show "(lpm_inv ?s' \<and> lpm_no_ghost (lpm_data_size ?s') (lpm_root ?s')) \<and>
      lpm_ok (lpm_data_size ?s') (lpm_value_size ?s') = lpm_ok (lpm_data_size s) (lpm_value_size s) \<and>
      lpm_spec (lpm_data_size ?s') (lpm_max_entries ?s') = lpm_spec (lpm_data_size s) (lpm_max_entries s)"
    using both by simp
  show "(lpm_abs ?s', snd (lpm_step s x)) = lpm_spec (lpm_data_size s) (lpm_max_entries s) (lpm_abs s) x"
    using both by simp
qed

text \<open>C6: every sequence of lookups, updates and deletes on a fresh longest-prefix-match trie
  returns what a table from bit strings to values returns, where a lookup gives the value of
  the longest stored prefix of the key: for updates with any flags but \<open>BPF_NOEXIST\<close>, and for
  deletes of keys that are shorter than the maximum.\<close>

theorem lpm_refines_table:
  assumes "lpm_trie_map_impl_new ks vs n = Ok s" and "\<forall>x\<in>set xs. lpm_ok (ks - 4) vs x"
  shows "snd (run lpm_step s xs) = snd (run (lpm_spec (ks - 4) n) Map.empty xs)"
  using lpm.sim_run [of s xs] lpm_new_inv [OF assms(1)] assms(2) by (metis snd_conv)

theorem lpm_refines_table_witness:
  "snd (run lpm_step \<lparr>lpm_key_size = 5, lpm_value_size = 1, lpm_max_entries = 4, lpm_data_size = 1,
      lpm_max_prefixlen = 8, lpm_root = LNull, lpm_n_entries = 0\<rparr>
      [FUpdate [2, 0, 0, 0, 192] [7] 0, FUpdate [4, 0, 0, 0, 208] [8] 0, FLookup [8, 0, 0, 0, 210],
       FLookup [8, 0, 0, 0, 200], FDelete [4, 0, 0, 0, 208]])
    = snd (run (lpm_spec (5 - 4) 4) Map.empty
      [FUpdate [2, 0, 0, 0, 192] [7] 0, FUpdate [4, 0, 0, 0, 208] [8] 0, FLookup [8, 0, 0, 0, 210],
       FLookup [8, 0, 0, 0, 200], FDelete [4, 0, 0, 0, 208]])"
  by (rule lpm_refines_table [of 5 1])
    (simp_all add: lpm_trie_map_impl_new_def LPM_KEY_SIZE_MIN_def LPM_KEY_SIZE_MAX_def flag_defs)

section \<open>What a deletion leaves behind\<close>

lemma longest_prefix_match_cong:
  "lpm_bits ds d p = lpm_bits ds d' p \<Longrightarrow>
     longest_prefix_match ds p d plen kd = p \<longleftrightarrow> longest_prefix_match ds p d' plen kd = p"
  by (simp add: longest_prefix_match_node)

lemma lpm_deleted_walks:
  assumes "lpm_delete_walk ds plen kd t = Ok t'" and "plen \<le> ds * 8"
  shows "plen = ds * 8 \<Longrightarrow> lpm_node_value ds vs (lpm_lookup_walk ds plen kd found t') = Err ENOENT"
    and "lpm_update_walk ds vs cap n plen kd v 1 t' = Err EEXIST"
proof -
  have "(plen = ds * 8 \<longrightarrow> lpm_node_value ds vs (lpm_lookup_walk ds plen kd found t') = Err ENOENT) \<and>
      lpm_update_walk ds vs cap n plen kd v 1 t' = Err EEXIST"
    using assms
  proof (induction t arbitrary: t' found)
    case (LNode l r p im d)
    obtain m where m: "longest_prefix_match ds p d plen kd = m" by blast
    note spec = longest_prefix_match_spec [OF m]
    consider (here) "p = m" "p = plen" | (part) "p \<noteq> m" | (down) "p = m" "p < plen"
      using spec(2) by linarith
    then show ?case
    proof cases
      case here
      then have t': "t' = LNode l r p True (take ds d)"
        using LNode.prems(1) m by (auto simp: Let_def split: if_splits)
      have "longest_prefix_match ds p (take ds d) plen kd = p"
        using longest_prefix_match_cong [OF lpm_bits_take [of ds d p]] m here by simp
      then show ?thesis using here by (auto simp: t' lpm_node_value_def Let_def)
    next
      case part
      then show ?thesis using LNode.prems(1) m by (simp add: Let_def)
    next
      case down
      have neq: "p \<noteq> ds * 8" using down(2) LNode.prems(2) by simp
      show ?thesis
      proof (cases "extract_bit ds kd p = 0")
        case True
        then obtain l' where "lpm_delete_walk ds plen kd l = Ok l'" "t' = LNode l' r p im d"
          using LNode.prems(1) m down
          by (cases "lpm_delete_walk ds plen kd l") (auto simp: Let_def)
        then show ?thesis using LNode.IH(1) [of l'] LNode.prems(2) m down neq True
          by (cases "plen = ds * 8") (simp_all add: Let_def)
      next
        case False
        then obtain r' where "lpm_delete_walk ds plen kd r = Ok r'" "t' = LNode l r' p im d"
          using LNode.prems(1) m down
          by (cases "lpm_delete_walk ds plen kd r") (auto simp: Let_def)
        then show ?thesis using LNode.IH(2) [of r'] LNode.prems(2) m down neq False
          by (cases "plen = ds * 8") (simp_all add: Let_def)
      qed
    qed
  qed simp
  then show "plen = ds * 8 \<Longrightarrow> lpm_node_value ds vs (lpm_lookup_walk ds plen kd found t') = Err ENOENT"
    and "lpm_update_walk ds vs cap n plen kd v 1 t' = Err EEXIST" by simp_all
qed

text \<open>after a key of maximal length is deleted, a lookup of it fails even when a shorter
  prefix of it is stored; and after any key is deleted, an update of it with \<open>BPF_NOEXIST\<close>
  fails with \<open>EEXIST\<close> although the key is not stored.\<close>

theorem lpm_deleted_key:
  assumes "lpm_inv s" and "length k = 4 + lpm_data_size s" and "length v = lpm_value_size s"
    and "lpm_elem_delete s (Some k) = (s', Ok ())"
  shows "lpm_prefix (lpm_data_size s) k \<noteq> None \<and>
    lpm_abs s' (the (lpm_prefix (lpm_data_size s) k)) = None \<and>
    lpm_elem_update s' (Some k) (Some v) BPF_NOEXIST = (s', Err EEXIST) \<and>
    (le_nat (take 4 k) = lpm_data_size s * 8 \<longrightarrow> lpm_elem_lookup s' (Some k) = Err ENOENT)"
proof -
  let ?ds = "lpm_data_size s" and ?plen = "le_nat (take 4 k)"
  note step = lpm_delete_step [OF assms(1,2,4)]
  have le: "?plen \<le> ?ds * 8" using step by (auto simp: lpm_prefix_def split: if_splits)
  obtain t' where t': "lpm_delete_walk ?ds ?plen (drop 4 k) (lpm_root s) = Ok t'" "lpm_root s' = t'"
    using assms(1,2,4) le lpm_read_key_eq [of k ?ds]
    by (cases "lpm_delete_walk ?ds ?plen (drop 4 k) (lpm_root s)")
      (auto simp: lpm_elem_delete_def lpm_inv_def)
  note walks = lpm_deleted_walks [OF t'(1) le]
  have s': "lpm_data_size s' = ?ds" "lpm_value_size s' = lpm_value_size s" "lpm_max_prefixlen s' = ?ds * 8"
    using step by (auto simp: lpm_inv_def)
  show ?thesis using step le walks t'(2) s' lpm_read_key_eq [of k ?ds] assms(2,3)
    by (auto simp: lpm_elem_update_def lpm_elem_lookup_def lpm_prefix_def read_all flag_defs
        split: if_splits)
qed

text \<open>A trie with the prefix \<open>11\<close> and a key of maximal length below it.\<close>

definition lpm_fresh :: lpm_trie_map_impl where
  "lpm_fresh = \<lparr>lpm_key_size = 5, lpm_value_size = 1, lpm_max_entries = 4, lpm_data_size = 1,
     lpm_max_prefixlen = 8, lpm_root = LNull, lpm_n_entries = 0\<rparr>"

definition lpm_sample :: lpm_trie_map_impl where
  "lpm_sample = lpm_fresh\<lparr>lpm_n_entries := 2,
     lpm_root := LNode (LNode LNull LNull 8 False [210, 8]) LNull 2 False [192, 7]\<rparr>"

lemma lpm_sample_run:
  "fst (run lpm_step lpm_fresh [FUpdate [2, 0, 0, 0, 192] [7] 0, FUpdate [8, 0, 0, 0, 210] [8] 0]) = lpm_sample"
  by code_simp

lemma lpm_sample_inv: "lpm_inv lpm_sample"
proof -
  have new: "lpm_trie_map_impl_new 5 1 4 = Ok lpm_fresh"
    by (simp add: lpm_trie_map_impl_new_def LPM_KEY_SIZE_MIN_def LPM_KEY_SIZE_MAX_def lpm_fresh_def)
  show ?thesis unfolding lpm_sample_run [symmetric]
    using lpm.sim_run [of lpm_fresh "[FUpdate [2, 0, 0, 0, 192] [7] 0, FUpdate [8, 0, 0, 0, 210] [8] 0]"]
      lpm_new_inv [OF new] by (simp del: run.simps add: flag_defs)
qed

theorem lpm_deleted_key_witness:
  "lpm_elem_lookup lpm_sample (Some [8, 0, 0, 0, 211]) = Ok [7] \<and>
   (\<exists>s'. lpm_elem_delete lpm_sample (Some [8, 0, 0, 0, 210]) = (s', Ok ()) \<and>
     lpm_elem_lookup s' (Some [8, 0, 0, 0, 210]) = Err ENOENT \<and>
     lpm_elem_lookup s' (Some [8, 0, 0, 0, 211]) = Ok [7])"
proof -
  obtain s' where s': "lpm_elem_delete lpm_sample (Some [8, 0, 0, 0, 210]) = (s', Ok ())"
      "lpm_elem_lookup s' (Some [8, 0, 0, 0, 211]) = Ok [7]"
  proof
    show "lpm_elem_delete lpm_sample (Some [8, 0, 0, 0, 210]) =
        (lpm_sample\<lparr>lpm_n_entries := 1,
          lpm_root := LNode (LNode LNull LNull 8 True [210]) LNull 2 False [192, 7]\<rparr>, Ok ())"
      by code_simp
    show "lpm_elem_lookup (lpm_sample\<lparr>lpm_n_entries := 1,
          lpm_root := LNode (LNode LNull LNull 8 True [210]) LNull 2 False [192, 7]\<rparr>)
        (Some [8, 0, 0, 0, 211]) = Ok [7]" by code_simp
  qed
  have "lpm_elem_lookup lpm_sample (Some [8, 0, 0, 0, 211]) = Ok [7]" by code_simp
  moreover have "lpm_elem_lookup s' (Some [8, 0, 0, 0, 210]) = Err ENOENT"
    using lpm_deleted_key [OF lpm_sample_inv _ _ s'(1), of "[0]"]
    by (simp add: lpm_sample_def lpm_fresh_def)
  ultimately show ?thesis using s' by blast
qed

section \<open>The first key\<close>

lemma lpm_leftmost_table:
  assumes "lpm_wf ds vs c t" and "ds \<le> 256" and "lpm_leftmost ds t = Ok k"
  shows "length k = 4 + ds \<and> (\<exists>q. lpm_prefix ds k = Some q \<and> lpm_table ds t q \<noteq> None)"
  using assms
proof (induction t arbitrary: c)
  case (LNode l r p im d)
  let ?P = "lpm_bits ds d p"
  show ?case
  proof (cases im)
    case False
    then have k: "k = le_bytes 4 p @ take ds d" and len: "length d = ds + vs" "p \<le> ds * 8"
      using LNode.prems by (auto simp: read_at_def)
    have "le_nat (le_bytes 4 p) = p" by (rule le_nat_le_bytes_4) (use len(2) LNode.prems(2) in simp)
    then have "lpm_prefix ds k = Some ?P" using len(2) by (simp add: lpm_prefix_def k lpm_bits_take)
    moreover have "lpm_table ds (LNode l r p im d) ?P = Some (drop ds d)" using False by simp
    ultimately show ?thesis using k len by (simp del: lpm_table.simps)
  next
    case True
    let ?b = "l = LNull"
    have wf: "lpm_wf ds vs (?P @ [?b]) (if ?b then r else l)" using LNode.prems(1) by (cases ?b) simp_all
    have "length k = 4 + ds \<and> (\<exists>q. lpm_prefix ds k = Some q \<and> lpm_table ds (if ?b then r else l) q \<noteq> None)"
      using LNode.IH [of "?P @ [?b]"] wf LNode.prems(2,3) True by (cases ?b) simp_all
    then obtain q where q: "length k = 4 + ds" "lpm_prefix ds k = Some q"
      "lpm_table ds (if ?b then r else l) q \<noteq> None" by blast
    note pq = lpm_table_ctx [OF wf q(3)]
    have "lpm_table ds (LNode l r p im d) q \<noteq> None"
      using lpm_table_child [OF LNode.prems(1) pq, of q] prefix_branch_neq [OF pq] q(3)
      by (simp del: lpm_table.simps)
    with q show ?thesis by (simp del: lpm_table.simps)
  qed
qed simp

text \<open>the key that \<open>map_get_next_key\<close> returns for a null key is stored in the trie; for
  any other key the call ends the iteration, so it never reports a second key.\<close>

theorem lpm_first_key:
  assumes "lpm_inv s"
  shows "(\<forall>k. lpm_map_get_next_key s None True = Ok k \<longrightarrow> length k = 4 + lpm_data_size s \<and>
      (\<exists>q. lpm_prefix (lpm_data_size s) k = Some q \<and> lpm_abs s q \<noteq> None)) \<and>
    lpm_map_get_next_key s (Some key) True = Err ENOENT"
  using assms lpm_leftmost_table [of "lpm_data_size s" "lpm_value_size s" "[]" "lpm_root s"]
  by (auto simp: lpm_map_get_next_key_def lpm_inv_def lpm_abs_def)

theorem lpm_first_key_witness:
  "lpm_map_get_next_key lpm_sample None True = Ok [2, 0, 0, 0, 192] \<and>
   lpm_map_get_next_key lpm_sample (Some [2, 0, 0, 0, 192]) True = Err ENOENT"
  using lpm_first_key [OF lpm_sample_inv, of "[2, 0, 0, 0, 192]"]
  by (simp add: lpm_map_get_next_key_def lpm_sample_def lpm_fresh_def read_at_def le_bytes_numeral)

end
