(* ===== verification/Bloom_Filter.thy ===== *)
theory Bloom_Filter
  imports Simulation
begin

text \<open>
  The Bloom filter map of \<open>bloom_filter.cpp\<close>: the sizing of the bit array, the two hash
  functions on 32-bit words, the byte-wise bit operations and the map calls. The random seed is
  an argument of the constructor. The theory shows that every index lies inside the array and
  characterises the answers: an element is reported as possibly present exactly when the bits
  of its hashes are among the bits of the elements that were added.
\<close>

unbundle bit_operations_syntax

section \<open>The map\<close>

datatype BloomHashAlgorithm = DJB2 | JHASH

record bloom_filter_map_impl =
  bf_value_size :: nat
  bf_max_entries :: nat
  bf_nr_hashes :: nat
  bf_hash_algorithm :: BloomHashAlgorithm
  bf_hash_seed :: "32 word"
  bf_bit_array_size_bits :: nat
  bf_bit_array_size_bytes :: nat
  bf_bit_array_mask :: "32 word"
  bf_bit_array :: bytes

definition calculate_optimal_bit_array_size :: "nat \<Rightarrow> nat \<Rightarrow> nat" where
  "calculate_optimal_bit_array_size max_entries nr_hashes =
     (let optimal_size = u64 (max_entries * nr_hashes * 7) div 5;
          optimal_size = (if optimal_size < 64 then 64 else optimal_size) in
      if 2 ^ 31 < optimal_size then 2 ^ 31 else optimal_size)"

text \<open>\<open>while (power_of_2_bits < n) power_of_2_bits <<= 1\<close> on a \<open>size_t\<close>.\<close>

partial_function (option) bloom_power_loop :: "nat \<Rightarrow> nat \<Rightarrow> nat option" where
  "bloom_power_loop p n = (if p < n then bloom_power_loop (u64 (2 * p)) n else Some p)"

definition bloom_filter_map_impl_new :: "nat \<Rightarrow> nat \<Rightarrow> nat \<Rightarrow> BloomHashAlgorithm \<Rightarrow> 32 word \<Rightarrow>
    bloom_filter_map_impl outcome" where
  "bloom_filter_map_impl_new value_size max_entries nr_hashes algo seed =
     (if value_size = 0 \<or> max_entries = 0 then Thrown
      else if nr_hashes = 0 \<or> 15 < nr_hashes then Thrown
      else case bloom_power_loop 1 (calculate_optimal_bit_array_size max_entries nr_hashes) of
          None \<Rightarrow> NoReturn
        | Some bits \<Rightarrow> Ok \<lparr>bf_value_size = value_size, bf_max_entries = max_entries,
            bf_nr_hashes = nr_hashes, bf_hash_algorithm = algo, bf_hash_seed = seed,
            bf_bit_array_size_bits = bits, bf_bit_array_size_bytes = (bits + 7) div 8,
            bf_bit_array_mask = of_nat (bits - 1),
            bf_bit_array = replicate ((bits + 7) div 8) 0\<rparr>)"

section \<open>Hashing\<close>

definition rol32 :: "32 word \<Rightarrow> nat \<Rightarrow> 32 word" where
  "rol32 w n = push_bit n w OR drop_bit (32 - n) w"

text \<open>Byte \<open>i\<close> of the key, shifted into place.\<close>

definition jhash_byte :: "bytes \<Rightarrow> nat \<Rightarrow> nat \<Rightarrow> 32 word" where
  "jhash_byte k i n = push_bit n (ucast (k ! i))"

definition jhash_word :: "bytes \<Rightarrow> nat \<Rightarrow> 32 word" where
  "jhash_word k i = jhash_byte k i 0 + jhash_byte k (i + 1) 8 + jhash_byte k (i + 2) 16 +
     jhash_byte k (i + 3) 24"

definition jhash_mix :: "32 word \<Rightarrow> 32 word \<Rightarrow> 32 word \<Rightarrow> 32 word \<times> 32 word \<times> 32 word" where
  "jhash_mix a b c =
     (let a = a - c; a = a XOR rol32 c 4; c = c + b;
          b = b - a; b = b XOR rol32 a 6; a = a + c;
          c = c - b; c = c XOR rol32 b 8; b = b + a;
          a = a - c; a = a XOR rol32 c 16; c = c + b;
          b = b - a; b = b XOR rol32 a 19; a = a + c;
          c = c - b; c = c XOR rol32 b 4; b = b + a in (a, b, c))"

definition jhash_final :: "32 word \<Rightarrow> 32 word \<Rightarrow> 32 word \<Rightarrow> 32 word" where
  "jhash_final a b c =
     (let c = c XOR b; c = c - rol32 b 14; a = a XOR c; a = a - rol32 c 11;
          b = b XOR a; b = b - rol32 a 25; c = c XOR b; c = c - rol32 b 16;
          a = a XOR c; a = a - rol32 c 4; b = b XOR a; b = b - rol32 a 14;
          c = c XOR b; c = c - rol32 b 24 in c)"

text \<open>The switch on the last bytes falls through from its case down to case 1.\<close>

definition jhash_tail :: "bytes \<Rightarrow> nat \<Rightarrow> 32 word \<Rightarrow> 32 word \<Rightarrow> 32 word \<Rightarrow> 32 word" where
  "jhash_tail k len a b c =
     (if len = 0 then c
      else let add = (\<lambda>x i n. if i < len then x + jhash_byte k i n else x);
          c = add (add (add (add c 11 24) 10 16) 9 8) 8 0;
          b = add (add (add (add b 7 24) 6 16) 5 8) 4 0;
          a = add (add (add (add a 3 24) 2 16) 1 8) 0 0 in jhash_final a b c)"

function jhash_loop :: "bytes \<Rightarrow> nat \<Rightarrow> 32 word \<Rightarrow> 32 word \<Rightarrow> 32 word \<Rightarrow> 32 word" where
  "jhash_loop k len a b c =
     (if 12 < len
      then case jhash_mix (a + jhash_word k 0) (b + jhash_word k 4) (c + jhash_word k 8) of
          (a, b, c) \<Rightarrow> jhash_loop (drop 12 k) (len - 12) a b c
      else jhash_tail k len a b c)"
  by pat_completeness auto
termination
  by (relation "measure (\<lambda>(k, len, a, b, c). len)") auto

declare jhash_loop.simps [simp del]

definition jhash :: "bytes \<Rightarrow> nat \<Rightarrow> 32 word \<Rightarrow> 32 word" where
  "jhash k len initval = (let s = 0xdeadbeef + of_nat len + initval in jhash_loop k len s s s)"

definition djb2 :: "bytes \<Rightarrow> 32 word \<Rightarrow> 32 word" where
  "djb2 data start =
     (let h = foldl (\<lambda>h d. (push_bit 5 h + h) + ucast d) start data;
          h = h XOR drop_bit 16 h; h = h * 0x85ebca6b; h = h XOR drop_bit 13 h;
          h = h * 0xc2b2ae35 in h XOR drop_bit 16 h)"

text \<open>The value has \<open>_value_size\<close> bytes.\<close>

definition bloom_hash_value :: "bloom_filter_map_impl \<Rightarrow> bytes \<Rightarrow> nat \<Rightarrow> 32 word" where
  "bloom_hash_value s v i =
     (case bf_hash_algorithm s of
        JHASH \<Rightarrow> jhash v (bf_value_size s) (bf_hash_seed s + of_nat i)
      | DJB2 \<Rightarrow> djb2 v (bf_hash_seed s + of_nat i * 0x9e3779b9)) AND bf_bit_array_mask s"

section \<open>Bits and calls\<close>

definition bloom_set_bit :: "nat \<Rightarrow> bytes \<Rightarrow> bytes" where
  "bloom_set_bit bit_index a =
     (let byte_index = bit_index div 8; bit_offset = bit_index mod 8 in
      if byte_index < length a then a[byte_index := a ! byte_index OR push_bit bit_offset 1] else a)"

definition bloom_test_bit :: "bytes \<Rightarrow> nat \<Rightarrow> bool" where
  "bloom_test_bit a bit_index =
     (let byte_index = bit_index div 8; bit_offset = bit_index mod 8 in
      byte_index < length a \<and> a ! byte_index AND push_bit bit_offset 1 \<noteq> 0)"

definition bloom_elem_lookup :: "bloom_filter_map_impl \<Rightarrow> bytes option \<Rightarrow> bytes outcome" where
  "bloom_elem_lookup s key = Err ENOTSUP"

text \<open>The loop over the hash functions that \<open>elem_update\<close> and \<open>map_push_elem\<close> share.\<close>

definition bloom_add :: "bloom_filter_map_impl \<Rightarrow> bytes \<Rightarrow> bloom_filter_map_impl" where
  "bloom_add s v = s\<lparr>bf_bit_array :=
     fold (\<lambda>i a. bloom_set_bit (unat (bloom_hash_value s v i)) a) [0..<bf_nr_hashes s] (bf_bit_array s)\<rparr>"

definition bloom_map_push_elem :: "bloom_filter_map_impl \<Rightarrow> bytes option \<Rightarrow> nat \<Rightarrow>
    bloom_filter_map_impl \<times> unit outcome" where
  "bloom_map_push_elem s val flags =
     (case val of None \<Rightarrow> (s, Err EINVAL)
      | Some v \<Rightarrow>
          if flags \<noteq> BPF_ANY then (s, Err EINVAL)
          else case read_at v 0 (bf_value_size s) of None \<Rightarrow> (s, UB)
               | Some v \<Rightarrow> (bloom_add s v, Ok ()))"

definition bloom_elem_update :: "bloom_filter_map_impl \<Rightarrow> bytes option \<Rightarrow> bytes option \<Rightarrow> nat \<Rightarrow>
    bloom_filter_map_impl \<times> unit outcome" where
  "bloom_elem_update s key val flags =
     (case val of None \<Rightarrow> (s, Err EINVAL)
      | Some v \<Rightarrow>
          if flags \<noteq> BPF_ANY then (s, Err EINVAL)
          else case read_at v 0 (bf_value_size s) of None \<Rightarrow> (s, UB)
               | Some v \<Rightarrow> (bloom_add s v, Ok ()))"

definition bloom_elem_delete :: "bloom_filter_map_impl \<Rightarrow> bytes option \<Rightarrow> unit outcome" where
  "bloom_elem_delete s key = Err ENOTSUP"

definition bloom_map_get_next_key :: "bloom_filter_map_impl \<Rightarrow> bytes option \<Rightarrow> bytes outcome" where
  "bloom_map_get_next_key s key = Err ENOTSUP"

definition bloom_map_pop_elem :: "bloom_filter_map_impl \<Rightarrow> bytes outcome" where
  "bloom_map_pop_elem s = Err ENOTSUP"

definition bloom_map_peek_elem :: "bloom_filter_map_impl \<Rightarrow> bytes option \<Rightarrow> unit outcome" where
  "bloom_map_peek_elem s val =
     (case val of None \<Rightarrow> Err EINVAL
      | Some v \<Rightarrow>
          (case read_at v 0 (bf_value_size s) of None \<Rightarrow> UB
           | Some v \<Rightarrow>
               if list_all (\<lambda>i. bloom_test_bit (bf_bit_array s) (unat (bloom_hash_value s v i)))
                    [0..<bf_nr_hashes s]
               then Ok () else Err ENOENT))"

section \<open>Sizing\<close>

lemma optimal_size_bounds:
  "64 \<le> calculate_optimal_bit_array_size n k" "calculate_optimal_bit_array_size n k \<le> 2 ^ 31"
  by (simp_all add: calculate_optimal_bit_array_size_def Let_def)

lemma bloom_power_loop_spec:
  assumes "2 ^ i < 2 * n \<or> i = 0" and "0 < n" and "n \<le> 2 ^ 31" and "i \<le> 31"
  shows "\<exists>j\<le>31. bloom_power_loop (2 ^ i) n = Some (2 ^ j) \<and> i \<le> j \<and> n \<le> 2 ^ j \<and> (2 ^ j < 2 * n \<or> j = 0)"
  using assms
proof (induction "31 - i" arbitrary: i)
  case 0
  then show ?case by (subst bloom_power_loop.simps) auto
next
  case (Suc d)
  show ?case
  proof (cases "2 ^ i < n")
    case True
    then have "i < 31" using Suc.prems by (metis le_less_trans linorder_neqE_nat not_le power_increasing
          one_le_numeral less_irrefl order_le_less)
    have "u64 (2 * 2 ^ i) = 2 ^ Suc i"
    proof -
      have "(2::nat) ^ Suc i \<le> 2 ^ 31" using \<open>i < 31\<close> by (intro power_increasing) simp_all
      then show ?thesis by simp
    qed
    moreover have "\<exists>j\<le>31. bloom_power_loop (2 ^ Suc i) n = Some (2 ^ j) \<and> Suc i \<le> j \<and> n \<le> 2 ^ j \<and>
        (2 ^ j < 2 * n \<or> j = 0)"
      using Suc.hyps(1) [of "Suc i"] Suc.hyps(2) Suc.prems True \<open>i < 31\<close> by simp
    ultimately show ?thesis using True by (subst bloom_power_loop.simps) auto
  next
    case False
    then show ?thesis using Suc.prems by (subst bloom_power_loop.simps) (auto intro!: exI [of _ i])
  qed
qed

definition bloom_inv :: "bloom_filter_map_impl \<Rightarrow> bool" where
  "bloom_inv s \<longleftrightarrow> (\<exists>j. 6 \<le> j \<and> j \<le> 31 \<and> bf_bit_array_size_bits s = 2 ^ j \<and>
     bf_bit_array_mask s = mask j \<and> length (bf_bit_array s) * 8 = 2 ^ j)"

lemma power_div_8: "3 \<le> j \<Longrightarrow> (2 ^ j + 7) div 8 * 8 = (2::nat) ^ j"
proof -
  assume "3 \<le> j"
  then obtain i where "j = 3 + i" using le_Suc_ex by blast
  then have "(2::nat) ^ j = 8 * 2 ^ i" by (simp add: power_add)
  then show ?thesis by simp
qed

lemma of_nat_mask: "(of_nat (2 ^ j - 1) :: 32 word) = mask j"
  by (simp add: mask_eq_exp_minus_1 of_nat_diff)

lemma bloom_new_inv:
  assumes "value_size \<noteq> 0" and "max_entries \<noteq> 0" and "nr_hashes \<noteq> 0" and "nr_hashes \<le> 15"
  shows "\<exists>s. bloom_filter_map_impl_new value_size max_entries nr_hashes algo seed = Ok s \<and> bloom_inv s \<and>
    bf_value_size s = value_size \<and> bf_nr_hashes s = nr_hashes \<and>
    bf_bit_array s = replicate (length (bf_bit_array s)) 0 \<and>
    calculate_optimal_bit_array_size max_entries nr_hashes \<le> bf_bit_array_size_bits s \<and>
    bf_bit_array_size_bits s < 2 * calculate_optimal_bit_array_size max_entries nr_hashes"
proof -
  let ?n = "calculate_optimal_bit_array_size max_entries nr_hashes"
  have n: "64 \<le> ?n" "?n \<le> 2 ^ 31" by (rule optimal_size_bounds)+
  obtain j where j: "j \<le> 31" "bloom_power_loop 1 ?n = Some (2 ^ j)" "?n \<le> 2 ^ j" "2 ^ j < 2 * ?n \<or> j = 0"
    using bloom_power_loop_spec [of 0 ?n] n by auto
  have six: "6 \<le> j"
  proof (rule ccontr)
    assume "\<not> 6 \<le> j"
    then have "(2::nat) ^ j \<le> 2 ^ 5" by (intro power_increasing) simp_all
    with j(3) n(1) show False by simp
  qed
  show ?thesis
    using assms j six power_div_8 [of j] of_nat_mask [of j]
    by (auto simp: bloom_filter_map_impl_new_def bloom_inv_def)
qed

lemma bloom_hash_bound:
  assumes "bloom_inv s"
  shows "unat (bloom_hash_value s v i) < bf_bit_array_size_bits s"
    and "unat (bloom_hash_value s v i) div 8 < length (bf_bit_array s)"
proof -
  obtain j where j: "j \<le> 31" "bf_bit_array_size_bits s = 2 ^ j" "bf_bit_array_mask s = mask j"
      "length (bf_bit_array s) * 8 = 2 ^ j" using assms by (auto simp: bloom_inv_def)
  have "unat (w AND mask j :: 32 word) < 2 ^ j" for w
  proof -
    have "unat (take_bit j w) = take_bit j (unat w)" by (simp add: unsigned_take_bit_eq)
    then show ?thesis using take_bit_nat_less_exp [of j "unat w"] by (simp add: take_bit_eq_mask)
  qed
  then show b: "unat (bloom_hash_value s v i) < bf_bit_array_size_bits s"
    by (simp add: bloom_hash_value_def j)
  then show "unat (bloom_hash_value s v i) div 8 < length (bf_bit_array s)" using j(2,4) by simp
qed

section \<open>Bits\<close>

lemma length_bloom_set_bit [simp]: "length (bloom_set_bit i a) = length a"
  by (simp add: bloom_set_bit_def Let_def)

lemma bloom_test_set_bit:
  assumes "i div 8 < length a"
  shows "bloom_test_bit (bloom_set_bit i a) k \<longleftrightarrow> k = i \<or> bloom_test_bit a k"
proof -
  have small: "m mod 8 < 8" for m :: nat by simp
  have bits: "bit (w OR 2 ^ (i mod 8)) (k mod 8) \<longleftrightarrow> bit w (k mod 8) \<or> k mod 8 = i mod 8"
    for w :: byte
    using small [of k] small [of i] by (auto simp: bit_or_iff bit_exp_iff)
  have eq: "k = i \<longleftrightarrow> k div 8 = i div 8 \<and> k mod 8 = i mod 8"
    by (metis div_mult_mod_eq)
  show ?thesis using assms
    by (auto simp: bloom_test_bit_def bloom_set_bit_def Let_def and_exp_eq_0_iff_not_bit bits eq
        nth_list_update)
qed

text \<open>The bits an element asks for, and the bits that are set.\<close>

definition bloom_bits :: "bloom_filter_map_impl \<Rightarrow> bytes \<Rightarrow> nat set" where
  "bloom_bits s v = (\<lambda>i. unat (bloom_hash_value s v i)) ` {..<bf_nr_hashes s}"

definition bloom_abs :: "bloom_filter_map_impl \<Rightarrow> nat set" where
  "bloom_abs s = {i. bloom_test_bit (bf_bit_array s) i}"

lemma bloom_fold_bits:
  assumes "\<forall>i\<in>set xs. f i div 8 < length a"
  shows "length (fold (\<lambda>i a. bloom_set_bit (f i) a) xs a) = length a \<and>
    {k. bloom_test_bit (fold (\<lambda>i a. bloom_set_bit (f i) a) xs a) k} =
      {k. bloom_test_bit a k} \<union> f ` set xs"
  using assms
proof (induction xs arbitrary: a)
  case (Cons x xs)
  have "{k. bloom_test_bit (bloom_set_bit (f x) a) k} = insert (f x) {k. bloom_test_bit a k}"
    using bloom_test_set_bit [of "f x" a] Cons.prems by auto
  then show ?case using Cons.IH [of "bloom_set_bit (f x) a"] Cons.prems by simp
qed simp

text \<open>The hash of a value depends on the configuration of the map and not on its bits.\<close>

lemma bloom_hash_cong [simp]:
  "bloom_hash_value (s\<lparr>bf_bit_array := a\<rparr>) v i = bloom_hash_value s v i"
  by (cases "bf_hash_algorithm s") (simp_all add: bloom_hash_value_def)

lemma bloom_add_keeps:
  assumes "bloom_inv s"
  shows "bloom_inv (bloom_add s v)" "bloom_abs (bloom_add s v) = bloom_abs s \<union> bloom_bits s v"
    "bf_value_size (bloom_add s v) = bf_value_size s" "bloom_bits (bloom_add s v) = bloom_bits s"
  using bloom_fold_bits [of "[0..<bf_nr_hashes s]" "\<lambda>i. unat (bloom_hash_value s v i)" "bf_bit_array s"]
    bloom_hash_bound(2) [OF assms, of v] assms
  by (auto simp: bloom_add_def bloom_inv_def bloom_abs_def bloom_bits_def lessThan_atLeast0 fun_eq_iff)

section \<open>The answers\<close>

datatype bloom_op = BPush bytes nat | BUpdate bytes nat | BPeek bytes

fun bloom_step :: "bloom_filter_map_impl \<Rightarrow> bloom_op \<Rightarrow> bloom_filter_map_impl \<times> unit outcome" where
  "bloom_step s (BPush v flags) = bloom_map_push_elem s (Some v) flags"
| "bloom_step s (BUpdate v flags) = bloom_elem_update s None (Some v) flags"
| "bloom_step s (BPeek v) = (s, bloom_map_peek_elem s (Some v))"

text \<open>The specification keeps the set of bits; \<open>h\<close> gives the bits of an element.\<close>

fun bloom_spec :: "(bytes \<Rightarrow> nat set) \<Rightarrow> nat set \<Rightarrow> bloom_op \<Rightarrow> nat set \<times> unit outcome" where
  "bloom_spec h B (BPush v flags) = (if flags = BPF_ANY then (B \<union> h v, Ok ()) else (B, Err EINVAL))"
| "bloom_spec h B (BUpdate v flags) = (if flags = BPF_ANY then (B \<union> h v, Ok ()) else (B, Err EINVAL))"
| "bloom_spec h B (BPeek v) = (B, if h v \<subseteq> B then Ok () else Err ENOENT)"

fun bloom_ok :: "nat \<Rightarrow> bloom_op \<Rightarrow> bool" where
  "bloom_ok w (BPush v flags) = (length v = w)"
| "bloom_ok w (BUpdate v flags) = (length v = w)"
| "bloom_ok w (BPeek v) = (length v = w)"

lemma bloom_peek_abs:
  "length v = bf_value_size s \<Longrightarrow>
     bloom_map_peek_elem s (Some v) = (if bloom_bits s v \<subseteq> bloom_abs s then Ok () else Err ENOENT)"
  by (auto simp: bloom_map_peek_elem_def read_all bloom_bits_def bloom_abs_def list_all_iff
      image_subset_iff)

interpretation bloom: simulation bloom_inv bloom_abs "\<lambda>s. bloom_ok (bf_value_size s)" bloom_step
  "\<lambda>s. bloom_spec (bloom_bits s)"
proof
  fix s x
  assume inv: "bloom_inv s" and ok: "bloom_ok (bf_value_size s) x"
  show "bloom_inv (fst (bloom_step s x)) \<and>
      bloom_ok (bf_value_size (fst (bloom_step s x))) = bloom_ok (bf_value_size s) \<and>
      bloom_spec (bloom_bits (fst (bloom_step s x))) = bloom_spec (bloom_bits s)"
    using inv ok bloom_add_keeps [OF inv]
    by (cases x) (simp_all add: bloom_map_push_elem_def bloom_elem_update_def read_all)
  show "(bloom_abs (fst (bloom_step s x)), snd (bloom_step s x)) = bloom_spec (bloom_bits s) (bloom_abs s) x"
    using inv ok bloom_add_keeps [OF inv]
    by (cases x) (simp_all add: bloom_map_push_elem_def bloom_elem_update_def read_all bloom_peek_abs)
qed

text \<open>The elements a run adds.\<close>

definition bloom_added :: "bloom_op list \<Rightarrow> bytes set" where
  "bloom_added xs = {v. BPush v BPF_ANY \<in> set xs \<or> BUpdate v BPF_ANY \<in> set xs}"

lemma bloom_spec_run: "fst (run (bloom_spec h) B xs) = B \<union> \<Union> (h ` bloom_added xs)"
proof (induction xs arbitrary: B)
  case (Cons x xs)
  have add: "bloom_added (x # xs) = bloom_added [x] \<union> bloom_added xs" by (auto simp: bloom_added_def)
  have "fst (bloom_spec h B x) = B \<union> \<Union> (h ` bloom_added [x])"
    by (cases x) (auto simp: bloom_added_def)
  then show ?case using Cons [of "fst (bloom_spec h B x)"] unfolding add
    by (cases "bloom_spec h B x"; cases "run (bloom_spec h) (fst (bloom_spec h B x)) xs") auto
qed (simp add: bloom_added_def)

text \<open>C7: after any sequence of calls on a fresh Bloom filter, a peek says that an element may
  be present exactly when each of its hash positions is a hash position of an element that was
  added. So an element that was added is always reported; and the number of bits in the array is
  the least power of two that is not below the optimal size, and the mask selects that many bits.\<close>

theorem bloom_filter_answers:
  assumes "vs \<noteq> 0" and "n \<noteq> 0" and "k \<noteq> 0" and "k \<le> 15"
  shows "\<exists>s. bloom_filter_map_impl_new vs n k algo seed = Ok s \<and>
    (\<exists>j. bf_bit_array_size_bits s = 2 ^ j \<and> bf_bit_array_mask s = mask j \<and>
      calculate_optimal_bit_array_size n k \<le> 2 ^ j \<and>
      (\<forall>i. calculate_optimal_bit_array_size n k \<le> 2 ^ i \<longrightarrow> j \<le> i)) \<and>
    (\<forall>xs v. (\<forall>x\<in>set xs. bloom_ok vs x) \<and> length v = vs \<longrightarrow>
      bloom_map_peek_elem (fst (run bloom_step s xs)) (Some v) =
        (if bloom_bits s v \<subseteq> \<Union> (bloom_bits s ` bloom_added xs) then Ok () else Err ENOENT))"
proof -
  obtain s where s: "bloom_filter_map_impl_new vs n k algo seed = Ok s" "bloom_inv s" "bf_value_size s = vs"
      "bf_bit_array s = replicate (length (bf_bit_array s)) 0"
      "calculate_optimal_bit_array_size n k \<le> bf_bit_array_size_bits s"
      "bf_bit_array_size_bits s < 2 * calculate_optimal_bit_array_size n k"
    using bloom_new_inv [OF assms, of algo seed] by blast
  obtain j where j: "bf_bit_array_size_bits s = 2 ^ j" "bf_bit_array_mask s = mask j"
    using s(2) by (auto simp: bloom_inv_def)
  have "j \<le> i" if "calculate_optimal_bit_array_size n k \<le> 2 ^ i" for i
  proof (rule ccontr)
    assume "\<not> j \<le> i"
    then have "(2::nat) ^ Suc i \<le> 2 ^ j" by (intro power_increasing) simp_all
    with that s(6) j(1) show False by simp
  qed
  with s(5) j have size: "\<exists>j. bf_bit_array_size_bits s = 2 ^ j \<and> bf_bit_array_mask s = mask j \<and>
      calculate_optimal_bit_array_size n k \<le> 2 ^ j \<and>
      (\<forall>i. calculate_optimal_bit_array_size n k \<le> 2 ^ i \<longrightarrow> j \<le> i)" by auto
  have "\<not> bloom_test_bit (replicate m 0) i" for m i by (simp add: bloom_test_bit_def Let_def)
  then have empty: "bloom_abs s = {}" using s(4) unfolding bloom_abs_def by (metis empty_Collect_eq)
  have "bloom_map_peek_elem (fst (run bloom_step s xs)) (Some v) =
      (if bloom_bits s v \<subseteq> \<Union> (bloom_bits s ` bloom_added xs) then Ok () else Err ENOENT)"
    if "\<forall>x\<in>set xs. bloom_ok vs x" and "length v = vs" for xs v
  proof -
    have ok: "\<forall>x\<in>set (xs @ [BPeek v]). bloom_ok (bf_value_size s) x" using that s(3) by auto
    have "snd (run bloom_step s (xs @ [BPeek v])) = snd (run (bloom_spec (bloom_bits s)) {} (xs @ [BPeek v]))"
      using bloom.sim_run [OF s(2) ok] empty by (metis snd_conv)
    then have "last (snd (run bloom_step s (xs @ [BPeek v]))) =
        last (snd (run (bloom_spec (bloom_bits s)) {} (xs @ [BPeek v])))" by simp
    then show ?thesis using bloom_spec_run [of "bloom_bits s" "{}" xs]
      by (simp add: run_append Let_def split_beta)
  qed
  with s(1) size show ?thesis by blast
qed

theorem bloom_filter_answers_witness:
  "\<exists>s. bloom_filter_map_impl_new 1 4 2 DJB2 5 = Ok s \<and> bf_bit_array_size_bits s = 64 \<and>
    bloom_map_peek_elem (fst (run bloom_step s [BPush [7] 0, BUpdate [9] 0])) (Some [7]) = Ok ()"
proof -
  obtain s where s: "bloom_filter_map_impl_new 1 4 2 DJB2 5 = Ok s"
      "\<exists>j. bf_bit_array_size_bits s = 2 ^ j \<and> bf_bit_array_mask s = mask j \<and>
        calculate_optimal_bit_array_size 4 2 \<le> 2 ^ j \<and> (\<forall>i. calculate_optimal_bit_array_size 4 2 \<le> 2 ^ i \<longrightarrow> j \<le> i)"
      "\<And>xs v. (\<forall>x\<in>set xs. bloom_ok 1 x) \<and> length v = 1 \<Longrightarrow>
        bloom_map_peek_elem (fst (run bloom_step s xs)) (Some v) =
          (if bloom_bits s v \<subseteq> \<Union> (bloom_bits s ` bloom_added xs) then Ok () else Err ENOENT)"
    using bloom_filter_answers [of 1 4 2 DJB2 5] by auto
  have "[7] \<in> bloom_added [BPush [7] 0, BUpdate [9] 0]" by (simp add: bloom_added_def BPF_ANY_def)
  then have "bloom_bits s [7] \<subseteq> \<Union> (bloom_bits s ` bloom_added [BPush [7] 0, BUpdate [9] 0])" by blast
  then have "bloom_map_peek_elem (fst (run bloom_step s [BPush [7] 0, BUpdate [9] 0])) (Some [7]) = Ok ()"
    using s(3) [of "[BPush [7] 0, BUpdate [9] 0]" "[7]"] by (simp del: run.simps)
  moreover have "calculate_optimal_bit_array_size 4 2 = 64"
    by (simp add: calculate_optimal_bit_array_size_def)
  moreover have "bf_bit_array_size_bits s = 64"
  proof -
    obtain j where j: "bf_bit_array_size_bits s = 2 ^ j" "64 \<le> (2::nat) ^ j" "\<forall>i. 64 \<le> (2::nat) ^ i \<longrightarrow> j \<le> i"
      using s(2) calculation(2) by auto
    have "j \<le> 6" using spec [OF j(3), of 6] by simp
    then have "(2::nat) ^ j \<le> 2 ^ 6" by (intro power_increasing) simp_all
    then show ?thesis using j(1,2) by simp
  qed
  ultimately show ?thesis using s(1) by auto
qed

text \<open>every position that a hash function of the filter gives lies inside the bit array, so
  \<open>set_bit\<close> and \<open>test_bit\<close> never skip a bit; and any sequence of calls keeps it so.\<close>

theorem bloom_positions_in_range:
  assumes "bloom_filter_map_impl_new vs n k algo seed = Ok s" and "\<forall>x\<in>set xs. bloom_ok vs x"
  shows "unat (bloom_hash_value (fst (run bloom_step s xs)) v i) div 8
    < length (bf_bit_array (fst (run bloom_step s xs)))"
proof -
  have "vs \<noteq> 0" "n \<noteq> 0" "k \<noteq> 0" "k \<le> 15"
    using assms(1) by (auto simp: bloom_filter_map_impl_new_def split: if_splits)
  then have "bloom_inv s" "bf_value_size s = vs" using bloom_new_inv [of vs n k algo seed] assms(1) by auto
  then have "bloom_inv (fst (run bloom_step s xs))" using bloom.sim_run assms(2) by blast
  then show ?thesis by (rule bloom_hash_bound(2))
qed

theorem bloom_positions_in_range_witness:
  "\<exists>s. bloom_filter_map_impl_new 1 4 2 JHASH 5 = Ok s \<and>
    unat (bloom_hash_value (fst (run bloom_step s [BPush [7] 0])) [7] 1) div 8
      < length (bf_bit_array (fst (run bloom_step s [BPush [7] 0])))"
proof -
  obtain s where "bloom_filter_map_impl_new 1 4 2 JHASH 5 = Ok s"
    using bloom_new_inv [of 1 4 2 JHASH 5] by auto
  with bloom_positions_in_range [OF this, of "[BPush [7] 0]" "[7]" 1] show ?thesis by auto
qed

end
