(* ===== verification/Ringbuf.thy ===== *)
theory Ringbuf
  imports Prelude
begin

text \<open>
  The ring buffer of \<open>ringbuf_map.cpp\<close>. Producers reserve a record, fill it through the pointer
  they get, and submit or discard it; the consumer walks the records between the two positions
  and stops at one that is still busy. The positions are 64-bit counters, a record starts with
  an 8-byte header, and the buffer has \<open>2 * max_ent\<close> bytes so that a record that crosses the end
  continues behind it. The spin lock makes \<open>reserve\<close> atomic; \<open>submit\<close> and the loads of the
  consumer are single atomic accesses. A pointer into \<open>data\<close> is its offset.
\<close>

unbundle bit_operations_syntax

section \<open>The buffer\<close>

definition BPF_RINGBUF_BUSY_BIT :: nat where "BPF_RINGBUF_BUSY_BIT = 2147483648"
definition BPF_RINGBUF_DISCARD_BIT :: nat where "BPF_RINGBUF_DISCARD_BIT = 1073741824"
definition BPF_RINGBUF_HDR_SZ :: nat where "BPF_RINGBUF_HDR_SZ = 8"

record ringbuf =
  rb_max_ent :: nat
  rb_consumer_pos :: nat
  rb_producer_pos :: nat
  rb_data :: bytes

definition rb_mask :: "ringbuf \<Rightarrow> nat" where
  "rb_mask s = dec32 (rb_max_ent s)"

lemma rb_mask_update [simp]:
  "rb_mask (s\<lparr>rb_data := d\<rparr>) = rb_mask s" "rb_mask (s\<lparr>rb_producer_pos := p\<rparr>) = rb_mask s"
  "rb_mask (s\<lparr>rb_consumer_pos := p\<rparr>) = rb_mask s"
  by (simp_all add: rb_mask_def)

text \<open>The vector has \<open>getpagesize() * 2 + max_ent * 2\<close> bytes, computed in 32 bits; the two
  positions live in its first two pages.\<close>

definition ringbuf_new :: "nat \<Rightarrow> nat \<Rightarrow> ringbuf outcome" where
  "ringbuf_new page_size max_ent =
     (let raw = u32 (page_size * 2 + u32 (max_ent * 2)) in
      if page_size < 8 then Thrown
      else if raw \<le> page_size * 2 then UB
      else Ok \<lparr>rb_max_ent = max_ent, rb_consumer_pos = 0, rb_producer_pos = 0,
             rb_data = replicate (raw - page_size * 2) 0\<rparr>)"

definition roundup_len :: "nat \<Rightarrow> nat" where
  "roundup_len len =
     (let len = u32 (push_bit 2 len); len = drop_bit 2 len; len = u32 (len + BPF_RINGBUF_HDR_SZ) in
      u32 (len + 7) div 8 * 8)"

section \<open>The producer\<close>

definition rb_reserve :: "ringbuf \<Rightarrow> nat \<Rightarrow> int \<Rightarrow> ringbuf \<times> nat outcome" where
  "rb_reserve s sz self_fd =
     (if sz AND (BPF_RINGBUF_BUSY_BIT OR BPF_RINGBUF_DISCARD_BIT) \<noteq> 0 then (s, Err E2BIG)
      else let cons_pos = rb_consumer_pos s; prod_pos = rb_producer_pos s;
          avail_size = u64 (rb_max_ent s + 2 ^ 64 - u64 (prod_pos + 2 ^ 64 - cons_pos));
          total_size = u64 (sz + BPF_RINGBUF_HDR_SZ + 7) div 8 * 8 in
        if rb_max_ent s < total_size then (s, Err E2BIG)
        else if avail_size < total_size then (s, Err ENOSPC)
        else let hdr = prod_pos AND rb_mask s in
          case write_at (rb_data s) hdr
              (le_bytes 4 (u32 (sz OR BPF_RINGBUF_BUSY_BIT)) @ le_bytes 4 (u32_of_i32 self_fd)) of
            None \<Rightarrow> (s, UB)
          | Some d \<Rightarrow>
              (s\<lparr>rb_data := d, rb_producer_pos := u64 (prod_pos + total_size)\<rparr>,
               Ok ((prod_pos + BPF_RINGBUF_HDR_SZ) AND rb_mask s)))"

text \<open>\<open>sample\<close> is the offset that \<open>reserve\<close> returned.\<close>

definition rb_submit :: "ringbuf \<Rightarrow> nat \<Rightarrow> bool \<Rightarrow> ringbuf outcome" where
  "rb_submit s sample discard =
     (let hdr_offset = u64 (u32 (rb_mask s + 1) + sample + 2 ^ 64 - BPF_RINGBUF_HDR_SZ);
          hdr = hdr_offset AND rb_mask s in
      bind_out (of_option (read_at (rb_data s) hdr 4)) (\<lambda>len.
        let new_len = le_nat len AND 0x7fffffff;
            new_len = (if discard then new_len OR BPF_RINGBUF_DISCARD_BIT else new_len) in
        bind_out (of_option (write_at (rb_data s) hdr (le_bytes 4 new_len))) (\<lambda>d.
          Ok (s\<lparr>rb_data := d\<rparr>))))"

section \<open>The consumer\<close>

definition rb_read_len :: "ringbuf \<Rightarrow> nat \<Rightarrow> nat outcome" where
  "rb_read_len s pos = of_option (map_option le_nat (read_at (rb_data s) (pos AND rb_mask s) 4))"

text \<open>The bytes a callback finds at \<open>sample\<close>: behind the header of the record.\<close>

definition rb_sample :: "ringbuf \<Rightarrow> nat \<Rightarrow> nat \<Rightarrow> bytes outcome" where
  "rb_sample s pos len = of_option (read_at (rb_data s) ((pos AND rb_mask s) + BPF_RINGBUF_HDR_SZ) len)"

definition rb_has_data :: "ringbuf \<Rightarrow> bool outcome" where
  "rb_has_data s =
     (if rb_consumer_pos s < rb_producer_pos s
      then bind_out (rb_read_len s (rb_consumer_pos s)) (\<lambda>len. Ok (len AND BPF_RINGBUF_BUSY_BIT = 0))
      else Ok False)"

text \<open>
  \<open>fetch_data\<close>: the callback is a parameter, a function of its context and of the bytes it is
  given that returns the new context and an \<open>int\<close>. The two nested loops are one recursion over
  the position; \<open>got\<close> is \<open>got_new_data\<close>, and at the end of the inner loop the producer position
  is read again. The first argument is fuel.
\<close>

fun rb_fetch_loop :: "nat \<Rightarrow> ('c \<Rightarrow> bytes \<Rightarrow> 'c \<times> int) \<Rightarrow> ringbuf \<Rightarrow> 'c \<Rightarrow> nat \<Rightarrow> nat \<Rightarrow> int \<Rightarrow> bool \<Rightarrow>
    (ringbuf \<times> 'c \<times> int) outcome" where
  "rb_fetch_loop 0 cb s ctx cons_pos prod_pos cnt got = NoReturn"
| "rb_fetch_loop (Suc n) cb s ctx cons_pos prod_pos cnt got =
     (if cons_pos < prod_pos then
        bind_out (rb_read_len s cons_pos) (\<lambda>len.
          if len AND BPF_RINGBUF_BUSY_BIT \<noteq> 0 then Ok (s, ctx, cnt)
          else let pos = u64 (cons_pos + roundup_len len); s' = s\<lparr>rb_consumer_pos := pos\<rparr> in
            if len AND BPF_RINGBUF_DISCARD_BIT = 0 then
              bind_out (rb_sample s cons_pos len) (\<lambda>bytes.
                case cb ctx bytes of (ctx', err) \<Rightarrow>
                  if err < 0 then Ok (s', ctx', err)
                  else rb_fetch_loop n cb s' ctx' pos prod_pos (cnt + 1) True)
            else rb_fetch_loop n cb s' ctx pos prod_pos cnt True)
      else if got then rb_fetch_loop n cb s ctx cons_pos (rb_producer_pos s) cnt False
      else Ok (s, ctx, cnt))"

definition rb_fetch_data :: "nat \<Rightarrow> ('c \<Rightarrow> bytes \<Rightarrow> 'c \<times> int) \<Rightarrow> ringbuf \<Rightarrow> 'c \<Rightarrow>
    (ringbuf \<times> 'c \<times> int) outcome" where
  "rb_fetch_data n cb s ctx = rb_fetch_loop n cb s ctx (rb_consumer_pos s) (rb_producer_pos s) 0 False"

section \<open>The map calls that a ring buffer does not have\<close>

definition ringbuf_elem_lookup :: "ringbuf \<Rightarrow> bytes option \<Rightarrow> bytes outcome" where
  "ringbuf_elem_lookup s key = Err ENOTSUP"

definition ringbuf_elem_update :: "ringbuf \<Rightarrow> bytes option \<Rightarrow> bytes option \<Rightarrow> nat \<Rightarrow> unit outcome" where
  "ringbuf_elem_update s key val flags = Err ENOTSUP"

definition ringbuf_elem_delete :: "ringbuf \<Rightarrow> bytes option \<Rightarrow> unit outcome" where
  "ringbuf_elem_delete s key = Err ENOTSUP"

definition ringbuf_map_get_next_key :: "ringbuf \<Rightarrow> bytes option \<Rightarrow> bytes outcome" where
  "ringbuf_map_get_next_key s key = Err ENOTSUP"

section \<open>Arithmetic of positions and headers\<close>

definition rb_total :: "nat \<Rightarrow> nat" where
  "rb_total n = (n + 15) div 8 * 8"

lemma rb_total_bounds: "n + 8 \<le> rb_total n" "rb_total n \<le> n + 15" "8 dvd rb_total n" "8 \<le> rb_total n"
  by (simp_all add: rb_total_def)

lemma and_exp_2 [simp]:
  fixes x :: nat
  shows "x AND BPF_RINGBUF_BUSY_BIT = 0 \<longleftrightarrow> even (x div 2 ^ 31)"
    and "x AND BPF_RINGBUF_DISCARD_BIT = 0 \<longleftrightarrow> even (x div 2 ^ 30)"
  using and_exp_eq_0_iff_not_bit [of x 31] and_exp_eq_0_iff_not_bit [of x 30]
  by (simp_all add: BPF_RINGBUF_BUSY_BIT_def BPF_RINGBUF_DISCARD_BIT_def bit_iff_odd)

lemma rb_size_check:
  "n < 2 ^ 32 \<Longrightarrow> n AND (BPF_RINGBUF_BUSY_BIT OR BPF_RINGBUF_DISCARD_BIT) = 0 \<longleftrightarrow> n < 2 ^ 30"
proof -
  assume n: "n < 2 ^ 32"
  have "n AND (BPF_RINGBUF_BUSY_BIT OR BPF_RINGBUF_DISCARD_BIT) = 0 \<longleftrightarrow>
      n AND BPF_RINGBUF_BUSY_BIT = 0 \<and> n AND BPF_RINGBUF_DISCARD_BIT = 0"
    by (auto simp: bit_eq_iff bit_and_iff bit_or_iff simp del: and_exp_2)
  also have "\<dots> \<longleftrightarrow> n < 2 ^ 30"
  proof -
    have "n div 2 ^ 31 < 2" "n div 2 ^ 30 < 4" using n by auto
    then consider "n div 2 ^ 30 = 0" | "n div 2 ^ 30 = 1" | "n div 2 ^ 31 = 1" by fastforce
    then show ?thesis by cases auto
  qed
  finally show ?thesis .
qed

text \<open>The length word of a header: a size below \<open>2 ^ 30\<close> and the two flags.\<close>

datatype rb_status = Busy | Committed | Discarded

fun rb_flags :: "rb_status \<Rightarrow> nat" where
  "rb_flags Busy = 2147483648"
| "rb_flags Committed = 0"
| "rb_flags Discarded = 1073741824"

lemma nat_or_add: "(a::nat) AND b = 0 \<Longrightarrow> a OR b = a + b"
  by (simp add: disjunctive_add_eq_or)

lemma rb_len_word:
  assumes "n < 2 ^ 30"
  shows "u32 (n OR BPF_RINGBUF_BUSY_BIT) = n + rb_flags Busy"
    and "(n + rb_flags Busy) AND 0x7fffffff = n"
    and "n OR BPF_RINGBUF_DISCARD_BIT = n + rb_flags Discarded"
    and "(n + rb_flags st) AND BPF_RINGBUF_BUSY_BIT \<noteq> 0 \<longleftrightarrow> st = Busy"
    and "(n + rb_flags st) AND BPF_RINGBUF_DISCARD_BIT = 0 \<longleftrightarrow> st \<noteq> Discarded"
    and "roundup_len (n + rb_flags st) = rb_total n"
proof -
  have n: "n div 2 ^ 30 = 0" "n div 2 ^ 31 = 0" using assms by simp_all
  have "n OR BPF_RINGBUF_BUSY_BIT = n + BPF_RINGBUF_BUSY_BIT"
    by (rule nat_or_add) (use n in simp)
  then show "u32 (n OR BPF_RINGBUF_BUSY_BIT) = n + rb_flags Busy"
    using assms by (simp add: BPF_RINGBUF_BUSY_BIT_def)
  show "(n + rb_flags Busy) AND 0x7fffffff = n"
    using nat_and_mask [of "n + 2 ^ 31" 31] assms by simp
  have "n OR BPF_RINGBUF_DISCARD_BIT = n + BPF_RINGBUF_DISCARD_BIT"
    by (rule nat_or_add) (use n in simp)
  then show "n OR BPF_RINGBUF_DISCARD_BIT = n + rb_flags Discarded"
    by (simp add: BPF_RINGBUF_DISCARD_BIT_def)
  have d: "(n + 2147483648) div 2147483648 = 1" "(n + 1073741824) div 1073741824 = 1"
    "(n + 2147483648) div 1073741824 = 2" "(n + 1073741824) div 2147483648 = 0"
    using assms by (simp_all add: div_nat_eqI)
  show "(n + rb_flags st) AND BPF_RINGBUF_BUSY_BIT \<noteq> 0 \<longleftrightarrow> st = Busy"
    using assms d by (cases st) simp_all
  show "(n + rb_flags st) AND BPF_RINGBUF_DISCARD_BIT = 0 \<longleftrightarrow> st \<noteq> Discarded"
    using assms d by (cases st) simp_all
  have "(n * 4 + 8589934592) mod 4294967296 = n * 4"
    using assms mod_mult_self1 [of "n * 4" 2 4294967296] by simp
  then have "u32 (push_bit 2 (n + rb_flags st)) = 4 * n"
    using assms by (cases st) (simp_all add: push_bit_eq_mult u32_def algebra_simps)
  then show "roundup_len (n + rb_flags st) = rb_total n"
    using assms by (simp add: roundup_len_def Let_def drop_bit_eq_div BPF_RINGBUF_HDR_SZ_def rb_total_def
        add.commute [of 15])
qed

section \<open>Records in the buffer\<close>

text \<open>A reserved record: the pointer that was handed out, its status and its contents.\<close>

type_synonym rb_record = "nat \<times> rb_status \<times> bytes"

definition rb_size :: "rb_record \<Rightarrow> nat" where
  "rb_size r = rb_total (length (snd (snd r)))"

lemma rb_size_simp [simp]: "rb_size (off, st, c) = rb_total (length c)"
  by (simp add: rb_size_def)

definition rb_end :: "nat \<Rightarrow> rb_record list \<Rightarrow> nat" where
  "rb_end pos rs = pos + sum_list (map rb_size rs)"

fun rb_rec :: "nat \<Rightarrow> bytes \<Rightarrow> nat \<Rightarrow> rb_record \<Rightarrow> bool" where
  "rb_rec M d pos (off, st, c) \<longleftrightarrow> off = pos mod M + 8 \<and> length c < 2 ^ 30 \<and>
     read_at d (pos mod M) 4 = Some (le_bytes 4 (length c + rb_flags st)) \<and>
     read_at d (pos mod M + 8) (length c) = Some c"

fun rb_layout :: "nat \<Rightarrow> bytes \<Rightarrow> nat \<Rightarrow> rb_record list \<Rightarrow> bool" where
  "rb_layout M d pos [] \<longleftrightarrow> True"
| "rb_layout M d pos (r # rs) \<longleftrightarrow> rb_rec M d pos r \<and> rb_layout M d (pos + rb_size r) rs"

lemma rb_end_simps [simp]: "rb_end pos [] = pos" "rb_end pos (r # rs) = rb_end (pos + rb_size r) rs"
  "rb_end pos (rs @ rs') = rb_end (rb_end pos rs) rs'"
  by (simp_all add: rb_end_def)

lemma rb_end_le: "pos \<le> rb_end pos rs"
  by (simp add: rb_end_def)

lemma rb_layout_append [simp]:
  "rb_layout M d pos (rs @ rs') \<longleftrightarrow> rb_layout M d pos rs \<and> rb_layout M d (rb_end pos rs) rs'"
  by (induction rs arbitrary: pos) auto

text \<open>Two records of one window do not overlap in the buffer, not even behind its end.\<close>

lemma rb_disjoint:
  assumes "p + a \<le> q" and "q + b \<le> p + M" and "0 < b"
  shows "p mod M + a \<le> q mod M \<or> q mod M + b \<le> p mod (M::nat)"
proof -
  define d where "d = q - p"
  then have d: "q = p + d" "a \<le> d" "d + b \<le> M" using assms by simp_all
  have dM: "d < M" using d assms(3) by simp
  have "q mod M = (if p mod M + d < M then p mod M + d else p mod M + d - M)"
  proof (cases "p mod M + d < M")
    case False
    have "p mod M < M" using dM by simp
    with dM False have "p mod M + d - M < M" by linarith
    then show ?thesis using False by (simp add: d(1) mod_add_left_eq [of p M d, symmetric] le_mod_geq)
  qed (simp add: d(1) mod_add_left_eq [of p M d, symmetric])
  then show ?thesis using d by auto
qed

lemma read_at_patch:
  assumes "o' + n \<le> off \<or> off + length xs \<le> o'" and "off + length xs \<le> length d"
  shows "read_at (patch d off xs) o' n = read_at d o' n"
proof (cases "o' + n \<le> length d")
  case True
  have "take n (drop o' (patch d off xs)) = take n (drop o' d)"
    using True assms by (intro nth_equalityI) (auto simp: length_patch patch_nth)
  then show ?thesis using assms(2) by (simp add: read_at_def length_patch)
qed (use assms(2) in \<open>simp add: read_at_def length_patch\<close>)

lemma read_at_patch_same: "off + length xs \<le> length d \<Longrightarrow> read_at (patch d off xs) off (length xs) = Some xs"
  by (simp add: read_at_def patch_def)

text \<open>A write inside the record at \<open>q\<close> keeps the records before it and behind it.\<close>

lemma rb_rec_patch:
  assumes "rb_rec M d p r" and "a + length xs \<le> b" and "q mod M + b \<le> length d"
    and "p mod M + rb_size r \<le> q mod M \<or> q mod M + b \<le> p mod M"
  shows "rb_rec M (patch d (q mod M + a) xs) p r"
proof -
  obtain off st c where r: "r = (off, st, c)" by (cases r) auto
  have "length c + 8 \<le> rb_size r" using rb_total_bounds(1) [of "length c"] by (simp add: rb_size_def r)
  then show ?thesis using assms by (auto simp: r read_at_patch)
qed

lemma rb_layout_patch_before:
  assumes "rb_layout M d pos rs" and "rb_end pos rs \<le> q" and "q + b \<le> pos + M" and "0 < b"
    and "a + length xs \<le> b" and "q mod M + b \<le> length d"
  shows "rb_layout M (patch d (q mod M + a) xs) pos rs"
  using assms(1-3)
proof (induction rs arbitrary: pos)
  case (Cons r rs)
  have "pos + rb_size r \<le> q" using Cons.prems(2) rb_end_le [of "pos + rb_size r" rs] by simp
  from rb_disjoint [OF this Cons.prems(3) assms(4)] Cons show ?case
    by (simp add: rb_rec_patch [OF _ assms(5,6)])
qed simp

lemma rb_layout_patch_behind:
  assumes "rb_layout M d pos rs" and "q + b \<le> pos" and "rb_end pos rs \<le> q + M"
    and "a + length xs \<le> b" and "q mod M + b \<le> length d"
  shows "rb_layout M (patch d (q mod M + a) xs) pos rs"
  using assms(1-3)
proof (induction rs arbitrary: pos)
  case (Cons r rs)
  have "pos + rb_size r \<le> q + M" using Cons.prems(3) rb_end_le [of "pos + rb_size r" rs] by simp
  moreover have "0 < rb_size r" using rb_total_bounds(4) by (simp add: rb_size_def less_le_trans [of 0 8])
  ultimately have "q mod M + b \<le> pos mod M \<or> pos mod M + rb_size r \<le> q mod M"
    using rb_disjoint [of q b pos "rb_size r" M] Cons.prems(2) by simp
  with Cons show ?case by (auto simp: rb_rec_patch [OF _ assms(4,5)])
qed simp

section \<open>The invariant\<close>

definition rb_inv :: "ringbuf \<Rightarrow> rb_record list \<Rightarrow> bool" where
  "rb_inv s rs \<longleftrightarrow> (\<exists>k. 3 \<le> k \<and> k \<le> 30 \<and> rb_max_ent s = 2 ^ k) \<and>
     length (rb_data s) = 2 * rb_max_ent s \<and>
     rb_layout (rb_max_ent s) (rb_data s) (rb_consumer_pos s) rs \<and>
     rb_producer_pos s = rb_end (rb_consumer_pos s) rs \<and>
     rb_producer_pos s \<le> rb_consumer_pos s + rb_max_ent s \<and>
     rb_producer_pos s < 2 ^ 64 \<and> 8 dvd rb_consumer_pos s"

lemma rb_inv_max:
  assumes "rb_inv s rs"
  shows "8 dvd rb_max_ent s" "8 \<le> rb_max_ent s" "rb_max_ent s \<le> 2 ^ 30" "rb_mask s = rb_max_ent s - 1"
    "\<And>x. x AND rb_mask s = x mod rb_max_ent s"
proof -
  obtain k where k: "3 \<le> k" "k \<le> 30" "rb_max_ent s = 2 ^ k" using assms by (auto simp: rb_inv_def)
  have "(2::nat) ^ 3 dvd 2 ^ k" by (rule le_imp_power_dvd [OF k(1)])
  then show "8 dvd rb_max_ent s" by (simp add: k)
  have "(2::nat) ^ 3 \<le> 2 ^ k" by (rule power_increasing [OF k(1)]) simp
  then show le: "8 \<le> rb_max_ent s" by (simp add: k)
  have "(2::nat) ^ k \<le> 2 ^ 30" by (rule power_increasing [OF k(2)]) simp
  then show up: "rb_max_ent s \<le> 2 ^ 30" by (simp add: k)
  show m: "rb_mask s = rb_max_ent s - 1" using le up by (simp add: rb_mask_def)
  show "x AND rb_mask s = x mod rb_max_ent s" for x unfolding m k(3) by (rule nat_and_mask)
qed

lemma rb_size_dvd: "8 dvd rb_size r"
  by (simp add: rb_size_def rb_total_bounds)

lemma rb_end_dvd: "8 dvd pos \<Longrightarrow> 8 dvd rb_end pos rs"
  by (induction rs arbitrary: pos) (simp_all add: rb_size_dvd)

lemma rb_new_inv:
  assumes "3 \<le> k" and "k \<le> 30" and "8 \<le> page" and "page * 2 + 2 ^ k * 2 < 2 ^ 32"
  shows "\<exists>s. ringbuf_new page (2 ^ k) = Ok s \<and> rb_inv s [] \<and> rb_producer_pos s = 0"
  using assms by (auto simp: ringbuf_new_def rb_inv_def)

text \<open>A record of the list, and the place it has in the buffer.\<close>

lemma rb_inv_member:
  assumes inv: "rb_inv s (A @ (off, st, c) # B)"
  defines "q \<equiv> rb_end (rb_consumer_pos s) A" and "M \<equiv> rb_max_ent s"
  shows "off = q mod M + 8" "q mod M + rb_total (length c) \<le> length (rb_data s)" "length c < 2 ^ 30"
    "read_at (rb_data s) (q mod M) 4 = Some (le_bytes 4 (length c + rb_flags st))"
    "8 dvd q mod M"
proof -
  let ?r = "(off, st, c)"
  have "rb_rec M (rb_data s) q ?r" using inv by (simp add: rb_inv_def q_def M_def)
  then show "off = q mod M + 8" "length c < 2 ^ 30"
    "read_at (rb_data s) (q mod M) 4 = Some (le_bytes 4 (length c + rb_flags st))" by simp_all
  have "rb_end (q + rb_size ?r) B \<le> rb_consumer_pos s + M" using inv by (simp add: rb_inv_def q_def M_def)
  moreover have "rb_consumer_pos s \<le> q" unfolding q_def by (rule rb_end_le)
  ultimately have "rb_size ?r \<le> M" using rb_end_le [of "q + rb_size ?r" B] by simp
  moreover have "q mod M < M" using rb_inv_max(2) [OF inv] by (simp add: M_def)
  ultimately show "q mod M + rb_total (length c) \<le> length (rb_data s)"
    using inv by (simp add: rb_inv_def M_def rb_size_def)
  have "8 dvd q" unfolding q_def by (rule rb_end_dvd) (use inv in \<open>simp add: rb_inv_def\<close>)
  then show "8 dvd q mod M" using rb_inv_max(1) [OF inv] by (simp add: M_def dvd_mod)
qed

text \<open>A write inside a live record changes that record only.\<close>

lemma rb_inv_patch:
  assumes inv: "rb_inv s (A @ (off, st, c) # B)"
    and a: "a + length xs \<le> rb_total (length c)" and len: "length c' = length c"
  defines "q \<equiv> rb_end (rb_consumer_pos s) A" and "M \<equiv> rb_max_ent s"
  assumes rec: "rb_rec M (patch (rb_data s) (q mod M + a) xs) q (off, st', c')"
  shows "rb_inv (s\<lparr>rb_data := patch (rb_data s) (q mod M + a) xs\<rparr>) (A @ (off, st', c') # B)"
proof -
  let ?r = "(off, st, c)" and ?d = "patch (rb_data s) (q mod M + a) xs"
  note m = rb_inv_member [OF inv, folded q_def M_def]
  have size: "rb_size (off, st', c') = rb_size ?r" "rb_size ?r = rb_total (length c)"
    using len by (simp_all add: rb_size_def)
  have lay: "rb_layout M (rb_data s) (rb_consumer_pos s) A" "rb_layout M (rb_data s) (q + rb_size ?r) B"
    and fin: "rb_end (q + rb_size ?r) B \<le> rb_consumer_pos s + M"
    using inv by (simp_all add: rb_inv_def q_def M_def)
  have cq: "rb_consumer_pos s \<le> q" unfolding q_def by (rule rb_end_le)
  have win: "q + rb_total (length c) \<le> rb_consumer_pos s + M"
    using fin rb_end_le [of "q + rb_size ?r" B] size(2) by simp
  have "rb_layout M ?d (rb_consumer_pos s) A"
    using rb_layout_patch_before [OF lay(1) _ win _ a m(2)] rb_total_bounds(4) [of "length c"]
    by (simp add: q_def)
  moreover have "rb_layout M ?d (q + rb_size ?r) B"
    using rb_layout_patch_behind [OF lay(2) _ _ a m(2)] fin cq size(2) by simp
  moreover have "length ?d = length (rb_data s)" using a m(2) by (simp add: length_patch)
  ultimately show ?thesis using inv rec size(1) by (simp add: rb_inv_def q_def M_def)
qed

section \<open>The producer keeps the records\<close>

lemma rb_write_keeps:
  assumes inv: "rb_inv s (A @ (off, Busy, c) # B)" and "length c' = length c"
    and "write_at (rb_data s) off c' = Some d"
  shows "rb_inv (s\<lparr>rb_data := d\<rparr>) (A @ (off, Busy, c') # B)"
proof -
  let ?M = "rb_max_ent s" and ?q = "rb_end (rb_consumer_pos s) A"
  note m = rb_inv_member [OF inv]
  have fits: "8 + length c' \<le> rb_total (length c)" using rb_total_bounds(1) [of "length c"] assms(2) by simp
  have in_data: "?q mod ?M + 8 + length c' \<le> length (rb_data s)" using m(2) fits by simp
  have d: "d = patch (rb_data s) (?q mod ?M + 8) c'"
    using assms(3) m(1) in_data by (simp add: write_at_patch)
  have "rb_rec ?M d ?q (off, Busy, c')"
    using m assms(2) in_data read_at_patch_same [OF in_data]
    by (simp add: d read_at_patch)
  then show ?thesis using rb_inv_patch [OF inv fits assms(2)] d by simp
qed

lemma rb_submit_keeps:
  assumes inv: "rb_inv s (A @ (off, Busy, c) # B)"
  shows "\<exists>s'. rb_submit s off discard = Ok s' \<and>
    rb_inv s' (A @ (off, if discard then Discarded else Committed, c) # B)"
proof -
  let ?M = "rb_max_ent s" and ?q = "rb_end (rb_consumer_pos s) A"
    and ?st = "if discard then Discarded else Committed"
  note m = rb_inv_member [OF inv] and mx = rb_inv_max [OF inv]
  have qM: "?q mod ?M < ?M" using mx(2) by simp
  have "u32 (rb_mask s + 1) + off + 2 ^ 64 - BPF_RINGBUF_HDR_SZ = (?q mod ?M + ?M) + 2 ^ 64"
    using mx(2-4) m(1) by (simp add: BPF_RINGBUF_HDR_SZ_def)
  moreover have "u64 ((?q mod ?M + ?M) + 2 ^ 64) = ?q mod ?M + ?M"
    using qM mx(3) by (simp add: u64_def)
  ultimately have hdr: "u64 (u32 (rb_mask s + 1) + off + 2 ^ 64 - BPF_RINGBUF_HDR_SZ) AND rb_mask s = ?q mod ?M"
    by (simp only: mx(5) mod_add_self2 mod_mod_trivial)
  have lw: "length c + rb_flags Busy < 2 ^ 32" using m(3) by simp
  have old: "le_nat (le_bytes 4 (length c + rb_flags Busy)) AND 0x7fffffff = length c"
    using le_nat_le_bytes_4 [of "length c + rb_flags Busy"] lw rb_len_word(2) [OF m(3)] by simp
  let ?len = "length c + rb_flags ?st"
  have new: "(if discard then length c OR BPF_RINGBUF_DISCARD_BIT else length c) = ?len"
    using rb_len_word(3) [OF m(3)] by simp
  have fits: "0 + length (le_bytes 4 ?len) \<le> rb_total (length c)"
    using rb_total_bounds(4) [of "length c"] by simp
  have in_data: "?q mod ?M + length (le_bytes 4 ?len) \<le> length (rb_data s)" using m(2) fits by simp
  let ?d = "patch (rb_data s) (?q mod ?M + 0) (le_bytes 4 ?len)"
  have "rb_rec ?M ?d ?q (off, ?st, c)"
    using m inv in_data read_at_patch_same [OF in_data]
    by (simp add: read_at_patch rb_inv_def)
  then have "rb_inv (s\<lparr>rb_data := ?d\<rparr>) (A @ (off, ?st, c) # B)"
    by (intro rb_inv_patch [OF inv fits]) simp_all
  moreover have "rb_submit s off discard = Ok (s\<lparr>rb_data := ?d\<rparr>)"
    unfolding rb_submit_def Let_def hdr
    using m(4) old new in_data by (cases discard) (simp_all add: write_at_patch del: rb_flags.simps)
  ultimately show ?thesis by blast
qed

lemma rb_avail:
  assumes "p \<le> c + m" and "c \<le> p" and "p < 2 ^ 64" and "m \<le> 2 ^ 30"
  shows "u64 (m + 2 ^ 64 - u64 (p + 2 ^ 64 - c)) = m - (p - c)"
proof -
  have "u64 (p + 2 ^ 64 - c) = p - c"
  proof -
    have "p + 2 ^ 64 - c = (p - c) + 2 ^ 64" using assms(2) by simp
    then show ?thesis using assms(2,3) by (simp only: u64_def mod_add_self2) simp
  qed
  moreover have "m + 2 ^ 64 - (p - c) = (m - (p - c)) + 2 ^ 64" using assms(1) by simp
  ultimately show ?thesis using assms(4) by (simp only: u64_def mod_add_self2) simp
qed

text \<open>What \<open>reserve\<close> decides, for a size that fits into 32 bits.\<close>

lemma rb_reserve_eq:
  assumes inv: "rb_inv s rs" and sz: "sz < 2 ^ 32" and room: "rb_producer_pos s + 2 ^ 31 < 2 ^ 64"
  defines "q \<equiv> rb_producer_pos s" and "M \<equiv> rb_max_ent s"
  shows "rb_reserve s sz fd =
    (if M < rb_total sz \<or> 2 ^ 30 \<le> sz then (s, Err E2BIG)
     else if M < (rb_producer_pos s - rb_consumer_pos s) + rb_total sz then (s, Err ENOSPC)
     else (s\<lparr>rb_data := patch (rb_data s) (q mod M)
               (le_bytes 4 (sz + rb_flags Busy) @ le_bytes 4 (u32_of_i32 fd)),
            rb_producer_pos := q + rb_total sz\<rparr>, Ok ((q + 8) mod M)))"
proof -
  note mx = rb_inv_max [OF inv]
  have pos: "rb_consumer_pos s \<le> q" "q \<le> rb_consumer_pos s + M" "q < 2 ^ 64" "8 dvd q"
    using inv rb_end_le rb_end_dvd by (auto simp: rb_inv_def q_def M_def)
  have av: "u64 (M + 2 ^ 64 - u64 (q + 2 ^ 64 - rb_consumer_pos s)) = M - (q - rb_consumer_pos s)"
    by (rule rb_avail) (use pos mx(3) in \<open>simp_all add: M_def\<close>)
  have tot: "u64 (sz + BPF_RINGBUF_HDR_SZ + 7) div 8 * 8 = rb_total sz"
    using sz by (simp add: BPF_RINGBUF_HDR_SZ_def rb_total_def add.commute [of 15])
  have chk: "sz AND (BPF_RINGBUF_BUSY_BIT OR BPF_RINGBUF_DISCARD_BIT) = 0 \<longleftrightarrow> sz < 2 ^ 30"
    by (rule rb_size_check [OF sz])
  have "q mod M < M" using mx(2) by (simp add: M_def)
  moreover have "length (rb_data s) = 2 * M" "8 \<le> M" using inv mx(2) by (simp_all add: rb_inv_def M_def)
  ultimately have hd: "q mod M + 8 \<le> length (rb_data s)" by linarith
  show ?thesis
  proof (cases "M < rb_total sz \<or> 2 ^ 30 \<le> sz")
    case True
    then show ?thesis unfolding rb_reserve_def Let_def chk tot by (auto simp: M_def)
  next
    case False
    then have small: "sz < 2 ^ 30" "rb_total sz \<le> M" by auto
    have "u64 (q + rb_total sz) = q + rb_total sz"
      using room small(2) mx(3) by (simp add: q_def M_def)
    then show ?thesis
      unfolding rb_reserve_def Let_def chk tot
      using False small hd rb_len_word(1) [OF small(1)] pos(1,2) av
      by (auto simp: mx(5) write_at_patch BPF_RINGBUF_HDR_SZ_def q_def M_def simp del: rb_flags.simps)
  qed
qed

text \<open>A reserved record, when its header is not the last 8 bytes before the end.\<close>

lemma rb_reserve_keeps:
  assumes inv: "rb_inv s rs" and sz: "sz < 2 ^ 32" and room: "rb_producer_pos s + 2 ^ 31 < 2 ^ 64"
    and ok: "rb_reserve s sz fd = (s', Ok off)"
    and hdr: "rb_producer_pos s AND rb_mask s \<noteq> rb_max_ent s - 8"
    and c: "rb_sample s' (rb_producer_pos s) sz = Ok c"
  shows "rb_inv s' (rs @ [(off, Busy, c)])"
proof -
  let ?M = "rb_max_ent s" and ?q = "rb_producer_pos s"
  note mx = rb_inv_max [OF inv]
  let ?xs = "le_bytes 4 (sz + rb_flags Busy) @ le_bytes 4 (u32_of_i32 fd)"
  let ?d = "patch (rb_data s) (?q mod ?M) ?xs"
  have eq: "sz < 2 ^ 30" "rb_total sz \<le> ?M" "(?q - rb_consumer_pos s) + rb_total sz \<le> ?M"
      "s' = s\<lparr>rb_data := ?d, rb_producer_pos := ?q + rb_total sz\<rparr>" "off = (?q + 8) mod ?M"
    using ok unfolding rb_reserve_eq [OF inv sz room] by (auto split: if_splits)
  have pos: "rb_consumer_pos s \<le> ?q" "8 dvd ?q" "?q = rb_end (rb_consumer_pos s) rs"
    using inv rb_end_le rb_end_dvd by (auto simp: rb_inv_def)
  have qM: "?q mod ?M < ?M" using mx(2) by simp
  have "8 dvd ?q mod ?M" using mx(1) pos(2) by (simp add: dvd_mod)
  then have last: "?q mod ?M + 8 < ?M"
  proof -
    obtain i where i: "?q mod ?M = 8 * i" using \<open>8 dvd ?q mod ?M\<close> by blast
    obtain j where j: "?M = 8 * j" using mx(1) by blast
    have "8 * i < 8 * j" "8 * i \<noteq> 8 * j - 8" using qM hdr i j mx(5) by auto
    then have "Suc i < j" by simp
    then have "8 * i + 8 < 8 * j" by simp
    then show ?thesis using i j by metis
  qed
  then have off: "off = ?q mod ?M + 8" using eq(5) mod_add_left_eq [of ?q ?M 8] by simp
  have in_data: "?q mod ?M + rb_total sz \<le> length (rb_data s)" using inv eq(2) qM by (simp add: rb_inv_def)
  have xs: "0 + length ?xs \<le> rb_total sz" using rb_total_bounds(4) [of sz] by simp
  have hd_in: "?q mod ?M + length ?xs \<le> length (rb_data s)" using in_data xs by simp
  have lay: "rb_layout ?M ?d (rb_consumer_pos s) rs"
    using rb_layout_patch_before [of ?M "rb_data s" "rb_consumer_pos s" rs ?q "rb_total sz" 0 ?xs]
      inv eq(3) pos in_data xs rb_total_bounds(4) [of sz] by (simp add: rb_inv_def)
  have len: "read_at ?d (?q mod ?M) 4 = Some (le_bytes 4 (sz + rb_flags Busy))"
    using hd_in by (simp add: read_at_def patch_def)
  have mask: "rb_mask s' = rb_mask s" by (simp add: eq(4))
  have cc: "read_at ?d (?q mod ?M + 8) sz = Some c"
    using c mask mx(5) [of ?q]
    by (auto simp: rb_sample_def eq(4) BPF_RINGBUF_HDR_SZ_def of_option_def split: option.splits)
  then have "length c = sz" by (rule read_at_length)
  then have "rb_rec ?M ?d ?q (off, Busy, c)" using off eq(1) len cc by (simp del: rb_flags.simps)
  moreover have "length ?d = 2 * ?M" using length_patch [OF hd_in] inv by (simp add: rb_inv_def)
  moreover have "?q + rb_total sz \<le> rb_consumer_pos s + ?M" using eq(3) pos(1) by simp
  moreover have "?q + rb_total sz < 2 ^ 64" using room eq(2) mx(3) by simp
  ultimately show ?thesis using lay inv pos(3) \<open>length c = sz\<close>
    by (simp add: rb_inv_def eq(4) del: rb_flags.simps)
qed

section \<open>The consumer\<close>

text \<open>What the consumer does to the records: it takes them in order up to the first busy one,
  hands the committed ones to the callback and skips the discarded ones. The results are the
  context, the records that remain, and the return value.\<close>

fun rb_drain :: "('c \<Rightarrow> bytes \<Rightarrow> 'c \<times> int) \<Rightarrow> 'c \<Rightarrow> rb_record list \<Rightarrow> int \<Rightarrow> 'c \<times> rb_record list \<times> int" where
  "rb_drain cb ctx [] cnt = (ctx, [], cnt)"
| "rb_drain cb ctx ((off, Busy, c) # rs) cnt = (ctx, (off, Busy, c) # rs, cnt)"
| "rb_drain cb ctx ((off, Discarded, c) # rs) cnt = rb_drain cb ctx rs cnt"
| "rb_drain cb ctx ((off, Committed, c) # rs) cnt =
     (case cb ctx c of (ctx', err) \<Rightarrow>
        if err < 0 then (ctx', rs, err) else rb_drain cb ctx' rs (cnt + 1))"

lemma rb_inv_first:
  assumes inv: "rb_inv s ((off, st, c) # rs)"
  shows "rb_consumer_pos s < rb_producer_pos s"
    "rb_read_len s (rb_consumer_pos s) = Ok (length c + rb_flags st)" "length c < 2 ^ 30"
    "rb_sample s (rb_consumer_pos s) (length c) = Ok c"
    "u64 (rb_consumer_pos s + rb_total (length c)) = rb_consumer_pos s + rb_total (length c)"
    "rb_inv (s\<lparr>rb_consumer_pos := rb_consumer_pos s + rb_total (length c)\<rparr>) rs"
proof -
  let ?p = "rb_consumer_pos s"
  note mx = rb_inv_max [OF inv] and m = rb_inv_member [of s "[]" off st c rs]
  have rec: "rb_rec (rb_max_ent s) (rb_data s) ?p (off, st, c)" using inv by (simp add: rb_inv_def)
  have e: "?p + rb_total (length c) \<le> rb_producer_pos s" "rb_producer_pos s < 2 ^ 64"
    using inv rb_end_le [of "?p + rb_total (length c)" rs] by (simp_all add: rb_inv_def)
  show "?p < rb_producer_pos s" using e(1) rb_total_bounds(4) [of "length c"] by simp
  show small: "length c < 2 ^ 30" using rec by simp
  have "length c + rb_flags st < 4294967296" using small by (cases st) simp_all
  then show "rb_read_len s ?p = Ok (length c + rb_flags st)"
    using rec by (simp add: rb_read_len_def mx(5) le_nat_le_bytes_4)
  show "rb_sample s ?p (length c) = Ok c"
    using rec by (simp add: rb_sample_def mx(5) BPF_RINGBUF_HDR_SZ_def)
  show "u64 (?p + rb_total (length c)) = ?p + rb_total (length c)" using e by simp
  show "rb_inv (s\<lparr>rb_consumer_pos := ?p + rb_total (length c)\<rparr>) rs"
    using inv by (simp add: rb_inv_def rb_total_bounds(3))
qed

lemma rb_fetch_loop_drain:
  assumes "rb_inv s rs" and "length rs + 3 \<le> n"
  shows "\<exists>pos ctx' rs' ret. rb_drain cb ctx rs cnt = (ctx', rs', ret) \<and>
    rb_fetch_loop n cb s ctx (rb_consumer_pos s) (rb_producer_pos s) cnt got
      = Ok (s\<lparr>rb_consumer_pos := pos\<rparr>, ctx', ret) \<and> rb_inv (s\<lparr>rb_consumer_pos := pos\<rparr>) rs'"
  using assms
proof (induction cb ctx rs cnt arbitrary: s n got rule: rb_drain.induct)
  case (1 cb ctx cnt)
  then have "rb_producer_pos s = rb_consumer_pos s" by (simp add: rb_inv_def)
  then show ?case using 1 by (cases n; cases "n - 1") (auto intro!: exI [of _ "rb_consumer_pos s"])
next
  case (2 cb ctx off c rs cnt)
  note first = rb_inv_first [OF 2(1)]
  obtain n' where "n = Suc n'" using 2(2) by (cases n) simp_all
  then show ?case using 2(1) first(1,2) rb_len_word(4) [OF first(3), of Busy]
    by (auto simp del: and_exp_2 intro!: exI [of _ "rb_consumer_pos s"])
next
  case (3 cb ctx off c rs cnt)
  note first = rb_inv_first [OF 3(2)]
  obtain n' where n: "n = Suc n'" using 3(3) by (cases n) simp_all
  have "rb_fetch_loop n cb s ctx (rb_consumer_pos s) (rb_producer_pos s) cnt got =
      rb_fetch_loop n' cb (s\<lparr>rb_consumer_pos := rb_consumer_pos s + rb_total (length c)\<rparr>) ctx
        (rb_consumer_pos s + rb_total (length c)) (rb_producer_pos s) cnt True"
    using n first(1,2,5) rb_len_word(4-6) [OF first(3), of Discarded]
    by (simp del: and_exp_2 rb_flags.simps add: Let_def)
  then show ?case using 3(1) [OF first(6), of n' True] 3(3) n by simp
next
  case (4 cb ctx off c rs cnt)
  note first = rb_inv_first [OF 4(2)]
  obtain n' where n: "n = Suc n'" using 4(3) by (cases n) simp_all
  obtain ctx' err where cb: "cb ctx c = (ctx', err)" by fastforce
  have lw: "(length c AND BPF_RINGBUF_BUSY_BIT) = 0" "(length c AND BPF_RINGBUF_DISCARD_BIT) = 0"
    "roundup_len (length c) = rb_total (length c)"
    using rb_len_word(4-6) [OF first(3), of Committed] by (simp_all del: and_exp_2)
  have len: "rb_read_len s (rb_consumer_pos s) = Ok (length c)" using first(2) by simp
  let ?s = "s\<lparr>rb_consumer_pos := rb_consumer_pos s + rb_total (length c)\<rparr>"
  have loop: "rb_fetch_loop n cb s ctx (rb_consumer_pos s) (rb_producer_pos s) cnt got =
      (if err < 0 then Ok (?s, ctx', err)
       else rb_fetch_loop n' cb ?s ctx' (rb_consumer_pos ?s) (rb_producer_pos ?s) (cnt + 1) True)"
    using n first(1,4,5) len lw cb by (simp del: and_exp_2 add: Let_def)
  show ?case
  proof (cases "err < 0")
    case True
    then show ?thesis unfolding loop using first(6) cb
      by (intro exI [of _ "rb_consumer_pos s + rb_total (length c)"]) simp
  next
    case False
    then show ?thesis unfolding loop using 4(1) [OF cb [symmetric] False first(6), of n' True] 4(3) n cb
      by simp
  qed
qed

section \<open>Runs\<close>

text \<open>
  The calls of producers and consumer in any order. A producer writes through the pointer that
  \<open>reserve\<close> gave it while its record is busy, and submits each record once. These are the runs in
  which two things hold of each reservation: the positions have not come near \<open>2 ^ 64\<close>, and the
  header does not fall on the last 8 bytes before the end of the ring. The code checks neither;
  without the second a record's contents are lost (\<open>ringbuf_last_slot\<close>).
\<close>

inductive rb_step :: "('c \<Rightarrow> bytes \<Rightarrow> 'c \<times> int) \<Rightarrow> ringbuf \<times> rb_record list \<Rightarrow>
    ringbuf \<times> rb_record list \<Rightarrow> bool" for cb where
  reserve: "sz < 2 ^ 32 \<Longrightarrow> rb_producer_pos s + 2 ^ 31 < 2 ^ 64 \<Longrightarrow>
    rb_producer_pos s AND rb_mask s \<noteq> rb_max_ent s - 8 \<Longrightarrow>
    rb_reserve s sz fd = (s', Ok off) \<Longrightarrow> rb_sample s' (rb_producer_pos s) sz = Ok c \<Longrightarrow>
    rb_step cb (s, rs) (s', rs @ [(off, Busy, c)])"
| fill: "write_at (rb_data s) off c' = Some d \<Longrightarrow> length c' = length c \<Longrightarrow>
    rb_step cb (s, A @ (off, Busy, c) # B) (s\<lparr>rb_data := d\<rparr>, A @ (off, Busy, c') # B)"
| submit: "rb_submit s off discard = Ok s' \<Longrightarrow>
    rb_step cb (s, A @ (off, Busy, c) # B)
      (s', A @ (off, if discard then Discarded else Committed, c) # B)"
| fetch: "length rs + 3 \<le> n \<Longrightarrow> rb_fetch_data n cb s ctx = Ok (s', ctx', ret) \<Longrightarrow>
    rb_step cb (s, rs) (s', fst (snd (rb_drain cb ctx rs 0)))"

inductive_cases rb_step_cases: "rb_step cb (s, rs) (s', rs')"

inductive rb_reach :: "('c \<Rightarrow> bytes \<Rightarrow> 'c \<times> int) \<Rightarrow> ringbuf \<Rightarrow> rb_record list \<Rightarrow> bool" for cb where
  init: "3 \<le> k \<Longrightarrow> k \<le> 30 \<Longrightarrow> page * 2 + 2 ^ k * 2 < 2 ^ 32 \<Longrightarrow>
    ringbuf_new page (2 ^ k) = Ok s \<Longrightarrow> rb_reach cb s []"
| step: "rb_reach cb s rs \<Longrightarrow> rb_step cb (s, rs) (s', rs') \<Longrightarrow> rb_reach cb s' rs'"

lemma rb_step_inv:
  assumes "rb_inv s rs" and "rb_step cb (s, rs) (s', rs')"
  shows "rb_inv s' rs'"
  using assms(2)
proof (cases rule: rb_step_cases [consumes 1, case_names reserve fill submit fetch])
  case (reserve sz fd off c)
  then show ?thesis using rb_reserve_keeps [OF assms(1), of sz fd s' off c] by simp
next
  case (fill off c' d c A B)
  then show ?thesis using rb_write_keeps [of s A off c B c' d] assms(1) by simp
next
  case (submit off discard A c B)
  then show ?thesis using rb_submit_keeps [of s A off c B discard] assms(1) by auto
next
  case (fetch n ctx ctx' ret)
  then show ?thesis using rb_fetch_loop_drain [OF assms(1), of n cb ctx 0 False]
    by (auto simp: rb_fetch_data_def)
qed

lemma rb_reach_inv: "rb_reach cb s rs \<Longrightarrow> rb_inv s rs"
proof (induction rule: rb_reach.induct)
  case (init k page s)
  have "8 \<le> page" using init(4) by (auto simp: ringbuf_new_def Let_def split: if_splits)
  with rb_new_inv [of k page] init show ?case by auto
next
  case (step s rs s' rs')
  show ?case by (rule rb_step_inv [OF step.IH step.hyps(2)])
qed

text \<open>C5: take a ring of \<open>2 ^ k\<close> bytes with \<open>k\<close> from 3 to 30, and any interleaving of calls of
  producers and consumer in which no reservation is made while the producer position is 8 bytes
  before the end of the ring (the record's header would take these 8 bytes and its contents would
  be lost, see \<open>ringbuf_last_slot\<close>) and the positions stay \<open>2 ^ 31\<close> below \<open>2 ^ 64\<close>. In every state so
  reached the records occupy at most \<open>max_ent\<close> bytes, \<open>has_data\<close> says whether the oldest record is complete, and \<open>fetch_data\<close>
  returns: it hands the callback the contents of the committed records, in the order of their
  reservation and as their producers wrote them, up to the first record that is still busy or
  the first error of the callback, and returns their number or that error.\<close>

theorem ringbuf_delivery:
  assumes "rb_reach cb s rs" and "length rs + 3 \<le> n"
  shows "rb_producer_pos s - rb_consumer_pos s \<le> rb_max_ent s \<and>
    rb_has_data s = Ok (rs \<noteq> [] \<and> fst (snd (hd rs)) \<noteq> Busy) \<and>
    (\<exists>pos. rb_fetch_data n cb s ctx =
       (case rb_drain cb ctx rs 0 of (ctx', rs', ret) \<Rightarrow> Ok (s\<lparr>rb_consumer_pos := pos\<rparr>, ctx', ret)))"
proof -
  have inv: "rb_inv s rs" by (rule rb_reach_inv [OF assms(1)])
  have "rb_has_data s = Ok (rs \<noteq> [] \<and> fst (snd (hd rs)) \<noteq> Busy)"
  proof (cases rs)
    case Nil
    then show ?thesis using inv by (simp add: rb_inv_def rb_has_data_def)
  next
    case (Cons r rs')
    obtain off st c where r: "r = (off, st, c)" by (cases r) auto
    note first = rb_inv_first [OF inv [unfolded Cons r]]
    show ?thesis using first(1,2) rb_len_word(4) [OF first(3), of st]
      by (auto simp: rb_has_data_def Cons r simp del: and_exp_2)
  qed
  moreover have "rb_producer_pos s - rb_consumer_pos s \<le> rb_max_ent s"
    using inv unfolding rb_inv_def by linarith
  moreover obtain pos ctx' rs' ret where "rb_drain cb ctx rs 0 = (ctx', rs', ret)"
      "rb_fetch_data n cb s ctx = Ok (s\<lparr>rb_consumer_pos := pos\<rparr>, ctx', ret)"
    using rb_fetch_loop_drain [OF inv assms(2), of cb ctx 0 False] unfolding rb_fetch_data_def by blast
  ultimately show ?thesis by auto
qed

definition rb_collect :: "bytes list \<Rightarrow> bytes \<Rightarrow> bytes list \<times> int" where
  "rb_collect xs x = (xs @ [x], 0)"

theorem ringbuf_delivery_witness:
  "\<exists>s pos. rb_reach rb_collect s [(8, Committed, [7])] \<and>
     rb_fetch_data 4 rb_collect s [] = Ok (s\<lparr>rb_consumer_pos := pos\<rparr>, [[7]], 1)"
proof -
  have new: "ringbuf_new 8 (2 ^ 4) = Ok \<lparr>rb_max_ent = 16, rb_consumer_pos = 0, rb_producer_pos = 0,
      rb_data = replicate 32 0\<rparr>" (is "_ = Ok ?s0")
    by (simp add: ringbuf_new_def)
  have reach0: "rb_reach rb_collect ?s0 []"
    by (rule rb_reach.init [OF _ _ _ new]) simp_all
  obtain s1 where res: "rb_reserve ?s0 1 3 = (s1, Ok 8)" and len: "length (rb_data s1) = 32"
    using rb_reserve_eq [OF rb_reach_inv [OF reach0], of 1 3]
    by (simp add: rb_total_def length_patch del: rb_flags.simps)
  have mask: "0 AND rb_mask s = 0" for s by simp
  obtain c where c: "rb_sample s1 0 1 = Ok c" "length c = 1"
    using len by (simp add: rb_sample_def read_at_def BPF_RINGBUF_HDR_SZ_def)
  have reach1: "rb_reach rb_collect s1 ([] @ [(8, Busy, c)])"
    by (rule rb_reach.step [OF reach0 rb_step.reserve [OF _ _ _ res]]) (use c in simp_all)
  obtain d where d: "write_at (rb_data s1) 8 [7] = Some d"
    using len by (simp add: write_at_def)
  have reach2: "rb_reach rb_collect (s1\<lparr>rb_data := d\<rparr>) [(8, Busy, [7])]"
    by (rule rb_reach.step [OF reach1 [unfolded append_Nil] rb_step.fill [OF d, where c = c and A = "[]" and B = "[]", unfolded append_Nil]])
      (use c in simp)
  obtain s3 where s3: "rb_submit (s1\<lparr>rb_data := d\<rparr>) 8 False = Ok s3"
    using rb_submit_keeps [of "s1\<lparr>rb_data := d\<rparr>" "[]" 8 "[7]" "[]" False] rb_reach_inv [OF reach2] by auto
  have reach3: "rb_reach rb_collect s3 [(8, Committed, [7])]"
    by (rule rb_reach.step [OF reach2])
      (use rb_step.submit [OF s3, where A = "[]" and B = "[]" and c = "[7]"] in simp)
  then show ?thesis
    using ringbuf_delivery [OF reach3, of 4 "[]"] by (auto simp: rb_collect_def)
qed

text \<open>C28: \<open>reserve\<close> refuses a record that is larger than the ring, or whose size does not fit
  beside the flag bits, with \<open>E2BIG\<close>, and one that does not fit into the free space with
  \<open>ENOSPC\<close>; the buffer is unchanged then. Every other reservation succeeds and takes the size,
  the header and the padding to 8 bytes. A busy record can always be submitted or discarded.\<close>

theorem ringbuf_reserve_outcome:
  assumes "rb_reach cb s rs" and "sz < 2 ^ 32" and "rb_producer_pos s + 2 ^ 31 < 2 ^ 64"
  shows "(rb_max_ent s < rb_total sz \<or> 2 ^ 30 \<le> sz \<longrightarrow> rb_reserve s sz fd = (s, Err E2BIG)) \<and>
    (rb_total sz \<le> rb_max_ent s \<and> sz < 2 ^ 30 \<and>
      rb_max_ent s < rb_producer_pos s - rb_consumer_pos s + rb_total sz \<longrightarrow>
        rb_reserve s sz fd = (s, Err ENOSPC)) \<and>
    (sz < 2 ^ 30 \<and> rb_producer_pos s - rb_consumer_pos s + rb_total sz \<le> rb_max_ent s \<longrightarrow>
      (\<exists>s'. rb_reserve s sz fd = (s', Ok ((rb_producer_pos s + 8) mod rb_max_ent s)) \<and>
        rb_producer_pos s' = rb_producer_pos s + rb_total sz)) \<and>
    (\<forall>A off c B discard. rs = A @ (off, Busy, c) # B \<longrightarrow> (\<exists>s'. rb_submit s off discard = Ok s'))"
proof -
  have inv: "rb_inv s rs" by (rule rb_reach_inv [OF assms(1)])
  have "rs = A @ (off, Busy, c) # B \<Longrightarrow> \<exists>s'. rb_submit s off discard = Ok s'" for A off c B discard
    using rb_submit_keeps [of s A off c B discard] inv by blast
  then show ?thesis unfolding rb_reserve_eq [OF inv assms(2,3)] by auto
qed

theorem ringbuf_reserve_outcome_witness:
  "\<exists>s. ringbuf_new 8 (2 ^ 4) = Ok s \<and> rb_reserve s 12 3 = (s, Err E2BIG) \<and>
     (\<exists>s'. rb_reserve s 1 3 = (s', Ok 8) \<and> rb_producer_pos s' = 16)"
proof -
  have new: "ringbuf_new 8 (2 ^ 4) = Ok \<lparr>rb_max_ent = 16, rb_consumer_pos = 0, rb_producer_pos = 0,
      rb_data = replicate 32 0\<rparr>" (is "_ = Ok ?s0")
    by (simp add: ringbuf_new_def)
  have reach: "rb_reach rb_collect ?s0 []"
    by (rule rb_reach.init [OF _ _ _ new]) simp_all
  show ?thesis
    using new ringbuf_reserve_outcome [OF reach, of 12 3] ringbuf_reserve_outcome [OF reach, of 1 3]
    by (auto simp: rb_total_def)
qed

text \<open>C30: a reservation that any run can come to, with the producer position 8 bytes before the
  end of the ring: the record's header takes these 8 bytes, \<open>reserve\<close> hands out the beginning of
  the buffer and the consumer reads behind the end of the ring, so that whatever the producer
  writes, the contents the callback is given are the bytes that were there before.\<close>

theorem ringbuf_last_slot:
  assumes "rb_reach cb s rs" and "sz < 2 ^ 32" and "rb_producer_pos s + 2 ^ 31 < 2 ^ 64"
    and "rb_producer_pos s AND rb_mask s = rb_max_ent s - 8"
    and "rb_reserve s sz fd = (s', Ok off)" and "length c = sz"
  shows "off = 0 \<and>
    rb_sample (s'\<lparr>rb_data := patch (rb_data s') off c\<rparr>) (rb_producer_pos s) sz =
      Ok (take sz (drop (rb_max_ent s) (rb_data s)))"
proof -
  let ?M = "rb_max_ent s" and ?q = "rb_producer_pos s"
  have inv: "rb_inv s rs" by (rule rb_reach_inv [OF assms(1)])
  note mx = rb_inv_max [OF inv]
  let ?xs = "le_bytes 4 (sz + rb_flags Busy) @ le_bytes 4 (u32_of_i32 fd)"
  have eq: "rb_total sz \<le> ?M" "s' = s\<lparr>rb_data := patch (rb_data s) (?q mod ?M) ?xs, rb_producer_pos := ?q + rb_total sz\<rparr>"
      "off = (?q + 8) mod ?M"
    using assms(5) unfolding rb_reserve_eq [OF inv assms(2,3)] by (auto split: if_splits)
  have q: "?q mod ?M = ?M - 8" using assms(4) mx(5) by simp
  then have off: "off = 0" using eq(3) mx(2) mod_add_left_eq [of ?q ?M 8] by simp
  have sz: "sz + 8 \<le> ?M" using eq(1) rb_total_bounds(1) [of sz] by simp
  have len: "length (rb_data s) = 2 * ?M" using inv by (simp add: rb_inv_def)
  have "read_at (patch (patch (rb_data s) (?M - 8) ?xs) 0 c) ?M sz = read_at (rb_data s) ?M sz"
    using sz len mx(2) assms(6) by (simp add: read_at_patch length_patch)
  also have "\<dots> = Some (take sz (drop ?M (rb_data s)))" using sz len by (simp add: read_at_def)
  finally show ?thesis
    using off assms(4) mx(2) q by (simp add: rb_sample_def eq(2) BPF_RINGBUF_HDR_SZ_def)
qed

text \<open>A ring of 16 bytes after an empty record: the producer position is 8 bytes before the end.\<close>

lemma rb_edge_reach:
  obtains s where "rb_reach rb_collect s []" "rb_max_ent s = 16" "rb_producer_pos s = 8" "rb_consumer_pos s = 8"
    "drop 16 (rb_data s) = replicate 16 0"
proof -
  let ?new = "\<lparr>rb_max_ent = 16, rb_consumer_pos = 0, rb_producer_pos = 0, rb_data = replicate 32 0\<rparr> :: ringbuf"
  have new: "ringbuf_new 8 (2 ^ 4) = Ok ?new" by (simp add: ringbuf_new_def)
  have reach: "rb_reach rb_collect ?new []" by (rule rb_reach.init [OF _ _ _ new]) simp_all
  obtain s where res: "rb_reserve ?new 0 3 = (s, Ok 8)" and s: "rb_max_ent s = 16" "rb_producer_pos s = 8"
      "length (rb_data s) = 32" "drop 16 (rb_data s) = replicate 16 0"
    using rb_reserve_eq [OF rb_reach_inv [OF reach], of 0 3] by (simp add: rb_total_def patch_def)
  have "rb_reach rb_collect s ([] @ [(8, Busy, [])])"
    by (rule rb_reach.step [OF reach rb_step.reserve [OF _ _ _ res]])
      (simp_all add: rb_mask_def rb_sample_def read_at_def BPF_RINGBUF_HDR_SZ_def s)
  then have busy: "rb_reach rb_collect s [(8, Busy, [])]" by simp
  obtain t where sub: "rb_submit s 8 False = Ok t"
    using rb_submit_keeps [of s "[]" 8 "[]" "[]" False] rb_reach_inv [OF busy] by auto
  have "u64 18446744073709551632 AND 15 = 0" by (simp add: u64_def)
  then have t: "rb_max_ent t = 16" "rb_producer_pos t = 8" "drop 16 (rb_data t) = replicate 16 0"
    using sub s by (auto simp: rb_submit_def rb_mask_def Let_def bind_out_Ok write_at_def
        read_at_def BPF_RINGBUF_HDR_SZ_def split: if_splits)
  have done1: "rb_reach rb_collect t [(8, Committed, [])]"
    by (rule rb_reach.step [OF busy])
      (use rb_step.submit [OF sub, where A = "[]" and B = "[]" and c = "[]"] in simp)
  obtain pos where f: "rb_fetch_data 4 rb_collect t [] = Ok (t\<lparr>rb_consumer_pos := pos\<rparr>, [[]], 1)"
    using rb_fetch_loop_drain [OF rb_reach_inv [OF done1], of 4 rb_collect "[]" 0 False]
    by (auto simp: rb_collect_def rb_fetch_data_def)
  have r: "rb_reach rb_collect (t\<lparr>rb_consumer_pos := pos\<rparr>) []"
    by (rule rb_reach.step [OF done1]) (use rb_step.fetch [OF _ f, of "[(8, Committed, [])]"] in \<open>simp add: rb_collect_def\<close>)
  with rb_reach_inv [OF r] t show ?thesis by (intro that [OF r]) (simp_all add: rb_inv_def)
qed

theorem ringbuf_last_slot_witness:
  "\<exists>s s' off. rb_reach rb_collect s [] \<and> rb_reserve s 1 3 = (s', Ok off) \<and>
     rb_sample (s'\<lparr>rb_data := patch (rb_data s') off [5]\<rparr>) (rb_producer_pos s) 1 = Ok [0]"
proof -
  obtain s where s: "rb_reach rb_collect s []" "rb_max_ent s = 16" "rb_producer_pos s = 8" "rb_consumer_pos s = 8"
    "drop 16 (rb_data s) = replicate 16 0" by (rule rb_edge_reach)
  obtain s' off where res: "rb_reserve s 1 3 = (s', Ok off)"
    using rb_reserve_eq [OF rb_reach_inv [OF s(1)], of 1 3] s(2-4)
    by (simp add: rb_total_def del: rb_flags.simps)
  have "rb_mask s = 15" using s(2) by (simp add: rb_mask_def)
  then have "rb_sample (s'\<lparr>rb_data := patch (rb_data s') off [5]\<rparr>) (rb_producer_pos s) 1 =
      Ok (take 1 (drop (rb_max_ent s) (rb_data s)))"
    using ringbuf_last_slot [OF s(1) _ _ _ res, of "[5]"] s(2,3) by auto
  then show ?thesis using s res by (auto simp: replicate_numeral)
qed

end
