(* ===== verification/Map_Handler.thy ===== *)
theory Map_Handler
  imports Queue_Map Stack_Map Fix_Hash_Map Array_Map Per_Cpu_Array Fd_Arrays Per_Cpu_Hash
    Stack_Trace_Map Lru_Map Lpm_Trie Bloom_Filter Ringbuf
begin

text \<open>
  \<open>bpf_map_handler\<close> (\<open>handler/map_handler.hpp\<close>, \<open>handler/map_handler.cpp\<close>): the tagged
  object that owns a map implementation, and the dispatch of every map operation on its
  \<open>type\<close> to the implementation behind \<open>map_impl_ptr\<close>. The implementations are the component
  theories; \<open>map_impl\<close> is their sum and \<open>static_cast\<close> is undefined behaviour when the object
  is of another class. The build modelled is the Linux one with
  \<open>BPFTIME_BUILD_WITH_LIBBPF\<close>, without CUDA and without \<open>BPFTIME_USE_VAR_HASH_MAP\<close>.
  Kernel-backed maps answer through libbpf and the non-builtin types through the
  registered \<open>bpftime_map_ops\<close>: both are answers of the environment here.
\<close>

section \<open>Map types, attributes and handlers\<close>

text \<open>
  The map types with a case of their own in the switches; every other number of the enum,
  GPU types included, reaches the \<open>default\<close> branch.
\<close>

datatype bpf_map_type =
    BPF_MAP_TYPE_HASH | BPF_MAP_TYPE_ARRAY | BPF_MAP_TYPE_PROG_ARRAY
  | BPF_MAP_TYPE_PERF_EVENT_ARRAY | BPF_MAP_TYPE_PERCPU_HASH | BPF_MAP_TYPE_PERCPU_ARRAY
  | BPF_MAP_TYPE_STACK_TRACE | BPF_MAP_TYPE_LRU_HASH | BPF_MAP_TYPE_LPM_TRIE
  | BPF_MAP_TYPE_ARRAY_OF_MAPS | BPF_MAP_TYPE_QUEUE | BPF_MAP_TYPE_STACK
  | BPF_MAP_TYPE_RINGBUF | BPF_MAP_TYPE_BLOOM_FILTER
  | BPF_MAP_TYPE_KERNEL_USER_HASH | BPF_MAP_TYPE_KERNEL_USER_ARRAY
  | BPF_MAP_TYPE_KERNEL_USER_PERCPU_ARRAY | BPF_MAP_TYPE_KERNEL_USER_PERF_EVENT_ARRAY
  | BPF_MAP_TYPE_OTHER nat

record bpf_map_attr =
  attr_type :: bpf_map_type
  attr_key_size :: nat
  attr_value_size :: nat
  attr_max_ents :: nat
  attr_flags :: nat
  attr_map_extra :: nat

text \<open>
  \<open>map_impl_ptr\<close> and \<open>map_refcnt_ptr\<close> are offset pointers into the shared segment: an address
  of it, or null. The per-handler spin lock is left out: each operation below runs whole.
\<close>

record bpf_map_handler =
  mh_id :: int
  mh_attr :: bpf_map_attr
  mh_type :: bpf_map_type
  mh_name :: string
  mh_impl_ptr :: "nat option"
  mh_refcnt_ptr :: "nat option"
  mh_max_entries :: nat
  mh_flags :: nat
  mh_key_size :: nat
  mh_value_size :: nat

definition bpf_map_handler_new :: "int \<Rightarrow> string \<Rightarrow> bpf_map_attr \<Rightarrow> bpf_map_handler" where
  "bpf_map_handler_new fd name attr =
     \<lparr>mh_id = fd, mh_attr = attr, mh_type = attr_type attr, mh_name = name,
      mh_impl_ptr = None, mh_refcnt_ptr = None, mh_max_entries = attr_max_ents attr,
      mh_flags = attr_flags attr, mh_key_size = attr_key_size attr,
      mh_value_size = attr_value_size attr\<rparr>"

definition has_map_impl :: "bpf_map_handler \<Rightarrow> bool" where
  "has_map_impl h = (mh_impl_ptr h \<noteq> None)"

definition can_share_map_impl :: "bpf_map_handler \<Rightarrow> bool" where
  "can_share_map_impl h = (mh_impl_ptr h \<noteq> None \<and> mh_refcnt_ptr h \<noteq> None)"

definition share_map_impl_from :: "bpf_map_handler \<Rightarrow> bpf_map_handler \<Rightarrow> bpf_map_handler" where
  "share_map_impl_from h other =
     h\<lparr>mh_impl_ptr := mh_impl_ptr other, mh_refcnt_ptr := mh_refcnt_ptr other\<rparr>"

definition get_userspace_value_size :: "nat \<Rightarrow> bpf_map_handler \<Rightarrow> nat" where
  "get_userspace_value_size ncpu h =
     (if mh_type h = BPF_MAP_TYPE_PERCPU_ARRAY \<or> mh_type h = BPF_MAP_TYPE_PERCPU_HASH
      then u32 (mh_value_size h * ncpu) else mh_value_size h)"

section \<open>The implementations a handler can own\<close>

datatype ('m, 'l, 's) map_impl =
    is_Hash: Hash_impl (hash_of: fix_size_hash_map_impl)
  | is_Array: Array_impl (array_of: array_map_impl)
  | is_Ringbuf: Ringbuf_impl (ringbuf_of: ringbuf)
  | is_Perf: Perf_event_array_impl (perf_of: "int list")
  | is_Pca: Per_cpu_array_impl (pca_of: per_cpu_array_map_impl)
  | is_Pch: Per_cpu_hash_impl (pch_of: "'m per_cpu_hash_map_impl")
  | is_Queue: Queue_impl (queue_of: queue_map_impl)
  | is_Stack: Stack_impl (stack_of: stack_map_impl)
  | is_Bloom: Bloom_impl (bloom_of: bloom_filter_map_impl)
  | is_Prog: Prog_array_impl (prog_of: "int list")
  | is_Strace: Stack_trace_impl (strace_of: "'s stack_trace_map_impl")
  | is_Aom: Array_of_maps_impl (aom_of: array_map_impl)
  | is_Lru: Lru_impl (lru_of: "'l lru_var_hash_map_impl")
  | is_Lpm: Lpm_impl (lpm_of: lpm_trie_map_impl)
  | is_Kernel: Kernel_user_impl (kernel_of: bpf_map_type)

text \<open>
  What a lookup returns points at: an offset of the implementation's own buffer, a value
  vector, a row of per-CPU values and an offset in it, a stack trace, an integer cell, the
  id that \<open>array_map_of_maps_impl\<close> returns as a pointer, or memory of a kernel-backed or a
  non-builtin map.
\<close>

datatype map_ptr =
    Offset nat | Vector bytes | Row bytes nat | Frames "nat list" | Int_cell int | Map_id nat
  | Outside nat

text \<open>
  The table of non-builtin operations. A null function pointer is \<open>None\<close>.
\<close>

record bpftime_map_ops =
  ops_alloc_map :: "(int \<Rightarrow> string \<Rightarrow> bpf_map_attr \<Rightarrow> int) option"
  ops_map_free :: "(int \<Rightarrow> unit) option"
  ops_elem_lookup :: "(int \<Rightarrow> bytes option \<Rightarrow> bool \<Rightarrow> map_ptr option outcome) option"
  ops_elem_update ::
    "(int \<Rightarrow> bytes option \<Rightarrow> bytes option \<Rightarrow> nat \<Rightarrow> bool \<Rightarrow> int outcome) option"
  ops_elem_delete :: "(int \<Rightarrow> bytes option \<Rightarrow> bool \<Rightarrow> int outcome) option"
  ops_map_get_next_key ::
    "(int \<Rightarrow> bytes option \<Rightarrow> bool \<Rightarrow> bool \<Rightarrow> bytes option outcome) option"

definition no_map_ops :: bpftime_map_ops where
  "no_map_ops = \<lparr>ops_alloc_map = None, ops_map_free = None, ops_elem_lookup = None,
     ops_elem_update = None, ops_elem_delete = None, ops_map_get_next_key = None\<rparr>"

definition BPF_MAP_TYPE_MAX :: int where "BPF_MAP_TYPE_MAX = 2048"

definition bpftime_register_map_ops ::
    "(nat \<Rightarrow> bpftime_map_ops) \<Rightarrow> int \<Rightarrow> bpftime_map_ops \<Rightarrow>
     (nat \<Rightarrow> bpftime_map_ops) \<times> int" where
  "bpftime_register_map_ops table map_type ops =
     (if map_type < 0 \<or> BPF_MAP_TYPE_MAX \<le> map_type then (table, - 1)
      else (table(nat map_type := ops), 0))"

text \<open>The answers of a kernel-backed map of a given type, obtained through libbpf.\<close>

record kernel_user_ops =
  ku_new :: "bpf_map_attr \<Rightarrow> unit outcome"
  ku_lookup :: "bytes option \<Rightarrow> map_ptr option outcome"
  ku_update :: "bytes option \<Rightarrow> bytes option \<Rightarrow> nat \<Rightarrow> int outcome"
  ku_delete :: "bytes option \<Rightarrow> int outcome"
  ku_next_key :: "bytes option \<Rightarrow> bytes option outcome"

text \<open>
  What an operation takes from outside the sources: the unordered maps of Boost, the number
  of CPUs and the current one, the page size, the random seed of a bloom filter, the fd
  table's \<open>is_prog_fd\<close>, the kernel's answers on program ids, the kernel-backed maps, the
  registered operations, the allocator of the segment (\<open>None\<close>: \<open>bad_alloc\<close>) and the runtime
  option for non-builtin types.
\<close>

record ('m, 'l, 's) map_env =
  env_um :: "('m, bytes, bytes) umap_ops"
  env_lru :: "'l lru_ops"
  env_st :: "('s, nat, nat list) umap_ops"
  env_ncpu :: nat
  env_cpu :: nat
  env_page_size :: nat
  env_bloom_seed :: "32 word"
  env_is_prog_fd :: "int \<Rightarrow> bool"
  env_get_fd_by_id :: "int \<Rightarrow> int"
  env_get_info_by_fd :: "int \<Rightarrow> errno + nat"
  env_kernel :: "bpf_map_type \<Rightarrow> kernel_user_ops"
  env_table :: "nat \<Rightarrow> bpftime_map_ops"
  env_alloc :: "(nat \<Rightarrow> bool) \<Rightarrow> nat option"
  env_allow_non_builtin :: bool

section \<open>Dispatch\<close>

text \<open>
  \<open>static_cast<T *>(map_impl_ptr.get())\<close> and a call through it: undefined behaviour on a null
  pointer and on an object of another class. \<open>at_key\<close> reads through a \<open>const void *\<close>
  argument that the implementation does not check; a null one counts as undefined
  behaviour also where the implementation would have returned before reading it.
\<close>

definition static_cast ::
    "('i \<Rightarrow> bool) \<Rightarrow> ('i \<Rightarrow> 'i \<times> 'a outcome) \<Rightarrow> 'i option \<Rightarrow> 'i option \<times> 'a outcome" where
  "static_cast is_T f impl =
     (case impl of None \<Rightarrow> (None, UB)
      | Some i \<Rightarrow> if is_T i then (case f i of (i', r) \<Rightarrow> (Some i', r)) else (Some i, UB))"

definition is_Kernel_of :: "bpf_map_type \<Rightarrow> ('m, 'l, 's) map_impl \<Rightarrow> bool" where
  "is_Kernel_of ty i = (is_Kernel i \<and> kernel_of i = ty)"

definition at_key :: "bytes option \<Rightarrow> (bytes \<Rightarrow> 'a outcome) \<Rightarrow> 'a outcome" where
  "at_key p f = bind_out (of_option p) f"

definition keep :: "'i \<Rightarrow> 'a outcome \<Rightarrow> 'i \<times> 'a outcome" where
  "keep i r = (i, r)"

text \<open>
  A call that returns the new object inside its outcome: when the outcome is not \<open>Ok\<close> the
  object stays as it was. \<open>ret\<close> is the return value 0 of a call that succeeds.
\<close>

definition settle :: "('a \<Rightarrow> 'i) \<Rightarrow> 'i \<Rightarrow> ('a \<times> 'b outcome) outcome \<Rightarrow> 'i \<times> 'b outcome" where
  "settle C i r =
     (case r of Ok (a, b) \<Rightarrow> (C a, b) | Err e \<Rightarrow> (i, Err e) | Thrown \<Rightarrow> (i, Thrown) | UB \<Rightarrow> (i, UB)
      | NoReturn \<Rightarrow> (i, NoReturn))"

definition ret :: "unit outcome \<Rightarrow> int outcome" where
  "ret r = bind_out r (\<lambda>_. Ok 0)"

definition stored :: "('a \<Rightarrow> 'i) \<Rightarrow> 'i \<Rightarrow> 'a outcome \<Rightarrow> 'i \<times> int outcome" where
  "stored C i r = settle C i (bind_out r (\<lambda>a. Ok (a, Ok 0)))"

definition stored2 :: "('a \<Rightarrow> 'i) \<Rightarrow> 'a \<times> unit outcome \<Rightarrow> 'i \<times> int outcome" where
  "stored2 C p = (C (fst p), ret (snd p))"

definition point :: "('a \<Rightarrow> map_ptr) \<Rightarrow> 'a outcome \<Rightarrow> map_ptr option outcome" where
  "point P r = bind_out r (\<lambda>a. Ok (Some (P a)))"

text \<open>\<open>map_lookup_elem\<close>: \<open>Ok None\<close> is \<open>nullptr\<close> with \<open>errno\<close> untouched.\<close>

definition map_lookup_elem ::
    "('m, 'l, 's) map_env \<Rightarrow> bpf_map_handler \<Rightarrow> bytes option \<Rightarrow> bool \<Rightarrow>
     ('m, 'l, 's) map_impl option \<Rightarrow> ('m, 'l, 's) map_impl option \<times> map_ptr option outcome" where
  "map_lookup_elem E h key from_syscall impl = (case mh_type h of
     BPF_MAP_TYPE_HASH \<Rightarrow> static_cast is_Hash (\<lambda>i. keep i
       (at_key key (\<lambda>k. bind_out (fix_elem_lookup (hash_of i) k) (\<lambda>p. Ok (map_option Offset p))))) impl
   | BPF_MAP_TYPE_ARRAY \<Rightarrow> static_cast is_Array (\<lambda>i. keep i
       (at_key key (\<lambda>k. point Offset (array_elem_lookup (array_of i) k)))) impl
   | BPF_MAP_TYPE_RINGBUF \<Rightarrow> static_cast is_Ringbuf (\<lambda>i. keep i
       (point Vector (ringbuf_elem_lookup (ringbuf_of i) key))) impl
   | BPF_MAP_TYPE_PERF_EVENT_ARRAY \<Rightarrow> static_cast is_Perf (\<lambda>i. keep i
       (at_key key (\<lambda>k. point Int_cell (perf_event_array_lookup (perf_of i) k)))) impl
   | BPF_MAP_TYPE_PERCPU_ARRAY \<Rightarrow> static_cast is_Pca (\<lambda>i. keep i (point Offset
       (if from_syscall then pca_elem_lookup_userspace (pca_of i) key
        else pca_elem_lookup (env_cpu E) (pca_of i) key))) impl
   | BPF_MAP_TYPE_PERCPU_HASH \<Rightarrow> static_cast is_Pch (\<lambda>i. keep i
       (if from_syscall then point Vector (pch_elem_lookup_userspace (env_um E) (pch_of i) key)
        else point (\<lambda>(row, off). Row row off)
          (pch_elem_lookup (env_um E) (env_cpu E) (pch_of i) key))) impl
   | BPF_MAP_TYPE_STACK_TRACE \<Rightarrow> static_cast is_Strace (\<lambda>i. keep i
       (point Frames (stm_elem_lookup (env_st E) (strace_of i) key))) impl
   | BPF_MAP_TYPE_QUEUE \<Rightarrow> static_cast is_Queue (\<lambda>i. keep i
       (point Offset (queue_elem_lookup (queue_of i)))) impl
   | BPF_MAP_TYPE_STACK \<Rightarrow> static_cast is_Stack (\<lambda>i. keep i
       (point Offset (stack_elem_lookup (stack_of i)))) impl
   | BPF_MAP_TYPE_BLOOM_FILTER \<Rightarrow> static_cast is_Bloom (\<lambda>i. keep i
       (point Vector (bloom_elem_lookup (bloom_of i) key))) impl
   | BPF_MAP_TYPE_LRU_HASH \<Rightarrow> static_cast is_Lru (\<lambda>i. settle Lru_impl i
       (at_key key (\<lambda>k. bind_out (lru_elem_lookup (env_lru E) (lru_of i) k)
          (\<lambda>(s, v). Ok (s, Ok (map_option Vector v)))))) impl
   | BPF_MAP_TYPE_LPM_TRIE \<Rightarrow> static_cast is_Lpm (\<lambda>i. keep i
       (point Vector (lpm_elem_lookup (lpm_of i) key))) impl
   | BPF_MAP_TYPE_PROG_ARRAY \<Rightarrow> static_cast is_Prog (\<lambda>i. keep i
       (at_key key (\<lambda>k. point Int_cell
          (prog_array_lookup (env_is_prog_fd E) (env_get_fd_by_id E) (prog_of i) k)))) impl
   | BPF_MAP_TYPE_ARRAY_OF_MAPS \<Rightarrow> static_cast is_Aom (\<lambda>i. keep i
       (at_key key (\<lambda>k. point Map_id (array_of_maps_elem_lookup (aom_of i) k)))) impl
   | BPF_MAP_TYPE_OTHER n \<Rightarrow> (impl, case ops_elem_lookup (env_table E n) of
         Some func_ptr \<Rightarrow> func_ptr (mh_id h) key from_syscall | None \<Rightarrow> Ok None)
   | ty \<Rightarrow> static_cast (is_Kernel_of ty) (\<lambda>i. keep i (ku_lookup (env_kernel E ty) key)) impl)"

text \<open>\<open>map_update_elem\<close>: \<open>Ok (- 1)\<close> is the return value \<open>-1\<close> with \<open>errno\<close> untouched.\<close>

definition map_update_elem ::
    "('m, 'l, 's) map_env \<Rightarrow> bpf_map_handler \<Rightarrow> bytes option \<Rightarrow> bytes option \<Rightarrow> nat \<Rightarrow> bool \<Rightarrow>
     ('m, 'l, 's) map_impl option \<Rightarrow> ('m, 'l, 's) map_impl option \<times> int outcome" where
  "map_update_elem E h key value flags from_syscall impl = (case mh_type h of
     BPF_MAP_TYPE_HASH \<Rightarrow> static_cast is_Hash (\<lambda>i. stored Hash_impl i
       (at_key key (\<lambda>k. at_key value (\<lambda>v. fix_elem_update (hash_of i) k v flags)))) impl
   | BPF_MAP_TYPE_ARRAY \<Rightarrow> static_cast is_Array (\<lambda>i. settle Array_impl i
       (at_key key (\<lambda>k. at_key value (\<lambda>v.
          Ok (map_prod id ret (array_elem_update (array_of i) k v flags)))))) impl
   | BPF_MAP_TYPE_RINGBUF \<Rightarrow> static_cast is_Ringbuf (\<lambda>i. keep i
       (ret (ringbuf_elem_update (ringbuf_of i) key value flags))) impl
   | BPF_MAP_TYPE_PERF_EVENT_ARRAY \<Rightarrow> static_cast is_Perf (\<lambda>i. stored Perf_event_array_impl i
       (at_key key (\<lambda>k. at_key value (\<lambda>v. perf_event_array_update (perf_of i) k v flags)))) impl
   | BPF_MAP_TYPE_PERCPU_ARRAY \<Rightarrow> static_cast is_Pca (\<lambda>i. settle Per_cpu_array_impl i
       (at_key value (\<lambda>v. Ok (map_prod id ret
         (if from_syscall then pca_elem_update_userspace (pca_of i) key v flags
          else pca_elem_update (env_cpu E) (pca_of i) key v flags))))) impl
   | BPF_MAP_TYPE_PERCPU_HASH \<Rightarrow> static_cast is_Pch (\<lambda>i. settle Per_cpu_hash_impl i
       (at_key key (\<lambda>k. at_key value (\<lambda>v. Ok (map_prod id ret
         (if from_syscall then pch_elem_update_userspace (env_um E) (pch_of i) k v flags
          else pch_elem_update (env_um E) (env_cpu E) (pch_of i) k v flags)))))) impl
   | BPF_MAP_TYPE_STACK_TRACE \<Rightarrow> static_cast is_Strace (\<lambda>i. keep i
       (ret (stm_elem_update (strace_of i) key value flags))) impl
   | BPF_MAP_TYPE_QUEUE \<Rightarrow> static_cast is_Queue (\<lambda>i.
       stored2 Queue_impl (queue_elem_update (queue_of i) key value flags)) impl
   | BPF_MAP_TYPE_STACK \<Rightarrow> static_cast is_Stack (\<lambda>i.
       stored2 Stack_impl (stack_elem_update (stack_of i) key value flags)) impl
   | BPF_MAP_TYPE_BLOOM_FILTER \<Rightarrow> static_cast is_Bloom (\<lambda>i.
       stored2 Bloom_impl (bloom_elem_update (bloom_of i) key value flags)) impl
   | BPF_MAP_TYPE_PROG_ARRAY \<Rightarrow> static_cast is_Prog (\<lambda>i. stored Prog_array_impl i
       (at_key key (\<lambda>k. at_key value (\<lambda>v.
          prog_array_update (env_is_prog_fd E) (env_get_info_by_fd E) (prog_of i) k v flags)))) impl
   | BPF_MAP_TYPE_ARRAY_OF_MAPS \<Rightarrow>
       if \<not> from_syscall then (impl, Err EINVAL)
       else static_cast is_Aom (\<lambda>i. settle Array_of_maps_impl i
         (at_key key (\<lambda>k. at_key value (\<lambda>v.
            Ok (map_prod id ret (array_elem_update (aom_of i) k v flags)))))) impl
   | BPF_MAP_TYPE_LRU_HASH \<Rightarrow> static_cast is_Lru (\<lambda>i. settle Lru_impl i
       (at_key key (\<lambda>k. at_key value (\<lambda>v.
          bind_out (lru_elem_update (env_lru E) (lru_of i) k v flags)
            (\<lambda>p. Ok (map_prod id ret p)))))) impl
   | BPF_MAP_TYPE_LPM_TRIE \<Rightarrow> static_cast is_Lpm (\<lambda>i.
       stored2 Lpm_impl (lpm_elem_update (lpm_of i) key value flags)) impl
   | BPF_MAP_TYPE_OTHER n \<Rightarrow> (impl, case ops_elem_update (env_table E n) of
         Some func_ptr \<Rightarrow> func_ptr (mh_id h) key value flags from_syscall | None \<Rightarrow> Ok (- 1))
   | ty \<Rightarrow> static_cast (is_Kernel_of ty)
       (\<lambda>i. keep i (ku_update (env_kernel E ty) key value flags)) impl)"

text \<open>
  \<open>bpf_map_get_next_key\<close>: the key written through \<open>next_key\<close>; \<open>has_next\<close> tells whether that
  pointer is non-null. \<open>Ok None\<close> is the return value \<open>-1\<close> with \<open>errno\<close> untouched.
\<close>

definition key_out :: "bool \<Rightarrow> bytes outcome \<Rightarrow> bytes option outcome" where
  "key_out has_next r = bind_out r (\<lambda>b. if has_next then Ok (Some b) else UB)"

definition handler_get_next_key ::
    "('m, 'l, 's) map_env \<Rightarrow> bpf_map_handler \<Rightarrow> bytes option \<Rightarrow> bool \<Rightarrow> bool \<Rightarrow>
     ('m, 'l, 's) map_impl option \<Rightarrow> ('m, 'l, 's) map_impl option \<times> bytes option outcome" where
  "handler_get_next_key E h key has_next from_syscall impl =
    (let next = \<lambda>is_T get. static_cast is_T (\<lambda>i. keep i (key_out has_next (get i))) impl
     in case mh_type h of
     BPF_MAP_TYPE_HASH \<Rightarrow> next is_Hash (\<lambda>i. fix_map_get_next_key (hash_of i) key has_next)
   | BPF_MAP_TYPE_ARRAY \<Rightarrow> next is_Array (\<lambda>i. array_map_get_next_key (array_of i) key)
   | BPF_MAP_TYPE_RINGBUF \<Rightarrow> next is_Ringbuf (\<lambda>i. ringbuf_map_get_next_key (ringbuf_of i) key)
   | BPF_MAP_TYPE_PERF_EVENT_ARRAY \<Rightarrow>
       next is_Perf (\<lambda>i. perf_event_array_get_next_key (perf_of i) key)
   | BPF_MAP_TYPE_PERCPU_ARRAY \<Rightarrow> next is_Pca (\<lambda>i. pca_map_get_next_key (pca_of i) key)
   | BPF_MAP_TYPE_PERCPU_HASH \<Rightarrow>
       next is_Pch (\<lambda>i. pch_map_get_next_key (env_um E) (pch_of i) key)
   | BPF_MAP_TYPE_STACK_TRACE \<Rightarrow> next is_Strace (\<lambda>i. stm_map_get_next_key (strace_of i) key)
   | BPF_MAP_TYPE_QUEUE \<Rightarrow> next is_Queue (\<lambda>i. queue_map_get_next_key (queue_of i) key)
   | BPF_MAP_TYPE_STACK \<Rightarrow> next is_Stack (\<lambda>i. stack_map_get_next_key (stack_of i) key)
   | BPF_MAP_TYPE_BLOOM_FILTER \<Rightarrow> next is_Bloom (\<lambda>i. bloom_map_get_next_key (bloom_of i) key)
   | BPF_MAP_TYPE_PROG_ARRAY \<Rightarrow> next is_Prog (\<lambda>i. prog_array_get_next_key (prog_of i) key)
   | BPF_MAP_TYPE_ARRAY_OF_MAPS \<Rightarrow> next is_Aom (\<lambda>i. array_map_get_next_key (aom_of i) key)
   | BPF_MAP_TYPE_LRU_HASH \<Rightarrow>
       next is_Lru (\<lambda>i. lru_map_get_next_key (env_lru E) (lru_of i) key)
   | BPF_MAP_TYPE_LPM_TRIE \<Rightarrow> next is_Lpm (\<lambda>i. lpm_map_get_next_key (lpm_of i) key has_next)
   | BPF_MAP_TYPE_OTHER n \<Rightarrow> (impl, case ops_map_get_next_key (env_table E n) of
         Some func_ptr \<Rightarrow> func_ptr (mh_id h) key has_next from_syscall | None \<Rightarrow> Ok None)
   | ty \<Rightarrow> static_cast (is_Kernel_of ty) (\<lambda>i. keep i (ku_next_key (env_kernel E ty) key)) impl)"

definition map_delete_elem ::
    "('m, 'l, 's) map_env \<Rightarrow> bpf_map_handler \<Rightarrow> bytes option \<Rightarrow> bool \<Rightarrow>
     ('m, 'l, 's) map_impl option \<Rightarrow> ('m, 'l, 's) map_impl option \<times> int outcome" where
  "map_delete_elem E h key from_syscall impl = (case mh_type h of
     BPF_MAP_TYPE_HASH \<Rightarrow> static_cast is_Hash (\<lambda>i. stored Hash_impl i
       (at_key key (fix_elem_delete (hash_of i)))) impl
   | BPF_MAP_TYPE_ARRAY \<Rightarrow> static_cast is_Array (\<lambda>i. keep i
       (at_key key (\<lambda>k. ret (array_elem_delete (array_of i) k)))) impl
   | BPF_MAP_TYPE_RINGBUF \<Rightarrow> static_cast is_Ringbuf (\<lambda>i. keep i
       (ret (ringbuf_elem_delete (ringbuf_of i) key))) impl
   | BPF_MAP_TYPE_PERF_EVENT_ARRAY \<Rightarrow> static_cast is_Perf (\<lambda>i. stored Perf_event_array_impl i
       (at_key key (perf_event_array_delete (perf_of i)))) impl
   | BPF_MAP_TYPE_PERCPU_ARRAY \<Rightarrow> static_cast is_Pca (\<lambda>i. keep i
       (ret (if from_syscall then pca_elem_delete_userspace (pca_of i) key
             else pca_elem_delete (pca_of i) key))) impl
   | BPF_MAP_TYPE_PERCPU_HASH \<Rightarrow> static_cast is_Pch (\<lambda>i. settle Per_cpu_hash_impl i
       (at_key key (\<lambda>k. Ok (map_prod id ret
         (if from_syscall then pch_elem_delete_userspace (env_um E) (pch_of i) k
          else pch_elem_delete (env_um E) (env_cpu E) (pch_of i) k))))) impl
   | BPF_MAP_TYPE_STACK_TRACE \<Rightarrow> static_cast is_Strace (\<lambda>i.
       stored2 Stack_trace_impl (stm_elem_delete (env_st E) (strace_of i) key)) impl
   | BPF_MAP_TYPE_QUEUE \<Rightarrow> static_cast is_Queue (\<lambda>i.
       stored2 Queue_impl (queue_elem_delete (queue_of i))) impl
   | BPF_MAP_TYPE_STACK \<Rightarrow> static_cast is_Stack (\<lambda>i.
       stored2 Stack_impl (stack_elem_delete (stack_of i))) impl
   | BPF_MAP_TYPE_BLOOM_FILTER \<Rightarrow> static_cast is_Bloom (\<lambda>i. keep i
       (ret (bloom_elem_delete (bloom_of i) key))) impl
   | BPF_MAP_TYPE_PROG_ARRAY \<Rightarrow> static_cast is_Prog (\<lambda>i. stored Prog_array_impl i
       (at_key key (prog_array_delete (prog_of i)))) impl
   | BPF_MAP_TYPE_ARRAY_OF_MAPS \<Rightarrow>
       if \<not> from_syscall then (impl, Err EINVAL)
       else static_cast is_Aom (\<lambda>i. keep i
         (at_key key (\<lambda>k. ret (array_elem_delete (aom_of i) k)))) impl
   | BPF_MAP_TYPE_LRU_HASH \<Rightarrow> static_cast is_Lru (\<lambda>i. settle Lru_impl i
       (at_key key (\<lambda>k. bind_out (lru_elem_delete (env_lru E) (lru_of i) k)
          (\<lambda>p. Ok (map_prod id ret p))))) impl
   | BPF_MAP_TYPE_LPM_TRIE \<Rightarrow> static_cast is_Lpm (\<lambda>i.
       stored2 Lpm_impl (lpm_elem_delete (lpm_of i) key)) impl
   | BPF_MAP_TYPE_OTHER n \<Rightarrow> (impl, case ops_elem_delete (env_table E n) of
         Some func_ptr \<Rightarrow> func_ptr (mh_id h) key from_syscall | None \<Rightarrow> Ok (- 1))
   | ty \<Rightarrow> static_cast (is_Kernel_of ty) (\<lambda>i. keep i (ku_delete (env_kernel E ty) key)) impl)"

text \<open>The queue, stack and bloom filter helpers; \<open>value\<close> is the caller's buffer.\<close>

definition map_push_elem ::
    "bpf_map_handler \<Rightarrow> bytes option \<Rightarrow> nat \<Rightarrow> ('m, 'l, 's) map_impl option \<Rightarrow>
     ('m, 'l, 's) map_impl option \<times> int outcome" where
  "map_push_elem h value flags impl = (case mh_type h of
     BPF_MAP_TYPE_QUEUE \<Rightarrow> static_cast is_Queue (\<lambda>i.
       stored2 Queue_impl (queue_map_push_elem (queue_of i) value flags)) impl
   | BPF_MAP_TYPE_STACK \<Rightarrow> static_cast is_Stack (\<lambda>i.
       stored2 Stack_impl (stack_map_push_elem (stack_of i) value flags)) impl
   | BPF_MAP_TYPE_BLOOM_FILTER \<Rightarrow> static_cast is_Bloom (\<lambda>i.
       stored2 Bloom_impl (bloom_map_push_elem (bloom_of i) value flags)) impl
   | _ \<Rightarrow> (impl, Err ENOTSUP))"

definition map_pop_elem ::
    "bpf_map_handler \<Rightarrow> bytes option \<Rightarrow> ('m, 'l, 's) map_impl option \<Rightarrow>
     ('m, 'l, 's) map_impl option \<times> bytes outcome" where
  "map_pop_elem h value impl = (case mh_type h of
     BPF_MAP_TYPE_QUEUE \<Rightarrow> static_cast is_Queue (\<lambda>i.
       map_prod Queue_impl id (queue_map_pop_elem (queue_of i) (value \<noteq> None))) impl
   | BPF_MAP_TYPE_STACK \<Rightarrow> static_cast is_Stack (\<lambda>i.
       map_prod Stack_impl id (stack_map_pop_elem (stack_of i) (value \<noteq> None))) impl
   | _ \<Rightarrow> (impl, Err ENOTSUP))"

text \<open>A bloom filter reads the buffer and leaves it as it is.\<close>

definition map_peek_elem ::
    "bpf_map_handler \<Rightarrow> bytes option \<Rightarrow> ('m, 'l, 's) map_impl option \<Rightarrow>
     ('m, 'l, 's) map_impl option \<times> bytes outcome" where
  "map_peek_elem h value impl = (case mh_type h of
     BPF_MAP_TYPE_QUEUE \<Rightarrow> static_cast is_Queue (\<lambda>i. keep i
       (queue_map_peek_elem (queue_of i) (value \<noteq> None))) impl
   | BPF_MAP_TYPE_STACK \<Rightarrow> static_cast is_Stack (\<lambda>i. keep i
       (stack_map_peek_elem (stack_of i) (value \<noteq> None))) impl
   | BPF_MAP_TYPE_BLOOM_FILTER \<Rightarrow> static_cast is_Bloom (\<lambda>i. keep i
       (bind_out (bloom_map_peek_elem (bloom_of i) value) (\<lambda>_. of_option value))) impl
   | _ \<Rightarrow> (impl, Err ENOTSUP))"

section \<open>Creating and freeing the implementation\<close>

text \<open>
  The objects of the shared segment that the handlers point to: implementations and
  reference counts, by address.
\<close>

datatype ('m, 'l, 's) cell = Impl "('m, 'l, 's) map_impl" | Refcnt nat

type_synonym ('m, 'l, 's) segment = "nat \<rightharpoonup> ('m, 'l, 's) cell"

definition live :: "('m, 'l, 's) segment \<Rightarrow> nat \<Rightarrow> bool" where
  "live shm a = (shm a \<noteq> None)"

definition init_refcnt ::
    "('m, 'l, 's) map_env \<Rightarrow> bpf_map_handler \<Rightarrow> ('m, 'l, 's) segment \<Rightarrow>
     bpf_map_handler \<times> ('m, 'l, 's) segment \<times> int outcome" where
  "init_refcnt E h shm =
     (case mh_refcnt_ptr h of
        None \<Rightarrow> (case env_alloc E (live shm) of
            None \<Rightarrow> (h, shm, Thrown)
          | Some r \<Rightarrow> (h\<lparr>mh_refcnt_ptr := Some r\<rparr>, shm(r \<mapsto> Refcnt 1), Ok 0))
      | Some r \<Rightarrow> (case shm r of
            Some (Refcnt n) \<Rightarrow> (h, shm(r \<mapsto> Refcnt 1), Ok 0)
          | _ \<Rightarrow> (h, shm, UB)))"

text \<open>
  \<open>memory.construct<T>(anonymous_instance)(...)\<close> and \<open>init_refcnt()\<close>: an exception of the
  constructor or of the allocator leaves \<open>map_impl_ptr\<close> null.
\<close>

definition construct_map ::
    "('m, 'l, 's) map_env \<Rightarrow> bpf_map_handler \<Rightarrow> ('m, 'l, 's) segment \<Rightarrow>
     ('m, 'l, 's) map_impl outcome \<Rightarrow> bpf_map_handler \<times> ('m, 'l, 's) segment \<times> int outcome" where
  "construct_map E h shm obj =
     (case bind_out obj (\<lambda>i. case env_alloc E (live shm) of None \<Rightarrow> Thrown | Some a \<Rightarrow> Ok (a, i)) of
        Ok (a, i) \<Rightarrow> init_refcnt E (h\<lparr>mh_impl_ptr := Some a\<rparr>) (shm(a \<mapsto> Impl i))
      | r \<Rightarrow> (h, shm, bind_out r (\<lambda>_. Ok 0)))"

definition build :: "('a \<Rightarrow> 'i) \<Rightarrow> 'a outcome \<Rightarrow> 'i outcome" where
  "build C r = bind_out r (\<lambda>a. Ok (C a))"

definition map_init ::
    "('m, 'l, 's) map_env \<Rightarrow> bpf_map_handler \<Rightarrow> ('m, 'l, 's) segment \<Rightarrow>
     bpf_map_handler \<times> ('m, 'l, 's) segment \<times> int outcome" where
  "map_init E h shm =
    (let key_size = mh_key_size h; value_size = mh_value_size h; max_entries = mh_max_entries h;
         make = construct_map E h shm
     in if mh_impl_ptr h \<noteq> None then (h, shm, Ok 0) else case mh_type h of
     BPF_MAP_TYPE_HASH \<Rightarrow>
       make (build Hash_impl (fix_size_hash_map_impl_new max_entries key_size value_size))
   | BPF_MAP_TYPE_ARRAY \<Rightarrow> make (Ok (Array_impl (array_map_impl_new value_size max_entries)))
   | BPF_MAP_TYPE_RINGBUF \<Rightarrow>
       if pop_cnt max_entries \<noteq> 1 then (h, shm, Ok (- 1))
       else make (build Ringbuf_impl (ringbuf_new (env_page_size E) max_entries))
   | BPF_MAP_TYPE_PERF_EVENT_ARRAY \<Rightarrow>
       make (build Perf_event_array_impl (perf_event_array_new key_size value_size max_entries))
   | BPF_MAP_TYPE_PERCPU_ARRAY \<Rightarrow> make (Ok (Per_cpu_array_impl
       (per_cpu_array_map_impl_new value_size max_entries (env_ncpu E))))
   | BPF_MAP_TYPE_PERCPU_HASH \<Rightarrow> make (Ok (Per_cpu_hash_impl
       (per_cpu_hash_map_impl_new (env_um E) key_size value_size max_entries (env_ncpu E))))
   | BPF_MAP_TYPE_QUEUE \<Rightarrow> make (build Queue_impl (queue_map_impl_new value_size max_entries))
   | BPF_MAP_TYPE_STACK \<Rightarrow> make (build Stack_impl (stack_map_impl_new value_size max_entries))
   | BPF_MAP_TYPE_BLOOM_FILTER \<Rightarrow>
       if key_size \<noteq> 0 then (h, shm, Ok (- 1))
       else let nr_hashes = attr_map_extra (mh_attr h) mod 16;
                nr_hashes = (if nr_hashes = 0 then 5 else nr_hashes)
         in make (build Bloom_impl
              (bloom_filter_map_impl_new value_size max_entries nr_hashes JHASH (env_bloom_seed E)))
   | BPF_MAP_TYPE_PROG_ARRAY \<Rightarrow>
       make (build Prog_array_impl (prog_array_new key_size value_size max_entries))
   | BPF_MAP_TYPE_STACK_TRACE \<Rightarrow> make (build Stack_trace_impl
       (stack_trace_map_impl_new (env_st E) key_size value_size max_entries))
   | BPF_MAP_TYPE_ARRAY_OF_MAPS \<Rightarrow> make (Ok (Array_of_maps_impl (array_of_maps_new max_entries)))
   | BPF_MAP_TYPE_LRU_HASH \<Rightarrow> make (Ok (Lru_impl
       (lru_var_hash_map_impl_new (env_lru E) key_size value_size max_entries)))
   | BPF_MAP_TYPE_LPM_TRIE \<Rightarrow>
       make (build Lpm_impl (lpm_trie_map_impl_new key_size value_size max_entries))
   | BPF_MAP_TYPE_OTHER n \<Rightarrow>
       if env_allow_non_builtin E
       then (h, shm, Ok (case ops_alloc_map (env_table E n) of
               Some func_ptr \<Rightarrow> func_ptr (mh_id h) (mh_name h) (mh_attr h) | None \<Rightarrow> 0))
       else (h, shm, Ok (- 1))
   | ty \<Rightarrow> make (build (\<lambda>_. Kernel_user_impl ty) (ku_new (env_kernel E ty) (mh_attr h))))"

text \<open>The class of the object that each branch of the switches casts to.\<close>

definition impl_has_type :: "bpf_map_type \<Rightarrow> ('m, 'l, 's) map_impl \<Rightarrow> bool" where
  "impl_has_type ty i = (case ty of
     BPF_MAP_TYPE_HASH \<Rightarrow> is_Hash i | BPF_MAP_TYPE_ARRAY \<Rightarrow> is_Array i
   | BPF_MAP_TYPE_RINGBUF \<Rightarrow> is_Ringbuf i | BPF_MAP_TYPE_PERF_EVENT_ARRAY \<Rightarrow> is_Perf i
   | BPF_MAP_TYPE_PERCPU_ARRAY \<Rightarrow> is_Pca i | BPF_MAP_TYPE_PERCPU_HASH \<Rightarrow> is_Pch i
   | BPF_MAP_TYPE_QUEUE \<Rightarrow> is_Queue i | BPF_MAP_TYPE_STACK \<Rightarrow> is_Stack i
   | BPF_MAP_TYPE_BLOOM_FILTER \<Rightarrow> is_Bloom i | BPF_MAP_TYPE_PROG_ARRAY \<Rightarrow> is_Prog i
   | BPF_MAP_TYPE_STACK_TRACE \<Rightarrow> is_Strace i | BPF_MAP_TYPE_ARRAY_OF_MAPS \<Rightarrow> is_Aom i
   | BPF_MAP_TYPE_LRU_HASH \<Rightarrow> is_Lru i | BPF_MAP_TYPE_LPM_TRIE \<Rightarrow> is_Lpm i
   | BPF_MAP_TYPE_OTHER n \<Rightarrow> False | ty \<Rightarrow> is_Kernel_of ty i)"

text \<open>
  \<open>map_free\<close>: one reference less; the last one destroys the count and the object. Both
  pointers are null afterwards. An object of a non-builtin type is left to its operations.
\<close>

definition destroy_impl ::
    "bpf_map_handler \<Rightarrow> nat \<Rightarrow> ('m, 'l, 's) segment \<Rightarrow> ('m, 'l, 's) segment \<times> unit outcome" where
  "destroy_impl h a shm =
     (case mh_type h of BPF_MAP_TYPE_OTHER n \<Rightarrow> (shm, Ok ())
      | ty \<Rightarrow> (case shm a of
          Some (Impl i) \<Rightarrow> if impl_has_type ty i then (shm(a := None), Ok ()) else (shm, UB)
        | _ \<Rightarrow> (shm, UB)))"

definition map_free ::
    "bpf_map_handler \<Rightarrow> ('m, 'l, 's) segment \<Rightarrow>
     bpf_map_handler \<times> ('m, 'l, 's) segment \<times> unit outcome" where
  "map_free h shm =
     (let h' = h\<lparr>mh_impl_ptr := None, mh_refcnt_ptr := None\<rparr> in
      case mh_impl_ptr h of
        None \<Rightarrow> (h, shm, Ok ())
      | Some a \<Rightarrow> (case mh_refcnt_ptr h of
          None \<Rightarrow> (h', destroy_impl h a shm)
        | Some r \<Rightarrow> (case shm r of
            Some (Refcnt prev) \<Rightarrow>
              if 1 < prev then (h', shm(r \<mapsto> Refcnt (dec32 prev)), Ok ())
              else (h', destroy_impl h a (shm(r := None)))
          | _ \<Rightarrow> (h', shm, UB))))"

definition inc_map_refcount ::
    "bpf_map_handler \<Rightarrow> ('m, 'l, 's) segment \<Rightarrow> ('m, 'l, 's) segment \<times> unit outcome" where
  "inc_map_refcount h shm =
     (case mh_refcnt_ptr h of None \<Rightarrow> (shm, Ok ())
      | Some r \<Rightarrow> (case shm r of
          Some (Refcnt n) \<Rightarrow> (shm(r \<mapsto> Refcnt (inc32 n)), Ok ()) | _ \<Rightarrow> (shm, UB)))"

section \<open>Facts on the dispatch\<close>

text \<open>Every operation leaves an object of the class that its handler's \<open>type\<close> names.\<close>

definition keeps_type :: "bpf_map_type \<Rightarrow> ('m, 'l, 's) map_impl option \<times> 'a \<Rightarrow> bool" where
  "keeps_type ty p = (\<exists>i. fst p = Some i \<and> impl_has_type ty i)"

lemma keeps_static_cast:
  "keeps_type ty (static_cast is_T f (Some i)) =
     impl_has_type ty (if is_T i then fst (f i) else i)"
  by (auto simp: keeps_type_def static_cast_def split: prod.splits)

lemma keeps_pair: "keeps_type ty (Some i, r) = impl_has_type ty i"
  by (simp add: keeps_type_def)

lemma settle_keeps: "is_T i \<Longrightarrow> (\<And>a. is_T (C a)) \<Longrightarrow> is_T (fst (settle C i r))"
  by (auto simp: settle_def split: outcome.splits prod.splits)

lemma stored_keeps: "is_T i \<Longrightarrow> (\<And>a. is_T (C a)) \<Longrightarrow> is_T (fst (stored C i r))"
  by (simp add: stored_def settle_keeps)

lemma fst_stored2: "fst (stored2 C p) = C (fst p)"
  by (simp add: stored2_def)

lemmas keeps_simps = keeps_static_cast keeps_pair fst_stored2 keep_def impl_has_type_def
  stored_keeps [of is_Hash _ Hash_impl, simplified] stored_keeps [of is_Perf _ Perf_event_array_impl, simplified]
  stored_keeps [of is_Prog _ Prog_array_impl, simplified]
  settle_keeps [of is_Array _ Array_impl, simplified] settle_keeps [of is_Pca _ Per_cpu_array_impl, simplified]
  settle_keeps [of is_Pch _ Per_cpu_hash_impl, simplified] settle_keeps [of is_Aom _ Array_of_maps_impl, simplified]
  settle_keeps [of is_Lru _ Lru_impl, simplified]

lemma lookup_keeps_type:
  "impl_has_type (mh_type h) i \<Longrightarrow>
   keeps_type (mh_type h) (map_lookup_elem E h key sys (Some i))"
  unfolding map_lookup_elem_def by (cases "mh_type h") (simp_all add: keeps_simps)

lemma update_keeps_type:
  "impl_has_type (mh_type h) i \<Longrightarrow>
   keeps_type (mh_type h) (map_update_elem E h key value flags sys (Some i))"
  unfolding map_update_elem_def by (cases "mh_type h") (simp_all add: keeps_simps)

lemma next_key_keeps_type:
  "impl_has_type (mh_type h) i \<Longrightarrow>
   keeps_type (mh_type h) (handler_get_next_key E h key has_next sys (Some i))"
  unfolding handler_get_next_key_def Let_def by (cases "mh_type h") (simp_all add: keeps_simps)

lemma delete_keeps_type:
  "impl_has_type (mh_type h) i \<Longrightarrow>
   keeps_type (mh_type h) (map_delete_elem E h key sys (Some i))"
  unfolding map_delete_elem_def by (cases "mh_type h") (simp_all add: keeps_simps)

lemma push_keeps_type:
  "impl_has_type (mh_type h) i \<Longrightarrow>
   keeps_type (mh_type h) (map_push_elem h value flags (Some i))"
  unfolding map_push_elem_def by (cases "mh_type h") (simp_all add: keeps_simps)

lemma pop_keeps_type:
  "impl_has_type (mh_type h) i \<Longrightarrow>
   keeps_type (mh_type h) (map_pop_elem h value (Some i))"
  unfolding map_pop_elem_def by (cases "mh_type h") (simp_all add: keeps_simps)

lemma peek_keeps_type:
  "impl_has_type (mh_type h) i \<Longrightarrow>
   keeps_type (mh_type h) (map_peek_elem h value (Some i))"
  unfolding map_peek_elem_def by (cases "mh_type h") (simp_all add: keeps_simps)

lemmas dispatch_keeps_type = lookup_keeps_type update_keeps_type next_key_keeps_type
  delete_keeps_type push_keeps_type pop_keeps_type peek_keeps_type

text \<open>The segment's allocator never returns an address that is in use.\<close>

definition alloc_fresh :: "('m, 'l, 's) map_env \<Rightarrow> bool" where
  "alloc_fresh E = (\<forall>P a. env_alloc E P = Some a \<longrightarrow> \<not> P a)"

lemma alloc_freshD: "alloc_fresh E \<Longrightarrow> env_alloc E (live shm) = Some a \<Longrightarrow> shm a = None"
  unfolding alloc_fresh_def by (metis live_def)

text \<open>
  What \<open>map_init\<close> of a handler with null pointers can leave behind: nothing, an object of
  the handler's class with its count, or (when the allocation of the count throws) an
  object alone.
\<close>

inductive init_result ::
    "bpf_map_handler \<Rightarrow> ('m, 'l, 's) segment \<Rightarrow> bpf_map_handler \<Rightarrow> ('m, 'l, 's) segment \<Rightarrow> bool"
  for h shm where
  nothing: "init_result h shm h shm"
| counted: "shm a = None \<Longrightarrow> shm r = None \<Longrightarrow> a \<noteq> r \<Longrightarrow> impl_has_type (mh_type h) i \<Longrightarrow>
    init_result h shm (h\<lparr>mh_impl_ptr := Some a, mh_refcnt_ptr := Some r\<rparr>)
      (shm(a \<mapsto> Impl i, r \<mapsto> Refcnt 1))"
| uncounted: "shm a = None \<Longrightarrow> impl_has_type (mh_type h) i \<Longrightarrow>
    init_result h shm (h\<lparr>mh_impl_ptr := Some a\<rparr>) (shm(a \<mapsto> Impl i))"

lemma construct_map_result:
  assumes "alloc_fresh E" and "mh_refcnt_ptr h = None"
    and "\<And>i. obj = Ok i \<Longrightarrow> impl_has_type (mh_type h) i"
    and "construct_map E h shm obj = (h', shm', r)"
  shows "init_result h shm h' shm'"
proof (cases obj)
  case (Ok i)
  show ?thesis
  proof (cases "env_alloc E (live shm)")
    case None
    then show ?thesis using Ok assms by (simp add: construct_map_def init_result.nothing)
  next
    case (Some a)
    with assms(1) have a: "shm a = None" by (rule alloc_freshD)
    let ?m = "shm(a \<mapsto> Impl i)"
    show ?thesis
    proof (cases "env_alloc E (live ?m)")
      case None
      then show ?thesis using Ok Some a assms
        by (auto simp: construct_map_def init_refcnt_def intro: init_result.uncounted)
    next
      case (Some r)
      with assms(1) have "?m r = None" by (rule alloc_freshD)
      then have "shm r = None" "a \<noteq> r" by (auto split: if_splits)
      then show ?thesis using Ok Some \<open>env_alloc E (live shm) = Some a\<close> a assms
        by (auto simp: construct_map_def init_refcnt_def simp del: One_nat_def
          intro: init_result.counted)
    qed
  qed
qed (use assms in \<open>auto simp: construct_map_def intro: init_result.nothing\<close>)

lemma build_Ok: "build C r = Ok i \<longleftrightarrow> (\<exists>a. r = Ok a \<and> i = C a)"
  by (auto simp: build_def bind_out_Ok)

lemma map_init_result:
  assumes "alloc_fresh E" and "mh_refcnt_ptr h = None"
    and "map_init E h shm = (h', shm', r)"
  shows "init_result h shm h' shm'"
proof (cases "mh_impl_ptr h")
  case None
  note c = construct_map_result [OF assms(1,2)]
  from None assms(3) show ?thesis
    unfolding map_init_def Let_def
    by (cases "mh_type h")
      (auto intro: init_result.nothing elim!: c [rotated] simp: impl_has_type_def is_Kernel_of_def
        build_Ok split: if_splits)
next
  case (Some a)
  with assms(3) show ?thesis by (auto simp: map_init_def Let_def intro: init_result.nothing)
qed

text \<open>Freeing a handler whose pointers are good never goes wrong.\<close>

lemma destroy_impl_ok:
  assumes "shm a = Some (Impl i)" and "impl_has_type (mh_type h) i"
  shows "destroy_impl h a shm = (shm(a := None), Ok ())"
  using assms by (cases "mh_type h") (simp_all add: destroy_impl_def impl_has_type_def)

end
