(* ===== verification/Handler_Manager.thy ===== *)
theory Handler_Manager
  imports Map_Handler "HOL-Library.Multiset"
begin

text \<open>
  \<open>handler_manager\<close> (\<open>handler/handler_manager.hpp\<close>, \<open>handler/handler_manager.cpp\<close>): the fd table
  in shared memory, one variant per fd, with the handler classes it holds. Map handlers own
  objects of the segment through reference counts; a link names the program and the perf
  event that it joins. The theory proves the two invariants of the table: the counts are
  exact (no object is freed while a handler points to it, none is left behind), and no link
  names a program or a perf event that is gone.
\<close>

section \<open>The handler classes\<close>

text \<open>\<open>bpf_link_create_args\<close>: the fields the runtime reads, as the \<open>__u32\<close> and \<open>__u64\<close> they are.\<close>

record bpf_link_create_args =
  la_prog_fd :: nat
  la_target_fd :: nat
  la_attach_type :: nat
  la_bpf_cookie :: nat

definition BPFTIME_BPF_PERF_EVENT_ATTACH_TYPE :: nat where
  "BPFTIME_BPF_PERF_EVENT_ATTACH_TYPE = 41"

text \<open>\<open>lk_args = None\<close>: the constructors that take two ids leave \<open>args\<close> uninitialised.\<close>

record bpf_link_handler =
  lk_args :: "bpf_link_create_args option"
  lk_prog_id :: int
  lk_attach_target_id :: int
  lk_attach_cookie :: "nat option"

definition link_of_args :: "bpf_link_create_args \<Rightarrow> bpf_link_handler" where
  "link_of_args args =
     \<lparr>lk_args = Some args, lk_prog_id = i32_of_u32 (la_prog_fd args),
      lk_attach_target_id = i32_of_u32 (la_target_fd args),
      lk_attach_cookie =
        (if la_attach_type args = BPFTIME_BPF_PERF_EVENT_ATTACH_TYPE
         then Some (la_bpf_cookie args) else None)\<rparr>"

definition link_of_ids :: "int \<Rightarrow> int \<Rightarrow> nat option \<Rightarrow> bpf_link_handler" where
  "link_of_ids prog_id attach_target_id cookie =
     \<lparr>lk_args = None, lk_prog_id = prog_id, lk_attach_target_id = attach_target_id,
      lk_attach_cookie = cookie\<rparr>"

text \<open>The constructor of a program ignores its \<open>prog_type\<close> argument.\<close>

record bpf_prog_handler =
  pr_insns :: "nat list"
  pr_name :: string

definition bpf_prog_handler_new :: "nat list \<Rightarrow> string \<Rightarrow> int \<Rightarrow> bpf_prog_handler" where
  "bpf_prog_handler_new insns prog_name prog_type = \<lparr>pr_insns = insns, pr_name = prog_name\<rparr>"

text \<open>
  The data of a perf event; a software event is identified by its \<open>event_generation\<close>, which
  \<open>next_software_perf_event_generation\<close> makes unique.
\<close>

datatype perf_event_data =
    Uprobe_data nat int nat string
  | Tracepoint_data int int
  | Software_data nat int int int
  | Custom_data string
  | Kprobe_data string nat nat

record bpf_perf_event_handler =
  pe_type :: int
  pe_enabled :: bool
  pe_data :: perf_event_data

definition uprobe_handler :: "bool \<Rightarrow> nat \<Rightarrow> int \<Rightarrow> string \<Rightarrow> nat \<Rightarrow> bpf_perf_event_handler" where
  "uprobe_handler is_retprobe offset pid module_name ref_ctr_off =
     \<lparr>pe_type = (if is_retprobe then 7 else 6), pe_enabled = False,
      pe_data = Uprobe_data offset pid ref_ctr_off module_name\<rparr>"

definition override_handler :: "int \<Rightarrow> nat \<Rightarrow> int \<Rightarrow> string \<Rightarrow> bool \<Rightarrow> bpf_perf_event_handler" where
  "override_handler ty offset pid module_name default_enabled =
     \<lparr>pe_type = ty, pe_enabled = default_enabled, pe_data = Uprobe_data offset pid 0 module_name\<rparr>"

definition kprobe_handler :: "bool \<Rightarrow> nat \<Rightarrow> string \<Rightarrow> nat \<Rightarrow> bpf_perf_event_handler" where
  "kprobe_handler is_retprobe addr func_name ref_ctr_off =
     \<lparr>pe_type = (if is_retprobe then 9 else 8), pe_enabled = False,
      pe_data = Kprobe_data func_name addr ref_ctr_off\<rparr>"

definition tracepoint_handler :: "int \<Rightarrow> int \<Rightarrow> bpf_perf_event_handler" where
  "tracepoint_handler pid tracepoint_id =
     \<lparr>pe_type = 2, pe_enabled = False, pe_data = Tracepoint_data pid tracepoint_id\<rparr>"

definition software_handler :: "nat \<Rightarrow> int \<Rightarrow> int \<Rightarrow> int \<Rightarrow> bpf_perf_event_handler" where
  "software_handler generation cpu sample_type config =
     \<lparr>pe_type = 1, pe_enabled = False, pe_data = Software_data generation cpu config sample_type\<rparr>"

definition custom_handler :: "int \<Rightarrow> string \<Rightarrow> bpf_perf_event_handler" where
  "custom_handler ty attach_arg = \<lparr>pe_type = ty, pe_enabled = False, pe_data = Custom_data attach_arg\<rparr>"

text \<open>A file of an epoll instance: a weak pointer to a software event or to a ring buffer.\<close>

datatype epoll_file = Swpe_file nat nat | Ringbuf_file nat nat

record memfd_handler =
  mf_flags :: int
  mf_name :: string

datatype handler_variant =
    Unused_handler
  | Map_handler bpf_map_handler
  | Link_handler bpf_link_handler
  | Prog_handler bpf_prog_handler
  | Perf_handler bpf_perf_event_handler
  | Epoll_handler "epoll_file list"
  | Memfd_handler memfd_handler

section \<open>The fd table\<close>

record ('m, 'l, 's) handler_manager =
  mgr_handlers :: "handler_variant list"
  mgr_shm :: "('m, 'l, 's) segment"

definition handler_manager_new :: "nat \<Rightarrow> ('m, 'l, 's) handler_manager" where
  "handler_manager_new max_fd_count =
     \<lparr>mgr_handlers = replicate max_fd_count Unused_handler, mgr_shm = Map.empty\<rparr>"

definition in_table :: "('m, 'l, 's) handler_manager \<Rightarrow> int \<Rightarrow> bool" where
  "in_table s fd = (0 \<le> fd \<and> fd < int (length (mgr_handlers s)))"

text \<open>\<open>handlers[fd]\<close> without a bounds check.\<close>

definition get_handler :: "('m, 'l, 's) handler_manager \<Rightarrow> int \<Rightarrow> handler_variant outcome" where
  "get_handler s fd = (if in_table s fd then Ok (mgr_handlers s ! nat fd) else UB)"

definition put_handler ::
    "('m, 'l, 's) handler_manager \<Rightarrow> int \<Rightarrow> handler_variant \<Rightarrow> ('m, 'l, 's) handler_manager" where
  "put_handler s fd hv = s\<lparr>mgr_handlers := (mgr_handlers s)[nat fd := hv]\<rparr>"

definition is_allocated :: "('m, 'l, 's) handler_manager \<Rightarrow> int \<Rightarrow> bool" where
  "is_allocated s fd = (in_table s fd \<and> mgr_handlers s ! nat fd \<noteq> Unused_handler)"

text \<open>
  \<open>set_handler\<close>: \<open>-EEXIST\<close> and \<open>-ENOTSUP\<close> are return values. The result of \<open>map_init\<close> is
  dropped; an exception of it leaves the handler in the table.
\<close>

definition set_handler ::
    "('m, 'l, 's) map_env \<Rightarrow> ('m, 'l, 's) handler_manager \<Rightarrow> int \<Rightarrow> handler_variant \<Rightarrow>
     ('m, 'l, 's) handler_manager \<times> int outcome" where
  "set_handler E s fd hv =
     (if is_allocated s fd then (s, Err EEXIST)
      else if hv = Unused_handler then (s, Err ENOTSUP)
      else if \<not> in_table s fd then (s, UB)
      else case hv of
        Map_handler h \<Rightarrow>
          if has_map_impl h then (put_handler s fd hv, Ok fd)
          else (case map_init E h (mgr_shm s) of
            (h', shm', r) \<Rightarrow>
              ((put_handler s fd (Map_handler h'))\<lparr>mgr_shm := shm'\<rparr>, bind_out r (\<lambda>_. Ok fd)))
      | _ \<Rightarrow> (put_handler s fd hv, Ok fd))"

text \<open>
  The two loops of \<open>clear_id_at\<close>. The recursive call is on a link handler, for which the
  function only empties the slot.
\<close>

definition clear_step ::
    "(bpf_link_handler \<Rightarrow> bool) \<Rightarrow> nat \<Rightarrow> handler_variant list \<Rightarrow> handler_variant list" where
  "clear_step doomed i hs =
     (case hs ! i of Link_handler l \<Rightarrow> if doomed l then hs[i := Unused_handler] else hs | _ \<Rightarrow> hs)"

definition clear_links :: "(bpf_link_handler \<Rightarrow> bool) \<Rightarrow> handler_variant list \<Rightarrow> handler_variant list" where
  "clear_links doomed hs = fold (clear_step doomed) [0..<length hs] hs"

definition clear_id_at ::
    "('m, 'l, 's) handler_manager \<Rightarrow> int \<Rightarrow> ('m, 'l, 's) handler_manager \<times> unit outcome" where
  "clear_id_at s fd =
     (if \<not> in_table s fd then (s, Ok ())
      else case mgr_handlers s ! nat fd of
        Map_handler h \<Rightarrow> (case map_free h (mgr_shm s) of
            (h', shm', r) \<Rightarrow> ((put_handler s fd Unused_handler)\<lparr>mgr_shm := shm'\<rparr>, r))
      | Perf_handler p \<Rightarrow>
          (put_handler (s\<lparr>mgr_handlers :=
             clear_links (\<lambda>l. lk_attach_target_id l = fd) (mgr_handlers s)\<rparr>) fd Unused_handler, Ok ())
      | Prog_handler p \<Rightarrow>
          (put_handler (s\<lparr>mgr_handlers :=
             clear_links (\<lambda>l. lk_prog_id l = fd) (mgr_handlers s)\<rparr>) fd Unused_handler, Ok ())
      | _ \<Rightarrow> (put_handler s fd Unused_handler, Ok ()))"

definition find_minimal_unused_idx :: "('m, 'l, 's) handler_manager \<Rightarrow> int" where
  "find_minimal_unused_idx s =
     (case List.find (\<lambda>i. \<not> is_allocated s (int i)) [0..<length (mgr_handlers s)] of
        Some i \<Rightarrow> int i | None \<Rightarrow> - 1)"

definition set_handler_at_empty_slot ::
    "('m, 'l, 's) map_env \<Rightarrow> ('m, 'l, 's) handler_manager \<Rightarrow> handler_variant \<Rightarrow>
     ('m, 'l, 's) handler_manager \<times> int outcome" where
  "set_handler_at_empty_slot E s hv =
     (let id = find_minimal_unused_idx s in
      if id < 0 then (s, Ok id) else set_handler E s id hv)"

fun clear_all_loop ::
    "nat list \<Rightarrow> ('m, 'l, 's) handler_manager \<Rightarrow> ('m, 'l, 's) handler_manager \<times> unit outcome" where
  "clear_all_loop [] s = (s, Ok ())"
| "clear_all_loop (i # is) s =
     (if is_allocated s (int i)
      then (case clear_id_at s (int i) of
          (s', Ok _) \<Rightarrow> clear_all_loop is s'
        | (s', r) \<Rightarrow> (s', r))
      else clear_all_loop is s)"

definition clear_all ::
    "('m, 'l, 's) handler_manager \<Rightarrow> ('m, 'l, 's) handler_manager \<times> unit outcome" where
  "clear_all s = clear_all_loop [0..<length (mgr_handlers s)] s"

section \<open>Reference counts are exact\<close>

text \<open>
  The map handlers of the table as a multiset, and the invariant that ties them to the
  segment: a handler points to a live object of its own class; handlers that share an
  object share its count, which is their number; an object without a count has one handler;
  nothing in the segment is unowned.
\<close>

definition points :: "nat \<Rightarrow> bpf_map_handler \<Rightarrow> bool" where
  "points a h = (mh_impl_ptr h = Some a)"

definition counts :: "nat \<Rightarrow> bpf_map_handler \<Rightarrow> bool" where
  "counts r h = (mh_refcnt_ptr h = Some r)"

definition uses :: "(bpf_map_handler \<Rightarrow> bool) \<Rightarrow> bpf_map_handler multiset \<Rightarrow> nat" where
  "uses P H = size (filter_mset P H)"

lemma uses_add [simp]: "uses P (add_mset h H) = (if P h then Suc (uses P H) else uses P H)"
  by (simp add: uses_def)

lemma uses_empty [simp]: "uses P {#} = 0"
  by (simp add: uses_def)

lemma uses_0: "uses P H = 0 \<longleftrightarrow> (\<forall>h\<in>#H. \<not> P h)"
  by (induction H) auto

lemma uses_le: "uses P H \<le> size H"
  by (simp add: uses_def size_filter_mset_lesseq)

definition ptrs_ok :: "bpf_map_handler multiset \<Rightarrow> ('m, 'l, 's) segment \<Rightarrow> bpf_map_handler \<Rightarrow> bool" where
  "ptrs_ok H shm h =
     (case mh_impl_ptr h of
        None \<Rightarrow> mh_refcnt_ptr h = None
      | Some a \<Rightarrow> (\<exists>i. shm a = Some (Impl i) \<and> impl_has_type (mh_type h) i) \<and>
          (case mh_refcnt_ptr h of
             None \<Rightarrow> uses (points a) H = 1
           | Some r \<Rightarrow> (\<exists>n. shm r = Some (Refcnt n)) \<and> (\<forall>h'\<in>#H. points a h' \<longleftrightarrow> counts r h')))"

definition seg_ok :: "bpf_map_handler multiset \<Rightarrow> ('m, 'l, 's) segment \<Rightarrow> bool" where
  "seg_ok H shm =
     ((\<forall>h\<in>#H. ptrs_ok H shm h) \<and>
      (\<forall>a i. shm a = Some (Impl i) \<longrightarrow> 0 < uses (points a) H) \<and>
      (\<forall>r n. shm r = Some (Refcnt n) \<longrightarrow> n = uses (counts r) H \<and> 0 < n))"

lemma seg_ok_ptrs: "seg_ok H shm \<Longrightarrow> h \<in># H \<Longrightarrow> ptrs_ok H shm h"
  by (simp add: seg_ok_def)

lemma seg_ok_impl: "seg_ok H shm \<Longrightarrow> shm a = Some (Impl i) \<Longrightarrow> 0 < uses (points a) H"
  by (simp add: seg_ok_def)

lemma seg_ok_count: "seg_ok H shm \<Longrightarrow> shm r = Some (Refcnt n) \<Longrightarrow> n = uses (counts r) H \<and> 0 < n"
  by (simp add: seg_ok_def)

lemma ptrs_okD:
  assumes "ptrs_ok H shm h"
  shows "mh_impl_ptr h = Some a \<Longrightarrow> \<exists>i. shm a = Some (Impl i) \<and> impl_has_type (mh_type h) i"
    and "mh_refcnt_ptr h = Some r \<Longrightarrow> \<exists>n. shm r = Some (Refcnt n)"
    and "mh_impl_ptr h = Some a \<Longrightarrow> mh_refcnt_ptr h = None \<Longrightarrow> uses (points a) H = 1"
    and "mh_impl_ptr h = Some a \<Longrightarrow> mh_refcnt_ptr h = Some r \<Longrightarrow> h' \<in># H \<Longrightarrow>
      points a h' \<longleftrightarrow> counts r h'"
    and "mh_impl_ptr h = None \<Longrightarrow> mh_refcnt_ptr h = None"
  using assms by (auto simp: ptrs_ok_def split: option.splits)

text \<open>No handler points to an address that is free or holds an object of the other kind.\<close>

lemma seg_ok_unpointed:
  assumes "seg_ok H shm" and "\<And>i. shm a \<noteq> Some (Impl i)"
  shows "uses (points a) H = 0"
  using assms seg_ok_ptrs [OF assms(1)] ptrs_okD(1) by (fastforce simp: uses_0 points_def)

lemma seg_ok_uncounted:
  assumes "seg_ok H shm" and "\<And>n. shm r \<noteq> Some (Refcnt n)"
  shows "uses (counts r) H = 0"
  using assms seg_ok_ptrs [OF assms(1)] ptrs_okD(2) by (fastforce simp: uses_0 counts_def)

lemma seg_ok_add_null:
  assumes "seg_ok H shm" and "mh_impl_ptr h = None" and "mh_refcnt_ptr h = None"
  shows "seg_ok (add_mset h H) shm"
  using assms by (auto simp: seg_ok_def ptrs_ok_def points_def counts_def split: option.splits)

lemma seg_ok_remove_null:
  assumes "seg_ok (add_mset h H) shm" and "mh_impl_ptr h = None"
  shows "seg_ok H shm"
proof -
  have "mh_refcnt_ptr h = None"
    using seg_ok_ptrs [OF assms(1), of h] ptrs_okD(5) assms(2) by auto
  with assms show ?thesis
    by (auto simp: seg_ok_def ptrs_ok_def points_def counts_def split: option.splits)
qed

text \<open>A handler with a new object and a new count, or with a new object only.\<close>

lemma seg_ok_add_counted:
  assumes ok: "seg_ok H shm" and a: "shm a = None" and r: "shm r = None" and "a \<noteq> r"
    and i: "impl_has_type (mh_type h) i" and h: "mh_impl_ptr h = Some a" "mh_refcnt_ptr h = Some r"
  shows "seg_ok (add_mset h H) (shm(a \<mapsto> Impl i, r \<mapsto> Refcnt 1))"
proof -
  have ua: "uses (points a) H = 0" "uses (points r) H = 0"
    using seg_ok_unpointed [OF ok] a r by auto
  have ur: "uses (counts a) H = 0" "uses (counts r) H = 0"
    using seg_ok_uncounted [OF ok] a r by auto
  have old: "ptrs_ok (add_mset h H) (shm(a \<mapsto> Impl i, r \<mapsto> Refcnt 1)) h'" if "h' \<in># H" for h'
  proof -
    from that ua ur have "\<not> points a h'" "\<not> points r h'" "\<not> counts a h'" "\<not> counts r h'"
      by (auto simp: uses_0)
    with seg_ok_ptrs [OF ok that] h show ?thesis
      by (auto simp: ptrs_ok_def points_def counts_def split: option.splits)
  qed
  have new: "ptrs_ok (add_mset h H) (shm(a \<mapsto> Impl i, r \<mapsto> Refcnt 1)) h"
    using h i \<open>a \<noteq> r\<close> ua ur by (auto simp: ptrs_ok_def points_def counts_def uses_0)
  show ?thesis unfolding seg_ok_def
    using old new ok h ua ur \<open>a \<noteq> r\<close>
    by (auto simp: seg_ok_def points_def counts_def split: if_splits)
qed

lemma seg_ok_add_uncounted:
  assumes ok: "seg_ok H shm" and a: "shm a = None" and i: "impl_has_type (mh_type h) i"
    and h: "mh_impl_ptr h = Some a" "mh_refcnt_ptr h = None"
  shows "seg_ok (add_mset h H) (shm(a \<mapsto> Impl i))"
proof -
  have ua: "uses (points a) H = 0" using seg_ok_unpointed [OF ok] a by auto
  have ur: "uses (counts a) H = 0" using seg_ok_uncounted [OF ok] a by auto
  have old: "ptrs_ok (add_mset h H) (shm(a \<mapsto> Impl i)) h'" if "h' \<in># H" for h'
  proof -
    from that ua ur have "\<not> points a h'" "\<not> counts a h'" by (auto simp: uses_0)
    with seg_ok_ptrs [OF ok that] h show ?thesis
      by (auto simp: ptrs_ok_def points_def counts_def split: option.splits)
  qed
  have new: "ptrs_ok (add_mset h H) (shm(a \<mapsto> Impl i)) h"
    using h i ua ur by (auto simp: ptrs_ok_def points_def)
  show ?thesis unfolding seg_ok_def
    using old new ok h ua ur by (auto simp: seg_ok_def points_def counts_def split: if_splits)
qed

text \<open>A second handler on the object of \<open>h\<close>.\<close>

lemma seg_ok_share:
  assumes ok: "seg_ok H shm" and "h \<in># H"
    and h: "mh_impl_ptr h = Some a" "mh_refcnt_ptr h = Some r" "shm r = Some (Refcnt n)"
    and d: "mh_impl_ptr d = Some a" "mh_refcnt_ptr d = Some r" "mh_type d = mh_type h"
  shows "seg_ok (add_mset d H) (shm(r \<mapsto> Refcnt (Suc n)))"
proof -
  note ph = seg_ok_ptrs [OF ok \<open>h \<in># H\<close>]
  have pair: "points a h' \<longleftrightarrow> counts r h'" if "h' \<in># H" for h'
    using ptrs_okD(4) [OF ph h(1,2) that] .
  have n: "n = uses (counts r) H" using seg_ok_count [OF ok h(3)] by simp
  have old: "ptrs_ok (add_mset d H) (shm(r \<mapsto> Refcnt (Suc n))) h'" if "h' \<in># H" for h'
  proof -
    note p = seg_ok_ptrs [OF ok that]
    have "points a h' \<longleftrightarrow> counts r h'" using pair that .
    with p h d show ?thesis
      using ptrs_okD(4) [OF p] \<open>h \<in># H\<close>
      by (auto simp: ptrs_ok_def points_def counts_def split: option.splits)
  qed
  have new: "ptrs_ok (add_mset d H) (shm(r \<mapsto> Refcnt (Suc n))) d"
    using ph h d pair by (auto simp: ptrs_ok_def points_def counts_def)
  show ?thesis unfolding seg_ok_def
    using old new ok d n by (auto simp: seg_ok_def points_def counts_def split: if_splits)
qed

text \<open>\<open>map_free\<close> of a good handler returns, and gives back exactly what the handler owned.\<close>

lemma seg_ok_drop_shared:
  assumes ok: "seg_ok (add_mset h H) shm"
    and h: "mh_impl_ptr h = Some a" "mh_refcnt_ptr h = Some r" "shm r = Some (Refcnt n)" and "1 < n"
  shows "seg_ok H (shm(r \<mapsto> Refcnt (n - 1)))"
proof -
  have n: "n = Suc (uses (counts r) H)"
    using seg_ok_count [OF ok h(3)] h(2) by (simp add: counts_def)
  have pair: "points a h' \<longleftrightarrow> counts r h'" if "h' \<in># H" for h'
    using ptrs_okD(4) [OF seg_ok_ptrs [OF ok] h(1,2)] that by simp
  have pos: "0 < uses (counts r) H" using n \<open>1 < n\<close> by simp
  then have a: "0 < uses (points a) H"
    using pair uses_0 [of "counts r" H] uses_0 [of "points a" H] by auto
  have count: "n' = uses (counts q) H \<and> 0 < n'" if "shm q = Some (Refcnt n')" "q \<noteq> r" for q n'
    using seg_ok_count [OF ok that(1)] that(2) h(2) by (simp add: counts_def)
  have other: "0 < uses (points b) H" if "shm b = Some (Impl i)" for b i
    using seg_ok_impl [OF ok that] h(1) a by (cases "b = a") (simp_all add: points_def)
  have "ptrs_ok H (shm(r \<mapsto> Refcnt (n - 1))) h'" if "h' \<in># H" for h'
  proof (cases "mh_impl_ptr h'")
    case None
    then show ?thesis using seg_ok_ptrs [OF ok, of h'] that by (simp add: ptrs_ok_def)
  next
    case (Some b)
    note p = seg_ok_ptrs [OF ok, of h', simplified, OF disjI2 [OF that]]
    obtain i where "shm b = Some (Impl i)" "impl_has_type (mh_type h') i"
      using ptrs_okD(1) [OF p Some] by blast
    with p Some h pair [OF that] show ?thesis
      by (auto simp: ptrs_ok_def points_def counts_def split: option.splits)
  qed
  then show ?thesis unfolding seg_ok_def
    using count other n pos by (auto split: if_splits)
qed

lemma seg_ok_drop_last:
  assumes ok: "seg_ok (add_mset h H) shm"
    and h: "mh_impl_ptr h = Some a" "mh_refcnt_ptr h = Some r" "shm r = Some (Refcnt n)" and "\<not> 1 < n"
  shows "seg_ok H (shm(r := None, a := None))"
proof -
  have count: "n' = uses (counts q) H \<and> 0 < n'" if "shm q = Some (Refcnt n')" "\<not> counts q h" for q n'
    using seg_ok_count [OF ok that(1)] that(2) by simp
  have other: "0 < uses (points b) H" if "shm b = Some (Impl i)" "b \<noteq> a" for b i
    using seg_ok_impl [OF ok that(1)] that(2) h(1) by (simp add: points_def)
  have ur: "uses (counts r) H = 0"
    using seg_ok_count [OF ok h(3)] h(2) \<open>\<not> 1 < n\<close> by (simp add: counts_def)
  have pair: "points a h' \<longleftrightarrow> counts r h'" if "h' \<in># H" for h'
    using ptrs_okD(4) [OF seg_ok_ptrs [OF ok] h(1,2)] that by simp
  with ur have ua: "uses (points a) H = 0" by (auto simp: uses_0)
  have "ptrs_ok H (shm(r := None, a := None)) h'" if "h' \<in># H" for h'
  proof -
    from that ua ur have "\<not> points a h'" "\<not> counts r h'" by (auto simp: uses_0)
    moreover obtain i where "shm a = Some (Impl i)"
      using ptrs_okD(1) [OF seg_ok_ptrs [OF ok] h(1)] by auto
    ultimately show ?thesis using seg_ok_ptrs [OF ok, of h'] that h
      by (auto simp: ptrs_ok_def points_def counts_def split: option.splits if_splits)
  qed
  then show ?thesis unfolding seg_ok_def
    using count other h ur by (auto simp: counts_def split: if_splits)
qed

lemma seg_ok_drop_uncounted:
  assumes ok: "seg_ok (add_mset h H) shm" and h: "mh_impl_ptr h = Some a" "mh_refcnt_ptr h = None"
  shows "seg_ok H (shm(a := None))"
proof -
  have count: "n' = uses (counts q) H \<and> 0 < n'" if "shm q = Some (Refcnt n')" "\<not> counts q h" for q n'
    using seg_ok_count [OF ok that(1)] that(2) by simp
  have other: "0 < uses (points b) H" if "shm b = Some (Impl i)" "b \<noteq> a" for b i
    using seg_ok_impl [OF ok that(1)] that(2) h(1) by (simp add: points_def)
  have ua: "uses (points a) H = 0"
    using ptrs_okD(3) [OF seg_ok_ptrs [OF ok] h] h by (simp add: points_def)
  have "ptrs_ok H (shm(a := None)) h'" if "h' \<in># H" for h'
  proof -
    from that ua have "\<not> points a h'" by (auto simp: uses_0)
    moreover obtain i where "shm a = Some (Impl i)"
      using ptrs_okD(1) [OF seg_ok_ptrs [OF ok] h(1)] by auto
    ultimately show ?thesis using seg_ok_ptrs [OF ok, of h'] that h
      by (auto simp: ptrs_ok_def points_def counts_def split: option.splits if_splits)
  qed
  then show ?thesis unfolding seg_ok_def
    using count other h by (auto simp: counts_def split: if_splits)
qed

lemma map_free_ok:
  assumes ok: "seg_ok (add_mset h H) shm" and "size H < 4294967295"
  shows "\<exists>h' shm'. map_free h shm = (h', shm', Ok ()) \<and> seg_ok H shm'"
proof (cases "mh_impl_ptr h")
  case None
  then show ?thesis using seg_ok_remove_null [OF ok] by (simp add: map_free_def)
next
  case (Some a)
  note ph = seg_ok_ptrs [OF ok, of h, simplified]
  obtain i where i: "shm a = Some (Impl i)" "impl_has_type (mh_type h) i"
    using ptrs_okD(1) [OF ph Some] by blast
  show ?thesis
  proof (cases "mh_refcnt_ptr h")
    case None
    then show ?thesis
      using Some i seg_ok_drop_uncounted [OF ok Some None] by (simp add: map_free_def destroy_impl_ok)
  next
    case r: (Some r)
    then obtain n where n: "shm r = Some (Refcnt n)" using ptrs_okD(2) [OF ph] by blast
    have "n \<le> size (add_mset h H)" using seg_ok_count [OF ok n] uses_le [of "counts r" "add_mset h H"] by linarith
    with assms(2) have n32: "n < 4294967296" by simp
    show ?thesis
    proof (cases "1 < n")
      case True
      then show ?thesis
        using Some r n n32 seg_ok_drop_shared [OF ok Some r n True] by (simp add: map_free_def)
    next
      case False
      have "(shm(r := None)) a = Some (Impl i)" using i n by auto
      then show ?thesis
        using Some r n i False seg_ok_drop_last [OF ok Some r n False]
        by (simp add: map_free_def destroy_impl_ok)
    qed
  qed
qed

text \<open>An operation on an object keeps the invariant when it keeps the object's class.\<close>

fun class_of :: "('m, 'l, 's) map_impl \<Rightarrow> bpf_map_type" where
  "class_of (Hash_impl _) = BPF_MAP_TYPE_HASH"
| "class_of (Array_impl _) = BPF_MAP_TYPE_ARRAY"
| "class_of (Ringbuf_impl _) = BPF_MAP_TYPE_RINGBUF"
| "class_of (Perf_event_array_impl _) = BPF_MAP_TYPE_PERF_EVENT_ARRAY"
| "class_of (Per_cpu_array_impl _) = BPF_MAP_TYPE_PERCPU_ARRAY"
| "class_of (Per_cpu_hash_impl _) = BPF_MAP_TYPE_PERCPU_HASH"
| "class_of (Queue_impl _) = BPF_MAP_TYPE_QUEUE"
| "class_of (Stack_impl _) = BPF_MAP_TYPE_STACK"
| "class_of (Bloom_impl _) = BPF_MAP_TYPE_BLOOM_FILTER"
| "class_of (Prog_array_impl _) = BPF_MAP_TYPE_PROG_ARRAY"
| "class_of (Stack_trace_impl _) = BPF_MAP_TYPE_STACK_TRACE"
| "class_of (Array_of_maps_impl _) = BPF_MAP_TYPE_ARRAY_OF_MAPS"
| "class_of (Lru_impl _) = BPF_MAP_TYPE_LRU_HASH"
| "class_of (Lpm_impl _) = BPF_MAP_TYPE_LPM_TRIE"
| "class_of (Kernel_user_impl ty) = ty"

lemma impl_has_class: "impl_has_type ty i \<Longrightarrow> ty = class_of i"
  unfolding impl_has_type_def
  by (cases ty) (auto simp: is_Kernel_of_def is_Hash_def is_Array_def is_Ringbuf_def is_Perf_def
    is_Pca_def is_Pch_def is_Queue_def is_Stack_def is_Bloom_def is_Prog_def is_Strace_def
    is_Aom_def is_Lru_def is_Lpm_def is_Kernel_def)

lemma impl_type_unique: "impl_has_type ty i \<Longrightarrow> impl_has_type ty' i \<Longrightarrow> ty = ty'"
  using impl_has_class by metis

lemma seg_ok_write:
  assumes ok: "seg_ok H shm" and h: "h \<in># H" "mh_impl_ptr h = Some a"
    and i': "impl_has_type (mh_type h) i'"
  shows "seg_ok H (shm(a \<mapsto> Impl i'))"
proof -
  obtain i where i: "shm a = Some (Impl i)" "impl_has_type (mh_type h) i"
    using ptrs_okD(1) [OF seg_ok_ptrs [OF ok h(1)] h(2)] by blast
  have "ptrs_ok H (shm(a \<mapsto> Impl i')) h'" if "h' \<in># H" for h'
  proof -
    note p = seg_ok_ptrs [OF ok that]
    have "mh_type h' = mh_type h" if "mh_impl_ptr h' = Some a"
      using ptrs_okD(1) [OF p that] i impl_type_unique by (metis cell.inject(1) option.inject)
    with p i' i show ?thesis
      by (auto simp: ptrs_ok_def split: option.splits if_splits)
  qed
  then show ?thesis unfolding seg_ok_def using ok i by (auto simp: seg_ok_def split: if_splits)
qed

section \<open>The invariant of the table\<close>

definition maps1 :: "handler_variant \<Rightarrow> bpf_map_handler multiset" where
  "maps1 hv = (case hv of Map_handler h \<Rightarrow> {#h#} | _ \<Rightarrow> {#})"

definition maps_of :: "handler_variant list \<Rightarrow> bpf_map_handler multiset" where
  "maps_of hs = sum_list (map maps1 hs)"

lemma maps_of_update:
  "i < length hs \<Longrightarrow> maps1 (hs ! i) + maps_of (hs[i := x]) = maps1 x + maps_of hs"
proof (induction hs arbitrary: i)
  case (Cons y hs)
  show ?case
  proof (cases i)
    case (Suc j)
    with Cons have "maps1 (hs ! j) + maps_of (hs[j := x]) = maps1 x + maps_of hs" by simp
    then show ?thesis using Suc by (simp add: maps_of_def ac_simps)
  qed (simp add: maps_of_def ac_simps)
qed simp

lemma maps_of_size: "size (maps_of hs) \<le> length hs"
proof (induction hs)
  case (Cons hv hs)
  then show ?case by (cases hv) (simp_all add: maps_of_def maps1_def)
qed (simp add: maps_of_def)

lemma maps_of_mem: "h \<in># maps_of hs \<longleftrightarrow> Map_handler h \<in> set hs"
proof (induction hs)
  case (Cons hv hs)
  then show ?case by (cases hv) (auto simp: maps_of_def maps1_def)
qed (simp add: maps_of_def)

lemma maps1_simps [simp]:
  "maps1 Unused_handler = {#}" "maps1 (Map_handler h) = {#h#}" "maps1 (Link_handler l) = {#}"
  "maps1 (Prog_handler p) = {#}" "maps1 (Perf_handler e) = {#}" "maps1 (Epoll_handler f) = {#}"
  "maps1 (Memfd_handler m) = {#}"
  by (simp_all add: maps1_def)

text \<open>
  A link made for a perf event, from two ids or from arguments of the perf event attach
  type; links of other attach types have a target of another kind.
\<close>

definition perf_link :: "bpf_link_handler \<Rightarrow> bool" where
  "perf_link l = (case lk_args l of None \<Rightarrow> True
     | Some args \<Rightarrow> la_attach_type args = BPFTIME_BPF_PERF_EVENT_ATTACH_TYPE)"

definition prog_at :: "handler_variant list \<Rightarrow> int \<Rightarrow> bool" where
  "prog_at hs fd = (0 \<le> fd \<and> fd < int (length hs) \<and> (\<exists>p. hs ! nat fd = Prog_handler p))"

definition perf_at :: "handler_variant list \<Rightarrow> int \<Rightarrow> bool" where
  "perf_at hs fd = (0 \<le> fd \<and> fd < int (length hs) \<and> (\<exists>p. hs ! nat fd = Perf_handler p))"

definition link_ok :: "bool \<Rightarrow> handler_variant list \<Rightarrow> bpf_link_handler \<Rightarrow> bool" where
  "link_ok c hs l = (prog_at hs (lk_prog_id l) \<and> (c \<and> perf_link l \<longrightarrow> perf_at hs (lk_attach_target_id l)))"

definition links_ok :: "bool \<Rightarrow> handler_variant list \<Rightarrow> bool" where
  "links_ok c hs = (\<forall>l. Link_handler l \<in> set hs \<longrightarrow> link_ok c hs l)"

text \<open>An fd is an \<open>int\<close>, so a table has at most \<open>2 ^ 31\<close> usable slots.\<close>

definition manager_ok :: "bool \<Rightarrow> ('m, 'l, 's) handler_manager \<Rightarrow> bool" where
  "manager_ok c s = (seg_ok (maps_of (mgr_handlers s)) (mgr_shm s) \<and> links_ok c (mgr_handlers s) \<and>
     length (mgr_handlers s) \<le> 2147483648)"

lemma maps_of_unused: "maps_of (replicate n Unused_handler) = {#}"
  by (induction n) (simp_all add: maps_of_def)

lemma manager_ok_new: "n \<le> 2147483648 \<Longrightarrow> manager_ok c (handler_manager_new n)"
  by (simp add: manager_ok_def handler_manager_new_def seg_ok_def links_ok_def maps_of_unused)

text \<open>Filling an empty slot keeps every link good.\<close>

lemma prog_at_fill:
  "hs ! nat fd = Unused_handler \<Longrightarrow> prog_at hs p \<Longrightarrow> prog_at (hs[nat fd := hv]) p"
  by (cases "nat p = nat fd") (auto simp: prog_at_def)

lemma perf_at_fill:
  "hs ! nat fd = Unused_handler \<Longrightarrow> perf_at hs p \<Longrightarrow> perf_at (hs[nat fd := hv]) p"
  by (cases "nat p = nat fd") (auto simp: perf_at_def)

lemma links_ok_fill:
  assumes "links_ok c hs" and "hs ! nat fd = Unused_handler"
    and "\<And>l. hv = Link_handler l \<Longrightarrow> link_ok c hs l"
  shows "links_ok c (hs[nat fd := hv])"
proof -
  have "link_ok c hs l" if "Link_handler l \<in> set (hs[nat fd := hv])" for l
    using that assms(1,3) set_update_subset_insert [of hs "nat fd" hv] by (auto simp: links_ok_def)
  then show ?thesis
    using prog_at_fill [OF assms(2)] perf_at_fill [OF assms(2)]
    by (auto simp: links_ok_def link_ok_def)
qed

text \<open>\<open>set_handler\<close> of anything but a map that already has its object.\<close>

lemma in_table_nth: "in_table s fd \<Longrightarrow> nat fd < length (mgr_handlers s)"
  by (auto simp: in_table_def)

lemma free_slot: "\<not> is_allocated s fd \<Longrightarrow> in_table s fd \<Longrightarrow> mgr_handlers s ! nat fd = Unused_handler"
  by (simp add: is_allocated_def)

lemma init_result_ok:
  assumes "init_result h shm h' shm'" and "seg_ok H shm"
    and "mh_impl_ptr h = None" and "mh_refcnt_ptr h = None"
  shows "seg_ok (add_mset h' H) shm'"
  using assms(1)
proof cases
  case nothing
  with assms show ?thesis by (simp add: seg_ok_add_null)
next
  case (counted a r i)
  with assms seg_ok_add_counted [where h = h' and i = i and a = a and r = r] show ?thesis by simp
next
  case (uncounted a i)
  with assms seg_ok_add_uncounted [where h = h' and i = i and a = a] show ?thesis by simp
qed

lemma set_handler_ok:
  assumes "manager_ok c s" and E: "alloc_fresh E" and res: "set_handler E s fd hv = (s', r)"
    and new: "\<And>h. hv = Map_handler h \<Longrightarrow> mh_impl_ptr h = None \<and> mh_refcnt_ptr h = None"
    and link: "\<And>l. hv = Link_handler l \<Longrightarrow> link_ok c (mgr_handlers s) l"
  shows "manager_ok c s'"
proof (cases "is_allocated s fd \<or> hv = Unused_handler \<or> \<not> in_table s fd")
  case True
  with res assms(1) show ?thesis by (auto simp: set_handler_def split: if_splits)
next
  case False
  then have un: "mgr_handlers s ! nat fd = Unused_handler" and lt: "nat fd < length (mgr_handlers s)"
    using free_slot in_table_nth by blast+
  have m: "maps_of ((mgr_handlers s)[nat fd := x]) = maps1 x + maps_of (mgr_handlers s)" for x
    using maps_of_update [OF lt, of x] un by simp
  have l: "links_ok c ((mgr_handlers s)[nat fd := x])" if "\<And>l. x = Link_handler l \<Longrightarrow> link_ok c (mgr_handlers s) l" for x
    using links_ok_fill [OF _ un that] assms(1) by (simp add: manager_ok_def)
  show ?thesis
  proof (cases "\<exists>h. hv = Map_handler h")
    case True
    then obtain h where h: "hv = Map_handler h" by blast
    obtain h' shm' r' where i: "map_init E h (mgr_shm s) = (h', shm', r')" by (metis prod_cases3)
    note h0 = new [OF h]
    have "seg_ok (add_mset h' (maps_of (mgr_handlers s))) shm'"
      using init_result_ok [OF map_init_result [OF E _ i]] assms(1) h0 by (simp add: manager_ok_def)
    moreover have "links_ok c ((mgr_handlers s)[nat fd := Map_handler h'])" by (rule l) simp
    ultimately show ?thesis
      using res False h h0 i m assms(1)
      by (auto simp: set_handler_def has_map_impl_def manager_ok_def put_handler_def)
  next
    case no: False
    then have "s' = put_handler s fd hv" and "maps1 hv = {#}"
      using res False by (cases hv; auto simp: set_handler_def)+
    then show ?thesis using m l link assms(1) by (simp add: manager_ok_def put_handler_def)
  qed
qed

text \<open>The loops that clear links, as one pass over the table.\<close>

definition clear_link :: "(bpf_link_handler \<Rightarrow> bool) \<Rightarrow> handler_variant \<Rightarrow> handler_variant" where
  "clear_link doomed hv =
     (case hv of Link_handler l \<Rightarrow> if doomed l then Unused_handler else hv | _ \<Rightarrow> hv)"

lemma clear_step_eq: "i < length hs \<Longrightarrow> clear_step doomed i hs = hs[i := clear_link doomed (hs ! i)]"
  using list_update_id [of hs i]
  by (cases "hs ! i") (simp_all add: clear_step_def clear_link_def)

lemma clear_links_upto:
  assumes "n \<le> length hs"
  shows "fold (clear_step doomed) [0..<n] hs = map (clear_link doomed) (take n hs) @ drop n hs"
  using assms
proof (induction n)
  case (Suc n)
  then have n: "n < length hs" by simp
  let ?hs = "map (clear_link doomed) (take n hs) @ drop n hs"
  have "?hs ! n = hs ! n" using n by (simp add: nth_append)
  then have "clear_step doomed n ?hs = ?hs[n := clear_link doomed (hs ! n)]"
    using n by (simp add: clear_step_eq)
  also have "\<dots> = map (clear_link doomed) (take n hs) @ clear_link doomed (hs ! n) # drop (Suc n) hs"
    using n by (simp add: list_update_append Cons_nth_drop_Suc [symmetric])
  finally show ?case using Suc n by (simp add: take_Suc_conv_app_nth)
qed simp

lemma clear_links_map: "clear_links doomed hs = map (clear_link doomed) hs"
  using clear_links_upto [of "length hs" hs doomed] by (simp add: clear_links_def)

lemma maps_of_clear_links: "maps_of (map (clear_link doomed) hs) = maps_of hs"
proof (induction hs)
  case (Cons hv hs)
  have "maps1 (clear_link doomed hv) = maps1 hv" by (cases hv) (simp_all add: clear_link_def)
  with Cons show ?case by (simp add: maps_of_def)
qed (simp add: maps_of_def)

lemma prog_at_clear: "prog_at (map (clear_link doomed) hs) p = prog_at hs p"
proof -
  have "(\<exists>q. clear_link doomed hv = Prog_handler q) = (\<exists>q. hv = Prog_handler q)" for hv
    by (cases hv) (simp_all add: clear_link_def)
  moreover have "nat p < length hs" if "0 \<le> p" "p < int (length hs)" using that by auto
  ultimately show ?thesis
    by (cases "0 \<le> p \<and> p < int (length hs)") (auto simp: prog_at_def)
qed

lemma perf_at_clear: "perf_at (map (clear_link doomed) hs) p = perf_at hs p"
proof -
  have "(\<exists>q. clear_link doomed hv = Perf_handler q) = (\<exists>q. hv = Perf_handler q)" for hv
    by (cases hv) (simp_all add: clear_link_def)
  moreover have "nat p < length hs" if "0 \<le> p" "p < int (length hs)" using that by auto
  ultimately show ?thesis
    by (cases "0 \<le> p \<and> p < int (length hs)") (auto simp: perf_at_def)
qed

lemma clear_link_mem:
  "Link_handler l \<in> clear_link doomed ` set hs \<longleftrightarrow> Link_handler l \<in> set hs \<and> \<not> doomed l"
proof -
  have eq: "Link_handler l = clear_link doomed hv \<longleftrightarrow> hv = Link_handler l \<and> \<not> doomed l" for hv
    by (cases hv) (auto simp: clear_link_def)
  show ?thesis unfolding image_iff eq by blast
qed

text \<open>Emptying a slot keeps the links that do not name it.\<close>

lemma links_ok_empty:
  assumes "\<And>l. Link_handler l \<in> set hs \<Longrightarrow> link_ok c hs l" and "nat fd < length hs" "0 \<le> fd"
    and "\<And>l. Link_handler l \<in> set hs \<Longrightarrow> prog_at hs fd \<Longrightarrow> lk_prog_id l \<noteq> fd"
    and "\<And>l. Link_handler l \<in> set hs \<Longrightarrow> perf_at hs fd \<Longrightarrow> perf_link l \<Longrightarrow> lk_attach_target_id l \<noteq> fd"
  shows "links_ok c (hs[nat fd := Unused_handler])"
proof -
  have p: "prog_at (hs[nat fd := Unused_handler]) q" if "prog_at hs q" "q \<noteq> fd" for q
    using that assms(3) nat_eq_iff [of q "nat fd"] by (auto simp: prog_at_def)
  have e: "perf_at (hs[nat fd := Unused_handler]) q" if "perf_at hs q" "q \<noteq> fd" for q
    using that assms(3) nat_eq_iff [of q "nat fd"] by (auto simp: perf_at_def)
  have "link_ok c (hs[nat fd := Unused_handler]) l"
    if "Link_handler l \<in> set (hs[nat fd := Unused_handler])" for l
  proof -
    from that have l: "Link_handler l \<in> set hs"
      using set_update_subset_insert [of hs "nat fd" Unused_handler] by auto
    from assms(1) [OF this] assms(4,5) [OF l] p e show ?thesis by (auto simp: link_ok_def)
  qed
  then show ?thesis by (simp add: links_ok_def)
qed

lemma links_ok_clear:
  assumes "\<And>l. Link_handler l \<in> set hs \<Longrightarrow> link_ok c hs l" and "nat fd < length hs" "0 \<le> fd"
    and "\<And>l. \<not> doomed l \<Longrightarrow> prog_at hs fd \<Longrightarrow> lk_prog_id l \<noteq> fd"
    and "\<And>l. \<not> doomed l \<Longrightarrow> perf_at hs fd \<Longrightarrow> lk_attach_target_id l \<noteq> fd"
  shows "links_ok c ((map (clear_link doomed) hs)[nat fd := Unused_handler])"
  by (rule links_ok_empty)
    (use assms in \<open>auto simp: clear_link_mem link_ok_def prog_at_clear perf_at_clear\<close>)

lemma clear_id_at_ok:
  assumes ok: "manager_ok c s"
  shows "\<exists>s'. clear_id_at s fd = (s', Ok ()) \<and> manager_ok c s' \<and>
    length (mgr_handlers s') = length (mgr_handlers s)"
proof (cases "in_table s fd")
  case False
  with ok show ?thesis by (simp add: clear_id_at_def)
next
  case True
  note lt = in_table_nth [OF True]
  from True have fd: "0 \<le> fd" "fd < int (length (mgr_handlers s))" by (auto simp: in_table_def)
  let ?hs = "mgr_handlers s"
  have links: "link_ok c ?hs l" if "Link_handler l \<in> set ?hs" for l
    using ok that by (simp add: manager_ok_def links_ok_def)
  have m: "maps1 (?hs ! nat fd) + maps_of (?hs[nat fd := Unused_handler]) = maps_of ?hs"
    using maps_of_update [OF lt, of Unused_handler] by simp
  have plain: "links_ok c (?hs[nat fd := Unused_handler])"
    if "\<not> prog_at ?hs fd" "\<not> perf_at ?hs fd"
    using links_ok_empty [OF links lt fd(1)] that by blast
  show ?thesis
  proof (cases "?hs ! nat fd")
    case (Map_handler h)
    have "size (maps_of (?hs[nat fd := Unused_handler])) < 4294967295"
      using maps_of_size [of "?hs[nat fd := Unused_handler]"] ok by (simp add: manager_ok_def)
    moreover have "seg_ok (add_mset h (maps_of (?hs[nat fd := Unused_handler]))) (mgr_shm s)"
      using ok m Map_handler by (simp add: manager_ok_def)
    ultimately obtain h' shm' where "map_free h (mgr_shm s) = (h', shm', Ok ())"
      "seg_ok (maps_of (?hs[nat fd := Unused_handler])) shm'"
      using map_free_ok by blast
    then show ?thesis
      using True Map_handler plain ok
      by (simp add: clear_id_at_def manager_ok_def put_handler_def prog_at_def perf_at_def)
  next
    case (Prog_handler p)
    let ?c = "map (clear_link (\<lambda>l. lk_prog_id l = fd)) ?hs"
    have "links_ok c (?c[nat fd := Unused_handler])"
      using Prog_handler by (intro links_ok_clear links lt fd) (simp_all add: perf_at_def)
    moreover have "maps_of (?c[nat fd := Unused_handler]) = maps_of ?hs"
      using maps_of_update [of "nat fd" ?c Unused_handler] lt Prog_handler
      by (simp add: maps_of_clear_links clear_link_def)
    ultimately show ?thesis
      using True Prog_handler ok
      by (simp add: clear_id_at_def manager_ok_def put_handler_def clear_links_map)
  next
    case (Perf_handler p)
    let ?c = "map (clear_link (\<lambda>l. lk_attach_target_id l = fd)) ?hs"
    have "links_ok c (?c[nat fd := Unused_handler])"
      using Perf_handler by (intro links_ok_clear links lt fd) (simp_all add: prog_at_def)
    moreover have "maps_of (?c[nat fd := Unused_handler]) = maps_of ?hs"
      using maps_of_update [of "nat fd" ?c Unused_handler] lt Perf_handler
      by (simp add: maps_of_clear_links clear_link_def)
    ultimately show ?thesis
      using True Perf_handler ok
      by (simp add: clear_id_at_def manager_ok_def put_handler_def clear_links_map)
  qed (use True ok m plain in \<open>simp_all add: clear_id_at_def manager_ok_def put_handler_def
    prog_at_def perf_at_def\<close>)
qed

section \<open>Clearing the table\<close>

text \<open>\<open>clear_id_at\<close> empties its slot and only ever empties others.\<close>

definition shrinks :: "handler_variant list \<Rightarrow> handler_variant list \<Rightarrow> bool" where
  "shrinks hs hs' = (length hs' = length hs \<and>
     (\<forall>i<length hs. hs' ! i = hs ! i \<or> hs' ! i = Unused_handler))"

lemma shrinks_clear: "shrinks hs (map (clear_link doomed) hs)"
proof -
  have "clear_link doomed hv = hv \<or> clear_link doomed hv = Unused_handler" for hv
    by (cases hv) (simp_all add: clear_link_def)
  then show ?thesis by (simp add: shrinks_def)
qed

lemma shrinks_empty: "shrinks hs hs' \<Longrightarrow> shrinks hs (hs'[i := Unused_handler])"
  by (cases "i < length hs'") (auto simp: shrinks_def nth_list_update)

lemma shrinks_refl: "shrinks hs hs"
  by (simp add: shrinks_def)

lemma clear_id_at_shrinks:
  "shrinks (mgr_handlers s) (mgr_handlers (fst (clear_id_at s fd)))"
  by (cases "mgr_handlers s ! nat fd")
    (auto simp: clear_id_at_def put_handler_def clear_links_map
      intro!: shrinks_empty shrinks_refl shrinks_clear split: prod.splits)

lemma clear_id_at_slot:
  "i < length (mgr_handlers s) \<Longrightarrow> mgr_handlers (fst (clear_id_at s (int i))) ! i = Unused_handler"
  by (cases "mgr_handlers s ! i")
    (auto simp: clear_id_at_def put_handler_def clear_links_map in_table_def split: prod.splits)

lemma clear_all_loop_ok:
  assumes "manager_ok c s" and "\<forall>i\<in>set is. i < length (mgr_handlers s)"
  shows "\<exists>s'. clear_all_loop is s = (s', Ok ()) \<and> manager_ok c s' \<and>
    shrinks (mgr_handlers s) (mgr_handlers s') \<and> (\<forall>i\<in>set is. mgr_handlers s' ! i = Unused_handler)"
  using assms
proof (induction "is" arbitrary: s)
  case Nil
  then show ?case by (simp add: shrinks_refl)
next
  case (Cons i "is")
  define t where "t = (if is_allocated s (int i) then fst (clear_id_at s (int i)) else s)"
  have t: "manager_ok c t" "shrinks (mgr_handlers s) (mgr_handlers t)" "mgr_handlers t ! i = Unused_handler"
    using clear_id_at_ok [OF Cons.prems(1), of "int i"] clear_id_at_shrinks [of s "int i"]
      clear_id_at_slot [of i s] Cons.prems shrinks_refl
    by (auto simp: t_def is_allocated_def in_table_def)
  then have "\<forall>i\<in>set is. i < length (mgr_handlers t)" using Cons.prems(2) by (simp add: shrinks_def)
  from Cons.IH [OF t(1) this] obtain s' where s': "clear_all_loop is t = (s', Ok ())" "manager_ok c s'"
    "shrinks (mgr_handlers t) (mgr_handlers s')" "\<forall>i\<in>set is. mgr_handlers s' ! i = Unused_handler"
    by blast
  have "clear_all_loop (i # is) s = clear_all_loop is t"
    using clear_id_at_ok [OF Cons.prems(1), of "int i"] by (auto simp: t_def)
  moreover have "shrinks (mgr_handlers s) (mgr_handlers s')"
    using t(2) s'(3) by (fastforce simp: shrinks_def)
  moreover have "mgr_handlers s' ! i = Unused_handler"
    using t(2,3) s'(3) Cons.prems(2) by (fastforce simp: shrinks_def)
  ultimately show ?case using s' by auto
qed

lemma seg_ok_none: "seg_ok {#} shm \<Longrightarrow> shm = Map.empty"
proof
  fix a assume "seg_ok {#} shm"
  then show "shm a = None" by (cases "shm a"; cases "the (shm a)") (auto simp: seg_ok_def)
qed

lemma clear_all_ok:
  assumes "manager_ok c s"
  shows "\<exists>s'. clear_all s = (s', Ok ()) \<and> manager_ok c s' \<and>
    mgr_handlers s' = replicate (length (mgr_handlers s)) Unused_handler \<and> mgr_shm s' = Map.empty"
proof -
  let ?n = "length (mgr_handlers s)"
  obtain s' where s': "clear_all s = (s', Ok ())" "manager_ok c s'"
    "shrinks (mgr_handlers s) (mgr_handlers s')" "\<forall>i\<in>set [0..<?n]. mgr_handlers s' ! i = Unused_handler"
    using clear_all_loop_ok [OF assms, of "[0..<?n]"] by (auto simp: clear_all_def)
  have hs: "mgr_handlers s' = replicate ?n Unused_handler"
    using s'(3,4) by (intro nth_equalityI) (auto simp: shrinks_def)
  then have "mgr_shm s' = Map.empty"
    using s'(2) by (simp add: manager_ok_def maps_of_unused seg_ok_none)
  with s' hs show ?thesis by blast
qed

text \<open>Once a map handler is gone, what is left of the table is as good as before.\<close>

lemma find_unused_least:
  assumes "find_minimal_unused_idx s = k" and "0 \<le> k"
  shows "in_table s k \<and> \<not> is_allocated s k \<and> (\<forall>j. 0 \<le> j \<and> j < k \<longrightarrow> is_allocated s j)"
proof -
  let ?n = "length (mgr_handlers s)"
  let ?P = "\<lambda>i. \<not> is_allocated s (int i)"
  obtain i where i: "List.find ?P [0..<?n] = Some i" "k = int i"
    using assms by (auto simp: find_minimal_unused_idx_def split: option.splits)
  then have i2: "i < ?n" "?P i" "\<forall>j<i. \<not> ?P j"
    by (auto simp: find_Some_iff)
  have "is_allocated s j" if "0 \<le> j" "j < k" for j
    using i2(3) i(2) that by (metis int_nat_eq nat_less_iff)
  with i2 i show ?thesis by (auto simp: in_table_def)
qed

lemma find_unused_none:
  assumes "find_minimal_unused_idx s = k" and "k < 0" and "in_table s fd"
  shows "is_allocated s fd"
proof -
  let ?P = "\<lambda>i. \<not> is_allocated s (int i)"
  have "List.find ?P [0..<length (mgr_handlers s)] = None"
    using assms(1,2) by (auto simp: find_minimal_unused_idx_def split: option.splits)
  then have "\<forall>i<length (mgr_handlers s). \<not> ?P i" by (auto simp: find_None_iff)
  with assms(3) show ?thesis by (metis in_table_def int_nat_eq in_table_nth)
qed

end
