(* ===== verification/Bpftime_Shm.thy ===== *)
theory Bpftime_Shm
  imports Handler_Manager
begin

text \<open>
  \<open>bpftime_shm\<close> (\<open>bpftime_shm_internal.cpp\<close>): the interface of the runtime to the fd table.
  It creates, duplicates and closes maps, programs, perf events, links and epoll instances,
  and routes every map operation by fd through \<open>Map_Handler\<close>. The theory gives one function
  per method, the relation of the states that any sequence of calls can reach, and proves
  that each of them satisfies the invariant of the table.
\<close>

section \<open>State\<close>

text \<open>
  A null \<open>manager\<close>, pid set or epoch object is \<open>None\<close>. The kernel's \<open>open\<close> and \<open>dup\<close> answer
  the calls of \<open>open_fake_fd\<close> in turn: \<open>os 0\<close>, \<open>os 1\<close> and so on.
\<close>

record ('m, 'l, 's) bpftime_shm =
  bs_manager :: "('m, 'l, 's) handler_manager option"
  bs_syscall_installed_pids :: "int set option"
  bs_injected_pids :: "int set option"
  bs_alive_syscall_server_pids :: "int set option"
  bs_epoch_seq :: "nat option"

fun fake_fd_loop :: "nat \<Rightarrow> (nat \<Rightarrow> int) \<Rightarrow> nat \<Rightarrow> int \<Rightarrow> int" where
  "fake_fd_loop 0 os k fd = fd"
| "fake_fd_loop (Suc cnt) os k fd =
     (if fd \<le> 2 \<and> 0 \<le> fd \<and> 0 < cnt then fake_fd_loop cnt os (Suc k) (os (Suc k)) else fd)"

definition open_fake_fd :: "(nat \<Rightarrow> int) \<Rightarrow> int" where
  "open_fake_fd os = fake_fd_loop 5 os 0 (os 0)"

text \<open>\<open>manager->f(...)\<close>.\<close>

definition on_manager ::
    "('m, 'l, 's) bpftime_shm \<Rightarrow>
     (('m, 'l, 's) handler_manager \<Rightarrow> ('m, 'l, 's) handler_manager \<times> 'a outcome) \<Rightarrow>
     ('m, 'l, 's) bpftime_shm \<times> 'a outcome" where
  "on_manager b f =
     (case bs_manager b of None \<Rightarrow> (b, UB)
      | Some s \<Rightarrow> (case f s of (s', r) \<Rightarrow> (b\<lparr>bs_manager := Some s'\<rparr>, r)))"

section \<open>What an fd is\<close>

definition handler_at :: "('m, 'l, 's) bpftime_shm \<Rightarrow> int \<Rightarrow> handler_variant option" where
  "handler_at b fd =
     (case bs_manager b of None \<Rightarrow> None
      | Some s \<Rightarrow> if in_table s fd then Some (mgr_handlers s ! nat fd) else None)"

definition map_handler_at :: "('m, 'l, 's) bpftime_shm \<Rightarrow> int \<Rightarrow> bpf_map_handler option" where
  "map_handler_at b fd = (case handler_at b fd of Some (Map_handler h) \<Rightarrow> Some h | _ \<Rightarrow> None)"

definition is_map_fd :: "('m, 'l, 's) bpftime_shm \<Rightarrow> int \<Rightarrow> bool" where
  "is_map_fd b fd = (map_handler_at b fd \<noteq> None)"

definition is_epoll_fd :: "('m, 'l, 's) bpftime_shm \<Rightarrow> int \<Rightarrow> bool" where
  "is_epoll_fd b fd = (case handler_at b fd of Some (Epoll_handler f) \<Rightarrow> True | _ \<Rightarrow> False)"

definition is_prog_fd :: "('m, 'l, 's) bpftime_shm \<Rightarrow> int \<Rightarrow> bool" where
  "is_prog_fd b fd = (case handler_at b fd of Some (Prog_handler p) \<Rightarrow> True | _ \<Rightarrow> False)"

definition is_perf_fd :: "('m, 'l, 's) bpftime_shm \<Rightarrow> int \<Rightarrow> bool" where
  "is_perf_fd b fd = (case handler_at b fd of Some (Perf_handler p) \<Rightarrow> True | _ \<Rightarrow> False)"

definition is_perf_event_handler_fd :: "('m, 'l, 's) bpftime_shm \<Rightarrow> int \<Rightarrow> bool" where
  "is_perf_event_handler_fd b fd =
     (case handler_at b fd of Some (Perf_handler p) \<Rightarrow> True | _ \<Rightarrow> False)"

definition is_software_perf_event_handler_fd :: "('m, 'l, 's) bpftime_shm \<Rightarrow> int \<Rightarrow> bool" where
  "is_software_perf_event_handler_fd b fd =
     (case handler_at b fd of Some (Perf_handler p) \<Rightarrow> pe_type p = 1 | _ \<Rightarrow> False)"

definition map_fd_of_type :: "bpf_map_type \<Rightarrow> ('m, 'l, 's) bpftime_shm \<Rightarrow> int \<Rightarrow> bool" where
  "map_fd_of_type ty b fd =
     (case map_handler_at b fd of None \<Rightarrow> False | Some h \<Rightarrow> mh_type h = ty)"

definition is_stack_trace_map_fd :: "('m, 'l, 's) bpftime_shm \<Rightarrow> int \<Rightarrow> bool" where
  "is_stack_trace_map_fd = map_fd_of_type BPF_MAP_TYPE_STACK_TRACE"

definition is_ringbuf_map_fd :: "('m, 'l, 's) bpftime_shm \<Rightarrow> int \<Rightarrow> bool" where
  "is_ringbuf_map_fd = map_fd_of_type BPF_MAP_TYPE_RINGBUF"

definition is_shared_perf_event_array_map_fd :: "('m, 'l, 's) bpftime_shm \<Rightarrow> int \<Rightarrow> bool" where
  "is_shared_perf_event_array_map_fd = map_fd_of_type BPF_MAP_TYPE_KERNEL_USER_PERF_EVENT_ARRAY"

definition is_array_map_fd :: "('m, 'l, 's) bpftime_shm \<Rightarrow> int \<Rightarrow> bool" where
  "is_array_map_fd = map_fd_of_type BPF_MAP_TYPE_ARRAY"

definition is_prog_array_map_fd :: "('m, 'l, 's) bpftime_shm \<Rightarrow> int \<Rightarrow> bool" where
  "is_prog_array_map_fd = map_fd_of_type BPF_MAP_TYPE_PROG_ARRAY"

definition is_exist_fake_fd :: "('m, 'l, 's) bpftime_shm \<Rightarrow> int \<Rightarrow> bool" where
  "is_exist_fake_fd b fd =
     (case handler_at b fd of None \<Rightarrow> False | Some hv \<Rightarrow> hv \<noteq> Unused_handler)"

section \<open>Map operations by fd\<close>

definition try_get_map_handler :: "('m, 'l, 's) bpftime_shm \<Rightarrow> int \<Rightarrow> bpf_map_handler outcome" where
  "try_get_map_handler b fd =
     (case map_handler_at b fd of None \<Rightarrow> Err ENOENT | Some h \<Rightarrow> Ok h)"

text \<open>
  A method of the handler on the object behind \<open>map_impl_ptr\<close>, which it changes in place; a
  pointer to anything but an implementation is undefined behaviour. Prog arrays ask this
  same table whether an fd is a program.
\<close>

definition on_impl ::
    "(('m, 'l, 's) map_impl option \<Rightarrow> ('m, 'l, 's) map_impl option \<times> 'a outcome) \<Rightarrow>
     bpf_map_handler \<Rightarrow> ('m, 'l, 's) handler_manager \<Rightarrow> ('m, 'l, 's) handler_manager \<times> 'a outcome" where
  "on_impl f h s =
     (case mh_impl_ptr h of
        None \<Rightarrow> (s, snd (f None))
      | Some a \<Rightarrow> (case mgr_shm s a of
          Some (Impl i) \<Rightarrow> (case f (Some i) of
              (Some i', r) \<Rightarrow> (s\<lparr>mgr_shm := (mgr_shm s)(a \<mapsto> Impl i')\<rparr>, r)
            | (None, r) \<Rightarrow> (s, r))
        | _ \<Rightarrow> (s, UB)))"

definition on_map ::
    "('m, 'l, 's) bpftime_shm \<Rightarrow> int \<Rightarrow>
     (bpf_map_handler \<Rightarrow> ('m, 'l, 's) map_impl option \<Rightarrow> ('m, 'l, 's) map_impl option \<times> 'a outcome) \<Rightarrow>
     ('m, 'l, 's) bpftime_shm \<times> 'a outcome" where
  "on_map b fd f =
     (case try_get_map_handler b fd of
        Ok h \<Rightarrow> on_manager b (on_impl (f h) h)
      | r \<Rightarrow> (b, bind_out r (\<lambda>_. UB)))"

definition table_env :: "('m, 'l, 's) map_env \<Rightarrow> ('m, 'l, 's) bpftime_shm \<Rightarrow> ('m, 'l, 's) map_env" where
  "table_env E b = E\<lparr>env_is_prog_fd := is_prog_fd b\<rparr>"

definition bpf_map_value_size :: "nat \<Rightarrow> ('m, 'l, 's) bpftime_shm \<Rightarrow> int \<Rightarrow> nat" where
  "bpf_map_value_size ncpu b fd =
     (case try_get_map_handler b fd of Ok h \<Rightarrow> get_userspace_value_size ncpu h | _ \<Rightarrow> 0)"

definition bpf_map_lookup_elem ::
    "('m, 'l, 's) map_env \<Rightarrow> ('m, 'l, 's) bpftime_shm \<Rightarrow> int \<Rightarrow> bytes option \<Rightarrow> bool \<Rightarrow>
     ('m, 'l, 's) bpftime_shm \<times> map_ptr option outcome" where
  "bpf_map_lookup_elem E b fd key from_syscall =
     on_map b fd (\<lambda>h. map_lookup_elem (table_env E b) h key from_syscall)"

definition bpf_map_update_elem ::
    "('m, 'l, 's) map_env \<Rightarrow> ('m, 'l, 's) bpftime_shm \<Rightarrow> int \<Rightarrow> bytes option \<Rightarrow> bytes option \<Rightarrow>
     nat \<Rightarrow> bool \<Rightarrow> ('m, 'l, 's) bpftime_shm \<times> int outcome" where
  "bpf_map_update_elem E b fd key value flags from_syscall =
     on_map b fd (\<lambda>h. map_update_elem (table_env E b) h key value flags from_syscall)"

definition bpf_delete_elem ::
    "('m, 'l, 's) map_env \<Rightarrow> ('m, 'l, 's) bpftime_shm \<Rightarrow> int \<Rightarrow> bytes option \<Rightarrow> bool \<Rightarrow>
     ('m, 'l, 's) bpftime_shm \<times> int outcome" where
  "bpf_delete_elem E b fd key from_syscall =
     on_map b fd (\<lambda>h. map_delete_elem (table_env E b) h key from_syscall)"

definition bpf_map_push_elem ::
    "('m, 'l, 's) bpftime_shm \<Rightarrow> int \<Rightarrow> bytes option \<Rightarrow> nat \<Rightarrow>
     ('m, 'l, 's) bpftime_shm \<times> int outcome" where
  "bpf_map_push_elem b fd value flags = on_map b fd (\<lambda>h. map_push_elem h value flags)"

definition bpf_map_pop_elem ::
    "('m, 'l, 's) bpftime_shm \<Rightarrow> int \<Rightarrow> bytes option \<Rightarrow> ('m, 'l, 's) bpftime_shm \<times> bytes outcome" where
  "bpf_map_pop_elem b fd value = on_map b fd (\<lambda>h. map_pop_elem h value)"

definition bpf_map_peek_elem ::
    "('m, 'l, 's) bpftime_shm \<Rightarrow> int \<Rightarrow> bytes option \<Rightarrow> ('m, 'l, 's) bpftime_shm \<times> bytes outcome" where
  "bpf_map_peek_elem b fd value = on_map b fd (\<lambda>h. map_peek_elem h value)"

definition bpf_map_get_next_key ::
    "('m, 'l, 's) map_env \<Rightarrow> ('m, 'l, 's) bpftime_shm \<Rightarrow> int \<Rightarrow> bytes option \<Rightarrow> bool \<Rightarrow> bool \<Rightarrow>
     ('m, 'l, 's) bpftime_shm \<times> bytes option outcome" where
  "bpf_map_get_next_key E b fd key has_next from_syscall =
     on_map b fd (\<lambda>h. handler_get_next_key (table_env E b) h key has_next from_syscall)"

section \<open>Creating handlers\<close>

text \<open>\<open>if (fd < 0) fd = open_fake_fd();\<close>\<close>

definition fd_or_fake :: "(nat \<Rightarrow> int) \<Rightarrow> int \<Rightarrow> int" where
  "fd_or_fake os fd = (if fd < 0 then open_fake_fd os else fd)"

definition add_kprobe ::
    "('m, 'l, 's) map_env \<Rightarrow> (nat \<Rightarrow> int) \<Rightarrow> ('m, 'l, 's) bpftime_shm \<Rightarrow> int option \<Rightarrow> string \<Rightarrow>
     nat \<Rightarrow> bool \<Rightarrow> nat \<Rightarrow> ('m, 'l, 's) bpftime_shm \<times> int outcome" where
  "add_kprobe E os b fd func_name addr retprobe ref_ctr_off =
     (let new_fd = (case fd of Some n \<Rightarrow> n | None \<Rightarrow> open_fake_fd os) in
      on_manager b (\<lambda>s. set_handler E s new_fd
        (Perf_handler (kprobe_handler retprobe addr func_name ref_ctr_off))))"

definition add_uprobe ::
    "('m, 'l, 's) map_env \<Rightarrow> (nat \<Rightarrow> int) \<Rightarrow> ('m, 'l, 's) bpftime_shm \<Rightarrow> int \<Rightarrow> int \<Rightarrow> string \<Rightarrow>
     nat \<Rightarrow> bool \<Rightarrow> nat \<Rightarrow> ('m, 'l, 's) bpftime_shm \<times> int outcome" where
  "add_uprobe E os b fd pid name offset retprobe ref_ctr_off =
     on_manager b (\<lambda>s. set_handler E s (fd_or_fake os fd)
       (Perf_handler (uprobe_handler retprobe offset pid name ref_ctr_off)))"

definition add_uprobe_override ::
    "('m, 'l, 's) map_env \<Rightarrow> (nat \<Rightarrow> int) \<Rightarrow> ('m, 'l, 's) bpftime_shm \<Rightarrow> int \<Rightarrow> int \<Rightarrow> string \<Rightarrow>
     nat \<Rightarrow> bool \<Rightarrow> ('m, 'l, 's) bpftime_shm \<times> int outcome" where
  "add_uprobe_override E os b fd pid name offset is_replace =
     on_manager b (\<lambda>s. set_handler E s (fd_or_fake os fd)
       (Perf_handler (override_handler (if is_replace then 1009 else 1008) offset pid name True)))"

definition add_tracepoint ::
    "('m, 'l, 's) map_env \<Rightarrow> (nat \<Rightarrow> int) \<Rightarrow> ('m, 'l, 's) bpftime_shm \<Rightarrow> int \<Rightarrow> int \<Rightarrow> int \<Rightarrow>
     ('m, 'l, 's) bpftime_shm \<times> int outcome" where
  "add_tracepoint E os b fd pid tracepoint_id =
     on_manager b (\<lambda>s. set_handler E s (fd_or_fake os fd)
       (Perf_handler (tracepoint_handler pid tracepoint_id)))"

definition add_software_perf_event ::
    "('m, 'l, 's) map_env \<Rightarrow> nat \<Rightarrow> ('m, 'l, 's) bpftime_shm \<Rightarrow> int \<Rightarrow> int \<Rightarrow> int \<Rightarrow> int \<Rightarrow>
     ('m, 'l, 's) bpftime_shm \<times> int outcome" where
  "add_software_perf_event E generation b fd cpu sample_type config =
     on_manager b (\<lambda>s. set_handler E s fd
       (Perf_handler (software_handler generation cpu sample_type config)))"

definition add_custom_perf_event ::
    "('m, 'l, 's) map_env \<Rightarrow> (nat \<Rightarrow> int) \<Rightarrow> ('m, 'l, 's) bpftime_shm \<Rightarrow> int \<Rightarrow> string \<Rightarrow>
     ('m, 'l, 's) bpftime_shm \<times> int outcome" where
  "add_custom_perf_event E os b ty attach_argument =
     (let fd = open_fake_fd os in
      if fd < 0 then (b, Ok fd)
      else on_manager b (\<lambda>s. case set_handler E s fd (Perf_handler (custom_handler ty attach_argument)) of
          (s', UB) \<Rightarrow> (s', UB) | (s', _) \<Rightarrow> (s', Ok fd)))"

text \<open>
  The result of \<open>set_handler\<close> is dropped here: the caller is given \<open>next_id\<close> also when the
  slot was taken.
\<close>

definition add_bpf_prog_attach_target ::
    "('m, 'l, 's) map_env \<Rightarrow> (nat \<Rightarrow> int) \<Rightarrow> ('m, 'l, 's) bpftime_shm \<Rightarrow> int \<Rightarrow> int \<Rightarrow> nat option \<Rightarrow>
     ('m, 'l, 's) bpftime_shm \<times> int outcome" where
  "add_bpf_prog_attach_target E os b perf_fd bpf_fd cookie =
     (if \<not> is_prog_fd b bpf_fd then (b, Err ENOENT)
      else let next_id = open_fake_fd os in
        if next_id < 0 then (b, Err ENOSPC)
        else on_manager b (\<lambda>s.
          case set_handler E s next_id (Link_handler (link_of_ids bpf_fd perf_fd cookie)) of
            (s', UB) \<Rightarrow> (s', UB) | (s', _) \<Rightarrow> (s', Ok next_id)))"

definition attach_perf_to_bpf ::
    "('m, 'l, 's) map_env \<Rightarrow> (nat \<Rightarrow> int) \<Rightarrow> ('m, 'l, 's) bpftime_shm \<Rightarrow> int \<Rightarrow> int \<Rightarrow> nat option \<Rightarrow>
     ('m, 'l, 's) bpftime_shm \<times> int outcome" where
  "attach_perf_to_bpf E os b perf_fd bpf_fd cookie =
     (if \<not> is_perf_fd b perf_fd then (b, Err ENOENT)
      else add_bpf_prog_attach_target E os b perf_fd bpf_fd cookie)"

definition perf_event_switch ::
    "bool \<Rightarrow> ('m, 'l, 's) bpftime_shm \<Rightarrow> int \<Rightarrow> ('m, 'l, 's) bpftime_shm \<times> int outcome" where
  "perf_event_switch on b fd =
     (case handler_at b fd of
        Some (Perf_handler p) \<Rightarrow>
          on_manager b (\<lambda>s. (put_handler s fd (Perf_handler (p\<lparr>pe_enabled := on\<rparr>)), Ok 0))
      | _ \<Rightarrow> (b, Err ENOENT))"

definition perf_event_enable ::
    "('m, 'l, 's) bpftime_shm \<Rightarrow> int \<Rightarrow> ('m, 'l, 's) bpftime_shm \<times> int outcome" where
  "perf_event_enable = perf_event_switch True"

definition perf_event_disable ::
    "('m, 'l, 's) bpftime_shm \<Rightarrow> int \<Rightarrow> ('m, 'l, 's) bpftime_shm \<times> int outcome" where
  "perf_event_disable = perf_event_switch False"

definition add_software_perf_event_to_epoll ::
    "('m, 'l, 's) bpftime_shm \<Rightarrow> int \<Rightarrow> int \<Rightarrow> nat \<Rightarrow> ('m, 'l, 's) bpftime_shm \<times> int outcome" where
  "add_software_perf_event_to_epoll b swpe_fd epoll_fd extra_data =
     (case handler_at b epoll_fd of
        Some (Epoll_handler files) \<Rightarrow>
          if \<not> is_software_perf_event_handler_fd b swpe_fd then (b, Err EINVAL)
          else (case handler_at b swpe_fd of
              Some (Perf_handler p) \<Rightarrow> (case pe_data p of
                  Software_data generation cpu config sample_type \<Rightarrow>
                    on_manager b (\<lambda>s. (put_handler s epoll_fd
                      (Epoll_handler (files @ [Swpe_file generation extra_data])), Ok 0))
                | _ \<Rightarrow> (b, Err EINVAL))
            | _ \<Rightarrow> (b, Err EINVAL))
      | _ \<Rightarrow> (b, Err EINVAL))"

definition add_ringbuf_to_epoll ::
    "('m, 'l, 's) bpftime_shm \<Rightarrow> int \<Rightarrow> int \<Rightarrow> nat \<Rightarrow> ('m, 'l, 's) bpftime_shm \<times> int outcome" where
  "add_ringbuf_to_epoll b ringbuf_fd epoll_fd extra_data =
     (case handler_at b epoll_fd of
        Some (Epoll_handler files) \<Rightarrow> (case map_handler_at b ringbuf_fd of
            None \<Rightarrow> (b, Err EINVAL)
          | Some h \<Rightarrow>
              if mh_type h \<noteq> BPF_MAP_TYPE_RINGBUF then (b, Err EINVAL)
              else (case mh_impl_ptr h of
                  None \<Rightarrow> (b, Err EINVAL)
                | Some a \<Rightarrow> on_manager b (\<lambda>s. (put_handler s epoll_fd
                    (Epoll_handler (files @ [Ringbuf_file a extra_data])), Ok 0))))
      | _ \<Rightarrow> (b, Err EINVAL))"

definition epoll_create ::
    "('m, 'l, 's) map_env \<Rightarrow> (nat \<Rightarrow> int) \<Rightarrow> ('m, 'l, 's) bpftime_shm \<Rightarrow>
     ('m, 'l, 's) bpftime_shm \<times> int outcome" where
  "epoll_create E os b =
     (let fd = open_fake_fd os in
      on_manager b (\<lambda>s. if is_allocated s fd then (s, Ok (- 1)) else set_handler E s fd (Epoll_handler [])))"

definition add_epoll ::
    "('m, 'l, 's) map_env \<Rightarrow> (nat \<Rightarrow> int) \<Rightarrow> ('m, 'l, 's) bpftime_shm \<Rightarrow> int \<Rightarrow>
     ('m, 'l, 's) bpftime_shm \<times> int outcome" where
  "add_epoll E os b fd =
     (case bs_manager b of None \<Rightarrow> (b, Ok (- 1))
      | Some _ \<Rightarrow> on_manager b (\<lambda>s. set_handler E s (fd_or_fake os fd) (Epoll_handler [])))"

definition add_memfd_handler ::
    "('m, 'l, 's) map_env \<Rightarrow> (nat \<Rightarrow> int) \<Rightarrow> ('m, 'l, 's) bpftime_shm \<Rightarrow> string \<Rightarrow> int \<Rightarrow>
     ('m, 'l, 's) bpftime_shm \<times> int outcome" where
  "add_memfd_handler E os b name flags =
     on_manager b (\<lambda>s. set_handler E s (open_fake_fd os)
       (Memfd_handler \<lparr>mf_flags = flags, mf_name = name\<rparr>))"

definition add_bpf_prog ::
    "('m, 'l, 's) map_env \<Rightarrow> (nat \<Rightarrow> int) \<Rightarrow> ('m, 'l, 's) bpftime_shm \<Rightarrow> int \<Rightarrow> nat list \<Rightarrow> string \<Rightarrow>
     int \<Rightarrow> ('m, 'l, 's) bpftime_shm \<times> int outcome" where
  "add_bpf_prog E os b fd insns prog_name prog_type =
     on_manager b (\<lambda>s. set_handler E s (fd_or_fake os fd)
       (Prog_handler (bpf_prog_handler_new insns prog_name prog_type)))"

definition add_bpf_link ::
    "('m, 'l, 's) map_env \<Rightarrow> (nat \<Rightarrow> int) \<Rightarrow> ('m, 'l, 's) bpftime_shm \<Rightarrow> int \<Rightarrow>
     bpf_link_create_args option \<Rightarrow> ('m, 'l, 's) bpftime_shm \<times> int outcome" where
  "add_bpf_link E os b fd args =
     (case args of
        None \<Rightarrow> (b, Err EINVAL)
      | Some args \<Rightarrow>
          if \<not> is_prog_fd b (i32_of_u32 (la_prog_fd args)) then (b, Err EBADF)
          else if la_attach_type args = BPFTIME_BPF_PERF_EVENT_ATTACH_TYPE \<and>
              \<not> is_perf_event_handler_fd b (i32_of_u32 (la_target_fd args)) then (b, Err EBADF)
          else on_manager b (\<lambda>s.
            set_handler E s (fd_or_fake os fd) (Link_handler (link_of_args args))))"

definition close_fd ::
    "('m, 'l, 's) bpftime_shm \<Rightarrow> int \<Rightarrow> ('m, 'l, 's) bpftime_shm \<times> unit outcome" where
  "close_fd b fd =
     (case bs_manager b of None \<Rightarrow> (b, Ok ()) | Some _ \<Rightarrow> on_manager b (\<lambda>s. clear_id_at s fd))"

text \<open>
  \<open>add_bpf_map\<close>: \<open>get_handler\<close> reads the slot unchecked, and a handler already there is
  destroyed first.
\<close>

definition replace_handler ::
    "('m, 'l, 's) handler_manager \<Rightarrow> int \<Rightarrow> ('m, 'l, 's) handler_manager \<times> unit outcome" where
  "replace_handler s fd =
     (case get_handler s fd of
        Ok hv \<Rightarrow> if hv \<noteq> Unused_handler then clear_id_at s fd else (s, Ok ())
      | r \<Rightarrow> (s, bind_out r (\<lambda>_. Ok ())))"

definition then_do ::
    "('m, 'l, 's) handler_manager \<times> unit outcome \<Rightarrow>
     (('m, 'l, 's) handler_manager \<Rightarrow> ('m, 'l, 's) handler_manager \<times> 'a outcome) \<Rightarrow>
     ('m, 'l, 's) handler_manager \<times> 'a outcome" where
  "then_do p f = (case p of (s, r) \<Rightarrow> if r = Ok () then f s else (s, bind_out r (\<lambda>_. UB)))"

definition add_bpf_map ::
    "('m, 'l, 's) map_env \<Rightarrow> (nat \<Rightarrow> int) \<Rightarrow> ('m, 'l, 's) bpftime_shm \<Rightarrow> int \<Rightarrow> string \<Rightarrow>
     bpf_map_attr \<Rightarrow> ('m, 'l, 's) bpftime_shm \<times> int outcome" where
  "add_bpf_map E os b fd name attr =
     (let fd = fd_or_fake os fd in
      case bs_manager b of None \<Rightarrow> (b, Ok (- 1))
      | Some _ \<Rightarrow> on_manager b (\<lambda>s. then_do (replace_handler s fd)
          (\<lambda>s. set_handler E s fd (Map_handler (bpf_map_handler_new fd name attr)))))"

text \<open>
  \<open>dup_bpf_map\<close>: \<open>handler\<close> is a reference into the table, so using it after the slot was
  cleared (\<open>oldfd\<close> and \<open>newfd\<close> equal) is undefined behaviour.
\<close>

definition dup_share ::
    "('m, 'l, 's) map_env \<Rightarrow> int \<Rightarrow> bpf_map_handler \<Rightarrow> ('m, 'l, 's) handler_manager \<Rightarrow>
     ('m, 'l, 's) handler_manager \<times> int outcome" where
  "dup_share E newfd handler s =
     (if can_share_map_impl handler
      then (case inc_map_refcount handler (mgr_shm s) of
          (shm', Ok _) \<Rightarrow> set_handler E (s\<lparr>mgr_shm := shm'\<rparr>) newfd (Map_handler
            (share_map_impl_from (bpf_map_handler_new newfd (mh_name handler) (mh_attr handler)) handler))
        | (shm', r) \<Rightarrow> (s\<lparr>mgr_shm := shm'\<rparr>, bind_out r (\<lambda>_. UB)))
      else set_handler E s newfd (Map_handler
        (bpf_map_handler_new newfd (''dup_'' @ mh_name handler) (mh_attr handler))))"

definition dup_from ::
    "('m, 'l, 's) map_env \<Rightarrow> int \<Rightarrow> int \<Rightarrow> ('m, 'l, 's) handler_manager \<Rightarrow>
     ('m, 'l, 's) handler_manager \<times> int outcome" where
  "dup_from E oldfd newfd s =
     (case get_handler s oldfd of
        Ok (Map_handler handler) \<Rightarrow> dup_share E newfd handler s | _ \<Rightarrow> (s, UB))"

definition dup_bpf_map ::
    "('m, 'l, 's) map_env \<Rightarrow> (nat \<Rightarrow> int) \<Rightarrow> ('m, 'l, 's) bpftime_shm \<Rightarrow> int \<Rightarrow> int \<Rightarrow>
     ('m, 'l, 's) bpftime_shm \<times> int outcome" where
  "dup_bpf_map E os b oldfd newfd =
     (if \<not> is_map_fd b oldfd then (b, Err EBADF)
      else let newfd = fd_or_fake os newfd in
        on_manager b (\<lambda>s. then_do (replace_handler s newfd) (dup_from E oldfd newfd)))"

section \<open>Sessions and process sets\<close>

text \<open>
  \<open>locked\<close>: whether \<open>pid_set_scoped_lock\<close> got the mutex before its deadline.
\<close>

definition reset_server_state ::
    "bool \<Rightarrow> ('m, 'l, 's) bpftime_shm \<Rightarrow> ('m, 'l, 's) bpftime_shm \<times> unit outcome" where
  "reset_server_state locked b =
     (case bs_manager b of None \<Rightarrow> (b, Ok ())
      | Some _ \<Rightarrow> (case on_manager b clear_all of
          (b', Ok _) \<Rightarrow>
            (if locked then b'\<lparr>bs_syscall_installed_pids :=
                               map_option (\<lambda>_. {}) (bs_syscall_installed_pids b')\<rparr> else b', Ok ())
        | (b', r) \<Rightarrow> (b', r)))"

text \<open>
  \<open>begin_new_session\<close>: a sequence lock. The epoch is odd while the table is being cleared.
\<close>

definition bump_epoch :: "('m, 'l, 's) bpftime_shm \<Rightarrow> ('m, 'l, 's) bpftime_shm" where
  "bump_epoch b = b\<lparr>bs_epoch_seq := map_option (\<lambda>e. u64 (e + 1)) (bs_epoch_seq b)\<rparr>"

definition begin_new_session ::
    "bool \<Rightarrow> ('m, 'l, 's) bpftime_shm \<Rightarrow> ('m, 'l, 's) bpftime_shm \<times> nat outcome" where
  "begin_new_session locked b =
     (case reset_server_state locked (bump_epoch b) of
        (b', r) \<Rightarrow> let b'' = bump_epoch b' in
          (b'', bind_out r (\<lambda>_. Ok (case bs_epoch_seq b'' of None \<Rightarrow> 0 | Some e \<Rightarrow> e))))"

definition BPFTIME_EPOCH_SEQ_UNSTABLE :: nat where "BPFTIME_EPOCH_SEQ_UNSTABLE = 2 ^ 64 - 1"
definition BPFTIME_EPOCH_SEQ_MISSING :: nat where "BPFTIME_EPOCH_SEQ_MISSING = 2 ^ 64 - 2"

text \<open>\<open>loads k\<close> is what the \<open>k\<close>-th atomic load of the epoch returns.\<close>

fun read_epoch_loop :: "nat \<Rightarrow> (nat \<Rightarrow> nat) \<Rightarrow> nat \<Rightarrow> nat" where
  "read_epoch_loop 0 loads k = BPFTIME_EPOCH_SEQ_UNSTABLE"
| "read_epoch_loop (Suc tries) loads k =
     (if odd (loads k) then read_epoch_loop tries loads (k + 1)
      else if loads k = loads (k + 1) then loads k
      else read_epoch_loop tries loads (k + 2))"

definition read_stable_epoch_seq ::
    "('m, 'l, 's) bpftime_shm \<Rightarrow> nat \<Rightarrow> (nat \<Rightarrow> nat) \<Rightarrow> nat" where
  "read_stable_epoch_seq b max_tries loads =
     (if bs_epoch_seq b = None then BPFTIME_EPOCH_SEQ_MISSING else read_epoch_loop max_tries loads 0)"

definition check_syscall_trace_setup :: "bool \<Rightarrow> ('m, 'l, 's) bpftime_shm \<Rightarrow> int \<Rightarrow> bool" where
  "check_syscall_trace_setup locked b pid =
     (case bs_syscall_installed_pids b of None \<Rightarrow> False | Some pids \<Rightarrow> locked \<and> pid \<in> pids)"

definition set_syscall_trace_setup ::
    "bool \<Rightarrow> ('m, 'l, 's) bpftime_shm \<Rightarrow> int \<Rightarrow> bool \<Rightarrow> ('m, 'l, 's) bpftime_shm" where
  "set_syscall_trace_setup locked b pid whether =
     (if locked then b\<lparr>bs_syscall_installed_pids :=
        map_option (\<lambda>pids. if whether then insert pid pids else pids - {pid}) (bs_syscall_installed_pids b)\<rparr>
      else b)"

definition add_pid_into_alive_agent_set ::
    "bool \<Rightarrow> ('m, 'l, 's) bpftime_shm \<Rightarrow> int \<Rightarrow> ('m, 'l, 's) bpftime_shm \<times> bool" where
  "add_pid_into_alive_agent_set locked b pid =
     (case bs_injected_pids b of None \<Rightarrow> (b, True)
      | Some pids \<Rightarrow> if locked then (b\<lparr>bs_injected_pids := Some (insert pid pids)\<rparr>, True) else (b, False))"

definition remove_pid_from_alive_agent_set ::
    "bool \<Rightarrow> ('m, 'l, 's) bpftime_shm \<Rightarrow> int \<Rightarrow> ('m, 'l, 's) bpftime_shm \<times> bool" where
  "remove_pid_from_alive_agent_set locked b pid =
     (case bs_injected_pids b of None \<Rightarrow> (b, True)
      | Some pids \<Rightarrow> if locked then (b\<lparr>bs_injected_pids := Some (pids - {pid})\<rparr>, True) else (b, False))"

text \<open>The pids that the callback is called with, in the order of the set.\<close>

definition iterate_all_pids_in_alive_agent_set ::
    "bool \<Rightarrow> ('m, 'l, 's) bpftime_shm \<Rightarrow> int list \<times> bool" where
  "iterate_all_pids_in_alive_agent_set locked b =
     (if \<not> locked then ([], False)
      else (case bs_injected_pids b of None \<Rightarrow> [] | Some pids \<Rightarrow> sorted_list_of_set pids, True))"

definition add_pid_into_alive_syscall_server_set ::
    "bool \<Rightarrow> ('m, 'l, 's) bpftime_shm \<Rightarrow> int \<Rightarrow> ('m, 'l, 's) bpftime_shm \<times> bool" where
  "add_pid_into_alive_syscall_server_set locked b pid =
     (case bs_alive_syscall_server_pids b of None \<Rightarrow> (b, True)
      | Some pids \<Rightarrow> if locked then (b\<lparr>bs_alive_syscall_server_pids := Some (insert pid pids)\<rparr>, True)
          else (b, False))"

definition remove_pid_from_alive_syscall_server_set ::
    "bool \<Rightarrow> ('m, 'l, 's) bpftime_shm \<Rightarrow> int \<Rightarrow> ('m, 'l, 's) bpftime_shm \<times> bool" where
  "remove_pid_from_alive_syscall_server_set locked b pid =
     (case bs_alive_syscall_server_pids b of None \<Rightarrow> (b, True)
      | Some pids \<Rightarrow> if locked then (b\<lparr>bs_alive_syscall_server_pids := Some (pids - {pid})\<rparr>, True)
          else (b, False))"

definition iterate_all_pids_in_alive_syscall_server_set ::
    "bool \<Rightarrow> ('m, 'l, 's) bpftime_shm \<Rightarrow> int list \<times> bool" where
  "iterate_all_pids_in_alive_syscall_server_set locked b =
     (if \<not> locked then ([], False)
      else (case bs_alive_syscall_server_pids b of
              None \<Rightarrow> [] | Some pids \<Rightarrow> sorted_list_of_set pids, True))"

text \<open>
  The constructor with \<open>SHM_REMOVE_AND_CREATE\<close>: a new segment with an empty table.
\<close>

definition bpftime_shm_create :: "nat \<Rightarrow> ('m, 'l, 's) bpftime_shm" where
  "bpftime_shm_create max_fd_count =
     \<lparr>bs_manager = Some (handler_manager_new max_fd_count), bs_syscall_installed_pids = Some {},
      bs_injected_pids = Some {}, bs_alive_syscall_server_pids = Some {}, bs_epoch_seq = Some 0\<rparr>"

section \<open>The invariant of every reachable state\<close>

definition attrs_ok :: "handler_variant list \<Rightarrow> bool" where
  "attrs_ok hs = (\<forall>h. Map_handler h \<in> set hs \<longrightarrow> mh_type h = attr_type (mh_attr h))"

definition mgr_inv :: "bool \<Rightarrow> ('m, 'l, 's) handler_manager \<Rightarrow> bool" where
  "mgr_inv ck s = (manager_ok ck s \<and> attrs_ok (mgr_handlers s))"

definition shm_inv :: "bool \<Rightarrow> ('m, 'l, 's) bpftime_shm \<Rightarrow> bool" where
  "shm_inv ck b = (case bs_manager b of None \<Rightarrow> True | Some s \<Rightarrow> mgr_inv ck s)"

lemma attrs_ok_shrinks:
  assumes "attrs_ok hs" and "shrinks hs hs'"
  shows "attrs_ok hs'"
  unfolding attrs_ok_def
proof (intro allI impI)
  fix h assume "Map_handler h \<in> set hs'"
  then obtain i where "i < length hs'" "hs' ! i = Map_handler h" by (auto simp: in_set_conv_nth)
  with assms(2) have "i < length hs" "hs ! i = Map_handler h" by (auto simp: shrinks_def)
  then have "Map_handler h \<in> set hs" by (metis nth_mem)
  with assms(1) show "mh_type h = attr_type (mh_attr h)" by (simp add: attrs_ok_def)
qed

lemma attrs_ok_put:
  assumes "attrs_ok hs" and "\<And>h. hv = Map_handler h \<Longrightarrow> mh_type h = attr_type (mh_attr h)"
  shows "attrs_ok (hs[i := hv])"
  using assms set_update_subset_insert [of hs i hv] by (auto simp: attrs_ok_def)

lemma init_result_attr:
  "init_result h shm h' shm' \<Longrightarrow> mh_type h' = mh_type h \<and> mh_attr h' = mh_attr h"
  by (induction rule: init_result.cases) simp_all

lemma set_handler_inv:
  assumes inv: "mgr_inv ck s" and E: "alloc_fresh E" and res: "set_handler E s fd hv = (s', r)"
    and new: "\<And>h. hv = Map_handler h \<Longrightarrow> mh_impl_ptr h = None \<and> mh_refcnt_ptr h = None \<and>
      mh_type h = attr_type (mh_attr h)"
    and link: "\<And>l. hv = Link_handler l \<Longrightarrow> link_ok ck (mgr_handlers s) l"
  shows "mgr_inv ck s'"
proof -
  have "manager_ok ck s'"
    using set_handler_ok [OF _ E res] inv new link by (auto simp: mgr_inv_def)
  moreover have "attrs_ok (mgr_handlers s')"
  proof (cases hv)
    case (Map_handler h)
    obtain h' shm' r' where i: "map_init E h (mgr_shm s) = (h', shm', r')" by (metis prod_cases3)
    with new [OF Map_handler] init_result_attr [OF map_init_result [OF E _ i]]
    have "mh_type h' = attr_type (mh_attr h')" by simp
    with res i Map_handler inv new [OF Map_handler] show ?thesis
      by (auto simp: set_handler_def has_map_impl_def put_handler_def mgr_inv_def
        intro: attrs_ok_put split: if_splits)
  qed (use res inv in \<open>auto simp: set_handler_def put_handler_def mgr_inv_def
      intro: attrs_ok_put split: if_splits\<close>)
  ultimately show ?thesis by (simp add: mgr_inv_def)
qed

lemma clear_id_at_inv:
  assumes "mgr_inv ck s"
  shows "\<exists>s'. clear_id_at s fd = (s', Ok ()) \<and> mgr_inv ck s'"
  using clear_id_at_ok [of ck s fd] assms clear_id_at_shrinks [of s fd] attrs_ok_shrinks
  by (fastforce simp: mgr_inv_def)

lemma replace_handler_inv:
  assumes "mgr_inv ck s" and "replace_handler s fd = (s', r)"
  shows "mgr_inv ck s' \<and> (r = Ok () \<longrightarrow> \<not> is_allocated s' fd \<and> in_table s' fd)"
proof (cases "in_table s fd \<and> mgr_handlers s ! nat fd \<noteq> Unused_handler")
  case True
  then obtain t where t: "clear_id_at s fd = (t, Ok ())" "mgr_inv ck t"
    using clear_id_at_inv [OF assms(1)] by blast
  have "shrinks (mgr_handlers s) (mgr_handlers t)" using clear_id_at_shrinks [of s fd] t by simp
  moreover have "mgr_handlers t ! nat fd = Unused_handler"
    using clear_id_at_slot [of "nat fd" s] t True by (auto simp: in_table_def)
  ultimately show ?thesis using True t assms(2)
    by (auto simp: replace_handler_def get_handler_def is_allocated_def in_table_def shrinks_def)
next
  case False
  then show ?thesis using assms
    by (auto simp: replace_handler_def get_handler_def is_allocated_def split: if_splits)
qed

lemma on_manager_inv:
  assumes "shm_inv ck b" and "on_manager b f = (b', r)"
    and "\<And>s s' r. bs_manager b = Some s \<Longrightarrow> mgr_inv ck s \<Longrightarrow> f s = (s', r) \<Longrightarrow> mgr_inv ck s'"
  shows "shm_inv ck b'"
  using assms by (auto simp: on_manager_def shm_inv_def split: option.splits prod.splits)

text \<open>Replacing a perf event or an epoll instance by one of its kind.\<close>

lemma put_same_inv:
  assumes inv: "mgr_inv ck s" and "in_table s fd"
    and old: "maps1 (mgr_handlers s ! nat fd) = {#}" and new: "maps1 hv = {#}"
    and nolink: "\<And>l. hv \<noteq> Link_handler l"
    and prog: "\<And>p. mgr_handlers s ! nat fd \<noteq> Prog_handler p"
    and perf: "\<And>p. mgr_handlers s ! nat fd = Perf_handler p \<Longrightarrow> \<exists>p. hv = Perf_handler p"
  shows "mgr_inv ck (put_handler s fd hv)"
proof -
  let ?hs = "mgr_handlers s" and ?hs' = "(mgr_handlers s)[nat fd := hv]"
  note lt = in_table_nth [OF assms(2)]
  have "maps_of ?hs' = maps_of ?hs" using maps_of_update [OF lt, of hv] old new by simp
  moreover have "prog_at ?hs' q" if "prog_at ?hs q" for q
    using that prog by (cases "nat q = nat fd") (auto simp: prog_at_def)
  moreover have "perf_at ?hs' q" if "perf_at ?hs q" for q
    using that perf lt by (cases "nat q = nat fd") (auto simp: perf_at_def)
  moreover have "Link_handler l \<in> set ?hs" if "Link_handler l \<in> set ?hs'" for l
    using that nolink set_update_subset_insert [of ?hs "nat fd" hv] by auto
  moreover have "attrs_ok ?hs'" using inv new by (intro attrs_ok_put) (auto simp: mgr_inv_def)
  ultimately show ?thesis using inv
    by (auto simp: mgr_inv_def manager_ok_def put_handler_def links_ok_def link_ok_def)
qed

lemma on_impl_inv:
  assumes inv: "mgr_inv ck s" and h: "Map_handler h \<in> set (mgr_handlers s)"
    and f: "\<And>i. impl_has_type (mh_type h) i \<Longrightarrow> keeps_type (mh_type h) (f (Some i))"
    and res: "on_impl f h s = (s', r)"
  shows "mgr_inv ck s'"
proof (cases "mh_impl_ptr h")
  case None
  with res inv show ?thesis by (simp add: on_impl_def)
next
  case (Some a)
  have ok: "seg_ok (maps_of (mgr_handlers s)) (mgr_shm s)"
    using inv by (simp add: mgr_inv_def manager_ok_def)
  have mem: "h \<in># maps_of (mgr_handlers s)" using h by (simp add: maps_of_mem)
  obtain i where i: "mgr_shm s a = Some (Impl i)" "impl_has_type (mh_type h) i"
    using ptrs_okD(1) [OF seg_ok_ptrs [OF ok mem] Some] by blast
  obtain i' r' where "f (Some i) = (Some i', r')" "impl_has_type (mh_type h) i'"
    using f [OF i(2)] by (cases "f (Some i)") (auto simp: keeps_type_def)
  with res i Some inv seg_ok_write [OF ok mem Some] show ?thesis
    by (auto simp: on_impl_def mgr_inv_def manager_ok_def)
qed

lemma map_handler_at_mem:
  assumes "map_handler_at b fd = Some h" and "bs_manager b = Some s"
  shows "Map_handler h \<in> set (mgr_handlers s)"
proof -
  have "mgr_handlers s ! nat fd = Map_handler h" "nat fd < length (mgr_handlers s)"
    using assms in_table_nth [of s fd]
    by (auto simp: map_handler_at_def handler_at_def split: option.splits if_splits handler_variant.splits)
  then show ?thesis by (metis nth_mem)
qed

lemma on_map_inv:
  assumes "shm_inv ck b" and "on_map b fd f = (b', r)"
    and "\<And>h i. impl_has_type (mh_type h) i \<Longrightarrow> keeps_type (mh_type h) (f h (Some i))"
  shows "shm_inv ck b'"
proof (cases "map_handler_at b fd")
  case None
  with assms show ?thesis by (simp add: on_map_def try_get_map_handler_def)
next
  case (Some h)
  have "on_manager b (on_impl (f h) h) = (b', r)"
    using assms(2) Some by (simp add: on_map_def try_get_map_handler_def)
  from assms(1) this show ?thesis
    by (rule on_manager_inv) (rule on_impl_inv, auto intro: map_handler_at_mem [OF Some] assms(3))
qed

lemma inc_map_refcount_eq:
  "mh_refcnt_ptr h = Some r \<Longrightarrow> shm r = Some (Refcnt n) \<Longrightarrow> n < 4294967295 \<Longrightarrow>
   inc_map_refcount h shm = (shm(r \<mapsto> Refcnt (Suc n)), Ok ())"
  by (simp add: inc_map_refcount_def)

lemma dup_share_inv:
  assumes inv: "mgr_inv ck s" and E: "alloc_fresh E" and h: "Map_handler h \<in> set (mgr_handlers s)"
    and slot: "\<not> is_allocated s fd" "in_table s fd" and res: "dup_share E fd h s = (s', r)"
  shows "mgr_inv ck s'"
proof (cases "can_share_map_impl h")
  case False
  with res show ?thesis
    by (intro set_handler_inv [OF inv E]) (auto simp: dup_share_def bpf_map_handler_new_def)
next
  case True
  then obtain a c where a: "mh_impl_ptr h = Some a" and c: "mh_refcnt_ptr h = Some c"
    by (auto simp: can_share_map_impl_def)
  let ?hs = "mgr_handlers s"
  have ok: "seg_ok (maps_of ?hs) (mgr_shm s)" using inv by (simp add: mgr_inv_def manager_ok_def)
  have mem: "h \<in># maps_of ?hs" using h by (simp add: maps_of_mem)
  obtain n where n: "mgr_shm s c = Some (Refcnt n)"
    using ptrs_okD(2) [OF seg_ok_ptrs [OF ok mem] c] by blast
  have "n \<le> length ?hs"
    using seg_ok_count [OF ok n] uses_le [of "counts c" "maps_of ?hs"] maps_of_size [of ?hs] by simp
  then have n32: "n < 4294967295" using inv by (simp add: mgr_inv_def manager_ok_def)
  define d where "d = share_map_impl_from (bpf_map_handler_new fd (mh_name h) (mh_attr h)) h"
  have ty: "mh_type h = attr_type (mh_attr h)" using inv h by (simp add: mgr_inv_def attrs_ok_def)
  have d: "mh_impl_ptr d = Some a" "mh_refcnt_ptr d = Some c" "mh_type d = mh_type h"
    "mh_type d = attr_type (mh_attr d)"
    using a c ty by (simp_all add: d_def share_map_impl_from_def bpf_map_handler_new_def)
  note un = free_slot [OF slot] and lt = in_table_nth [OF slot(2)]
  have s': "s' = s\<lparr>mgr_handlers := ?hs[nat fd := Map_handler d], mgr_shm := (mgr_shm s)(c \<mapsto> Refcnt (Suc n))\<rparr>"
    using res True d(1) slot inc_map_refcount_eq [where shm = "mgr_shm s", OF c n n32]
    by (auto simp: dup_share_def set_handler_def is_allocated_def in_table_def has_map_impl_def
      put_handler_def d_def [symmetric])
  have "maps_of (?hs[nat fd := Map_handler d]) = add_mset d (maps_of ?hs)"
    using maps_of_update [OF lt, of "Map_handler d"] un by simp
  moreover have "links_ok ck (?hs[nat fd := Map_handler d])"
    using inv un by (intro links_ok_fill) (simp_all add: mgr_inv_def manager_ok_def)
  moreover have "attrs_ok (?hs[nat fd := Map_handler d])"
    using inv d(4) by (intro attrs_ok_put) (auto simp: mgr_inv_def)
  ultimately show ?thesis
    using s' inv seg_ok_share [OF ok mem a c n d(1-3)] by (simp add: mgr_inv_def manager_ok_def)
qed

text \<open>
  The states reached by any sequence of calls that stays out of undefined behaviour. The
  environment (the current CPU, the kernel's answers, the allocator) may be another one at
  every call. With \<open>ck\<close> the calls are the checked ones only: \<open>add_bpf_prog_attach_target\<close> is public
  and does not look at the perf event it is given (the JSON import calls it directly), while
  \<open>attach_perf_to_bpf\<close> does. \<open>shm_reach\<close> has them all.
\<close>

inductive shm_run :: "bool \<Rightarrow> ('m, 'l, 's) bpftime_shm \<Rightarrow> bool" for ck where
  create: "n \<le> 2147483648 \<Longrightarrow> shm_run ck (bpftime_shm_create n)"
| map: "shm_run ck b \<Longrightarrow> alloc_fresh E \<Longrightarrow> add_bpf_map E os b fd name attr = (b', r) \<Longrightarrow> r \<noteq> UB \<Longrightarrow>
    shm_run ck b'"
| dup: "shm_run ck b \<Longrightarrow> alloc_fresh E \<Longrightarrow> dup_bpf_map E os b oldfd newfd = (b', r) \<Longrightarrow> r \<noteq> UB \<Longrightarrow>
    shm_run ck b'"
| close: "shm_run ck b \<Longrightarrow> close_fd b fd = (b', ru) \<Longrightarrow> ru \<noteq> UB \<Longrightarrow> shm_run ck b'"
| prog: "shm_run ck b \<Longrightarrow> alloc_fresh E \<Longrightarrow>
    add_bpf_prog E os b fd insns name ptype = (b', r) \<Longrightarrow> r \<noteq> UB \<Longrightarrow> shm_run ck b'"
| kprobe: "shm_run ck b \<Longrightarrow> alloc_fresh E \<Longrightarrow>
    add_kprobe E os b ofd name addr isret ref = (b', r) \<Longrightarrow> r \<noteq> UB \<Longrightarrow> shm_run ck b'"
| uprobe: "shm_run ck b \<Longrightarrow> alloc_fresh E \<Longrightarrow>
    add_uprobe E os b fd pid name offset isret ref = (b', r) \<Longrightarrow> r \<noteq> UB \<Longrightarrow> shm_run ck b'"
| override: "shm_run ck b \<Longrightarrow> alloc_fresh E \<Longrightarrow>
    add_uprobe_override E os b fd pid name offset rep = (b', r) \<Longrightarrow> r \<noteq> UB \<Longrightarrow> shm_run ck b'"
| tracepoint: "shm_run ck b \<Longrightarrow> alloc_fresh E \<Longrightarrow>
    add_tracepoint E os b fd pid tp = (b', r) \<Longrightarrow> r \<noteq> UB \<Longrightarrow> shm_run ck b'"
| software: "shm_run ck b \<Longrightarrow> alloc_fresh E \<Longrightarrow>
    add_software_perf_event E gen b fd cpu st cfg = (b', r) \<Longrightarrow> r \<noteq> UB \<Longrightarrow> shm_run ck b'"
| custom: "shm_run ck b \<Longrightarrow> alloc_fresh E \<Longrightarrow>
    add_custom_perf_event E os b ty name = (b', r) \<Longrightarrow> r \<noteq> UB \<Longrightarrow> shm_run ck b'"
| attach: "shm_run ck b \<Longrightarrow> alloc_fresh E \<Longrightarrow>
    attach_perf_to_bpf E os b perf_fd bpf_fd cookie = (b', r) \<Longrightarrow> r \<noteq> UB \<Longrightarrow> shm_run ck b'"
| attach_target: "\<not> ck \<Longrightarrow> shm_run ck b \<Longrightarrow> alloc_fresh E \<Longrightarrow>
    add_bpf_prog_attach_target E os b perf_fd bpf_fd cookie = (b', r) \<Longrightarrow> r \<noteq> UB \<Longrightarrow> shm_run ck b'"
| link: "shm_run ck b \<Longrightarrow> alloc_fresh E \<Longrightarrow>
    add_bpf_link E os b fd args = (b', r) \<Longrightarrow> r \<noteq> UB \<Longrightarrow> shm_run ck b'"
| enable: "shm_run ck b \<Longrightarrow> perf_event_switch on b fd = (b', r) \<Longrightarrow> r \<noteq> UB \<Longrightarrow> shm_run ck b'"
| epoll: "shm_run ck b \<Longrightarrow> alloc_fresh E \<Longrightarrow> epoll_create E os b = (b', r) \<Longrightarrow> r \<noteq> UB \<Longrightarrow> shm_run ck b'"
| epoll_at: "shm_run ck b \<Longrightarrow> alloc_fresh E \<Longrightarrow> add_epoll E os b fd = (b', r) \<Longrightarrow> r \<noteq> UB \<Longrightarrow> shm_run ck b'"
| epoll_swpe: "shm_run ck b \<Longrightarrow> add_software_perf_event_to_epoll b swpe_fd epoll_fd data = (b', r) \<Longrightarrow>
    r \<noteq> UB \<Longrightarrow> shm_run ck b'"
| epoll_ringbuf: "shm_run ck b \<Longrightarrow> add_ringbuf_to_epoll b ringbuf_fd epoll_fd data = (b', r) \<Longrightarrow>
    r \<noteq> UB \<Longrightarrow> shm_run ck b'"
| memfd: "shm_run ck b \<Longrightarrow> alloc_fresh E \<Longrightarrow> add_memfd_handler E os b name flags = (b', r) \<Longrightarrow>
    r \<noteq> UB \<Longrightarrow> shm_run ck b'"
| lookup: "shm_run ck b \<Longrightarrow> bpf_map_lookup_elem E b fd key sys = (b', rp) \<Longrightarrow> rp \<noteq> UB \<Longrightarrow> shm_run ck b'"
| update: "shm_run ck b \<Longrightarrow> bpf_map_update_elem E b fd key value mflags sys = (b', r) \<Longrightarrow> r \<noteq> UB \<Longrightarrow>
    shm_run ck b'"
| delete: "shm_run ck b \<Longrightarrow> bpf_delete_elem E b fd key sys = (b', r) \<Longrightarrow> r \<noteq> UB \<Longrightarrow> shm_run ck b'"
| push: "shm_run ck b \<Longrightarrow> bpf_map_push_elem b fd value mflags = (b', r) \<Longrightarrow> r \<noteq> UB \<Longrightarrow> shm_run ck b'"
| pop: "shm_run ck b \<Longrightarrow> bpf_map_pop_elem b fd value = (b', rb) \<Longrightarrow> rb \<noteq> UB \<Longrightarrow> shm_run ck b'"
| peek: "shm_run ck b \<Longrightarrow> bpf_map_peek_elem b fd value = (b', rb) \<Longrightarrow> rb \<noteq> UB \<Longrightarrow> shm_run ck b'"
| next_key: "shm_run ck b \<Longrightarrow> bpf_map_get_next_key E b fd key has_next sys = (b', rk) \<Longrightarrow> rk \<noteq> UB \<Longrightarrow>
    shm_run ck b'"
| session: "shm_run ck b \<Longrightarrow> begin_new_session locked b = (b', rn) \<Longrightarrow> rn \<noteq> UB \<Longrightarrow> shm_run ck b'"
| syscall_pid: "shm_run ck b \<Longrightarrow> shm_run ck (set_syscall_trace_setup locked b pid whether)"
| agent_add: "shm_run ck b \<Longrightarrow> shm_run ck (fst (add_pid_into_alive_agent_set locked b pid))"
| agent_remove: "shm_run ck b \<Longrightarrow> shm_run ck (fst (remove_pid_from_alive_agent_set locked b pid))"
| server_add: "shm_run ck b \<Longrightarrow> shm_run ck (fst (add_pid_into_alive_syscall_server_set locked b pid))"
| server_remove: "shm_run ck b \<Longrightarrow>
    shm_run ck (fst (remove_pid_from_alive_syscall_server_set locked b pid))"

abbreviation shm_reach :: "('m, 'l, 's) bpftime_shm \<Rightarrow> bool" where
  "shm_reach b \<equiv> shm_run False b"

text \<open>The calls that fill a slot with a handler that owns nothing yet.\<close>

lemma fill_inv:
  assumes "shm_inv ck b" and E: "alloc_fresh E" and "on_manager b (\<lambda>s. set_handler E s fd hv) = (b', r)"
    and "\<And>h. hv \<noteq> Map_handler h" and "\<And>l. hv \<noteq> Link_handler l"
  shows "shm_inv ck b'"
  using assms(1,3) by (rule on_manager_inv) (rule set_handler_inv [OF _ E], use assms(4,5) in auto)

lemma prog_fd_at: "is_prog_fd b fd \<Longrightarrow> bs_manager b = Some s \<Longrightarrow> prog_at (mgr_handlers s) fd"
  by (auto simp: is_prog_fd_def handler_at_def prog_at_def in_table_def
    split: if_splits handler_variant.splits)

lemma perf_fd_at: "is_perf_fd b fd \<Longrightarrow> bs_manager b = Some s \<Longrightarrow> perf_at (mgr_handlers s) fd"
  by (auto simp: is_perf_fd_def handler_at_def perf_at_def in_table_def
    split: if_splits handler_variant.splits)

lemma perf_event_fd_eq: "is_perf_event_handler_fd b fd = is_perf_fd b fd"
  by (simp add: is_perf_event_handler_fd_def is_perf_fd_def)

lemma link_fill_inv:
  assumes "shm_inv ck b" and E: "alloc_fresh E"
    and "on_manager b (\<lambda>s. set_handler E s fd (Link_handler l)) = (b', r)"
    and "is_prog_fd b (lk_prog_id l)" and "ck \<Longrightarrow> perf_link l \<Longrightarrow> is_perf_fd b (lk_attach_target_id l)"
  shows "shm_inv ck b'"
  using assms(1,3)
  by (rule on_manager_inv) (rule set_handler_inv [OF _ E],
    use assms(4,5) prog_fd_at perf_fd_at in \<open>auto simp: link_ok_def\<close>)

lemma drop_result:
  assumes "on_manager b (\<lambda>s. case f s of (s', UB) \<Rightarrow> (s', UB) | (s', _) \<Rightarrow> (s', Ok fd)) = (b', r)"
  obtains r' where "on_manager b f = (b', r')"
  using assms by (auto simp: on_manager_def split: option.splits prod.splits outcome.splits)

lemma link_of_args_simps [simp]:
  "lk_prog_id (link_of_args a) = i32_of_u32 (la_prog_fd a)"
  "lk_attach_target_id (link_of_args a) = i32_of_u32 (la_target_fd a)"
  "perf_link (link_of_args a) = (la_attach_type a = BPFTIME_BPF_PERF_EVENT_ATTACH_TYPE)"
  by (simp_all add: link_of_args_def perf_link_def)

lemma link_of_ids_simps [simp]:
  "lk_prog_id (link_of_ids p t c) = p" "lk_attach_target_id (link_of_ids p t c) = t"
  by (simp_all add: link_of_ids_def)

lemma attach_fill_inv:
  assumes "shm_inv ck b" and E: "alloc_fresh E" and "ck \<Longrightarrow> is_perf_fd b perf_fd"
    and "add_bpf_prog_attach_target E os b perf_fd bpf_fd cookie = (b', r)"
  shows "shm_inv ck b'"
proof (cases "is_prog_fd b bpf_fd \<and> 0 \<le> open_fake_fd os")
  case True
  let ?f = "\<lambda>s. set_handler E s (open_fake_fd os) (Link_handler (link_of_ids bpf_fd perf_fd cookie))"
  have "on_manager b (\<lambda>s. case ?f s of (s', UB) \<Rightarrow> (s', UB) | (s', _) \<Rightarrow> (s', Ok (open_fake_fd os))) = (b', r)"
    using assms(4) True by (simp add: add_bpf_prog_attach_target_def Let_def)
  then obtain r' where "on_manager b ?f = (b', r')" by (rule drop_result)
  from link_fill_inv [OF assms(1) E this] True assms(3) show ?thesis by simp
next
  case False
  with assms(1,4) show ?thesis by (auto simp: add_bpf_prog_attach_target_def Let_def split: if_splits)
qed

lemma attach_target_inv:
  assumes "shm_inv ck b" and "alloc_fresh E"
    and "add_bpf_prog_attach_target E os b perf_fd bpf_fd cookie = (b', r)" and "\<not> ck"
  shows "shm_inv ck b'"
  using attach_fill_inv [OF assms(1,2) _ assms(3)] assms(4) by blast

lemma attach_inv:
  assumes "shm_inv ck b" and "alloc_fresh E"
    and "attach_perf_to_bpf E os b perf_fd bpf_fd cookie = (b', r)"
  shows "shm_inv ck b'"
  using assms attach_fill_inv [OF assms(1,2), of perf_fd os bpf_fd cookie b' r]
  by (auto simp: attach_perf_to_bpf_def split: if_splits)

lemma link_inv:
  assumes "shm_inv ck b" and E: "alloc_fresh E" and "add_bpf_link E os b fd args = (b', r)"
  shows "shm_inv ck b'"
proof (cases args)
  case (Some a)
  show ?thesis
  proof (cases "is_prog_fd b (i32_of_u32 (la_prog_fd a)) \<and>
      (la_attach_type a = BPFTIME_BPF_PERF_EVENT_ATTACH_TYPE \<longrightarrow>
       is_perf_fd b (i32_of_u32 (la_target_fd a)))")
    case True
    with assms(3) Some have "on_manager b (\<lambda>s. set_handler E s (fd_or_fake os fd)
        (Link_handler (link_of_args a))) = (b', r)"
      by (auto simp: add_bpf_link_def perf_event_fd_eq)
    from link_fill_inv [OF assms(1) E this] True show ?thesis by simp
  next
    case False
    with assms Some show ?thesis by (auto simp: add_bpf_link_def perf_event_fd_eq split: if_splits)
  qed
qed (use assms in \<open>simp add: add_bpf_link_def\<close>)

lemma custom_inv:
  assumes "shm_inv ck b" and E: "alloc_fresh E" and "add_custom_perf_event E os b ty arg = (b', r)"
  shows "shm_inv ck b'"
proof (cases "open_fake_fd os < 0")
  case True
  with assms show ?thesis by (simp add: add_custom_perf_event_def Let_def)
next
  case False
  let ?f = "\<lambda>s. set_handler E s (open_fake_fd os) (Perf_handler (custom_handler ty arg))"
  have "on_manager b (\<lambda>s. case ?f s of (s', UB) \<Rightarrow> (s', UB) | (s', _) \<Rightarrow> (s', Ok (open_fake_fd os))) = (b', r)"
    using assms(3) False by (simp add: add_custom_perf_event_def Let_def)
  then obtain r' where "on_manager b ?f = (b', r')" by (rule drop_result)
  from fill_inv [OF assms(1) E this] show ?thesis by simp
qed

lemma replace_then_inv:
  assumes "shm_inv ck b"
    and "on_manager b (\<lambda>s. then_do (replace_handler s fd) f) = (b', r)"
    and "\<And>s s' r. mgr_inv ck s \<Longrightarrow> \<not> is_allocated s fd \<Longrightarrow> in_table s fd \<Longrightarrow> f s = (s', r) \<Longrightarrow> mgr_inv ck s'"
  shows "shm_inv ck b'"
  using assms(1,2)
proof (rule on_manager_inv)
  fix s s' r
  assume inv: "mgr_inv ck s" and res: "then_do (replace_handler s fd) f = (s', r)"
  obtain t rt where t: "replace_handler s fd = (t, rt)" by fastforce
  from replace_handler_inv [OF inv this] res t assms(3) [of t s' r] show "mgr_inv ck s'"
    by (auto simp: then_do_def split: if_splits)
qed

lemma add_map_inv:
  assumes "shm_inv ck b" and E: "alloc_fresh E" and "add_bpf_map E os b fd name attr = (b', r)"
  shows "shm_inv ck b'"
proof (cases "bs_manager b")
  case None
  with assms show ?thesis by (simp add: add_bpf_map_def Let_def)
next
  case (Some s)
  let ?fd = "fd_or_fake os fd"
  let ?f = "\<lambda>s. set_handler E s ?fd (Map_handler (bpf_map_handler_new ?fd name attr))"
  have "on_manager b (\<lambda>s. then_do (replace_handler s ?fd) ?f) = (b', r)"
    using assms(3) Some by (simp add: add_bpf_map_def Let_def)
  with assms(1) show ?thesis
    by (rule replace_then_inv) (rule set_handler_inv [OF _ E], auto simp: bpf_map_handler_new_def)
qed

lemma dup_from_inv:
  assumes "mgr_inv ck s" and E: "alloc_fresh E" and "\<not> is_allocated s fd" "in_table s fd"
    and res: "dup_from E oldfd fd s = (s', r)"
  shows "mgr_inv ck s'"
proof (cases "\<exists>h. get_handler s oldfd = Ok (Map_handler h)")
  case True
  then obtain h where h: "get_handler s oldfd = Ok (Map_handler h)" by blast
  then have "mgr_handlers s ! nat oldfd = Map_handler h" "nat oldfd < length (mgr_handlers s)"
    using in_table_nth [of s oldfd] by (auto simp: get_handler_def split: if_splits)
  then have "Map_handler h \<in> set (mgr_handlers s)" by (metis nth_mem)
  from dup_share_inv [OF assms(1) E this assms(3,4)] res h show ?thesis by (simp add: dup_from_def)
next
  case False
  with res assms(1) show ?thesis
    by (auto simp: dup_from_def split: outcome.splits handler_variant.splits)
qed

lemma dup_inv:
  assumes "shm_inv ck b" and E: "alloc_fresh E" and "dup_bpf_map E os b oldfd newfd = (b', r)"
  shows "shm_inv ck b'"
proof (cases "is_map_fd b oldfd")
  case False
  with assms show ?thesis by (simp add: dup_bpf_map_def)
next
  case True
  let ?fd = "fd_or_fake os newfd"
  have "on_manager b (\<lambda>s. then_do (replace_handler s ?fd) (dup_from E oldfd ?fd)) = (b', r)"
    using assms(3) True by (simp add: dup_bpf_map_def Let_def)
  with assms(1) show ?thesis by (rule replace_then_inv) (rule dup_from_inv [OF _ E])
qed

lemma handler_atD:
  assumes "handler_at b fd = Some hv" and "bs_manager b = Some s"
  shows "in_table s fd" and "mgr_handlers s ! nat fd = hv"
  using assms by (auto simp: handler_at_def split: if_splits)

lemma put_kind_inv:
  assumes "shm_inv ck b" and "handler_at b fd = Some old"
    and "on_manager b (\<lambda>s. (put_handler s fd new, x)) = (b', r)"
    and "(\<exists>p q. old = Perf_handler p \<and> new = Perf_handler q) \<or>
      (\<exists>f g. old = Epoll_handler f \<and> new = Epoll_handler g)"
  shows "shm_inv ck b'"
  using assms(1,3)
proof (rule on_manager_inv)
  fix s s' r
  assume s: "bs_manager b = Some s" "mgr_inv ck s" "(put_handler s fd new, x) = (s', r)"
  note at = handler_atD [OF assms(2) s(1)]
  have "mgr_inv ck (put_handler s fd new)"
    using assms(4) at by (intro put_same_inv [OF s(2)]) auto
  with s(3) show "mgr_inv ck s'" by simp
qed

lemma switch_inv: "shm_inv ck b \<Longrightarrow> perf_event_switch on b fd = (b', r) \<Longrightarrow> shm_inv ck b'"
  by (auto simp: perf_event_switch_def elim!: put_kind_inv split: option.splits handler_variant.splits)

lemma epoll_swpe_inv:
  "shm_inv ck b \<Longrightarrow> add_software_perf_event_to_epoll b swpe_fd epoll_fd d = (b', r) \<Longrightarrow> shm_inv ck b'"
  by (auto simp: add_software_perf_event_to_epoll_def elim!: put_kind_inv
    split: option.splits handler_variant.splits if_splits perf_event_data.splits)

lemma epoll_ringbuf_inv:
  "shm_inv ck b \<Longrightarrow> add_ringbuf_to_epoll b ringbuf_fd epoll_fd d = (b', r) \<Longrightarrow> shm_inv ck b'"
  by (auto simp: add_ringbuf_to_epoll_def elim!: put_kind_inv
    split: option.splits handler_variant.splits if_splits)

lemma epoll_create_inv:
  assumes "shm_inv ck b" and E: "alloc_fresh E" and "epoll_create E os b = (b', r)"
  shows "shm_inv ck b'"
proof -
  have "on_manager b (\<lambda>s. if is_allocated s (open_fake_fd os) then (s, Ok (- 1))
      else set_handler E s (open_fake_fd os) (Epoll_handler [])) = (b', r)"
    using assms(3) by (simp add: epoll_create_def Let_def)
  with assms(1) show ?thesis
    by (rule on_manager_inv) (auto elim!: set_handler_inv [OF _ E, rotated] split: if_splits)
qed

lemma clear_all_inv:
  assumes "mgr_inv ck s"
  shows "\<exists>s'. clear_all s = (s', Ok ()) \<and> mgr_inv ck s' \<and>
    mgr_handlers s' = replicate (length (mgr_handlers s)) Unused_handler \<and> mgr_shm s' = Map.empty"
  using clear_all_ok [of ck s] assms by (auto simp: mgr_inv_def attrs_ok_def)

lemma session_result:
  assumes "shm_inv ck b" and "bs_manager b = Some s"
  shows "\<exists>b' e. begin_new_session locked b = (b', Ok e) \<and> shm_inv ck b' \<and>
    bs_manager b' = Some \<lparr>mgr_handlers = replicate (length (mgr_handlers s)) Unused_handler,
      mgr_shm = Map.empty\<rparr> \<and>
    bs_epoch_seq b' = map_option (\<lambda>e. u64 (u64 (e + 1) + 1)) (bs_epoch_seq b) \<and>
    (case bs_epoch_seq b' of None \<Rightarrow> e = 0 | Some e' \<Rightarrow> e = e')"
proof -
  from assms have "mgr_inv ck s" by (simp add: shm_inv_def)
  then obtain s' where s': "clear_all s = (s', Ok ())" "mgr_inv ck s'"
    "mgr_handlers s' = replicate (length (mgr_handlers s)) Unused_handler" "mgr_shm s' = Map.empty"
    using clear_all_inv by blast
  have "s' = \<lparr>mgr_handlers = replicate (length (mgr_handlers s)) Unused_handler, mgr_shm = Map.empty\<rparr>"
    using s'(3,4) by (cases s') simp
  with s' assms(2) show ?thesis
    by (auto simp: begin_new_session_def reset_server_state_def bump_epoch_def on_manager_def
      shm_inv_def Let_def split: option.splits)
qed

lemma session_inv:
  assumes "shm_inv ck b" and "begin_new_session locked b = (b', r)"
  shows "shm_inv ck b'"
proof (cases "bs_manager b")
  case None
  with assms show ?thesis
    by (auto simp: begin_new_session_def reset_server_state_def bump_epoch_def shm_inv_def Let_def)
next
  case (Some s)
  with session_result [OF assms(1)] assms(2) show ?thesis by (metis fst_conv)
qed

lemma pid_set_manager:
  "bs_manager (set_syscall_trace_setup locked b pid w) = bs_manager b"
  "bs_manager (fst (add_pid_into_alive_agent_set locked b pid)) = bs_manager b"
  "bs_manager (fst (remove_pid_from_alive_agent_set locked b pid)) = bs_manager b"
  "bs_manager (fst (add_pid_into_alive_syscall_server_set locked b pid)) = bs_manager b"
  "bs_manager (fst (remove_pid_from_alive_syscall_server_set locked b pid)) = bs_manager b"
  by (simp_all add: set_syscall_trace_setup_def add_pid_into_alive_agent_set_def
    remove_pid_from_alive_agent_set_def add_pid_into_alive_syscall_server_set_def
    remove_pid_from_alive_syscall_server_set_def split: option.split)

lemma shm_inv_cong: "bs_manager b' = bs_manager b \<Longrightarrow> shm_inv ck b \<Longrightarrow> shm_inv ck b'"
  by (simp add: shm_inv_def)

lemma close_inv:
  assumes "shm_inv ck b"
  shows "\<exists>b'. close_fd b fd = (b', Ok ()) \<and> shm_inv ck b'"
proof (cases "bs_manager b")
  case (Some s)
  with assms have "mgr_inv ck s" by (simp add: shm_inv_def)
  with clear_id_at_inv [OF this, of fd] Some show ?thesis
    by (auto simp: close_fd_def on_manager_def shm_inv_def)
qed (use assms in \<open>simp add: close_fd_def\<close>)

lemma shm_reach_inv: "shm_run ck b \<Longrightarrow> shm_inv ck b"
proof (induction rule: shm_run.induct)
  case (create n)
  then show ?case
    by (simp add: shm_inv_def bpftime_shm_create_def mgr_inv_def manager_ok_new)
      (simp add: attrs_ok_def handler_manager_new_def)
next
  case map
  show ?case by (rule add_map_inv [OF map.IH map.hyps(2,3)])
next
  case dup
  show ?case by (rule dup_inv [OF dup.IH dup.hyps(2,3)])
next
  case (close b fd b' ru)
  then show ?case using close_inv [of ck b fd] by auto
next
  case prog
  from fill_inv [OF prog.IH prog.hyps(2) prog.hyps(3) [unfolded add_bpf_prog_def]] show ?case by simp
next
  case kprobe
  from fill_inv [OF kprobe.IH kprobe.hyps(2) kprobe.hyps(3) [unfolded add_kprobe_def Let_def]] show ?case by simp
next
  case uprobe
  from fill_inv [OF uprobe.IH uprobe.hyps(2) uprobe.hyps(3) [unfolded add_uprobe_def]] show ?case by simp
next
  case override
  from fill_inv [OF override.IH override.hyps(2) override.hyps(3) [unfolded add_uprobe_override_def]] show ?case by simp
next
  case tracepoint
  from fill_inv [OF tracepoint.IH tracepoint.hyps(2) tracepoint.hyps(3) [unfolded add_tracepoint_def]] show ?case by simp
next
  case software
  from fill_inv [OF software.IH software.hyps(2) software.hyps(3) [unfolded add_software_perf_event_def]] show ?case by simp
next
  case memfd
  from fill_inv [OF memfd.IH memfd.hyps(2) memfd.hyps(3) [unfolded add_memfd_handler_def]] show ?case by simp
next
  case epoll_at
  from epoll_at.hyps(3) epoll_at.IH fill_inv [OF epoll_at.IH epoll_at.hyps(2)] show ?case
    by (fastforce simp: add_epoll_def split: option.splits)
next
  case custom
  show ?case by (rule custom_inv [OF custom.IH custom.hyps(2,3)])
next
  case attach
  show ?case by (rule attach_inv [OF attach.IH attach.hyps(2,3)])
next
  case attach_target
  show ?case by (rule attach_target_inv [OF attach_target.IH attach_target.hyps(3,4,1)])
next
  case link
  show ?case by (rule link_inv [OF link.IH link.hyps(2,3)])
next
  case epoll
  show ?case by (rule epoll_create_inv [OF epoll.IH epoll.hyps(2,3)])
next
  case enable
  show ?case by (rule switch_inv [OF enable.IH enable.hyps(2)])
next
  case epoll_swpe
  show ?case by (rule epoll_swpe_inv [OF epoll_swpe.IH epoll_swpe.hyps(2)])
next
  case epoll_ringbuf
  show ?case by (rule epoll_ringbuf_inv [OF epoll_ringbuf.IH epoll_ringbuf.hyps(2)])
next
  case session
  show ?case by (rule session_inv [OF session.IH session.hyps(2)])
next
  case lookup
  show ?case by (rule on_map_inv [OF lookup.IH lookup.hyps(2) [unfolded bpf_map_lookup_elem_def]]) (rule dispatch_keeps_type)
next
  case update
  show ?case by (rule on_map_inv [OF update.IH update.hyps(2) [unfolded bpf_map_update_elem_def]]) (rule dispatch_keeps_type)
next
  case delete
  show ?case by (rule on_map_inv [OF delete.IH delete.hyps(2) [unfolded bpf_delete_elem_def]]) (rule dispatch_keeps_type)
next
  case push
  show ?case by (rule on_map_inv [OF push.IH push.hyps(2) [unfolded bpf_map_push_elem_def]]) (rule dispatch_keeps_type)
next
  case pop
  show ?case by (rule on_map_inv [OF pop.IH pop.hyps(2) [unfolded bpf_map_pop_elem_def]]) (rule dispatch_keeps_type)
next
  case peek
  show ?case by (rule on_map_inv [OF peek.IH peek.hyps(2) [unfolded bpf_map_peek_elem_def]]) (rule dispatch_keeps_type)
next
  case next_key
  show ?case by (rule on_map_inv [OF next_key.IH next_key.hyps(2) [unfolded bpf_map_get_next_key_def]]) (rule dispatch_keeps_type)
qed (rule shm_inv_cong, rule pid_set_manager, assumption)+

section \<open>What the table guarantees\<close>

lemma reach_mgr: "shm_run ck b \<Longrightarrow> bs_manager b = Some s \<Longrightarrow> mgr_inv ck s"
  using shm_reach_inv [of ck b] by (simp add: shm_inv_def)

lemma reach_seg: "shm_reach b \<Longrightarrow> bs_manager b = Some s \<Longrightarrow> seg_ok (maps_of (mgr_handlers s)) (mgr_shm s)"
  using reach_mgr [of False b s] by (simp add: mgr_inv_def manager_ok_def)

lemma reach_ptrs:
  assumes "shm_reach b" and "bs_manager b = Some s" and "map_handler_at b fd = Some h"
  shows "ptrs_ok (maps_of (mgr_handlers s)) (mgr_shm s) h"
  using seg_ok_ptrs [OF reach_seg [OF assms(1,2)]] map_handler_at_mem [OF assms(3,2)]
  by (simp add: maps_of_mem)

text \<open>C13: In every state that calls can reach, a map fd points to a live object whose class is
  the one its type selects in the dispatch, or (after a failed \<open>map_init\<close>) to nothing: no
  \<open>static_cast\<close> meets an object of another class or freed memory.
\<close>

theorem map_fd_well_typed:
  assumes "shm_reach b" and "bs_manager b = Some s" and "map_handler_at b fd = Some h"
  shows "mh_impl_ptr h = None \<or>
    (\<exists>a i. mh_impl_ptr h = Some a \<and> mgr_shm s a = Some (Impl i) \<and> class_of i = mh_type h)"
  using ptrs_okD(1) [OF reach_ptrs [OF assms]] impl_has_class
  by (cases "mh_impl_ptr h") (fastforce dest: impl_has_class)+

lemma uses_maps_of:
  "uses P (maps_of hs) = length (filter (\<lambda>hv. case hv of Map_handler h \<Rightarrow> P h | _ \<Rightarrow> False) hs)"
proof (induction hs)
  case (Cons hv hs)
  then show ?case by (cases hv) (simp_all add: maps_of_def)
qed (simp add: maps_of_def)

lemma uses_pos: "0 < uses P H \<longleftrightarrow> (\<exists>h\<in>#H. P h)"
  using uses_0 [of P H] by (auto simp: neq0_conv [symmetric])

text \<open>C14: The reference count of a shared map is the number of fds on it, and an object of the
  segment is always owned by some fd: nothing is freed early and nothing leaks.
\<close>

theorem map_refcount_exact:
  assumes "shm_reach b" and "bs_manager b = Some s"
  shows "(\<forall>fd h r. map_handler_at b fd = Some h \<and> mh_refcnt_ptr h = Some r \<longrightarrow>
      mgr_shm s r = Some (Refcnt (length (filter
        (\<lambda>hv. case hv of Map_handler h' \<Rightarrow> mh_impl_ptr h' = mh_impl_ptr h | _ \<Rightarrow> False) (mgr_handlers s))))) \<and>
    (\<forall>a i. mgr_shm s a = Some (Impl i) \<longrightarrow> (\<exists>fd h. map_handler_at b fd = Some h \<and> mh_impl_ptr h = Some a))"
proof (intro conjI allI impI, goal_cases)
  case (1 fd h r)
  then have h: "map_handler_at b fd = Some h" and r: "mh_refcnt_ptr h = Some r" by simp_all
  note ok = reach_seg [OF assms] and p = reach_ptrs [OF assms h]
  obtain n where n: "mgr_shm s r = Some (Refcnt n)" using ptrs_okD(2) [OF p r] by blast
  obtain a where a: "mh_impl_ptr h = Some a" using ptrs_okD(5) [OF p] r by (cases "mh_impl_ptr h") auto
  have "n = uses (counts r) (maps_of (mgr_handlers s))" using seg_ok_count [OF ok n] by simp
  also have "\<dots> = uses (points a) (maps_of (mgr_handlers s))"
    unfolding uses_def using ptrs_okD(4) [OF p a r] by (metis (mono_tags, lifting) filter_mset_cong0)
  also have "points a = (\<lambda>h'. mh_impl_ptr h' = mh_impl_ptr h)"
    using a by (simp add: points_def fun_eq_iff)
  finally show ?case using n by (simp add: uses_maps_of)
next
  case (2 a i)
  from seg_ok_impl [OF reach_seg [OF assms] this] obtain h
    where "Map_handler h \<in> set (mgr_handlers s)" "mh_impl_ptr h = Some a"
    by (auto simp: uses_pos maps_of_mem points_def)
  then obtain k where "k < length (mgr_handlers s)" "mgr_handlers s ! k = Map_handler h"
    by (auto simp: in_set_conv_nth)
  then have "map_handler_at b (int k) = Some h"
    using assms(2) by (simp add: map_handler_at_def handler_at_def in_table_def)
  with \<open>mh_impl_ptr h = Some a\<close> show ?case by blast
qed

text \<open>C17: A link in the table names a program that is in the table, whatever calls were made:
  closing a program closes its links. When no call was a direct one of
  \<open>add_bpf_prog_attach_target\<close>, which is documented not to check the perf event, a link made for a
  perf event also names a perf event that is in the table: closing an event closes its links.
\<close>

theorem link_endpoints_exist:
  assumes "shm_run checked b" and "handler_at b fd = Some (Link_handler l)"
  shows "is_prog_fd b (lk_prog_id l) \<and>
    (checked \<longrightarrow> perf_link l \<longrightarrow> is_perf_fd b (lk_attach_target_id l))"
proof (cases "bs_manager b")
  case None
  with assms(2) show ?thesis by (simp add: handler_at_def)
next
  case (Some s)
  note at = handler_atD [OF assms(2) Some]
  then have "Link_handler l \<in> set (mgr_handlers s)" using in_table_nth nth_mem by metis
  with reach_mgr [OF assms(1) Some] have "link_ok checked (mgr_handlers s) l"
    by (simp add: mgr_inv_def manager_ok_def links_ok_def)
  then show ?thesis using Some
    by (auto simp: link_ok_def prog_at_def perf_at_def is_prog_fd_def is_perf_fd_def handler_at_def
      in_table_def)
qed

text \<open>C16: Starting a session always returns, empties the table, gives every object and count
  back to the segment, and advances the epoch by two, so that its parity is kept.
\<close>

theorem session_frees_everything:
  assumes "shm_reach b" and "bs_manager b = Some s" and "bs_epoch_seq b = Some e"
  shows "\<exists>b' e'. begin_new_session locked b = (b', Ok e') \<and>
    bs_manager b' = Some \<lparr>mgr_handlers = replicate (length (mgr_handlers s)) Unused_handler,
      mgr_shm = Map.empty\<rparr> \<and>
    bs_epoch_seq b' = Some e' \<and> e' = u64 (e + 2) \<and> (even e' \<longleftrightarrow> even e)"
proof -
  have "u64 (u64 (e + 1) + 1) = u64 (e + 2)" by (simp add: u64_def mod_Suc_eq)
  moreover have "even (u64 (e + 2)) \<longleftrightarrow> even e"
  proof -
    have "even (n mod 2 ^ 64) \<longleftrightarrow> even n" for n :: nat by (rule dvd_mod_iff) simp
    then show ?thesis by (simp add: u64_def del: power_numeral)
  qed
  ultimately show ?thesis
    using session_result [OF shm_reach_inv [OF assms(1)] assms(2), of locked] assms(3) by auto
qed

section \<open>Duplicated fds\<close>

text \<open>Handlers of one builtin type answer alike, and an operation leaves the table as it is.\<close>

lemma lookup_same_type:
  assumes "mh_type d = mh_type h" and "impl_has_type (mh_type h) i"
  shows "map_lookup_elem E d key sys (Some i) = map_lookup_elem E h key sys (Some i)"
  using assms by (cases "mh_type h") (simp_all add: map_lookup_elem_def impl_has_type_def)

lemma on_impl_handlers: "on_impl g h s = (s', x) \<Longrightarrow> mgr_handlers s' = mgr_handlers s"
  by (auto simp: on_impl_def split: option.splits prod.splits cell.splits)

lemma on_map_handlers: "on_map b fd f = (b', r) \<Longrightarrow> handler_at b' = handler_at b"
  by (cases "map_handler_at b fd"; cases "bs_manager b")
    (auto simp: on_map_def try_get_map_handler_def on_manager_def handler_at_def in_table_def
      fun_eq_iff split: prod.splits dest!: on_impl_handlers)

lemma table_env_cong: "handler_at b' = handler_at b \<Longrightarrow> table_env E b' = table_env E b"
  by (simp add: table_env_def is_prog_fd_def fun_eq_iff)

lemma lookup_by_object:
  assumes "bs_manager b = Some s" and "map_handler_at b fd = Some h" and "mh_impl_ptr h = Some a"
    and "mgr_shm s a = Some (Impl i)"
  shows "snd (bpf_map_lookup_elem E b fd key sys) = snd (map_lookup_elem (table_env E b) h key sys (Some i))"
  using assms
  by (auto simp: bpf_map_lookup_elem_def on_map_def try_get_map_handler_def on_manager_def on_impl_def
    split: prod.splits option.splits)

lemma replace_handler_shrinks:
  assumes "replace_handler s fd = (t, Ok ())"
  shows "shrinks (mgr_handlers s) (mgr_handlers t) \<and> in_table s fd"
  using assms clear_id_at_shrinks [of s fd] shrinks_refl
  by (auto simp: replace_handler_def get_handler_def split: if_splits)

lemma dup_share_result:
  assumes "can_share_map_impl h" and "dup_share E fd h t = (s', Ok fd')"
    and "\<not> is_allocated t fd" and "in_table t fd" and "mh_type h = attr_type (mh_attr h)"
  shows "fd' = fd \<and> (\<exists>d. mgr_handlers s' = (mgr_handlers t)[nat fd := Map_handler d] \<and>
    mh_impl_ptr d = mh_impl_ptr h \<and> mh_refcnt_ptr d = mh_refcnt_ptr h \<and> mh_type d = mh_type h)"
proof -
  let ?d = "share_map_impl_from (bpf_map_handler_new fd (mh_name h) (mh_attr h)) h"
  obtain shm' x where x: "inc_map_refcount h (mgr_shm t) = (shm', x)" by fastforce
  have "x = Ok ()" using assms(1,2) x by (cases x) (auto simp: dup_share_def)
  moreover have "has_map_impl ?d"
    using assms(1) by (simp add: has_map_impl_def can_share_map_impl_def share_map_impl_from_def)
  ultimately have "fd' = fd" "mgr_handlers s' = (mgr_handlers t)[nat fd := Map_handler ?d]"
    using assms x by (auto simp: dup_share_def set_handler_def is_allocated_def in_table_def put_handler_def)
  moreover have "mh_impl_ptr ?d = mh_impl_ptr h" "mh_refcnt_ptr ?d = mh_refcnt_ptr h" "mh_type ?d = mh_type h"
    using assms(5) by (simp_all add: share_map_impl_from_def bpf_map_handler_new_def)
  ultimately show ?thesis by blast
qed

lemma dup_result:
  assumes inv: "shm_inv ck b" and h: "map_handler_at b oldfd = Some h" and share: "can_share_map_impl h"
    and res: "dup_bpf_map E os b oldfd newfd = (b', Ok fd)"
  shows "fd \<noteq> oldfd \<and> map_handler_at b' oldfd = Some h \<and> (\<exists>d. map_handler_at b' fd = Some d \<and>
    mh_impl_ptr d = mh_impl_ptr h \<and> mh_refcnt_ptr d = mh_refcnt_ptr h \<and> mh_type d = mh_type h)"
proof -
  obtain s where s: "bs_manager b = Some s"
    using h by (cases "bs_manager b") (auto simp: map_handler_at_def handler_at_def)
  let ?fd = "fd_or_fake os newfd"
  obtain s' where s': "then_do (replace_handler s ?fd) (dup_from E oldfd ?fd) = (s', Ok fd)"
    "b' = b\<lparr>bs_manager := Some s'\<rparr>"
    using res h s by (auto simp: dup_bpf_map_def is_map_fd_def on_manager_def Let_def split: prod.splits)
  obtain t rt where t: "replace_handler s ?fd = (t, rt)" by fastforce
  have ok: "rt = Ok ()" "dup_from E oldfd ?fd t = (s', Ok fd)"
    using s'(1) t by (cases rt; auto simp: then_do_def)+
  have mt: "mgr_inv ck t" "\<not> is_allocated t ?fd" "in_table t ?fd"
    using replace_handler_inv [OF _ t] inv s ok(1) by (auto simp: shm_inv_def)
  have old: "in_table s oldfd" "mgr_handlers s ! nat oldfd = Map_handler h"
    using h s by (auto simp: map_handler_at_def handler_at_def split: if_splits handler_variant.splits)
  have shr: "shrinks (mgr_handlers s) (mgr_handlers t)"
    using replace_handler_shrinks t ok(1) by blast
  then have "mgr_handlers t ! nat oldfd = Map_handler h \<or> mgr_handlers t ! nat oldfd = Unused_handler"
    using old in_table_nth [OF old(1)] by (auto simp: shrinks_def)
  with ok(2) have told: "mgr_handlers t ! nat oldfd = Map_handler h" "in_table t oldfd"
    using shr old(1) by (auto simp: dup_from_def get_handler_def shrinks_def in_table_def)
  then have ty: "mh_type h = attr_type (mh_attr h)"
    using mt(1) in_table_nth [of t oldfd] nth_mem [of "nat oldfd" "mgr_handlers t"]
    by (simp add: mgr_inv_def attrs_ok_def)
  have neq: "?fd \<noteq> oldfd" using told mt(2,3) by (auto simp: is_allocated_def)
  have "dup_share E ?fd h t = (s', Ok fd)"
    using ok(2) told by (simp add: dup_from_def get_handler_def)
  from dup_share_result [OF share this mt(2,3) ty] obtain d where d: "fd = ?fd"
    "mgr_handlers s' = (mgr_handlers t)[nat ?fd := Map_handler d]" "mh_impl_ptr d = mh_impl_ptr h"
    "mh_refcnt_ptr d = mh_refcnt_ptr h" "mh_type d = mh_type h"
    by blast
  have "nat ?fd \<noteq> nat oldfd" using neq mt(3) told(2) by (auto simp: in_table_def)
  then show ?thesis
    using d s'(2) told mt(3) neq
    by (auto simp: map_handler_at_def handler_at_def in_table_def)
qed

text \<open>Closing one of two fds on a map leaves the map to the other.\<close>

lemma destroy_impl_cases:
  "fst (destroy_impl h a shm) = shm \<or> fst (destroy_impl h a shm) = shm(a := None)"
  by (cases "mh_type h"; cases "shm a")
    (simp_all add: destroy_impl_def split: cell.split)

lemma map_free_object:
  assumes "map_free h shm = (h', shm', r)"
  shows "shm' a = shm a \<or> (\<forall>i. shm' a \<noteq> Some (Impl i))"
proof -
  have "fst (destroy_impl h c m) a = m a \<or> fst (destroy_impl h c m) a = None" for c m
    using destroy_impl_cases [of h c m] by (cases "a = c") auto
  then have d: "m' a = m a \<or> m' a = None" if "destroy_impl h c m = (m', x)" for c m m' x
    using that by (metis fst_conv)
  from assms consider "shm' = shm" | c x where "destroy_impl h c shm = (shm', x)"
    | q n where "shm' = shm(q \<mapsto> Refcnt n)" | c q x where "destroy_impl h c (shm(q := None)) = (shm', x)"
    by (auto simp: map_free_def Let_def split: option.splits cell.splits if_splits)
  then show ?thesis
  proof cases
    case (2 c x)
    from d [OF this] show ?thesis by auto
  next
    case (4 c q x)
    from d [OF this] show ?thesis by (auto split: if_splits)
  qed auto
qed

lemma close_other:
  assumes inv: "shm_inv ck b" and h: "map_handler_at b oldfd = Some h" and d: "map_handler_at b fd = Some d"
    and "fd \<noteq> oldfd" and a: "mh_impl_ptr d = Some a" and s: "bs_manager b = Some s"
  shows "\<exists>b' s'. close_fd b oldfd = (b', Ok ()) \<and> bs_manager b' = Some s' \<and>
    map_handler_at b' fd = Some d \<and> mgr_shm s' a = mgr_shm s a \<and> is_prog_fd b' = is_prog_fd b"
proof -
  from inv s have ms: "mgr_inv ck s" by (simp add: shm_inv_def)
  have old: "in_table s oldfd" "mgr_handlers s ! nat oldfd = Map_handler h"
    and new: "in_table s fd" "mgr_handlers s ! nat fd = Map_handler d"
    using h d s by (auto simp: map_handler_at_def handler_at_def split: if_splits handler_variant.splits)
  obtain s' where s': "clear_id_at s oldfd = (s', Ok ())" "mgr_inv ck s'"
    using clear_id_at_inv [OF ms] by blast
  obtain h' shm' where f: "map_free h (mgr_shm s) = (h', shm', Ok ())"
    "s' = (put_handler s oldfd Unused_handler)\<lparr>mgr_shm := shm'\<rparr>"
    using s'(1) old by (auto simp: clear_id_at_def split: prod.splits)
  have nth: "mgr_handlers s' ! nat fd = Map_handler d" "in_table s' fd"
    using f(2) new old \<open>fd \<noteq> oldfd\<close> by (auto simp: put_handler_def in_table_def)
  let ?b = "b\<lparr>bs_manager := Some s'\<rparr>"
  have d': "map_handler_at ?b fd = Some d" using nth by (simp add: map_handler_at_def handler_at_def)
  have "Map_handler d \<in> set (mgr_handlers s')" using map_handler_at_mem [OF d'] by simp
  then have "ptrs_ok (maps_of (mgr_handlers s')) (mgr_shm s') d"
    using s'(2) by (intro seg_ok_ptrs) (auto simp: mgr_inv_def manager_ok_def maps_of_mem)
  then obtain i where "mgr_shm s' a = Some (Impl i)" using ptrs_okD(1) a by blast
  then have same: "mgr_shm s' a = mgr_shm s a" using map_free_object [OF f(1), of a] f(2) by auto
  have "is_prog_fd ?b = is_prog_fd b"
  proof
    fix q show "is_prog_fd ?b q = is_prog_fd b q"
      using f(2) s old in_table_nth [OF old(1)]
      by (cases "nat q = nat oldfd")
        (auto simp: is_prog_fd_def handler_at_def in_table_def put_handler_def)
  qed
  with same d' s' s show ?thesis by (auto simp: close_fd_def on_manager_def)
qed

lemma shared_lookup:
  assumes "shm_reach b" and "map_handler_at b oldfd = Some h" and "map_handler_at b fd = Some d"
    and "mh_impl_ptr d = mh_impl_ptr h" and "mh_type d = mh_type h" and "mh_impl_ptr h = Some a"
  shows "snd (bpf_map_lookup_elem E b oldfd k sys) = snd (bpf_map_lookup_elem E b fd k sys)"
proof -
  obtain s where s: "bs_manager b = Some s"
    using assms(2) by (cases "bs_manager b") (auto simp: map_handler_at_def handler_at_def)
  obtain i where i: "mgr_shm s a = Some (Impl i)" "impl_has_type (mh_type h) i"
    using ptrs_okD(1) [OF reach_ptrs [OF assms(1) s assms(2)] assms(6)] by blast
  show ?thesis
    using lookup_by_object [OF s assms(2,6) i(1)] lookup_by_object [OF s assms(3) _ i(1)] assms(4,6)
      lookup_same_type [OF assms(5) i(2)] by simp
qed

text \<open>C15: A duplicate of an fd whose map can be shared, that is, has its object and its reference
  count, is the same map: right after the call both fds give the same answer to every lookup, they
  still do after an update through the new fd, and closing the old fd changes no answer of the new
  one. (A map without a reference count, as older segments have, is not shared: its duplicate is
  an independent map.)
\<close>

theorem dup_alias:
  assumes "shm_reach b" and "alloc_fresh E" and h: "map_handler_at b oldfd = Some h"
    and share: "can_share_map_impl h" and dup: "dup_bpf_map E os b oldfd newfd = (b1, Ok fd)"
    and upd: "bpf_map_update_elem E' b1 fd key val flags sys = (b2, r)" and "r \<noteq> UB"
  shows "snd (bpf_map_lookup_elem E'' b1 oldfd k sys') = snd (bpf_map_lookup_elem E'' b1 fd k sys') \<and>
    snd (bpf_map_lookup_elem E'' b2 oldfd k sys') = snd (bpf_map_lookup_elem E'' b2 fd k sys') \<and>
    (\<exists>b3. close_fd b2 oldfd = (b3, Ok ()) \<and>
      snd (bpf_map_lookup_elem E'' b3 fd k sys') = snd (bpf_map_lookup_elem E'' b2 fd k sys'))"
proof -
  have r1: "shm_reach b1" using shm_run.dup [OF assms(1,2) dup] by simp
  have r2: "shm_reach b2" using shm_run.update [OF r1 upd \<open>r \<noteq> UB\<close>] .
  obtain d where neq: "fd \<noteq> oldfd" and at1: "map_handler_at b1 oldfd = Some h" "map_handler_at b1 fd = Some d"
    and d: "mh_impl_ptr d = mh_impl_ptr h" "mh_type d = mh_type h"
    using dup_result [OF shm_reach_inv [OF assms(1)] h share dup] by blast
  have at2: "map_handler_at b2 oldfd = Some h" "map_handler_at b2 fd = Some d"
    using at1 on_map_handlers [OF upd [unfolded bpf_map_update_elem_def]] by (simp_all add: map_handler_at_def)
  obtain s where s: "bs_manager b2 = Some s"
    using at2 by (cases "bs_manager b2") (auto simp: map_handler_at_def handler_at_def)
  obtain a where a: "mh_impl_ptr h = Some a" using share by (auto simp: can_share_map_impl_def)
  obtain i where i: "mgr_shm s a = Some (Impl i)"
    using ptrs_okD(1) [OF reach_ptrs [OF r2 s at2(1)] a] by blast
  obtain b3 s3 where b3: "close_fd b2 oldfd = (b3, Ok ())" "bs_manager b3 = Some s3"
    "map_handler_at b3 fd = Some d" "mgr_shm s3 a = mgr_shm s a" "is_prog_fd b3 = is_prog_fd b2"
    using close_other [OF shm_reach_inv [OF r2] at2 neq _ s] d a by auto
  have "snd (bpf_map_lookup_elem E'' b3 fd k sys') = snd (bpf_map_lookup_elem E'' b2 fd k sys')"
    using lookup_by_object [OF b3(2,3)] lookup_by_object [OF s at2(2)] d a i b3(4,5)
    by (simp add: table_env_def)
  with b3(1) shared_lookup [OF r1 at1 d a] shared_lookup [OF r2 at2 d a] show ?thesis by blast
qed

section \<open>Edges of the interface\<close>

text \<open>\<open>open_fake_fd\<close> never hands out a standard stream: as the descriptors it opens stay
  open, five answers of the kernel in a row cannot all be 0, 1 or 2.
\<close>

theorem open_fake_fd_not_stdio:
  assumes "inj_on os {..<5}"
  shows "open_fake_fd os < 0 \<or> 2 < open_fake_fd os"
proof (rule ccontr)
  assume no: "\<not> ?thesis"
  have "os k \<in> {0..2}" if "k < 5" for k
  proof -
    have "k = 0 \<or> k = 1 \<or> k = 2 \<or> k = 3 \<or> k = 4" using that by linarith
    then show ?thesis using no
      by (elim disjE) (auto simp: open_fake_fd_def eval_nat_numeral split: if_splits)
  qed
  then have "os ` {..<5} \<subseteq> {0..2}" by auto
  then have "card (os ` {..<5}) \<le> card {0..2 :: int}" by (intro card_mono) auto
  with card_image [OF assms] show False by simp
qed

text \<open>An fd beyond the table is refused by the map operations and ignored by \<open>close_fd\<close>, but
  creating a map or a program there writes outside the table.
\<close>

theorem fd_beyond_table:
  assumes "bs_manager b = Some s" and "0 \<le> fd" and "\<not> in_table s fd"
  shows "bpf_map_lookup_elem E b fd key sys = (b, Err ENOENT) \<and>
    bpf_map_update_elem E b fd key val flags sys = (b, Err ENOENT) \<and>
    close_fd b fd = (b, Ok ()) \<and>
    add_bpf_map E os b fd name attr = (b, UB) \<and>
    add_bpf_prog E os b fd insns name ptype = (b, UB)"
proof -
  have "map_handler_at b fd = None" using assms by (simp add: map_handler_at_def handler_at_def)
  moreover have "fd_or_fake os fd = fd" using assms(2) by (simp add: fd_or_fake_def)
  moreover have "b\<lparr>bs_manager := Some s\<rparr> = b" using assms(1) by simp
  ultimately show ?thesis using assms
    by (simp add: bpf_map_lookup_elem_def bpf_map_update_elem_def on_map_def try_get_map_handler_def
      close_fd_def on_manager_def clear_id_at_def add_bpf_map_def then_do_def replace_handler_def
      get_handler_def add_bpf_prog_def set_handler_def is_allocated_def)
qed

text \<open>Creating a ring buffer whose size is not a power of two reports success: \<open>set_handler\<close>
  drops the \<open>-1\<close> of \<open>map_init\<close>, and the next lookup on the fd goes through a null pointer.
\<close>

theorem bad_ringbuf_reported_created:
  assumes "shm_reach b" and "bs_manager b = Some s" and "in_table s fd"
    and "attr_type attr = BPF_MAP_TYPE_RINGBUF" and "\<nexists>k. attr_max_ents attr = 2 ^ k"
  shows "\<exists>b'. add_bpf_map E os b fd name attr = (b', Ok fd) \<and>
    snd (bpf_map_lookup_elem E' b' fd key sys) = UB"
proof -
  have fd: "fd_or_fake os fd = fd" using assms(3) by (simp add: in_table_def fd_or_fake_def)
  obtain t rt where t: "replace_handler s fd = (t, rt)" by fastforce
  have rt: "rt = Ok ()"
    using t assms(3) clear_id_at_inv [OF reach_mgr [OF assms(1,2)], of fd]
    by (auto simp: replace_handler_def get_handler_def split: if_splits)
  note free = replace_handler_inv [OF reach_mgr [OF assms(1,2)] t]
  have "pop_cnt (attr_max_ents attr) \<noteq> 1" using assms(5) pop_cnt_1 by blast
  then have "map_init E (bpf_map_handler_new fd name attr) shm =
      (bpf_map_handler_new fd name attr, shm, Ok (- 1))" for shm
    using assms(4) by (simp add: map_init_def bpf_map_handler_new_def Let_def)
  then have "set_handler E t fd (Map_handler (bpf_map_handler_new fd name attr)) =
      (put_handler t fd (Map_handler (bpf_map_handler_new fd name attr)), Ok fd)"
    using free rt
    by (simp add: set_handler_def has_map_impl_def bpf_map_handler_new_def put_handler_def)
  then have "add_bpf_map E os b fd name attr =
      (b\<lparr>bs_manager := Some (put_handler t fd (Map_handler (bpf_map_handler_new fd name attr)))\<rparr>, Ok fd)"
    using assms(2) fd t rt by (simp add: add_bpf_map_def on_manager_def then_do_def)
  moreover have "in_table t fd" using free rt by simp
  ultimately show ?thesis
    using assms(4) in_table_nth [of t fd]
    by (simp add: bpf_map_lookup_elem_def on_map_def try_get_map_handler_def map_handler_at_def
      handler_at_def in_table_def put_handler_def on_manager_def on_impl_def map_lookup_elem_def
      bpf_map_handler_new_def static_cast_def)
qed

text \<open>Duplicating a map fd onto itself reads the handler after \<open>clear_id_at\<close> destroyed it.
\<close>

theorem dup_onto_itself:
  assumes "shm_reach b" and "is_map_fd b fd"
  shows "snd (dup_bpf_map E os b fd fd) = UB"
proof -
  obtain h s where h: "map_handler_at b fd = Some h" and s: "bs_manager b = Some s"
    using assms(2) by (cases "bs_manager b") (auto simp: is_map_fd_def map_handler_at_def handler_at_def)
  have tab: "in_table s fd"
    using h s by (auto simp: map_handler_at_def handler_at_def split: if_splits)
  then have fd: "fd_or_fake os fd = fd" by (simp add: in_table_def fd_or_fake_def)
  obtain t rt where t: "replace_handler s fd = (t, rt)" by fastforce
  have "rt = Ok ()"
    using t tab clear_id_at_inv [OF reach_mgr [OF assms(1) s], of fd]
    by (auto simp: replace_handler_def get_handler_def split: if_splits)
  then show ?thesis
    using replace_handler_inv [OF reach_mgr [OF assms(1) s] t] assms(2) fd s t
    by (simp add: dup_bpf_map_def on_manager_def then_do_def dup_from_def get_handler_def is_allocated_def)
qed

text \<open>The epoch that a reader takes as stable is even and was the same in two loads in a
  row, so no session was being started between them.
\<close>

theorem epoch_read_stable:
  assumes "read_epoch_loop tries loads k = e" and "e \<noteq> BPFTIME_EPOCH_SEQ_UNSTABLE"
  shows "even e \<and> (\<exists>j\<ge>k. j < k + 2 * tries \<and> loads j = e \<and> loads (Suc j) = e)"
  using assms
proof (induction tries arbitrary: k)
  case (Suc tries)
  consider "odd (loads k)" | "even (loads k)" "loads k = loads (k + 1)"
    | "even (loads k)" "loads k \<noteq> loads (k + 1)" by blast
  then show ?case
  proof cases
    case 1
    with Suc.prems obtain j where "even e" "j \<ge> k + 1" "j < k + 1 + 2 * tries" "loads j = e" "loads (Suc j) = e"
      using Suc.IH [of "k + 1"] by auto
    then show ?thesis by (intro conjI exI [of _ j]) auto
  next
    case 2
    with Suc.prems show ?thesis by (intro conjI exI [of _ k]) auto
  next
    case 3
    with Suc.prems obtain j where "even e" "j \<ge> k + 2" "j < k + 2 + 2 * tries" "loads j = e" "loads (Suc j) = e"
      using Suc.IH [of "k + 2"] by auto
    then show ?thesis by (intro conjI exI [of _ j]) auto
  qed
qed simp

section \<open>A concrete table\<close>

text \<open>
  A table of five slots: an array map of two one-byte values at fd 0, duplicated to fd 1, a
  program at fd 2, a probe at fd 3 and the link between them at fd 4. The segment has
  room for one object and its count.
\<close>

type_synonym sample_map = "(bytes \<times> bytes) list"
type_synonym sample_lru = "(bytes \<times> bytes \<times> nat) list"
type_synonym sample_traces = "(nat \<times> nat list) list"

definition sample_kernel :: "bpf_map_type \<Rightarrow> kernel_user_ops" where
  "sample_kernel ty = \<lparr>ku_new = (\<lambda>_. Thrown), ku_lookup = (\<lambda>_. Err EINVAL),
     ku_update = (\<lambda>_ _ _. Err EINVAL), ku_delete = (\<lambda>_. Err EINVAL), ku_next_key = (\<lambda>_. Err EINVAL)\<rparr>"

definition sample_env :: "(sample_map, sample_lru, sample_traces) map_env" where
  "sample_env = \<lparr>env_um = al_ops, env_lru = al_ops, env_st = al_ops, env_ncpu = 2, env_cpu = 0,
     env_page_size = 4096, env_bloom_seed = 1, env_is_prog_fd = (\<lambda>_. False),
     env_get_fd_by_id = (\<lambda>_. - 1), env_get_info_by_fd = (\<lambda>_. Inl EBADF),
     env_kernel = sample_kernel, env_table = (\<lambda>_. no_map_ops),
     env_alloc = (\<lambda>used. if \<not> used 0 then Some 0 else if \<not> used 1 then Some 1 else None), env_allow_non_builtin = False\<rparr>"

lemma sample_alloc_fresh: "alloc_fresh sample_env"
  by (auto simp: alloc_fresh_def sample_env_def split: if_splits)

definition sample_attr :: bpf_map_attr where
  "sample_attr = \<lparr>attr_type = BPF_MAP_TYPE_ARRAY, attr_key_size = 4, attr_value_size = 1,
     attr_max_ents = 2, attr_flags = 0, attr_map_extra = 0\<rparr>"

definition sample_os :: "nat \<Rightarrow> int" where "sample_os k = 4 + int k"

type_synonym sample_shm = "(sample_map, sample_lru, sample_traces) bpftime_shm"

text \<open>The handler at fd 0 after \<open>map_init\<close>, and the one at fd 1, which shares its object.\<close>

definition sample_handler :: "int \<Rightarrow> bpf_map_handler" where
  "sample_handler fd = (bpf_map_handler_new fd ''m'' sample_attr)\<lparr>mh_impl_ptr := Some 0, mh_refcnt_ptr := Some 1\<rparr>"

definition sample_state :: "handler_variant list \<Rightarrow> bytes \<Rightarrow> nat \<Rightarrow> sample_shm" where
  "sample_state hs data n = (bpftime_shm_create 5)\<lparr>bs_manager := Some \<lparr>mgr_handlers = hs,
     mgr_shm = [0 \<mapsto> Impl (Array_impl ((array_map_impl_new 1 2)\<lparr>ar_data := data\<rparr>)), 1 \<mapsto> Refcnt n]\<rparr>\<rparr>"

definition sample_map_only :: sample_shm where
  "sample_map_only = sample_state [Map_handler (sample_handler 0), Unused_handler, Unused_handler,
     Unused_handler, Unused_handler] [0, 0] 1"

lemmas table_simps = on_manager_def then_do_def replace_handler_def get_handler_def in_table_def
  set_handler_def is_allocated_def put_handler_def fd_or_fake_def has_map_impl_def

lemmas init_simps = map_init_def construct_map_def init_refcnt_def live_def bpf_map_handler_new_def

lemma sample_r1:
  "add_bpf_map sample_env sample_os (bpftime_shm_create 5) 0 ''m'' sample_attr = (sample_map_only, Ok 0)"
  by (simp add: add_bpf_map_def bpftime_shm_create_def handler_manager_new_def table_simps init_simps
    sample_env_def sample_attr_def sample_map_only_def sample_state_def sample_handler_def
    array_map_impl_new_def replicate_numeral fun_upd_twist)

definition sample_dup :: sample_shm where
  "sample_dup = sample_state [Map_handler (sample_handler 0), Map_handler (sample_handler 1),
     Unused_handler, Unused_handler, Unused_handler] [0, 0] 2"

lemma sample_r2: "dup_bpf_map sample_env sample_os sample_map_only 0 1 = (sample_dup, Ok 1)"
  by (simp add: dup_bpf_map_def is_map_fd_def map_handler_at_def handler_at_def table_simps dup_from_def
    dup_share_def can_share_map_impl_def inc_map_refcount_def share_map_impl_from_def
    bpf_map_handler_new_def sample_map_only_def sample_dup_def sample_state_def sample_handler_def
    sample_attr_def bpftime_shm_create_def fun_upd_twist numeral_2_eq_2)

definition sample_link :: bpf_link_handler where
  "sample_link = link_of_ids 2 3 None"

definition sample_linked :: sample_shm where
  "sample_linked = sample_state [Map_handler (sample_handler 0), Map_handler (sample_handler 1),
     Prog_handler (bpf_prog_handler_new [149] ''p'' 1),
     Perf_handler (uprobe_handler False 16 1 ''x'' 0), Link_handler sample_link] [0, 0] 2"

lemmas fd_simps = is_prog_fd_def is_perf_fd_def handler_at_def map_handler_at_def

lemma sample_reach: "shm_run ck sample_map_only" "shm_run ck sample_dup" "shm_run ck sample_linked"
proof -
  note E = sample_alloc_fresh
  show m: "shm_run ck sample_map_only"
    by (rule shm_run.map [OF shm_run.create [of 5] E sample_r1]) simp_all
  show d: "shm_run ck sample_dup" by (rule shm_run.dup [OF m E sample_r2]) simp
  let ?maps = "[Map_handler (sample_handler 0), Map_handler (sample_handler 1)]"
  let ?p = "Prog_handler (bpf_prog_handler_new [149] ''p'' 1)"
  let ?u = "Perf_handler (uprobe_handler False 16 1 ''x'' 0)"
  have "add_bpf_prog sample_env sample_os sample_dup 2 [149] ''p'' 1 =
      (sample_state (?maps @ [?p, Unused_handler, Unused_handler]) [0, 0] 2, Ok 2)"
    by (simp add: add_bpf_prog_def table_simps sample_dup_def sample_state_def bpftime_shm_create_def)
  then have p: "shm_run ck (sample_state (?maps @ [?p, Unused_handler, Unused_handler]) [0, 0] 2)"
    using shm_run.prog [OF d E] by blast
  have "add_uprobe sample_env sample_os (sample_state (?maps @ [?p, Unused_handler, Unused_handler]) [0, 0] 2)
      3 1 ''x'' 16 False 0 = (sample_state (?maps @ [?p, ?u, Unused_handler]) [0, 0] 2, Ok 3)"
    by (simp add: add_uprobe_def table_simps sample_state_def bpftime_shm_create_def)
  then have u: "shm_run ck (sample_state (?maps @ [?p, ?u, Unused_handler]) [0, 0] 2)"
    using shm_run.uprobe [OF p E] by blast
  have "attach_perf_to_bpf sample_env sample_os (sample_state (?maps @ [?p, ?u, Unused_handler]) [0, 0] 2)
      3 2 None = (sample_linked, Ok 4)"
    by (simp add: attach_perf_to_bpf_def add_bpf_prog_attach_target_def fd_simps table_simps
      sample_os_def open_fake_fd_def eval_nat_numeral sample_linked_def sample_link_def sample_state_def
      bpftime_shm_create_def)
  then show "shm_run ck sample_linked" using shm_run.attach [OF u E] by blast
qed

lemma sample_at:
  "bs_manager (sample_state hs data n) = Some \<lparr>mgr_handlers = hs,
     mgr_shm = [0 \<mapsto> Impl (Array_impl ((array_map_impl_new 1 2)\<lparr>ar_data := data\<rparr>)), 1 \<mapsto> Refcnt n]\<rparr>"
  "bs_epoch_seq (sample_state hs data n) = Some 0"
  by (simp_all add: sample_state_def bpftime_shm_create_def)

lemma sample_maps:
  "map_handler_at sample_map_only 0 = Some (sample_handler 0)"
  "map_handler_at sample_dup 0 = Some (sample_handler 0)"
  "map_handler_at sample_dup 1 = Some (sample_handler 1)"
  by (simp_all add: fd_simps sample_map_only_def sample_dup_def sample_at in_table_def)

text \<open>Witnesses of the properties above on this table.\<close>

theorem map_fd_well_typed_witness:
  "shm_reach sample_dup \<and> map_handler_at sample_dup 1 = Some (sample_handler 1) \<and>
   (\<exists>a i. mh_impl_ptr (sample_handler 1) = Some a \<and>
     mgr_shm (the (bs_manager sample_dup)) a = Some (Impl i) \<and> class_of i = BPF_MAP_TYPE_ARRAY)"
  using map_fd_well_typed [OF sample_reach(2) _ sample_maps(3)] sample_reach(2) sample_maps(3)
  by (simp add: sample_dup_def sample_at sample_handler_def bpf_map_handler_new_def sample_attr_def)

theorem map_refcount_exact_witness:
  "shm_reach sample_dup \<and> mgr_shm (the (bs_manager sample_dup)) 1 = Some (Refcnt 2)"
  using map_refcount_exact [OF sample_reach(2), of "the (bs_manager sample_dup)"] sample_maps(3) sample_reach(2)
  by (auto simp: sample_dup_def sample_at sample_handler_def)

theorem link_endpoints_exist_witness:
  "shm_run True sample_linked \<and> is_prog_fd sample_linked 2 \<and> is_perf_fd sample_linked 3"
  using link_endpoints_exist [OF sample_reach(3) [of True], of 4 sample_link] sample_reach(3) [of True]
  by (simp add: fd_simps sample_linked_def sample_at in_table_def sample_link_def perf_link_def link_of_ids_def)

theorem session_frees_everything_witness:
  "shm_reach sample_linked \<and> (\<exists>b'. begin_new_session True sample_linked = (b', Ok 2) \<and>
     mgr_shm (the (bs_manager b')) = Map.empty)"
  using session_frees_everything [OF sample_reach(3), of _ 0 True] sample_reach(3)
  by (auto simp: sample_linked_def sample_at)

text \<open>An update of key 1 through fd 1, seen through fd 0.\<close>

definition sample_key :: bytes where "sample_key = [1, 0, 0, 0]"

definition sample_updated :: sample_shm where
  "sample_updated = sample_state [Map_handler (sample_handler 0), Map_handler (sample_handler 1),
     Unused_handler, Unused_handler, Unused_handler] [0, 7] 2"

lemma sample_array_update:
  "array_elem_update ((array_map_impl_new 1 2)\<lparr>ar_data := [0, 0]\<rparr>) sample_key [7] 0 =
   ((array_map_impl_new 1 2)\<lparr>ar_data := [0, 7]\<rparr>, Ok ())"
  by (simp add: array_elem_update_def check_update_flags_def read_u32_def read_at_def write_at_def
    array_map_impl_new_def sample_key_def flag_defs)

lemma sample_update:
  "bpf_map_update_elem sample_env sample_dup 1 (Some sample_key) (Some [7]) 0 True = (sample_updated, Ok 0)"
proof -
  have "mh_type (sample_handler 1) = BPF_MAP_TYPE_ARRAY" "mh_impl_ptr (sample_handler 1) = Some 0"
    by (simp_all add: sample_handler_def bpf_map_handler_new_def sample_attr_def)
  then have "on_manager sample_dup (on_impl (map_update_elem (table_env sample_env sample_dup)
      (sample_handler 1) (Some sample_key) (Some [7]) 0 True) (sample_handler 1)) = (sample_updated, Ok 0)"
    using sample_array_update
    by (simp add: on_manager_def on_impl_def sample_dup_def sample_updated_def sample_at
      map_update_elem_def static_cast_def at_key_def settle_def ret_def sample_state_def fun_upd_twist
      bpftime_shm_create_def)
  then show ?thesis
    by (simp add: bpf_map_update_elem_def on_map_def try_get_map_handler_def sample_maps)
qed

theorem dup_alias_witness:
  "shm_reach sample_map_only \<and>
   snd (bpf_map_lookup_elem sample_env sample_dup 0 (Some sample_key) True) =
   snd (bpf_map_lookup_elem sample_env sample_dup 1 (Some sample_key) True) \<and>
   snd (bpf_map_lookup_elem sample_env sample_updated 0 (Some sample_key) True) =
   snd (bpf_map_lookup_elem sample_env sample_updated 1 (Some sample_key) True)"
  using dup_alias [OF sample_reach(1) sample_alloc_fresh sample_maps(1) _ sample_r2 sample_update,
      of sample_env "Some sample_key" True] sample_reach(1)
  by (simp add: can_share_map_impl_def sample_handler_def)

theorem open_fake_fd_not_stdio_witness: "inj_on int {..<5} \<and> 2 < open_fake_fd int"
proof -
  have "inj_on int {..<5}" by simp
  moreover from open_fake_fd_not_stdio [OF this] have "2 < open_fake_fd int"
    by (simp add: open_fake_fd_def eval_nat_numeral)
  ultimately show ?thesis by blast
qed

theorem fd_beyond_table_witness:
  "add_bpf_prog sample_env sample_os sample_dup 9 [] ''p'' 1 = (sample_dup, UB) \<and>
   close_fd sample_dup 9 = (sample_dup, Ok ())"
  using fd_beyond_table [of sample_dup "the (bs_manager sample_dup)" 9 sample_env None True None 0
      sample_os "''p''" sample_attr "[]" 1]
  by (simp add: sample_dup_def sample_at in_table_def)

theorem bad_ringbuf_reported_created_witness:
  "shm_reach sample_dup \<and> (\<exists>b'. add_bpf_map sample_env sample_os sample_dup 2 ''r''
      (sample_attr\<lparr>attr_type := BPF_MAP_TYPE_RINGBUF, attr_max_ents := 3\<rparr>) = (b', Ok 2) \<and>
    snd (bpf_map_lookup_elem sample_env b' 2 None True) = UB)"
proof -
  have "3 \<noteq> (2 :: nat) ^ k" for k by (cases k) (simp_all, presburger)
  then show ?thesis
    using bad_ringbuf_reported_created [OF sample_reach(2), of "the (bs_manager sample_dup)" 2
        "sample_attr\<lparr>attr_type := BPF_MAP_TYPE_RINGBUF, attr_max_ents := 3\<rparr>" sample_env sample_os "''r''"
        sample_env None True] sample_reach(2)
    by (simp add: sample_dup_def sample_at in_table_def)
qed

theorem dup_onto_itself_witness:
  "shm_reach sample_dup \<and> is_map_fd sample_dup 1 \<and> snd (dup_bpf_map sample_env sample_os sample_dup 1 1) = UB"
  using dup_onto_itself [OF sample_reach(2), of 1] sample_reach(2) sample_maps(3) by (simp add: is_map_fd_def)

theorem epoch_read_stable_witness:
  "read_epoch_loop 3 (\<lambda>k. if k = 0 then 1 else 2) 0 = 2 \<and> even (2 :: nat)"
proof -
  have e: "read_epoch_loop 3 (\<lambda>k. if k = 0 then 1 else 2) 0 = 2" by (simp add: eval_nat_numeral)
  from epoch_read_stable [OF this] e show ?thesis by (simp add: BPFTIME_EPOCH_SEQ_UNSTABLE_def)
qed

end
