(* ===== verification/Perf_Ring.thy ===== *)
theory Perf_Ring
  imports Prelude
begin

text \<open>
  The byte ring behind a software perf event: \<open>software_perf_event_buffer\<close> of
  \<open>perf_event_handler.cpp\<close>, and the reader that user space runs on it, \<open>perf_event_read_simple\<close>
  of \<open>libbpf.c\<close>. The first page holds the header (\<open>data_head\<close>, \<open>data_tail\<close>), the rest is the data
  area, whose size is a power of two; the positions are 64-bit counters that are masked on
  every access. One byte always stays free, so that equal positions mean an empty ring.
  A call is one step; the atomic loads and stores are its reads and writes of the positions.
\<close>

section \<open>The buffer\<close>

record perf_ring =
  pr_pagesize :: nat
  pr_data :: bytes
  pr_copy_buffer :: bytes
  pr_data_offset :: nat
  pr_data_head :: nat
  pr_data_tail :: nat
  pr_data_size :: nat

definition popcnt :: "nat \<Rightarrow> nat" where
  "popcnt = pop_cnt"

definition perf_ring_new :: "nat \<Rightarrow> perf_ring" where
  "perf_ring_new pagesize = \<lparr>pr_pagesize = pagesize, pr_data = [], pr_copy_buffer = [],
     pr_data_offset = pagesize, pr_data_head = 0, pr_data_tail = 0, pr_data_size = 0\<rparr>"

text \<open>\<open>mmap_buffer.size()\<close>, and the part of it after the header page.\<close>

definition mmap_buffer_size :: "perf_ring \<Rightarrow> nat" where
  "mmap_buffer_size b = pr_pagesize b + length (pr_data b)"

definition mmap_size :: "perf_ring \<Rightarrow> nat" where
  "mmap_size b = length (pr_data b)"

definition ring_has_data :: "perf_ring \<Rightarrow> bool" where
  "ring_has_data b \<longleftrightarrow> pr_data_tail b \<noteq> pr_data_head b"

text \<open>\<open>mem size\<close> says whether the segment has room for the resized vector.\<close>

definition ring_ensure_mmap_buffer :: "(nat \<Rightarrow> bool) \<Rightarrow> perf_ring \<Rightarrow> nat \<Rightarrow> perf_ring \<times> unit outcome" where
  "ring_ensure_mmap_buffer mem b buffer_size =
     (if mmap_buffer_size b < buffer_size then
        if buffer_size < pr_pagesize b \<or> popcnt (buffer_size - pr_pagesize b) \<noteq> 1 then (b, Err EINVAL)
        else if \<not> mem buffer_size then (b, Err ENOMEM)
        else (b\<lparr>pr_data := pr_data b @ replicate (buffer_size - mmap_buffer_size b) 0,
               pr_data_size := buffer_size - pr_pagesize b\<rparr>, Ok ())
      else (b, Ok ()))"

section \<open>Copies that wrap around\<close>

definition write_wrapped :: "perf_ring \<Rightarrow> nat \<Rightarrow> bytes \<Rightarrow> perf_ring outcome" where
  "write_wrapped b offset src =
     (let n = mmap_size b; copy_start = offset AND (n - 1) in
      if n = 0 then UB
      else if length src + copy_start \<le> n then
        bind_out (of_option (write_at (pr_data b) copy_start src)) (\<lambda>d. Ok (b\<lparr>pr_data := d\<rparr>))
      else let len_first = n - copy_start in
        bind_out (of_option (write_at (pr_data b) copy_start (take len_first src))) (\<lambda>d.
        bind_out (of_option (write_at d 0 (drop len_first src))) (\<lambda>d. Ok (b\<lparr>pr_data := d\<rparr>))))"

definition read_wrapped :: "perf_ring \<Rightarrow> nat \<Rightarrow> nat \<Rightarrow> bytes outcome" where
  "read_wrapped b offset sz =
     (let n = mmap_size b; copy_start = offset AND (n - 1) in
      if n = 0 then UB
      else if sz + copy_start \<le> n then of_option (read_at (pr_data b) copy_start sz)
      else let len_first = n - copy_start; len_second = sz - len_first in
        bind_out (of_option (read_at (pr_data b) copy_start len_first)) (\<lambda>first.
        bind_out (of_option (read_at (pr_data b) 0 len_second)) (\<lambda>second. Ok (first @ second))))"

section \<open>The producer\<close>

definition append_record_parts :: "perf_ring \<Rightarrow> bytes \<Rightarrow> bytes \<Rightarrow> nat \<Rightarrow> (perf_ring \<times> bool) outcome" where
  "append_record_parts b first second padding_size =
     (let first_size = length first; second_size = length second; n = mmap_size b;
        data_head = pr_data_head b; data_tail = pr_data_tail b in
      if second_size > 18446744073709551615 - first_size \<or>
         padding_size > 18446744073709551615 - first_size - second_size then Ok (b, False)
      else let record_size = first_size + second_size + padding_size in
        if n = 0 \<or> record_size > n then Ok (b, False)
        else let used_size = u64 (data_head + 2 ^ 64 - data_tail) in
          if data_head < data_tail \<or> used_size \<ge> n then Ok (b, False)
          else if n - used_size \<le> record_size then Ok (b, False)
          else bind_out (write_wrapped b data_head first) (\<lambda>b.
            bind_out (if 0 < second_size then write_wrapped b (u64 (data_head + first_size)) second else Ok b)
              (\<lambda>b. Ok (b\<lparr>pr_data_head := u64 (data_head + record_size)\<rparr>, True))))"

definition append_record :: "perf_ring \<Rightarrow> bytes \<Rightarrow> (perf_ring \<times> bool) outcome" where
  "append_record b record = append_record_parts b record [] 0"

definition PERF_RECORD_LOST :: nat where "PERF_RECORD_LOST = 2"
definition PERF_RECORD_SAMPLE :: nat where "PERF_RECORD_SAMPLE = 9"

text \<open>The bytes of \<open>perf_sample_raw\<close>: \<open>type\<close>, \<open>misc\<close> and \<open>size\<close> of the record, then the size of the
  sample.\<close>

definition perf_sample_raw :: "nat \<Rightarrow> bytes" where
  "perf_sample_raw record_size =
     le_bytes 4 PERF_RECORD_SAMPLE @ le_bytes 2 0 @ le_bytes 2 record_size @ le_bytes 4 (record_size - 12)"

definition sample_record_size :: "nat \<Rightarrow> nat" where
  "sample_record_size sz = (12 + sz + 8 - 1) div 8 * 8"

definition ring_output_data :: "perf_ring \<Rightarrow> bytes \<Rightarrow> perf_ring \<times> unit outcome" where
  "ring_output_data b buf =
     (let size = length buf in
      if size > 65535 - 12 - (8 - 1) then (b, Err E2BIG)
      else let record_size = sample_record_size size in
        case append_record_parts b (perf_sample_raw record_size) buf (record_size - 12 - size) of
          Ok (b', _) \<Rightarrow> (b', Ok ())
        | _ \<Rightarrow> (b, UB))"

section \<open>Moving records to another ring\<close>

definition copy_next_record_to ::
  "(nat \<Rightarrow> bool) \<Rightarrow> perf_ring \<Rightarrow> perf_ring \<Rightarrow> perf_ring \<times> perf_ring \<times> bool outcome" where
  "copy_next_record_to mem b dst =
     (let n = mmap_size b; data_tail = pr_data_tail b; data_head = pr_data_head b in
      if n = 0 then (b, dst, Ok False)
      else if data_tail = data_head then (b, dst, Ok False)
      else if data_head < data_tail then (b\<lparr>pr_data_tail := data_head\<rparr>, dst, Ok False)
      else case read_wrapped b data_tail 8 of
        Ok header \<Rightarrow>
          let size = le_nat (take 2 (drop 6 header)) in
          if size < 8 \<or> size > n then (b\<lparr>pr_data_tail := data_head\<rparr>, dst, Ok False)
          else if size > data_head - data_tail then (b, dst, Ok False)
          else if length (pr_copy_buffer b) \<noteq> size \<and> \<not> mem size then (b, dst, Thrown)
          else (case read_wrapped b data_tail size of
              Ok record \<Rightarrow> (case append_record dst record of
                  Ok (dst, True) \<Rightarrow>
                    (b\<lparr>pr_copy_buffer := record, pr_data_tail := data_tail + size\<rparr>, dst, Ok True)
                | Ok (dst, False) \<Rightarrow> (b\<lparr>pr_copy_buffer := record\<rparr>, dst, Ok False)
                | _ \<Rightarrow> (b, dst, UB))
            | _ \<Rightarrow> (b, dst, UB))
      | _ \<Rightarrow> (b, dst, UB))"

text \<open>The loop of \<open>drain_producer_shards\<close> over one shard. A copied record has at least 8 bytes and
  ends before \<open>data_head\<close>, so the loop ends whatever the rings hold.\<close>

lemma copy_next_advances:
  assumes "copy_next_record_to mem b dst = (b', dst', Ok True)"
  shows "pr_data_head b' - pr_data_tail b' < pr_data_head b - pr_data_tail b"
  using assms
  by (auto simp: copy_next_record_to_def Let_def split: if_splits outcome.splits prod.splits bool.splits)

function copy_records ::
  "(nat \<Rightarrow> bool) \<Rightarrow> perf_ring \<Rightarrow> perf_ring \<Rightarrow> perf_ring \<times> perf_ring \<times> unit outcome" where
  "copy_records mem b dst =
     (case copy_next_record_to mem b dst of
        (b', dst', Ok True) \<Rightarrow> copy_records mem b' dst'
      | (b', dst', Ok False) \<Rightarrow> (b', dst', Ok ())
      | (b', dst', Thrown) \<Rightarrow> (b', dst', Thrown)
      | (b', dst', _) \<Rightarrow> (b', dst', UB))"
  by pat_completeness auto

termination
  by (relation "measure (\<lambda>(mem, b, dst). pr_data_head b - pr_data_tail b)")
    (auto dest: copy_next_advances [OF sym])

declare copy_records.simps [simp del]

section \<open>The reader in user space\<close>

datatype perf_event_ret = LIBBPF_PERF_EVENT_DONE | LIBBPF_PERF_EVENT_ERROR | LIBBPF_PERF_EVENT_CONT

text \<open>What the callbacks get: \<open>event_cb\<close> the record, \<open>sample_cb\<close> the raw sample, \<open>lost_cb\<close> a count. A
  pointer into the ring or the copy is the list of the bytes from there on.\<close>

datatype perf_report = Event bytes | Sample bytes | Lost nat

definition perf_buffer_process_record ::
  "(bytes \<Rightarrow> perf_event_ret) option \<Rightarrow> bytes \<Rightarrow> (perf_report list \<times> perf_event_ret) outcome" where
  "perf_buffer_process_record event_cb e =
     (case event_cb of
        Some cb \<Rightarrow> Ok ([Event e], cb e)
      | None \<Rightarrow> bind_out (of_option (read_at e 0 4)) (\<lambda>ty.
          if le_nat ty = PERF_RECORD_SAMPLE then
            bind_out (of_option (read_at e 8 4)) (\<lambda>size.
            bind_out (of_option (read_at e 12 (le_nat size))) (\<lambda>sample.
              Ok ([Sample sample], LIBBPF_PERF_EVENT_CONT)))
          else if le_nat ty = PERF_RECORD_LOST then
            bind_out (of_option (read_at e 16 8)) (\<lambda>lost.
              Ok ([Lost (le_nat lost)], LIBBPF_PERF_EVENT_CONT))
          else Ok ([], LIBBPF_PERF_EVENT_ERROR)))"

text \<open>The copy of a record that crosses the end of the data area; \<open>malloc\<close> gives the new block
  or fails.\<close>

definition copy_crossing ::
  "(nat \<Rightarrow> bytes option) \<Rightarrow> bytes \<Rightarrow> nat \<Rightarrow> nat \<Rightarrow> bytes \<Rightarrow> bytes option outcome" where
  "copy_crossing malloc d start ehdr_size copy_mem =
     (let len_first = length d - start; len_secnd = ehdr_size - len_first in
      case (if length copy_mem < ehdr_size then malloc ehdr_size else Some copy_mem) of
        None \<Rightarrow> Ok None
      | Some m \<Rightarrow>
          bind_out (of_option (read_at d start len_first)) (\<lambda>first.
          bind_out (of_option (write_at m 0 first)) (\<lambda>m.
          bind_out (of_option (read_at d 0 len_secnd)) (\<lambda>second.
          bind_out (of_option (write_at m len_first second)) (\<lambda>m. Ok (Some m))))))"

definition read_step ::
  "(bytes \<Rightarrow> perf_event_ret) option \<Rightarrow> (nat \<Rightarrow> bytes option) \<Rightarrow> bytes \<Rightarrow> nat \<Rightarrow> bytes \<Rightarrow>
    (nat \<times> bytes \<times> perf_report list \<times> perf_event_ret) outcome" where
  "read_step event_cb malloc d data_tail copy_mem =
     (let start = data_tail AND (length d - 1) in
      bind_out (of_option (read_at d (start + 6) 2)) (\<lambda>size.
        let ehdr_size = le_nat size in
        if start + ehdr_size > length d then
          bind_out (copy_crossing malloc d start ehdr_size copy_mem) (\<lambda>copied. case copied of
              None \<Rightarrow> Ok (data_tail, [], [], LIBBPF_PERF_EVENT_ERROR)
            | Some m \<Rightarrow> bind_out (perf_buffer_process_record event_cb m) (\<lambda>(reports, res).
                Ok (u64 (data_tail + ehdr_size), m, reports, res)))
        else bind_out (perf_buffer_process_record event_cb (drop start d)) (\<lambda>(reports, res).
          Ok (u64 (data_tail + ehdr_size), copy_mem, reports, res))))"

text \<open>The loop does not end on a record of size 0; then its value is \<open>None\<close>.\<close>

partial_function (option) read_loop ::
  "(bytes \<Rightarrow> perf_event_ret) option \<Rightarrow> (nat \<Rightarrow> bytes option) \<Rightarrow> bytes \<Rightarrow> nat \<Rightarrow> nat \<Rightarrow> bytes \<Rightarrow>
    perf_report list \<Rightarrow> (nat \<times> bytes \<times> perf_report list \<times> perf_event_ret) outcome option" where
  [code]: "read_loop event_cb malloc d data_head data_tail copy_mem reports =
     (if data_head = data_tail then Some (Ok (data_tail, copy_mem, reports, LIBBPF_PERF_EVENT_CONT))
      else case read_step event_cb malloc d data_tail copy_mem of
        Ok r \<Rightarrow>
          if snd (snd (snd r)) = LIBBPF_PERF_EVENT_CONT
          then read_loop event_cb malloc d data_head (fst r) (fst (snd r)) (reports @ fst (snd (snd r)))
          else Some (Ok (fst r, fst (snd r), reports @ fst (snd (snd r)), snd (snd (snd r))))
      | _ \<Rightarrow> Some UB)"

definition perf_event_read_simple ::
  "(bytes \<Rightarrow> perf_event_ret) option \<Rightarrow> (nat \<Rightarrow> bytes option) \<Rightarrow> perf_ring \<Rightarrow> bytes \<Rightarrow>
    (perf_ring \<times> bytes \<times> perf_report list \<times> perf_event_ret) outcome option" where
  "perf_event_read_simple event_cb malloc b copy_mem =
     (case read_loop event_cb malloc (pr_data b) (pr_data_head b) (pr_data_tail b) copy_mem [] of
        None \<Rightarrow> None
      | Some (Ok (data_tail, copy_mem, reports, res)) \<Rightarrow>
          Some (Ok (b\<lparr>pr_data_tail := data_tail\<rparr>, copy_mem, reports, res))
      | Some _ \<Rightarrow> Some UB)"

section \<open>The bytes of the ring\<close>

text \<open>The \<open>k\<close> bytes from position \<open>p\<close> on, and what a wrapped write leaves there.\<close>

definition ring_bytes :: "bytes \<Rightarrow> nat \<Rightarrow> nat \<Rightarrow> bytes" where
  "ring_bytes d p k = map (\<lambda>i. d ! ((p + i) mod length d)) [0..<k]"

lemma length_ring_bytes [simp]: "length (ring_bytes d p k) = k"
  by (simp add: ring_bytes_def)

lemma ring_bytes_nth: "i < k \<Longrightarrow> ring_bytes d p k ! i = d ! ((p + i) mod length d)"
  by (simp add: ring_bytes_def)

lemma ring_bytes_split: "ring_bytes d p (j + k) = ring_bytes d p j @ ring_bytes d (p + j) k"
  by (rule nth_equalityI) (auto simp: ring_bytes_nth nth_append add.assoc)

lemma ring_bytes_cat:
  assumes "ring_bytes d p n = xs @ ys" 
  shows "ring_bytes d p (length xs) = xs" and "ring_bytes d (p + length xs) (n - length xs) = ys"
proof -
  have n: "n = length xs + length ys" using assms by (metis length_append length_ring_bytes)
  then have "ring_bytes d p (length xs) @ ring_bytes d (p + length xs) (length ys) = xs @ ys"
    using assms by (simp add: ring_bytes_split)
  then have "ring_bytes d p (length xs) = xs \<and> ring_bytes d (p + length xs) (length ys) = ys"
    by (subst (asm) append_eq_append_conv) simp_all
  then show "ring_bytes d p (length xs) = xs" "ring_bytes d (p + length xs) (n - length xs) = ys"
    using n by simp_all
qed

lemma mod_twice: "k < 2 * n \<Longrightarrow> k mod n = (if k < n then k else k - (n::nat))"
  using le_mod_geq [of n k] by auto

lemma ring_index:
  assumes "i < (n::nat)"
  shows "(p + i) mod n = (if p mod n + i < n then p mod n + i else p mod n + i - n)"
proof -
  have "p mod n < n" using assms by simp
  then have "p mod n + i < 2 * n" using assms by linarith
  from mod_twice [OF this] show ?thesis by (simp only: mod_add_left_eq)
qed

lemma ring_bytes_flat:
  assumes "p mod length d + k \<le> length d"
  shows "ring_bytes d p k = take k (drop (p mod length d) d)"
proof (rule nth_equalityI)
  fix i assume "i < length (ring_bytes d p k)"
  then have i: "i < k" by simp
  then have "(p + i) mod length d = p mod length d + i"
    using assms ring_index [of i "length d" p] by simp
  then show "ring_bytes d p k ! i = take k (drop (p mod length d) d) ! i"
    using i assms by (simp add: ring_bytes_nth)
qed (use assms in simp)

lemma ring_bytes_wrap:
  assumes n: "length d = n" and s: "p mod n = s" "s < n" and k: "n < s + k" "k \<le> n"
  shows "ring_bytes d p k = drop s d @ take (k - (n - s)) d"
proof -
  have "k = (n - s) + (k - (n - s))" using k s by simp
  then have "ring_bytes d p k = ring_bytes d p (n - s) @ ring_bytes d (p + (n - s)) (k - (n - s))"
    by (metis ring_bytes_split)
  moreover have "(p + (n - s)) mod n = 0"
  proof -
    have "(p + (n - s)) mod n = (s + (n - s)) mod n" unfolding s(1) [symmetric] by (rule mod_add_left_eq [symmetric])
    then show ?thesis using s by simp
  qed
  then have "ring_bytes d (p + (n - s)) (k - (n - s)) = take (k - (n - s)) d"
    using ring_bytes_flat [of "p + (n - s)" d "k - (n - s)"] k n by simp
  moreover have "ring_bytes d p (n - s) = drop s d"
    using ring_bytes_flat [of p d "n - s"] s n by simp
  ultimately show ?thesis by simp
qed

text \<open>The state after \<open>src\<close> was written from position \<open>p\<close> on.\<close>

definition ring_written :: "bytes \<Rightarrow> nat \<Rightarrow> bytes \<Rightarrow> bytes \<Rightarrow> bool" where
  "ring_written d p src d' \<longleftrightarrow> length d' = length d \<and>
     (\<forall>i<length d. d' ! ((p + i) mod length d) = (if i < length src then src ! i else d ! ((p + i) mod length d)))"

lemma ring_written_bytes:
  assumes "ring_written d p src d'" and "length src \<le> length d"
  shows "ring_bytes d' p (length src) = src"
  using assms by (intro nth_equalityI) (simp_all add: ring_written_def ring_bytes_nth)

lemma ring_written_before:
  assumes w: "ring_written d (p + k) src d'" and fits: "k + length src \<le> length d"
  shows "ring_bytes d' p k = ring_bytes d p k"
proof (rule nth_equalityI)
  fix i assume "i < length (ring_bytes d' p k)"
  then have i: "i < k" by simp
  let ?j = "length d - k + i"
  have eq: "p + k + ?j = p + i + length d" using i fits by simp
  have "?j < length d" "\<not> ?j < length src" using i fits by simp_all
  with w have "d' ! ((p + k + ?j) mod length d) = d ! ((p + k + ?j) mod length d)"
    by (simp add: ring_written_def)
  then show "ring_bytes d' p k ! i = ring_bytes d p k ! i"
    using i w unfolding eq by (simp add: ring_bytes_nth ring_written_def)
qed simp

lemma ring_written_flat:
  assumes n: "length d = n" and s: "p mod n = s" "s < n" and src: "length src + s \<le> n"
  shows "ring_written d p src (patch d s src)"
  unfolding ring_written_def
proof (intro conjI allI impI)
  fix i assume "i < length d"
  with n have i: "i < n" by simp
  show "patch d s src ! ((p + i) mod length d) = (if i < length src then src ! i else d ! ((p + i) mod length d))"
  proof (cases "s + i < n")
    case True
    then show ?thesis
      unfolding n ring_index [OF i, of p] s(1) using n src patch_nth [of s src d "s + i"] by simp
  next
    case False
    then have "s + i - n < s" "\<not> i < length src" using i src by simp_all
    then show ?thesis
      unfolding n ring_index [OF i, of p] s(1)
      using False n src s(2) patch_nth [of s src d "s + i - n"] by simp
  qed
qed (use n src in \<open>simp add: length_patch\<close>)

lemma ring_written_split:
  assumes n: "length d = n" and s: "p mod n = s" "s < n" and src: "n < length src + s" "length src \<le> n"
  shows "ring_written d p src (patch (patch d s (take (n - s) src)) 0 (drop (n - s) src))"
    (is "ring_written d p src (patch ?d1 0 ?second)")
proof -
  have first: "s + length (take (n - s) src) \<le> length d" using s src n by simp
  note len1 = length_patch [OF first]
  have second: "0 + length ?second \<le> length ?d1" using len1 src n by simp
  note len2 = length_patch [OF second]
  show ?thesis
    unfolding ring_written_def
  proof (intro conjI allI impI)
    fix i assume "i < length d"
    with n have i: "i < n" by simp
    show "patch ?d1 0 ?second ! ((p + i) mod length d) =
        (if i < length src then src ! i else d ! ((p + i) mod length d))"
    proof (cases "s + i < n")
      case True
      then have "\<not> s + i < length ?second" and il: "i < length src" using src i by simp_all
      then have "patch ?d1 0 ?second ! (s + i) = ?d1 ! (s + i)"
        using True patch_nth [OF second, of "s + i"] n len1 by simp
      also have "\<dots> = take (n - s) src ! i"
        using True patch_nth [OF first, of "s + i"] n src by simp
      finally show ?thesis using True il unfolding n ring_index [OF i, of p] s(1) by simp
    next
      case False
      let ?j = "s + i - n"
      have j: "?j < s" "?j < length d" using False i n s(2) by simp_all
      have "patch ?d1 0 ?second ! ?j = (if ?j < length ?second then ?second ! ?j else ?d1 ! ?j)"
        using patch_nth [OF second, of ?j] j len1 by simp
      also have "?d1 ! ?j = d ! ?j" using patch_nth [OF first, of ?j] j by simp
      also have "?second ! ?j = src ! i" if "?j < length ?second"
        using False that s(2) by simp
      moreover have "?j < length ?second \<longleftrightarrow> i < length src" using False s(2) src by (simp add: less_diff_conv2)
      ultimately show ?thesis using False unfolding n ring_index [OF i, of p] s(1) by simp
    qed
  qed (simp add: len1 len2)
qed

lemma write_wrapped_ok:
  assumes n: "mmap_size b = 2 ^ e" and src: "length src \<le> mmap_size b"
  obtains d' where "write_wrapped b p src = Ok (b\<lparr>pr_data := d'\<rparr>)" "ring_written (pr_data b) p src d'"
proof -
  define n where "n = mmap_size b"
  define s where "s = p mod n"
  have len: "length (pr_data b) = n" by (simp add: n_def mmap_size_def)
  have s: "p AND (n - 1) = s" using nat_and_mask [of p e] n by (simp add: n_def s_def)
  have n0: "0 < n" using n by (simp add: n_def)
  then have sn: "s < n" by (simp add: s_def)
  have src': "length src \<le> n" using src by (simp add: n_def)
  show ?thesis
  proof (cases "length src + s \<le> n")
    case True
    then have "write_wrapped b p src = Ok (b\<lparr>pr_data := patch (pr_data b) s src\<rparr>)"
      using s n0 len by (simp add: write_wrapped_def n_def [symmetric] write_at_patch Let_def)
    then show ?thesis
      using that ring_written_flat [OF len s_def [symmetric] sn True] by blast
  next
    case False
    then have "write_wrapped b p src =
        Ok (b\<lparr>pr_data := patch (patch (pr_data b) s (take (n - s) src)) 0 (drop (n - s) src)\<rparr>)"
      using s n0 len sn src'
      by (simp add: write_wrapped_def n_def [symmetric] write_at_patch length_patch Let_def)
    then show ?thesis
      using that ring_written_split [OF len s_def [symmetric] sn _ src'] False by simp
  qed
qed

lemma read_wrapped_ok:
  assumes n: "mmap_size b = 2 ^ e" and sz: "sz \<le> mmap_size b"
  shows "read_wrapped b p sz = Ok (ring_bytes (pr_data b) p sz)"
proof -
  define n where "n = mmap_size b"
  define s where "s = p mod n"
  have len: "length (pr_data b) = n" by (simp add: n_def mmap_size_def)
  have s: "p AND (n - 1) = s" using nat_and_mask [of p e] n by (simp add: n_def s_def)
  have n0: "0 < n" using n by (simp add: n_def)
  then have sn: "s < n" by (simp add: s_def)
  have sz': "sz \<le> n" using sz by (simp add: n_def)
  show ?thesis
  proof (cases "sz + s \<le> n")
    case True
    then show ?thesis
      using s n0 len ring_bytes_flat [of p "pr_data b" sz]
      by (simp add: read_wrapped_def n_def [symmetric] read_at_def Let_def s_def add.commute)
  next
    case False
    then show ?thesis
      using s n0 len sn sz' ring_bytes_wrap [OF len s_def [symmetric] sn _ sz']
      by (simp add: read_wrapped_def n_def [symmetric] read_at_def Let_def)
  qed
qed

section \<open>A ring of samples\<close>

text \<open>A record as \<open>output_data\<close> makes it: its length is a multiple of 8 and in both size fields.\<close>

definition sample_record :: "bytes \<Rightarrow> bool" where
  "sample_record r \<longleftrightarrow> 16 \<le> length r \<and> length r mod 8 = 0 \<and> length r < 65536 \<and>
     le_nat (take 4 r) = PERF_RECORD_SAMPLE \<and> le_nat (take 2 (drop 6 r)) = length r \<and>
     le_nat (take 4 (drop 8 r)) = length r - 12"

text \<open>A record that carries \<open>buf\<close>: header and \<open>buf\<close>, then the padding.\<close>

definition sample_of :: "bytes \<Rightarrow> bytes \<Rightarrow> bool" where
  "sample_of buf r \<longleftrightarrow> length r = sample_record_size (length buf) \<and>
     take (12 + length buf) r = perf_sample_raw (length r) @ buf"

text \<open>The bytes between the positions are whole records.\<close>

definition ring_ok :: "perf_ring \<Rightarrow> bytes list \<Rightarrow> bool" where
  "ring_ok b rs \<longleftrightarrow>
     (if mmap_size b = 0 then pr_data_head b = pr_data_tail b
      else (\<exists>e. mmap_size b = 2 ^ e) \<and> pr_data_head b - pr_data_tail b < mmap_size b) \<and>
     pr_data_tail b \<le> pr_data_head b \<and> pr_data_head b < 2 ^ 64 \<and> pr_data_tail b mod 8 = 0 \<and>
     ring_bytes (pr_data b) (pr_data_tail b) (pr_data_head b - pr_data_tail b) = concat rs \<and>
     (\<forall>r\<in>set rs. sample_record r)"

definition ring_used :: "perf_ring \<Rightarrow> nat" where
  "ring_used b = pr_data_head b - pr_data_tail b"

lemma ring_okD:
  assumes "ring_ok b rs"
  shows "pr_data_tail b \<le> pr_data_head b" "pr_data_head b < 2 ^ 64" "pr_data_tail b mod 8 = 0"
    "ring_bytes (pr_data b) (pr_data_tail b) (ring_used b) = concat rs" "r \<in> set rs \<Longrightarrow> sample_record r"
    "length (concat rs) = ring_used b"
proof -
  show bytes: "ring_bytes (pr_data b) (pr_data_tail b) (ring_used b) = concat rs"
    using assms by (simp add: ring_ok_def ring_used_def)
  show "length (concat rs) = ring_used b" unfolding bytes [symmetric] by simp
qed (use assms in \<open>simp_all add: ring_ok_def\<close>)

lemma ring_ok_size:
  assumes "ring_ok b rs" and "mmap_size b \<noteq> 0"
  obtains e where "mmap_size b = 2 ^ e" "ring_used b < mmap_size b"
  using assms by (auto simp: ring_ok_def ring_used_def)

lemma ring_ok_empty: "ring_ok (perf_ring_new pagesize) []"
  by (simp add: ring_ok_def perf_ring_new_def mmap_size_def ring_bytes_def)

lemma ring_ok_cong:
  "pr_data b' = pr_data b \<Longrightarrow> pr_data_head b' = pr_data_head b \<Longrightarrow> pr_data_tail b' = pr_data_tail b \<Longrightarrow>
    ring_ok b' rs = ring_ok b rs"
  by (simp add: ring_ok_def mmap_size_def)

lemma sample_of_record:
  assumes "sample_of buf r" and "length buf \<le> 65516"
  shows "sample_record r"
proof -
  define n where "n = length r"
  have n: "n = (19 + length buf) div 8 * 8"
    using assms(1) by (simp add: sample_of_def sample_record_size_def n_def)
  then have b: "n mod 8 = 0" "12 + length buf \<le> n" "n < 65536"
    using assms(2) by simp_all
  from b(1,2) have "16 \<le> n" by presburger
  have "take (12 + length buf) r = perf_sample_raw n @ buf" using assms(1) by (simp add: sample_of_def n_def)
  then obtain ys where r: "r = perf_sample_raw n @ ys" by (metis append.assoc append_take_drop_id)
  show ?thesis
    unfolding sample_record_def n_def [symmetric]
    using b \<open>16 \<le> n\<close>
    by (simp add: r perf_sample_raw_def le_nat_le_bytes PERF_RECORD_SAMPLE_def)
qed

lemma sample_payload:
  assumes "sample_of buf r"
  shows "take (length buf) (drop 12 r) = buf" and "length (drop 12 r) < length buf + 8"
proof -
  have "take (12 + length buf) r = perf_sample_raw (length r) @ buf" using assms by (simp add: sample_of_def)
  then have "drop 12 (take (12 + length buf) r) = buf"
    by (simp add: perf_sample_raw_def)
  then show "take (length buf) (drop 12 r) = buf" by (simp add: drop_take)
  have "length r = (19 + length buf) div 8 * 8"
    using assms by (simp add: sample_of_def sample_record_size_def)
  then show "length (drop 12 r) < length buf + 8" by simp
qed

lemma sample_padding:
  assumes "sample_of buf r"
  shows "\<exists>padding. drop 12 r = buf @ padding \<and> length padding < 8"
proof -
  have eq: "drop 12 r = buf @ drop (length buf) (drop 12 r)"
    using sample_payload(1) [OF assms] by (metis append_take_drop_id)
  moreover from arg_cong [OF this, of length] sample_payload(2) [OF assms]
  have "length (drop (length buf) (drop 12 r)) < 8" by (simp only: length_append)
  ultimately show ?thesis by blast
qed

section \<open>Appending\<close>

lemma ring_written_nil: "ring_written d p [] d"
  by (simp add: ring_written_def)

text \<open>A record that fits behind the used bytes is appended; every other one is refused, and the
  ring is unchanged.\<close>

definition ring_fits :: "perf_ring \<Rightarrow> nat \<Rightarrow> bool" where
  "ring_fits b k \<longleftrightarrow> mmap_size b \<noteq> 0 \<and> ring_used b + k < mmap_size b"

lemma ring_used_u64:
  assumes ok: "ring_ok b rs"
  shows "u64 (pr_data_head b + 18446744073709551616 - pr_data_tail b) = ring_used b"
proof -
  have "pr_data_head b + 18446744073709551616 - pr_data_tail b = ring_used b + 18446744073709551616"
    using ring_okD(1) [OF ok] by (simp add: ring_used_def)
  moreover have "ring_used b < 18446744073709551616" using ring_okD(2) [OF ok] by (simp add: ring_used_def)
  ultimately show ?thesis by (simp add: u64_def)
qed

lemma append_refused:
  assumes ok: "ring_ok b rs" and no: "\<not> ring_fits b (length first + length second + padding)"
  shows "append_record_parts b first second padding = Ok (b, False)"
proof -
  have "mmap_size b = 0 \<or> mmap_size b - ring_used b \<le> length first + length second + padding"
    using no by (auto simp: ring_fits_def)
  then show ?thesis
    by (elim disjE) (simp_all add: append_record_parts_def ring_used_u64 [OF ok] Let_def)
qed

lemma append_parts_written:
  assumes ok: "ring_ok b rs" and fits: "ring_fits b (length first + length second + padding)"
    and "pr_data_head b + (length first + length second + padding) < 2 ^ 64"
  obtains d1 d2 where "ring_written (pr_data b) (pr_data_head b) first d1"
    "ring_written d1 (pr_data_head b + length first) second d2"
    "append_record_parts b first second padding =
      Ok (b\<lparr>pr_data := d2, pr_data_head := pr_data_head b + (length first + length second + padding)\<rparr>, True)"
proof -
  note used = ring_used_u64 [OF ok]
  have n: "mmap_size b \<noteq> 0" using fits by (simp add: ring_fits_def)
  obtain e where e: "mmap_size b = 2 ^ e" using ring_ok_size [OF ok n] by blast
  have len: "length first \<le> mmap_size b" "length second \<le> mmap_size b"
    using fits by (auto simp: ring_fits_def)
  obtain d1 where d1: "write_wrapped b (pr_data_head b) first = Ok (b\<lparr>pr_data := d1\<rparr>)"
    "ring_written (pr_data b) (pr_data_head b) first d1"
    using write_wrapped_ok [OF e len(1)] by blast
  have m1: "mmap_size (b\<lparr>pr_data := d1\<rparr>) = mmap_size b"
    using d1(2) by (simp add: mmap_size_def ring_written_def)
  obtain d2 where d2: "write_wrapped (b\<lparr>pr_data := d1\<rparr>) (pr_data_head b + length first) second =
      Ok (b\<lparr>pr_data := d2\<rparr>)" "ring_written d1 (pr_data_head b + length first) second d2"
    using write_wrapped_ok [of "b\<lparr>pr_data := d1\<rparr>" e second "pr_data_head b + length first"] e len(2) m1
    by auto
  have guards: "\<not> length second > 18446744073709551615 - length first"
    "\<not> padding > 18446744073709551615 - length first - length second"
    "u64 (pr_data_head b + length first) = pr_data_head b + length first"
    "u64 (pr_data_head b + (length first + length second + padding)) =
      pr_data_head b + (length first + length second + padding)"
    using assms(3) by simp_all
  have room: "\<not> length first + length second + padding > mmap_size b" "\<not> pr_data_head b < pr_data_tail b"
    "\<not> ring_used b \<ge> mmap_size b" "\<not> mmap_size b - ring_used b \<le> length first + length second + padding"
    using fits ring_okD(1) [OF ok] by (auto simp: ring_fits_def)
  show ?thesis
  proof (cases "second = []")
    case True
    then show ?thesis
      using that [OF d1(2) ring_written_nil [of d1, folded True]] d1(1) guards room n
      by (simp add: append_record_parts_def Let_def used)
  next
    case False
    then show ?thesis
      using that [OF d1(2) d2(2)] d1(1) d2(1) guards room n
      by (simp add: append_record_parts_def Let_def used)
  qed
qed

lemma append_ok:
  assumes ok: "ring_ok b rs" and fits: "ring_fits b k" and k: "k = length first + length second + padding"
    and wrap: "pr_data_head b + k < 2 ^ 64"
  obtains d r where "append_record_parts b first second padding =
      Ok (b\<lparr>pr_data := d, pr_data_head := pr_data_head b + k\<rparr>, True)"
    "length r = k" "take (length first + length second) r = first @ second"
    "sample_record r \<Longrightarrow> ring_ok (b\<lparr>pr_data := d, pr_data_head := pr_data_head b + k\<rparr>) (rs @ [r])"
    "length d = mmap_size b"
proof -
  let ?d = "pr_data b" and ?h = "pr_data_head b" and ?t = "pr_data_tail b" and ?u = "ring_used b"
  obtain d1 d2 where w: "ring_written ?d ?h first d1" "ring_written d1 (?h + length first) second d2"
    and eq: "append_record_parts b first second padding = Ok (b\<lparr>pr_data := d2, pr_data_head := ?h + k\<rparr>, True)"
    using append_parts_written [OF ok fits [unfolded k] wrap [unfolded k], folded k] by blast
  have len: "length d1 = mmap_size b" "length d2 = mmap_size b"
    using w by (simp_all add: ring_written_def mmap_size_def)
  have h: "?h = ?t + ?u" using ring_okD(1) [OF ok] by (simp add: ring_used_def)
  have room: "?u + k < mmap_size b" using fits by (simp add: ring_fits_def)
  have "ring_bytes d1 ?t ?u = concat rs"
    using ring_written_before [of ?d ?t ?u first d1] w(1) h room k ring_okD(4) [OF ok] by (simp add: mmap_size_def)
  moreover have "ring_bytes d1 ?t (?u + length first) = ring_bytes d2 ?t (?u + length first)"
    using ring_written_before [of d1 ?t "?u + length first" second d2] w(2) h room k len by (simp add: add.assoc)
  ultimately have old: "ring_bytes d2 ?t ?u = concat rs" and "ring_bytes d2 ?h (length first) = ring_bytes d1 ?h (length first)"
    using h by (simp_all add: ring_bytes_split)
  then have new: "ring_bytes d2 ?h (length first + length second) = first @ second"
    using ring_written_bytes [OF w(1)] ring_written_bytes [OF w(2)] len room k
    by (simp add: ring_bytes_split mmap_size_def)
  let ?r = "ring_bytes d2 ?h k"
  have "?r = ring_bytes d2 ?h (length first + length second) @ ring_bytes d2 (?h + (length first + length second)) padding"
    unfolding k by (rule ring_bytes_split)
  then have front: "take (length first + length second) ?r = first @ second" using new by simp
  have "ring_ok (b\<lparr>pr_data := d2, pr_data_head := ?h + k\<rparr>) (rs @ [?r])" if "sample_record ?r"
  proof -
    have all: "ring_bytes d2 ?t (?u + k) = concat (rs @ [?r])" using old h by (simp add: ring_bytes_split)
    have n: "mmap_size b \<noteq> 0" using fits by (simp add: ring_fits_def)
    obtain e where "mmap_size b = 2 ^ e" using ring_ok_size [OF ok n] by blast
    moreover have "?h + k - ?t = ?u + k" using h by simp
    ultimately show ?thesis
      using all that len room n wrap h ring_okD [OF ok]
      by (auto simp: ring_ok_def mmap_size_def)
  qed
  then show ?thesis using that [OF eq length_ring_bytes front _ len(2)] by blast
qed

section \<open>The operations on a ring of samples\<close>

lemma ring_fits_cong:
  "pr_data b' = pr_data b \<Longrightarrow> pr_data_head b' = pr_data_head b \<Longrightarrow> pr_data_tail b' = pr_data_tail b \<Longrightarrow>
    ring_fits b' k = ring_fits b k"
  by (simp add: ring_fits_def ring_used_def mmap_size_def)

text \<open>What stays the same when records enter a ring.\<close>

definition ring_grown :: "perf_ring \<Rightarrow> perf_ring \<Rightarrow> nat \<Rightarrow> bool" where
  "ring_grown b b' k \<longleftrightarrow> mmap_size b' = mmap_size b \<and> pr_pagesize b' = pr_pagesize b \<and>
     pr_data_tail b' = pr_data_tail b \<and> pr_data_head b' = pr_data_head b + k"

lemma ring_grown_refl [simp]: "ring_grown b b 0"
  by (simp add: ring_grown_def)

lemma ring_grown_trans: "ring_grown a b k \<Longrightarrow> ring_grown b c l \<Longrightarrow> ring_grown a c (k + l)"
  by (simp add: ring_grown_def)

lemma sample_record_size_bounds: "12 + n \<le> sample_record_size n" "sample_record_size n < n + 20" "0 < sample_record_size n"
  unfolding sample_record_size_def by presburger+

lemma output_refused:
  assumes "ring_ok b rs" and "\<not> ring_fits b (sample_record_size (length buf))" and "length buf \<le> 65516"
  shows "ring_output_data b buf = (b, Ok ())"
proof -
  let ?n = "sample_record_size (length buf)"
  have "length (perf_sample_raw ?n) + length buf + (?n - 12 - length buf) = ?n"
    using sample_record_size_bounds(1) [of "length buf"] by (simp add: perf_sample_raw_def)
  with append_refused [OF assms(1)] assms(2,3) show ?thesis
    by (simp add: ring_output_data_def Let_def)
qed

lemma output_accepted:
  assumes "ring_ok b rs" and "ring_fits b (sample_record_size (length buf))" and len: "length buf \<le> 65516"
    and "pr_data_head b + sample_record_size (length buf) < 2 ^ 64"
  obtains b' r where "ring_output_data b buf = (b', Ok ())" "sample_of buf r" "ring_ok b' (rs @ [r])"
    "ring_grown b b' (sample_record_size (length buf))"
proof -
  let ?n = "sample_record_size (length buf)"
  have n: "?n = length (perf_sample_raw ?n) + length buf + (?n - 12 - length buf)"
    using sample_record_size_bounds(1) [of "length buf"] by (simp add: perf_sample_raw_def)
  obtain d r where eq: "append_record_parts b (perf_sample_raw ?n) buf (?n - 12 - length buf) =
        Ok (b\<lparr>pr_data := d, pr_data_head := pr_data_head b + ?n\<rparr>, True)"
      and r: "length r = ?n" "take (length (perf_sample_raw ?n) + length buf) r = perf_sample_raw ?n @ buf"
      and ok: "sample_record r \<Longrightarrow> ring_ok (b\<lparr>pr_data := d, pr_data_head := pr_data_head b + ?n\<rparr>) (rs @ [r])"
      and d: "length d = mmap_size b"
    using append_ok [OF assms(1,2) n assms(4)] by blast
  have "sample_of buf r" using r by (simp add: sample_of_def perf_sample_raw_def)
  moreover note sample_of_record [OF this len]
  moreover have "ring_output_data b buf = (b\<lparr>pr_data := d, pr_data_head := pr_data_head b + ?n\<rparr>, Ok ())"
    using eq len by (simp add: ring_output_data_def Let_def)
  ultimately show ?thesis using that ok d by (fastforce simp: ring_grown_def mmap_size_def)
qed

text \<open>The first record of a ring, as the header read gives it.\<close>

lemma first_record:
  assumes ok: "ring_ok b (r # rs)"
  shows "sample_record r" "length r \<le> ring_used b" "ring_used b < mmap_size b"
    "read_wrapped b (pr_data_tail b) (length r) = Ok r"
    "read_wrapped b (pr_data_tail b) 8 = Ok (take 8 r)"
    "ring_bytes (pr_data b) (pr_data_tail b + length r) (ring_used b - length r) = concat rs"
proof -
  show r: "sample_record r" using ring_okD(5) [OF ok] by simp
  show le: "length r \<le> ring_used b" using ring_okD(6) [OF ok] by simp
  have l16: "16 \<le> length r" using r by (simp add: sample_record_def)
  have "mmap_size b \<noteq> 0"
  proof
    assume "mmap_size b = 0"
    then have "ring_used b = 0" using ok by (simp add: ring_ok_def ring_used_def)
    with le l16 show False by simp
  qed
  then obtain e where e: "mmap_size b = 2 ^ e" and u: "ring_used b < mmap_size b"
    using ring_ok_size [OF ok] by blast
  then show "ring_used b < mmap_size b" by simp
  have bytes: "ring_bytes (pr_data b) (pr_data_tail b) (ring_used b) = r @ concat rs"
    using ring_okD(4) [OF ok] by simp
  note parts = ring_bytes_cat [OF bytes]
  show "ring_bytes (pr_data b) (pr_data_tail b + length r) (ring_used b - length r) = concat rs"
    by (rule parts(2))
  show "read_wrapped b (pr_data_tail b) (length r) = Ok r"
    using read_wrapped_ok [OF e, of "length r"] le u parts(1) by simp
  have "ring_bytes (pr_data b) (pr_data_tail b) (length (take 8 r)) = take 8 r"
    using ring_bytes_cat(1) [of _ _ "length r" "take 8 r" "drop 8 r"] parts(1) by simp
  then show "read_wrapped b (pr_data_tail b) 8 = Ok (take 8 r)"
    using read_wrapped_ok [OF e, of 8] l16 le u by simp
qed

text \<open>Taking it off leaves the others.\<close>

lemma ring_ok_tail:
  assumes ok: "ring_ok b (r # rs)"
  shows "ring_ok (b\<lparr>pr_data_tail := pr_data_tail b + length r\<rparr>) rs"
proof -
  note f = first_record [OF ok]
  have n: "mmap_size b \<noteq> 0" using f by simp
  then obtain e where "mmap_size b = 2 ^ e" using ring_ok_size [OF ok] by blast
  moreover have "(pr_data_tail b + length r) mod 8 = 0"
    using ring_okD(3) [OF ok] f(1) by (simp add: sample_record_def mod_add_eq [symmetric])
  moreover have "pr_data_tail b + length r \<le> pr_data_head b"
    using f(2) ring_okD(1) [OF ok] by (simp add: ring_used_def)
  moreover have "pr_data_head b - (pr_data_tail b + length r) = ring_used b - length r"
    by (simp add: ring_used_def)
  ultimately show ?thesis
    using f n ring_okD(2,5) [OF ok] by (auto simp: ring_ok_def mmap_size_def)
qed

lemma copy_next_nil:
  assumes "ring_ok b []"
  shows "copy_next_record_to mem b dst = (b, dst, Ok False)"
  using ring_okD(1,6) [OF assms] by (simp add: copy_next_record_to_def ring_used_def Let_def)

lemma copy_next_step:
  assumes ok: "ring_ok b (r # rs)"
  shows "copy_next_record_to mem b dst =
    (if length (pr_copy_buffer b) \<noteq> length r \<and> \<not> mem (length r) then (b, dst, Thrown)
     else case append_record dst r of
         Ok (dst, True) \<Rightarrow> (b\<lparr>pr_copy_buffer := r, pr_data_tail := pr_data_tail b + length r\<rparr>, dst, Ok True)
       | Ok (dst, False) \<Rightarrow> (b\<lparr>pr_copy_buffer := r\<rparr>, dst, Ok False)
       | _ \<Rightarrow> (b, dst, UB))"
proof -
  note f = first_record [OF ok]
  define header where "header = take 8 r"
  have size: "le_nat (take 2 (drop 6 header)) = length r" and "16 \<le> length r"
    using f(1) by (simp_all add: sample_record_def header_def drop_take)
  have "pr_data_tail b \<noteq> pr_data_head b" "\<not> pr_data_head b < pr_data_tail b"
    "\<not> length r > pr_data_head b - pr_data_tail b" "mmap_size b \<noteq> 0" "\<not> length r < 8" "\<not> length r > mmap_size b"
    using f(2,3) \<open>16 \<le> length r\<close> by (auto simp: ring_used_def)
  then show ?thesis
    by (simp add: copy_next_record_to_def Let_def f(4) f(5) [folded header_def] size)
qed

lemma copy_next_cons:
  assumes ok: "ring_ok b (r # rs)" and dst: "ring_ok dst qs" and wrap: "pr_data_head dst + length r < 2 ^ 64"
    and mem: "length (pr_copy_buffer b) = length r \<or> mem (length r)" and fits: "ring_fits dst (length r)"
  obtains dst' where "copy_next_record_to mem b dst =
      (b\<lparr>pr_copy_buffer := r, pr_data_tail := pr_data_tail b + length r\<rparr>, dst', Ok True)"
    "ring_ok dst' (qs @ [r])" "ring_grown dst dst' (length r)"
proof -
  let ?dst = "\<lambda>d. dst\<lparr>pr_data := d, pr_data_head := pr_data_head dst + length r\<rparr>"
  have l: "length r = length r + length ([] :: bytes) + 0" by simp
  obtain d r' where eq: "append_record_parts dst r [] 0 = Ok (?dst d, True)"
      and r': "length r' = length r" "take (length r + length ([] :: bytes)) r' = r @ []"
      and new: "sample_record r' \<Longrightarrow> ring_ok (?dst d) (qs @ [r'])" and d: "length d = mmap_size dst"
    by (rule append_ok [OF dst fits l wrap]) blast
  have "r' = r" using r' by simp
  then have "ring_ok (?dst d) (qs @ [r])" using new first_record(1) [OF ok] by simp
  moreover have "copy_next_record_to mem b dst =
      (b\<lparr>pr_copy_buffer := r, pr_data_tail := pr_data_tail b + length r\<rparr>, ?dst d, Ok True)"
    using copy_next_step [OF ok, of mem dst] mem eq by (auto simp: append_record_def)
  moreover have "ring_grown dst (?dst d) (length r)" using d by (simp add: ring_grown_def mmap_size_def)
  ultimately show ?thesis by (intro that)
qed

lemma copy_next_full:
  assumes ok: "ring_ok b (r # rs)" and dst: "ring_ok dst qs" and "\<not> ring_fits dst (length r)"
    and mem: "length (pr_copy_buffer b) = length r \<or> mem (length r)"
  shows "copy_next_record_to mem b dst = (b\<lparr>pr_copy_buffer := r\<rparr>, dst, Ok False)"
  using append_refused [OF dst, of r "[]" 0] assms(3) mem copy_next_step [OF ok, of mem dst]
  by (auto simp: append_record_def)

text \<open>The loop moves a prefix of the records; it stops early only when the next one does not fit
  or the copy cannot be allocated.\<close>

definition copied ::
  "nat \<Rightarrow> bytes list \<Rightarrow> bytes list \<Rightarrow> perf_ring \<Rightarrow> perf_ring \<Rightarrow> perf_ring \<Rightarrow> perf_ring \<Rightarrow> unit outcome \<Rightarrow> bool" where
  "copied k rs qs b dst b' dst' res \<longleftrightarrow> k \<le> length rs \<and>
     ring_ok b' (drop k rs) \<and> ring_ok dst' (qs @ take k rs) \<and>
     ring_grown dst dst' (length (concat (take k rs))) \<and>
     mmap_size b' = mmap_size b \<and> pr_pagesize b' = pr_pagesize b \<and> pr_data_head b' = pr_data_head b \<and>
     (res = Thrown \<or> res = Ok () \<and> (k < length rs \<longrightarrow> \<not> ring_fits dst' (length (rs ! k))))"

lemma copied_Suc:
  assumes "copied k rs (qs @ [r]) b1 dst1 b' dst' res" and "ring_grown dst dst1 (length r)"
    and "mmap_size b1 = mmap_size b" "pr_pagesize b1 = pr_pagesize b" "pr_data_head b1 = pr_data_head b"
  shows "copied (Suc k) (r # rs) qs b dst b' dst' res"
proof -
  have "ring_grown dst dst' (length r + length (concat (take k rs)))"
    using assms(1) ring_grown_trans [OF assms(2)] by (simp add: copied_def)
  then show ?thesis using assms by (simp add: copied_def)
qed

lemma copy_records_ok:
  assumes "ring_ok b rs" and "ring_ok dst qs" and "pr_data_head dst + length (concat rs) < 2 ^ 64"
  obtains k b' dst' res where "copy_records mem b dst = (b', dst', res)" "copied k rs qs b dst b' dst' res"
    "(\<forall>n. mem n) \<Longrightarrow> res = Ok ()"
  using assms
proof (induction rs arbitrary: b dst qs thesis)
  case Nil
  have "copy_records mem b dst = (b, dst, Ok ())"
    using copy_next_nil [OF Nil.prems(2)] by (subst copy_records.simps) simp
  moreover have "copied 0 [] qs b dst b dst (Ok ())" using Nil.prems(2,3) by (simp add: copied_def)
  ultimately show ?case by (rule Nil.prems(1)) simp
next
  case (Cons r rs)
  note ok = Cons.prems(2) and dst = Cons.prems(3)
  have wrap: "pr_data_head dst + length r < 2 ^ 64" using Cons.prems(4) by simp
  let ?b = "b\<lparr>pr_copy_buffer := r\<rparr>"
  let ?b1 = "b\<lparr>pr_copy_buffer := r, pr_data_tail := pr_data_tail b + length r\<rparr>"
  have ok': "ring_ok ?b (r # rs)" using ok ring_ok_cong [of ?b b] by simp
  consider "length (pr_copy_buffer b) \<noteq> length r" "\<not> mem (length r)"
    | "length (pr_copy_buffer b) = length r \<or> mem (length r)" "ring_fits dst (length r)"
    | "length (pr_copy_buffer b) = length r \<or> mem (length r)" "\<not> ring_fits dst (length r)" by blast
  then show ?case
  proof cases
    case 1
    then have "copy_records mem b dst = (b, dst, Thrown)"
      using copy_next_step [OF ok, of mem dst] by (subst copy_records.simps) simp
    moreover have "copied 0 (r # rs) qs b dst b dst Thrown" using ok dst by (simp add: copied_def)
    ultimately show ?thesis by (rule Cons.prems(1)) (use 1(2) in simp)
  next
    case 2
    then obtain dst1 where c: "copy_next_record_to mem b dst = (?b1, dst1, Ok True)"
      and d: "ring_ok dst1 (qs @ [r])" "ring_grown dst dst1 (length r)"
      by (rule copy_next_cons [OF ok dst wrap])
    have wrap1: "pr_data_head dst1 + length (concat rs) < 2 ^ 64"
      using d(2) Cons.prems(4) by (simp add: ring_grown_def)
    have ok1: "ring_ok ?b1 rs" using ring_ok_tail [OF ok'] by simp
    obtain k b' dst' res where k: "copy_records mem ?b1 dst1 = (b', dst', res)"
      "copied k rs (qs @ [r]) ?b1 dst1 b' dst' res" "(\<forall>n. mem n) \<Longrightarrow> res = Ok ()"
      by (rule Cons.IH [OF _ ok1 d(1) wrap1]) blast
    have "copy_records mem b dst = (b', dst', res)"
      using k(1) c by (subst copy_records.simps) simp
    moreover have "copied (Suc k) (r # rs) qs b dst b' dst' res"
      using copied_Suc [OF k(2) d(2)] by (simp add: mmap_size_def)
    ultimately show ?thesis by (rule Cons.prems(1)) (rule k(3))
  next
    case 3
    then have "copy_records mem b dst = (?b, dst, Ok ())"
      using copy_next_full [OF ok dst] by (subst copy_records.simps) simp
    moreover have "copied 0 (r # rs) qs b dst ?b dst (Ok ())"
      using ok' dst 3(2) by (simp add: copied_def mmap_size_def)
    ultimately show ?thesis by (rule Cons.prems(1)) simp
  qed
qed

section \<open>The reader on a ring of samples\<close>

text \<open>\<open>malloc\<close> gives blocks of the size it is asked for.\<close>

definition malloc_ok :: "(nat \<Rightarrow> bytes option) \<Rightarrow> bool" where
  "malloc_ok malloc \<longleftrightarrow> (\<forall>k m. malloc k = Some m \<longrightarrow> length m = k)"

lemma process_sample:
  assumes r: "sample_record r" and m: "take (length r) m = r"
  shows "perf_buffer_process_record None m = Ok ([Sample (drop 12 r)], LIBBPF_PERF_EVENT_CONT)"
proof -
  obtain ys where ys: "m = r @ ys" using m by (metis append_take_drop_id)
  have "16 \<le> length r" using r by (simp add: sample_record_def)
  then show ?thesis using r
    by (simp add: perf_buffer_process_record_def ys read_at_def sample_record_def)
qed

text \<open>Records start at multiples of 8, so that a header never crosses the end.\<close>

lemma header_flat:
  assumes ok: "ring_ok b (r # rs)"
  defines "start \<equiv> pr_data_tail b mod mmap_size b"
  shows "start + 8 \<le> mmap_size b" and "pr_data_tail b AND (mmap_size b - 1) = start"
    and "read_at (pr_data b) (start + 6) 2 = Some (take 2 (drop 6 r))"
proof -
  note f = first_record [OF ok]
  have n: "16 < mmap_size b" using f by (auto simp: sample_record_def)
  obtain e where e: "mmap_size b = 2 ^ e" using ring_ok_size [OF ok] n by auto
  show "pr_data_tail b AND (mmap_size b - 1) = start" unfolding start_def e by (rule nat_and_mask)
  have "3 \<le> e"
  proof (rule ccontr)
    assume "\<not> 3 \<le> e"
    then have "(2::nat) ^ e \<le> 2 ^ 2" by (intro power_increasing) auto
    with n e show False by simp
  qed
  then have "8 dvd mmap_size b" unfolding e using le_imp_power_dvd [of 3 e "2::nat"] by simp
  moreover from this have "8 dvd start"
    using ring_okD(3) [OF ok] unfolding start_def by (simp add: dvd_mod mod_eq_0_iff_dvd)
  moreover have "start < mmap_size b" using n by (simp add: start_def)
  ultimately show le: "start + 8 \<le> mmap_size b" by (elim dvdE) simp
  have "ring_bytes (pr_data b) (pr_data_tail b) 8 = take 8 (drop start (pr_data b))"
    using ring_bytes_flat [of "pr_data_tail b" "pr_data b" 8] le by (simp add: start_def mmap_size_def)
  moreover have "ring_bytes (pr_data b) (pr_data_tail b) 8 = take 8 r"
    using read_wrapped_ok [OF e, of 8 "pr_data_tail b"] f(5) n by simp
  ultimately have "drop 6 (take 8 (drop start (pr_data b))) = drop 6 (take 8 r)" by simp
  then show "read_at (pr_data b) (start + 6) 2 = Some (take 2 (drop 6 r))"
    using le by (simp add: read_at_def drop_take mmap_size_def add.commute)
qed

lemma copy_crossing_ok:
  assumes ok: "ring_ok b (r # rs)" and m: "malloc_ok malloc"
  defines "start \<equiv> pr_data_tail b mod mmap_size b"
  assumes cross: "start + length r > mmap_size b"
  shows "(\<exists>m'. copy_crossing malloc (pr_data b) start (length r) copy_mem = Ok (Some m') \<and> take (length r) m' = r) \<or>
    copy_crossing malloc (pr_data b) start (length r) copy_mem = Ok None \<and> malloc (length r) = None"
proof (cases "if length copy_mem < length r then malloc (length r) else Some copy_mem")
  case None
  then show ?thesis by (auto simp: copy_crossing_def Let_def split: if_splits)
next
  case (Some mem)
  note f = first_record [OF ok]
  define n where "n = mmap_size b"
  have len: "length (pr_data b) = n" by (simp add: n_def mmap_size_def)
  have s: "start < n" "n < start + length r" using f(3) cross by (simp_all add: start_def n_def)
  have lr: "length r \<le> n" using f(2,3) by (simp add: n_def)
  have lm: "length r \<le> length mem" using Some m by (auto simp: malloc_ok_def split: if_splits)
  obtain e where e: "mmap_size b = 2 ^ e" using ring_ok_size [OF ok] f(3) by auto
  have "r = ring_bytes (pr_data b) (pr_data_tail b) (length r)"
    using read_wrapped_ok [OF e, of "length r" "pr_data_tail b"] f(4) lr by (simp add: n_def)
  also have "\<dots> = drop start (pr_data b) @ take (length r - (n - start)) (pr_data b)"
    using ring_bytes_wrap [OF len, of "pr_data_tail b" start "length r"] s lr by (simp add: start_def n_def)
  finally have r: "r = drop start (pr_data b) @ take (length r - (n - start)) (pr_data b)" .
  let ?f = "drop start (pr_data b)" and ?g = "take (length r - (n - start)) (pr_data b)"
  have lf: "length ?f = n - start" and lg: "length ?g = length r - (n - start)" using len s lr by simp_all
  have w1: "write_at mem 0 ?f = Some (?f @ drop (n - start) mem)"
    using lm s len by (simp add: write_at_def)
  have w2: "write_at (?f @ drop (n - start) mem) (n - start) ?g = Some (?f @ ?g @ drop (length r) mem)"
    using lm s lf lg by (simp add: write_at_def)
  have "copy_crossing malloc (pr_data b) start (length r) copy_mem = Ok (Some (?f @ ?g @ drop (length r) mem))"
    unfolding copy_crossing_def Let_def Some len
    using w1 w2 s lr len by (simp add: read_at_def)
  moreover have "take (length r) (?f @ ?g @ drop (length r) mem) = r"
    unfolding append_assoc [symmetric] r [symmetric] by simp
  ultimately show ?thesis by blast
qed

text \<open>One round of the loop: the record is reported, or the copy could not be allocated.\<close>

lemma read_step_ok:
  assumes ok: "ring_ok b (r # rs)" and m: "malloc_ok malloc"
  shows "(\<exists>m'. read_step None malloc (pr_data b) (pr_data_tail b) copy_mem =
      Ok (pr_data_tail b + length r, m', [Sample (drop 12 r)], LIBBPF_PERF_EVENT_CONT)) \<or>
    read_step None malloc (pr_data b) (pr_data_tail b) copy_mem =
      Ok (pr_data_tail b, [], [], LIBBPF_PERF_EVENT_ERROR) \<and> malloc (length r) = None"
proof -
  note f = first_record [OF ok] and h = header_flat [OF ok]
  let ?d = "pr_data b" and ?s = "pr_data_tail b mod mmap_size b"
  have size: "le_nat (take 2 (drop 6 r)) = length r" using f(1) by (simp add: sample_record_def)
  have "pr_data_tail b + length r < 2 ^ 64"
    using f(2) ring_okD(1,2) [OF ok] by (simp add: ring_used_def)
  then have u: "u64 (pr_data_tail b + length r) = pr_data_tail b + length r" by simp
  have "read_step None malloc ?d (pr_data_tail b) copy_mem =
     (if ?s + length r > mmap_size b then
        bind_out (copy_crossing malloc ?d ?s (length r) copy_mem) (\<lambda>copied. case copied of
            None \<Rightarrow> Ok (pr_data_tail b, [], [], LIBBPF_PERF_EVENT_ERROR)
          | Some m \<Rightarrow> bind_out (perf_buffer_process_record None m) (\<lambda>(reports, res).
              Ok (pr_data_tail b + length r, m, reports, res)))
      else bind_out (perf_buffer_process_record None (drop ?s ?d)) (\<lambda>(reports, res).
          Ok (pr_data_tail b + length r, copy_mem, reports, res)))"
    unfolding read_step_def mmap_size_def [symmetric] h(2) Let_def h(3) of_option_simps bind_out.simps size u ..
  moreover have "take (length r) (drop ?s ?d) = r" if "\<not> ?s + length r > mmap_size b"
  proof -
    have n: "mmap_size b \<noteq> 0" using f(3) by simp
    obtain e where e: "mmap_size b = 2 ^ e" using ring_ok_size [OF ok n] by blast
    have "r = ring_bytes ?d (pr_data_tail b) (length r)"
      using read_wrapped_ok [OF e, of "length r" "pr_data_tail b"] f(2-4) by simp
    with that show ?thesis using ring_bytes_flat [of "pr_data_tail b" ?d "length r"] by (simp add: mmap_size_def)
  qed
  ultimately show ?thesis
    using process_sample [OF f(1)] copy_crossing_ok [OF ok m, of copy_mem]
    by (cases "?s + length r > mmap_size b") auto
qed

lemma read_loop_ok:
  assumes "ring_ok b rs" and m: "malloc_ok malloc"
  shows "\<exists>k m' res. k \<le> length rs \<and>
    read_loop None malloc (pr_data b) (pr_data_head b) (pr_data_tail b) copy_mem reports =
      Some (Ok (pr_data_tail b + length (concat (take k rs)), m',
        reports @ map (\<lambda>r. Sample (drop 12 r)) (take k rs), res)) \<and>
    (k < length rs \<longrightarrow> malloc (length (rs ! k)) = None \<and> res = LIBBPF_PERF_EVENT_ERROR) \<and>
    (k = length rs \<longrightarrow> res = LIBBPF_PERF_EVENT_CONT)"
  using assms(1)
proof (induction rs arbitrary: b copy_mem reports)
  case Nil
  then have "pr_data_head b = pr_data_tail b"
    using ring_okD(1,6) [OF Nil] by (simp add: ring_used_def)
  then show ?case by (subst read_loop.simps) simp
next
  case (Cons r rs)
  let ?b = "b\<lparr>pr_data_tail := pr_data_tail b + length r\<rparr>"
  note f = first_record [OF Cons.prems]
  have ne: "pr_data_head b \<noteq> pr_data_tail b"
    using f(1,2) by (auto simp: ring_used_def sample_record_def)
  from read_step_ok [OF Cons.prems m, of copy_mem] consider
    (go) m1 where "read_step None malloc (pr_data b) (pr_data_tail b) copy_mem =
      Ok (pr_data_tail b + length r, m1, [Sample (drop 12 r)], LIBBPF_PERF_EVENT_CONT)"
    | (stop) "read_step None malloc (pr_data b) (pr_data_tail b) copy_mem =
      Ok (pr_data_tail b, [], [], LIBBPF_PERF_EVENT_ERROR)" "malloc (length r) = None"
    by (elim disjE exE conjE)
  then show ?case
  proof cases
    case go
    obtain k m' res where k: "k \<le> length rs"
      "read_loop None malloc (pr_data ?b) (pr_data_head ?b) (pr_data_tail ?b) m1 (reports @ [Sample (drop 12 r)]) =
        Some (Ok (pr_data_tail ?b + length (concat (take k rs)), m',
          (reports @ [Sample (drop 12 r)]) @ map (\<lambda>r. Sample (drop 12 r)) (take k rs), res))"
      "k < length rs \<longrightarrow> malloc (length (rs ! k)) = None \<and> res = LIBBPF_PERF_EVENT_ERROR"
      "k = length rs \<longrightarrow> res = LIBBPF_PERF_EVENT_CONT"
      using Cons.IH [OF ring_ok_tail [OF Cons.prems], of m1 "reports @ [Sample (drop 12 r)]"] by blast
    show ?thesis
      using k ne by (intro exI [of _ "Suc k"] exI [of _ m'] exI [of _ res], subst read_loop.simps) (simp add: go add.assoc)
  next
    case stop
    then show ?thesis
      using ne by (intro exI [of _ 0] exI [of _ "[]"] exI [of _ LIBBPF_PERF_EVENT_ERROR], subst read_loop.simps) simp
  qed
qed

lemma ring_ok_drop: "ring_ok b rs \<Longrightarrow> k \<le> length rs \<Longrightarrow>
  ring_ok (b\<lparr>pr_data_tail := pr_data_tail b + length (concat (take k rs))\<rparr>) (drop k rs)"
proof (induction k arbitrary: b rs)
  case 0
  then show ?case by simp
next
  case (Suc k)
  then obtain r rs' where rs: "rs = r # rs'" by (cases rs) auto
  from Suc.IH [OF ring_ok_tail [OF Suc.prems(1) [unfolded rs]]] Suc.prems(2)
  show ?case by (simp add: rs add.assoc)
qed

lemma read_simple_ok:
  assumes "ring_ok b rs" and "malloc_ok malloc"
  obtains k m' res where "k \<le> length rs"
    "perf_event_read_simple None malloc b copy_mem =
      Some (Ok (b\<lparr>pr_data_tail := pr_data_tail b + length (concat (take k rs))\<rparr>, m',
        map (\<lambda>r. Sample (drop 12 r)) (take k rs), res))"
    "ring_ok (b\<lparr>pr_data_tail := pr_data_tail b + length (concat (take k rs))\<rparr>) (drop k rs)"
    "k < length rs \<Longrightarrow> malloc (length (rs ! k)) = None \<and> res = LIBBPF_PERF_EVENT_ERROR"
    "k = length rs \<Longrightarrow> res = LIBBPF_PERF_EVENT_CONT"
proof -
  obtain k m' res where k: "k \<le> length rs"
    "read_loop None malloc (pr_data b) (pr_data_head b) (pr_data_tail b) copy_mem [] =
      Some (Ok (pr_data_tail b + length (concat (take k rs)), m',
        [] @ map (\<lambda>r. Sample (drop 12 r)) (take k rs), res))"
    "k < length rs \<longrightarrow> malloc (length (rs ! k)) = None \<and> res = LIBBPF_PERF_EVENT_ERROR"
    "k = length rs \<longrightarrow> res = LIBBPF_PERF_EVENT_CONT"
    using read_loop_ok [OF assms] by blast
  then have "perf_event_read_simple None malloc b copy_mem =
      Some (Ok (b\<lparr>pr_data_tail := pr_data_tail b + length (concat (take k rs))\<rparr>, m',
        map (\<lambda>r. Sample (drop 12 r)) (take k rs), res))"
    by (simp add: perf_event_read_simple_def)
  with k(1,3,4) ring_ok_drop [OF assms(1) k(1)] that show ?thesis by blast
qed

section \<open>Limits\<close>

text \<open>C36: A sample of up to 65516 bytes makes a record whose length is a multiple of 8, fits the
  16-bit size field of its header and exceeds header and sample by less than 8; a larger
  one is refused with \<open>E2BIG\<close> before anything is written.\<close>

theorem perf_sample_bounds:
  fixes buf :: bytes
  defines "n \<equiv> sample_record_size (length buf)"
  shows "if length buf \<le> 65516
    then n mod 8 = 0 \<and> 12 + length buf \<le> n \<and> n < 12 + length buf + 8 \<and> n < 65536 \<and>
      le_nat (take 2 (drop 6 (perf_sample_raw n))) = n \<and> le_nat (take 4 (drop 8 (perf_sample_raw n))) = n - 12
    else ring_output_data b buf = (b, Err E2BIG)"
proof (cases "length buf \<le> 65516")
  case True
  then have n: "n mod 8 = 0" "12 + length buf \<le> n" "n < 12 + length buf + 8" "n < 65536"
    by (simp_all add: n_def sample_record_size_def)
  then show ?thesis using True by (simp add: perf_sample_raw_def le_nat_le_bytes)
qed (simp add: ring_output_data_def)

text \<open>A fresh ring of 32 bytes.\<close>

definition sample_ring :: perf_ring where
  "sample_ring = (perf_ring_new 4)\<lparr>pr_data := replicate 32 0, pr_data_size := 32\<rparr>"

lemma sample_ring_ok: "ring_ok sample_ring []" "mmap_size sample_ring = 32" "ring_used sample_ring = 0"
  "pr_data_head sample_ring = 0" "pr_data_tail sample_ring = 0" "pr_pagesize sample_ring = 4"
proof -
  have "\<exists>e. (32::nat) = 2 ^ e" by (rule exI [of _ 5]) simp
  then show "ring_ok sample_ring []"
    by (simp add: sample_ring_def ring_ok_def perf_ring_new_def mmap_size_def ring_bytes_def)
qed (simp_all add: sample_ring_def perf_ring_new_def mmap_size_def ring_used_def)

lemma grown_edge_step:
  assumes ok: "ring_ok b [r]" and edge: "pr_data_tail b + 8 = mmap_size b"
  shows "read_step None malloc (pr_data b @ replicate (mmap_size b) 0) (pr_data_tail b) copy_mem =
    Ok (pr_data_head b, copy_mem, [Sample []], LIBBPF_PERF_EVENT_CONT)"
proof -
  note f = first_record [OF ok]
  define n where "n = mmap_size b"
  define d where "d = pr_data b @ replicate n 0"
  let ?t = "pr_data_tail b"
  have r: "16 \<le> length r" "le_nat (take 4 r) = PERF_RECORD_SAMPLE" "le_nat (take 2 (drop 6 r)) = length r"
    using f(1) by (simp_all add: sample_record_def)
  have used: "length r = ring_used b" using ring_okD(6) [OF ok] by simp
  then have lr: "length r < n" using f(3) by (simp add: n_def)
  obtain e where e: "n = 2 ^ e" using ring_ok_size [OF ok] f(3) by (auto simp: n_def)
  have len: "length (pr_data b) = n" "length d = 2 * n" by (simp_all add: d_def n_def mmap_size_def)
  have t: "?t + 8 = n" using edge by (simp add: n_def)
  have mask: "?t AND (length d - 1) = ?t"
    using nat_and_mask [of ?t "Suc e"] t e len by (simp add: mod_less)
  have "ring_bytes (pr_data b) ?t 8 = take 8 (drop ?t (pr_data b))"
    using ring_bytes_flat [of ?t "pr_data b" 8] t len by simp
  moreover have "ring_bytes (pr_data b) ?t 8 = take 8 r"
    using read_wrapped_ok [of b e 8 ?t] e f(5) lr r(1) by (simp add: n_def)
  ultimately have ys: "drop ?t d = take 8 r @ replicate n 0" using t len by (simp add: d_def)
  have size: "read_at d (?t + 6) 2 = Some (take 2 (drop 6 r))"
  proof -
    have "take 2 (drop 6 (drop ?t d)) = take 2 (drop 6 r)" using ys r(1) by (simp add: drop_take)
    then show ?thesis using len t by (simp add: read_at_def add.commute)
  qed
  have "le_nat (replicate 4 0) = 0" by (simp add: numeral_eq_Suc)
  then have proc: "perf_buffer_process_record None (drop ?t d) = Ok ([Sample []], LIBBPF_PERF_EVENT_CONT)"
    using ys r lr by (simp add: perf_buffer_process_record_def read_at_def min_def)
  have u: "u64 (?t + length r) = pr_data_head b"
    using used ring_okD(1,2) [OF ok] by (simp add: ring_used_def)
  show ?thesis
    unfolding n_def [symmetric] d_def [symmetric] read_step_def Let_def mask size of_option_simps bind_out.simps r(3)
    using t lr len proc u by simp
qed

text \<open>C40: Growing a ring that is in use can break it: the positions stay, but they are masked with
  the new size. Take a ring holding one record, which starts exactly 8 bytes before the ring's end
  in the first lap, and double it: the reader finds the record's header at its place and the zeroed
  new area after it, and hands out an empty sample in place of the record's bytes.\<close>

theorem grown_ring_garbles:
  assumes ok: "ring_ok b [r]" and edge: "pr_data_tail b + 8 = mmap_size b"
    and mem: "mem (mmap_buffer_size b + mmap_size b)"
  shows "drop 12 r \<noteq> [] \<and>
    (\<exists>b'. ring_ensure_mmap_buffer mem b (mmap_buffer_size b + mmap_size b) = (b', Ok ()) \<and>
      perf_event_read_simple None malloc b' copy_mem =
        Some (Ok (b'\<lparr>pr_data_tail := pr_data_head b\<rparr>, copy_mem, [Sample []], LIBBPF_PERF_EVENT_CONT)))"
proof -
  note f = first_record [OF ok]
  define n where "n = mmap_size b"
  let ?d = "pr_data b @ replicate n 0"
  have r: "16 \<le> length r" using f(1) by (simp add: sample_record_def)
  obtain e where e: "n = 2 ^ e" using ring_ok_size [OF ok] f(3) by (auto simp: n_def)
  have len: "length (pr_data b) = n" "n \<noteq> 0" using e by (simp_all add: n_def mmap_size_def)
  let ?b = "b\<lparr>pr_data := ?d, pr_data_size := 2 * n\<rparr>"
  have "popcnt (2 * n) = 1"
    using pop_cnt_1 [of "2 * n"] e by (simp add: popcnt_def) (metis power_Suc)
  then have "ring_ensure_mmap_buffer mem b (mmap_buffer_size b + n) = (?b, Ok ())"
    using mem len by (simp add: ring_ensure_mmap_buffer_def mmap_buffer_size_def n_def [symmetric] mult_2)
  moreover have "pr_data_head b \<noteq> pr_data_tail b" using f(2) r by (auto simp: ring_used_def)
  then have "read_loop None malloc ?d (pr_data_head b) (pr_data_tail b) copy_mem [] =
      Some (Ok (pr_data_head b, copy_mem, [Sample []], LIBBPF_PERF_EVENT_CONT))"
    using grown_edge_step [OF ok edge, folded n_def]
    by (subst read_loop.simps) (simp add: read_loop.simps [of None malloc ?d "pr_data_head b" "pr_data_head b"])
  then have "perf_event_read_simple None malloc ?b copy_mem =
      Some (Ok (?b\<lparr>pr_data_tail := pr_data_head b\<rparr>, copy_mem, [Sample []], LIBBPF_PERF_EVENT_CONT))"
    by (simp add: perf_event_read_simple_def)
  ultimately show ?thesis using r by (auto simp: n_def)
qed

definition sample_crossing :: perf_ring where
  "sample_crossing = fst (ring_output_data
     ((fst (ring_output_data sample_ring (replicate 12 1)))\<lparr>pr_data_tail := 24\<rparr>) [1, 2, 3])"

lemma sample_crossing_ok: "\<exists>r. ring_ok sample_crossing [r] \<and> pr_data_tail sample_crossing + 8 = mmap_size sample_crossing"
proof -
  have k: "sample_record_size (length (replicate 12 (1 :: byte))) = 24" "sample_record_size (length [1, 2, 3 :: byte]) = 16"
    by (simp_all add: sample_record_size_def)
  obtain b1 r1 where b1: "ring_output_data sample_ring (replicate 12 1) = (b1, Ok ())" "sample_of (replicate 12 1) r1"
      "ring_ok b1 ([] @ [r1])" "ring_grown sample_ring b1 24"
    by (rule output_accepted [OF sample_ring_ok(1), of "replicate 12 1", unfolded k])
      (simp_all add: ring_fits_def sample_ring_ok)
  have len: "length r1 = 24" using b1(2) k by (simp add: sample_of_def)
  have t1: "pr_data_tail b1 = 0" "pr_data_head b1 = 24" "mmap_size b1 = 32"
    using b1(4) by (simp_all add: ring_grown_def sample_ring_ok)
  let ?b2 = "b1\<lparr>pr_data_tail := 24\<rparr>"
  have b2: "ring_ok ?b2 []" using ring_ok_tail [of b1 r1 "[]"] b1(3) len t1 by simp
  have s2: "mmap_size ?b2 = 32" "ring_used ?b2 = 0" "pr_data_head ?b2 = 24" "pr_data_tail ?b2 = 24"
    using t1 by (simp_all add: mmap_size_def ring_used_def)
  obtain b3 r where b3: "ring_output_data ?b2 [1, 2, 3] = (b3, Ok ())" "ring_ok b3 ([] @ [r])" "ring_grown ?b2 b3 16"
    by (rule output_accepted [OF b2, of "[1, 2, 3]", unfolded k]) (simp_all add: ring_fits_def s2)
  then have "sample_crossing = b3" using b1(1) by (simp add: sample_crossing_def)
  with b3 s2 show ?thesis by (auto simp: ring_grown_def)
qed

theorem grown_ring_garbles_witness:
  "\<exists>r b'. ring_ok sample_crossing [r] \<and> drop 12 r \<noteq> [] \<and>
    ring_ensure_mmap_buffer (\<lambda>_. True) sample_crossing (mmap_buffer_size sample_crossing + mmap_size sample_crossing) = (b', Ok ()) \<and>
    perf_event_read_simple None (\<lambda>n. Some (replicate n 0)) b' [] =
      Some (Ok (b'\<lparr>pr_data_tail := pr_data_head sample_crossing\<rparr>, [], [Sample []], LIBBPF_PERF_EVENT_CONT))"
proof -
  obtain r where "ring_ok sample_crossing [r]" "pr_data_tail sample_crossing + 8 = mmap_size sample_crossing"
    using sample_crossing_ok by blast
  with grown_ring_garbles [of sample_crossing r "\<lambda>_. True" "\<lambda>n. Some (replicate n 0)" "[]"] show ?thesis by blast
qed

end
