(* ===== verification/Perf_Event.thy ===== *)
theory Perf_Event
  imports Perf_Ring
begin

text \<open>
  A software perf event, \<open>software_perf_event_data\<close> of \<open>perf_event_handler.cpp\<close>. Every thread
  writes its samples to a ring of its own (a shard, found through a thread-local cache), and
  whoever asks for data first moves the records of all shards to the consumer's ring, from
  where \<open>perf_event_read_simple\<close> hands them to the callback. Shards of threads that are gone are
  given back. The shard list is under a spin lock; a shard is a list node with an address.

  \<open>mem\<close> says which vector sizes the segment can allocate, \<open>node\<close> is the address of a new list
  node (\<open>None\<close> when the segment is full), \<open>tgkill\<close> is the system call with signal 0.
\<close>

section \<open>State\<close>

type_synonym thread_id = "int \<times> int"

record perf_shard =
  sh_pid :: int
  sh_tid :: int
  sh_generation :: nat
  sh_buffer_generation :: nat
  sh_buffer :: perf_ring

record shard_cache_entry =
  ce_event_generation :: nat
  ce_buffer_generation :: nat
  ce_shard_generation :: nat
  ce_shard :: nat

record perf_event_state =
  pd_cpu :: int
  pd_config :: int
  pd_sample_type :: int
  pd_pagesize :: nat
  pd_event_generation :: nat
  pd_producer_buffer_generation :: nat
  pd_consumer_buffer :: perf_ring
  pd_next_shard_generation :: nat
  pd_drains_since_reclaim :: nat
  pd_producer_shards :: "(nat \<times> perf_shard) list"

definition next_software_perf_event_generation :: "int \<Rightarrow> nat \<Rightarrow> nat \<times> nat" where
  "next_software_perf_event_generation pid next_generation =
     (u64 (next_generation + 1), push_bit 32 (u32_of_i32 pid) XOR next_generation)"

definition is_thread_alive :: "(int \<Rightarrow> int \<Rightarrow> unit outcome) \<Rightarrow> int \<Rightarrow> int \<Rightarrow> bool" where
  "is_thread_alive tgkill pid tid =
     (case tgkill pid tid of Ok _ \<Rightarrow> True | Err e \<Rightarrow> e = EPERM | _ \<Rightarrow> False)"

definition software_perf_event_reclaim_drain_interval :: nat where
  "software_perf_event_reclaim_drain_interval = 64"

definition software_perf_event_reclaim_shard_threshold :: nat where
  "software_perf_event_reclaim_shard_threshold = 64"

definition perf_shard_new ::
  "(nat \<Rightarrow> bool) \<Rightarrow> int \<Rightarrow> int \<Rightarrow> nat \<Rightarrow> nat \<Rightarrow> nat \<Rightarrow> nat \<Rightarrow> perf_shard" where
  "perf_shard_new mem pid tid generation buffer_generation pagesize buffer_size =
     \<lparr>sh_pid = pid, sh_tid = tid, sh_generation = generation, sh_buffer_generation = buffer_generation,
      sh_buffer = fst (ring_ensure_mmap_buffer mem (perf_ring_new pagesize) buffer_size)\<rparr>"

definition perf_event_new :: "int \<Rightarrow> int \<Rightarrow> int \<Rightarrow> nat \<Rightarrow> nat \<Rightarrow> perf_event_state" where
  "perf_event_new cpu config sample_type pagesize generation =
     \<lparr>pd_cpu = cpu, pd_config = config, pd_sample_type = sample_type, pd_pagesize = pagesize,
      pd_event_generation = generation, pd_producer_buffer_generation = 1,
      pd_consumer_buffer = perf_ring_new pagesize, pd_next_shard_generation = 1,
      pd_drains_since_reclaim = 0, pd_producer_shards = []\<rparr>"

section \<open>The shard of the calling thread\<close>

definition reclaim_inactive_producer_shards ::
  "(int \<Rightarrow> int \<Rightarrow> unit outcome) \<Rightarrow> perf_event_state \<Rightarrow> perf_event_state" where
  "reclaim_inactive_producer_shards tgkill d =
     d\<lparr>pd_producer_shards := filter
        (\<lambda>(a, shard). \<not> (\<not> ring_has_data (sh_buffer shard) \<and> \<not> is_thread_alive tgkill (sh_pid shard) (sh_tid shard)))
        (pd_producer_shards d)\<rparr>"

text \<open>The lookup in the thread's cache; an entry that does not fit is erased. The entry's
  pointer is followed, which is undefined when the node is gone.\<close>

definition cached_shard ::
  "int \<Rightarrow> int \<Rightarrow> perf_event_state \<Rightarrow> shard_cache_entry option \<Rightarrow> nat option outcome" where
  "cached_shard pid tid d cache =
     (case cache of
        None \<Rightarrow> Ok None
      | Some entry \<Rightarrow>
          if ce_event_generation entry \<noteq> pd_event_generation d \<or>
             ce_buffer_generation entry \<noteq> pd_producer_buffer_generation d then Ok None
          else (case map_of (pd_producer_shards d) (ce_shard entry) of
              None \<Rightarrow> UB
            | Some shard \<Rightarrow>
                if sh_pid shard = pid \<and> sh_tid shard = tid \<and>
                   sh_generation shard = ce_shard_generation entry \<and>
                   sh_buffer_generation shard = pd_producer_buffer_generation d
                then Ok (Some (ce_shard entry)) else Ok None))"

definition cache_entry :: "perf_event_state \<Rightarrow> nat \<Rightarrow> perf_shard \<Rightarrow> shard_cache_entry" where
  "cache_entry d a shard =
     \<lparr>ce_event_generation = pd_event_generation d,
      ce_buffer_generation = pd_producer_buffer_generation d,
      ce_shard_generation = sh_generation shard, ce_shard = a\<rparr>"

definition thread_shard :: "int \<Rightarrow> int \<Rightarrow> nat \<Rightarrow> nat \<times> perf_shard \<Rightarrow> bool" where
  "thread_shard pid tid generation = (\<lambda>(a, shard). sh_pid shard = pid \<and> sh_tid shard = tid \<and>
     sh_buffer_generation shard = generation)"

definition locked_thread_shard ::
  "(nat \<Rightarrow> bool) \<Rightarrow> nat option \<Rightarrow> (int \<Rightarrow> int \<Rightarrow> unit outcome) \<Rightarrow> int \<Rightarrow> int \<Rightarrow> perf_event_state \<Rightarrow>
    perf_event_state \<times> shard_cache_entry option \<times> nat outcome" where
  "locked_thread_shard mem node tgkill pid tid d =
     (let d = (if length (pd_producer_shards d) \<ge> software_perf_event_reclaim_shard_threshold
               then reclaim_inactive_producer_shards tgkill d else d) in
      case find (thread_shard pid tid (pd_producer_buffer_generation d)) (pd_producer_shards d) of
        Some (a, shard) \<Rightarrow> (d, Some (cache_entry d a shard), Ok a)
      | None \<Rightarrow>
          let generation = pd_next_shard_generation d; d = d\<lparr>pd_next_shard_generation := u64 (generation + 1)\<rparr> in
          (case node of
             None \<Rightarrow> (d, None, Thrown)
           | Some a \<Rightarrow>
               let shard = perf_shard_new mem pid tid generation (pd_producer_buffer_generation d)
                 (pd_pagesize d) (mmap_buffer_size (pd_consumer_buffer d)) in
               (d\<lparr>pd_producer_shards := pd_producer_shards d @ [(a, shard)]\<rparr>,
                Some (cache_entry d a shard), Ok a)))"

definition get_current_thread_shard ::
  "(nat \<Rightarrow> bool) \<Rightarrow> nat option \<Rightarrow> (int \<Rightarrow> int \<Rightarrow> unit outcome) \<Rightarrow> int \<Rightarrow> int \<Rightarrow> perf_event_state \<Rightarrow>
    shard_cache_entry option \<Rightarrow> perf_event_state \<times> shard_cache_entry option \<times> nat outcome" where
  "get_current_thread_shard mem node tgkill pid tid d cache =
     (case cached_shard pid tid d cache of
        Ok (Some a) \<Rightarrow> (d, cache, Ok a)
      | Ok None \<Rightarrow> locked_thread_shard mem node tgkill pid tid d
      | _ \<Rightarrow> (d, cache, UB))"

section \<open>The operations of the event\<close>

definition put_shard_buffer :: "perf_event_state \<Rightarrow> nat \<Rightarrow> perf_ring \<Rightarrow> perf_event_state" where
  "put_shard_buffer d a b =
     d\<lparr>pd_producer_shards := map (\<lambda>(a', shard). (a', if a' = a then shard\<lparr>sh_buffer := b\<rparr> else shard))
        (pd_producer_shards d)\<rparr>"

definition event_output_data ::
  "(nat \<Rightarrow> bool) \<Rightarrow> nat option \<Rightarrow> (int \<Rightarrow> int \<Rightarrow> unit outcome) \<Rightarrow> int \<Rightarrow> int \<Rightarrow> perf_event_state \<Rightarrow>
    shard_cache_entry option \<Rightarrow> bytes \<Rightarrow> perf_event_state \<times> shard_cache_entry option \<times> unit outcome" where
  "event_output_data mem node tgkill pid tid d cache buf =
     (case get_current_thread_shard mem node tgkill pid tid d cache of
        (d, cache, Ok a) \<Rightarrow>
          (case map_of (pd_producer_shards d) a of
             Some shard \<Rightarrow>
               (case ring_output_data (sh_buffer shard) buf of (b, res) \<Rightarrow> (put_shard_buffer d a b, cache, res))
           | None \<Rightarrow> (d, cache, UB))
      | (d, cache, Thrown) \<Rightarrow> (d, cache, Thrown)
      | (d, cache, _) \<Rightarrow> (d, cache, UB))"

fun drain_shards ::
  "(nat \<Rightarrow> bool) \<Rightarrow> (nat \<times> perf_shard) list \<Rightarrow> perf_ring \<Rightarrow>
    (nat \<times> perf_shard) list \<times> perf_ring \<times> unit outcome" where
  "drain_shards mem [] consumer = ([], consumer, Ok ())"
| "drain_shards mem ((a, shard) # shards) consumer =
     (case copy_records mem (sh_buffer shard) consumer of
        (b, consumer, Ok _) \<Rightarrow>
          (case drain_shards mem shards consumer of
             (shards, consumer, res) \<Rightarrow> ((a, shard\<lparr>sh_buffer := b\<rparr>) # shards, consumer, res))
      | (b, consumer, res) \<Rightarrow> ((a, shard\<lparr>sh_buffer := b\<rparr>) # shards, consumer, res))"

definition maybe_reclaim_inactive_producer_shards ::
  "(int \<Rightarrow> int \<Rightarrow> unit outcome) \<Rightarrow> perf_event_state \<Rightarrow> perf_event_state" where
  "maybe_reclaim_inactive_producer_shards tgkill d =
     (if pd_producer_shards d = [] then d\<lparr>pd_drains_since_reclaim := 0\<rparr>
      else let drains = u64 (pd_drains_since_reclaim d + 1) in
        if drains \<ge> software_perf_event_reclaim_drain_interval \<or>
           length (pd_producer_shards d) \<ge> software_perf_event_reclaim_shard_threshold
        then reclaim_inactive_producer_shards tgkill (d\<lparr>pd_drains_since_reclaim := 0\<rparr>)
        else d\<lparr>pd_drains_since_reclaim := drains\<rparr>)"

definition drain_producer_shards ::
  "(nat \<Rightarrow> bool) \<Rightarrow> (int \<Rightarrow> int \<Rightarrow> unit outcome) \<Rightarrow> perf_event_state \<Rightarrow> perf_event_state \<times> unit outcome" where
  "drain_producer_shards mem tgkill d =
     (case drain_shards mem (pd_producer_shards d) (pd_consumer_buffer d) of
        (shards, consumer, Ok _) \<Rightarrow>
          (maybe_reclaim_inactive_producer_shards tgkill
             (d\<lparr>pd_producer_shards := shards, pd_consumer_buffer := consumer\<rparr>), Ok ())
      | (shards, consumer, res) \<Rightarrow>
          (d\<lparr>pd_producer_shards := shards, pd_consumer_buffer := consumer\<rparr>, res))"

definition event_has_data ::
  "(nat \<Rightarrow> bool) \<Rightarrow> (int \<Rightarrow> int \<Rightarrow> unit outcome) \<Rightarrow> perf_event_state \<Rightarrow> perf_event_state \<times> bool outcome" where
  "event_has_data mem tgkill d =
     (case drain_producer_shards mem tgkill d of
        (d, Ok _) \<Rightarrow> (d, Ok (ring_has_data (pd_consumer_buffer d)))
      | (d, Thrown) \<Rightarrow> (d, Thrown)
      | (d, _) \<Rightarrow> (d, UB))"

definition event_mmap_size :: "perf_event_state \<Rightarrow> nat" where
  "event_mmap_size d = mmap_size (pd_consumer_buffer d)"

definition event_ensure_mmap_buffer ::
  "(nat \<Rightarrow> bool) \<Rightarrow> perf_event_state \<Rightarrow> nat \<Rightarrow> perf_event_state \<times> unit outcome" where
  "event_ensure_mmap_buffer mem d buffer_size =
     (let old_buffer_size = mmap_buffer_size (pd_consumer_buffer d) in
      case ring_ensure_mmap_buffer mem (pd_consumer_buffer d) buffer_size of
        (consumer, Ok _) \<Rightarrow>
          (d\<lparr>pd_consumer_buffer := consumer,
             pd_producer_buffer_generation :=
               (if mmap_buffer_size consumer \<noteq> old_buffer_size
                then u64 (pd_producer_buffer_generation d + 1) else pd_producer_buffer_generation d)\<rparr>, Ok ())
      | (consumer, res) \<Rightarrow> (d\<lparr>pd_consumer_buffer := consumer\<rparr>, res))"

section \<open>The shards hold what is pending\<close>

definition shard_thread :: "perf_shard \<Rightarrow> thread_id" where
  "shard_thread shard = (sh_pid shard, sh_tid shard)"

text \<open>\<open>pending t\<close> are the records of thread \<open>t\<close>, all in its shard of the current generation.\<close>

definition shard_ok :: "nat \<Rightarrow> (thread_id \<Rightarrow> bytes list) \<Rightarrow> perf_shard \<Rightarrow> bool" where
  "shard_ok generation pending shard \<longleftrightarrow> ring_ok (sh_buffer shard)
     (if sh_buffer_generation shard = generation then pending (shard_thread shard) else [])"

definition current_threads :: "nat \<Rightarrow> (nat \<times> perf_shard) list \<Rightarrow> thread_id list" where
  "current_threads generation shards =
     map (\<lambda>(a, shard). shard_thread shard) (filter (\<lambda>(a, shard). sh_buffer_generation shard = generation) shards)"

definition shards_ok :: "nat \<Rightarrow> (thread_id \<Rightarrow> bytes list) \<Rightarrow> (nat \<times> perf_shard) list \<Rightarrow> bool" where
  "shards_ok generation pending shards \<longleftrightarrow>
     (\<forall>(a, shard)\<in>set shards. shard_ok generation pending shard) \<and>
     distinct (map fst shards) \<and> distinct (current_threads generation shards)"

definition pending_bytes :: "(nat \<times> perf_shard) list \<Rightarrow> nat" where
  "pending_bytes shards = sum_list (map (\<lambda>(a, shard). ring_used (sh_buffer shard)) shards)"

lemma current_threads_simps [simp]:
  "current_threads g [] = []"
  "current_threads g ((a, shard) # shards) =
     (if sh_buffer_generation shard = g then shard_thread shard # current_threads g shards
      else current_threads g shards)"
  "current_threads g (xs @ ys) = current_threads g xs @ current_threads g ys"
  by (simp_all add: current_threads_def)

lemma pending_bytes_simps [simp]:
  "pending_bytes [] = 0"
  "pending_bytes ((a, shard) # shards) = ring_used (sh_buffer shard) + pending_bytes shards"
  "pending_bytes (xs @ ys) = pending_bytes xs + pending_bytes ys"
  by (simp_all add: pending_bytes_def)

lemma shards_ok_Nil [simp]: "shards_ok g pending []"
  by (simp add: shards_ok_def)

lemma shards_ok_Cons:
  "shards_ok g pending ((a, shard) # shards) \<longleftrightarrow>
     shard_ok g pending shard \<and> a \<notin> fst ` set shards \<and>
     (sh_buffer_generation shard = g \<longrightarrow> shard_thread shard \<notin> set (current_threads g shards)) \<and>
     shards_ok g pending shards"
  by (auto simp: shards_ok_def)

lemma current_threadsI:
  "(a, shard) \<in> set shards \<Longrightarrow> sh_buffer_generation shard = g \<Longrightarrow> shard_thread shard \<in> set (current_threads g shards)"
  by (force simp: current_threads_def)

lemma shard_ok_cong:
  "(sh_buffer_generation shard = g \<Longrightarrow> p (shard_thread shard) = q (shard_thread shard)) \<Longrightarrow>
    shard_ok g p shard = shard_ok g q shard"
  by (simp add: shard_ok_def)

lemma shards_ok_cong:
  assumes "\<And>t. t \<in> set (current_threads g shards) \<Longrightarrow> p t = q t"
  shows "shards_ok g p shards = shards_ok g q shards"
proof -
  have "shard_ok g p shard = shard_ok g q shard" if "(a, shard) \<in> set shards" for a shard
    using assms current_threadsI [OF that] by (intro shard_ok_cong) blast
  then show ?thesis by (auto simp: shards_ok_def)
qed

lemma ring_ok_unused: "ring_ok b rs \<Longrightarrow> ring_used b = 0 \<Longrightarrow> rs = []"
  using first_record(1,2) [of b "hd rs" "tl rs"] by (cases rs) (auto simp: sample_record_def)

lemma ring_ok_no_data:
  assumes "ring_ok b rs" and "\<not> ring_has_data b"
  shows "rs = []"
  using ring_ok_unused [OF assms(1)] assms(2) by (simp add: ring_has_data_def ring_used_def)

section \<open>Draining\<close>

text \<open>What a drain leaves of a shard as it was.\<close>

definition shard_like :: "nat \<times> perf_shard \<Rightarrow> nat \<times> perf_shard \<Rightarrow> bool" where
  "shard_like x y \<longleftrightarrow> fst y = fst x \<and> sh_pid (snd y) = sh_pid (snd x) \<and> sh_tid (snd y) = sh_tid (snd x) \<and>
     sh_generation (snd y) = sh_generation (snd x) \<and>
     sh_buffer_generation (snd y) = sh_buffer_generation (snd x) \<and>
     mmap_size (sh_buffer (snd y)) = mmap_size (sh_buffer (snd x)) \<and>
     pr_data_head (sh_buffer (snd y)) = pr_data_head (sh_buffer (snd x))"

lemma shard_like_refl [simp]: "shard_like x x"
  by (simp add: shard_like_def)

lemma shards_like_refl [simp]: "list_all2 shard_like xs xs"
  by (simp add: list_all2_refl)

lemma like_threads: "list_all2 shard_like xs ys \<Longrightarrow> current_threads g ys = current_threads g xs"
  by (induction rule: list_all2_induct) (auto simp: shard_like_def shard_thread_def split: prod.splits)

lemma like_addresses: "list_all2 shard_like xs ys \<Longrightarrow> map fst ys = map fst xs"
  by (induction rule: list_all2_induct) (auto simp: shard_like_def)

text \<open>\<open>moved\<close> are the records with their threads, in the order they enter the consumer's ring.\<close>

definition of_thread :: "thread_id \<Rightarrow> (thread_id \<times> 'a) list \<Rightarrow> 'a list" where
  "of_thread t xs = map snd (filter (\<lambda>x. fst x = t) xs)"

lemma of_thread_simps [simp]:
  "of_thread t [] = []"
  "of_thread t ((u, x) # xs) = (if u = t then x # of_thread t xs else of_thread t xs)"
  "of_thread t (xs @ ys) = of_thread t xs @ of_thread t ys"
  "of_thread t (map (Pair u) rs) = (if u = t then rs else [])"
  by (simp_all add: of_thread_def filter_map o_def)

definition drained ::
  "nat \<Rightarrow> (thread_id \<Rightarrow> bytes list) \<Rightarrow> (nat \<times> perf_shard) list \<Rightarrow> bytes list \<Rightarrow> perf_ring \<Rightarrow>
    (thread_id \<Rightarrow> bytes list) \<Rightarrow> (thread_id \<times> bytes) list \<Rightarrow> (nat \<times> perf_shard) list \<Rightarrow> perf_ring \<Rightarrow>
    unit outcome \<Rightarrow> bool" where
  "drained g p shards qs c p' moved shards' c' res \<longleftrightarrow>
     shards_ok g p' shards' \<and> list_all2 shard_like shards shards' \<and>
     ring_ok c' (qs @ map snd moved) \<and> ring_grown c c' (length (concat (map snd moved))) \<and>
     (\<forall>t. of_thread t moved @ p' t = p t) \<and>
     (\<forall>t. t \<notin> set (current_threads g shards) \<longrightarrow> of_thread t moved = []) \<and>
     pr_data_head c' + pending_bytes shards' = pr_data_head c + pending_bytes shards \<and>
     (res = Thrown \<or> res = Ok () \<and>
       (ring_used c + pending_bytes shards < mmap_size c \<longrightarrow> pending_bytes shards' = 0))"

lemma drained_keeps: "drained g p shards qs c p' moved shards' c' res \<Longrightarrow>
    t \<notin> set (current_threads g shards) \<Longrightarrow> p' t = p t"
  by (metis append_Nil drained_def)

lemma drained_others:
  assumes "shards_ok g p (x # shards)" and "drained g p [x] qs c p1 moved [y] c1 res"
    and "t \<in> set (current_threads g shards)"
  shows "p1 t = p t"
proof (rule drained_keeps [OF assms(2)])
  obtain a shard where x: "x = (a, shard)" by fastforce
  show "t \<notin> set (current_threads g [x])"
    using assms(1,3) by (cases "sh_buffer_generation shard = g") (auto simp: x shards_ok_Cons)
qed

lemma drain_one:
  assumes ok: "shard_ok g p shard" and c: "ring_ok c qs"
    and wrap: "pr_data_head c + ring_used (sh_buffer shard) < 2 ^ 64"
  obtains p' moved b c' res where "copy_records mem (sh_buffer shard) c = (b, c', res)"
    "drained g p [(a, shard)] qs c p' moved [(a, shard\<lparr>sh_buffer := b\<rparr>)] c' res" "(\<forall>n. mem n) \<Longrightarrow> res = Ok ()"
proof -
  define t where "t = shard_thread shard"
  define cur where "cur \<longleftrightarrow> sh_buffer_generation shard = g"
  define rs where "rs = (if cur then p t else [])"
  have b: "ring_ok (sh_buffer shard) rs" using ok unfolding shard_ok_def rs_def cur_def t_def .
  note used = ring_okD(6) [OF b]
  obtain k b' c' res where k: "copy_records mem (sh_buffer shard) c = (b', c', res)"
    "copied k rs qs (sh_buffer shard) c b' c' res" "(\<forall>n. mem n) \<Longrightarrow> res = Ok ()"
    by (rule copy_records_ok [OF b c wrap [folded used]]) blast
  let ?p = "if cur then p(t := drop k rs) else p" and ?moved = "map (Pair t) (take k rs)"
  let ?shard = "shard\<lparr>sh_buffer := b'\<rparr>"
  have sum: "length (concat (take k rs)) + length (concat (drop k rs)) = length (concat rs)"
    by (metis append_take_drop_id concat_append length_append)
  have moved: "map snd ?moved = take k rs" by (simp add: o_def)
  have kk: "k \<le> length rs" "ring_ok b' (drop k rs)" "ring_ok c' (qs @ take k rs)"
    "ring_grown c c' (length (concat (take k rs)))" "mmap_size b' = mmap_size (sh_buffer shard)"
    "pr_data_head b' = pr_data_head (sh_buffer shard)"
    "res = Thrown \<or> res = Ok () \<and> (k < length rs \<longrightarrow> \<not> ring_fits c' (length (rs ! k)))"
    using k(2) by (simp_all add: copied_def)
  have used': "ring_used b' = length (concat (drop k rs))" using ring_okD(6) [OF kk(2)] by simp
  have all: "ring_used b' = 0" if "res = Ok ()" "ring_used c + ring_used (sh_buffer shard) < mmap_size c"
  proof (cases "k < length rs")
    case True
    then have "drop k rs = rs ! k # drop (Suc k) rs" by (rule Cons_nth_drop_Suc [symmetric])
    then have "ring_used c' + length (rs ! k) \<le> ring_used c + ring_used (sh_buffer shard)"
      using kk(4) used sum by (simp add: ring_used_def ring_grown_def)
    moreover have "\<not> ring_fits c' (length (rs ! k))" using kk(7) that(1) True by simp
    ultimately show ?thesis using that(2) kk(4) by (simp add: ring_fits_def ring_grown_def)
  qed (simp add: used')
  have "drained g p [(a, shard)] qs c ?p ?moved [(a, ?shard)] c' res"
    unfolding drained_def moved
  proof (intro conjI)
    show "shards_ok g ?p [(a, ?shard)]"
      using kk(2) by (cases "sh_buffer_generation shard = g")
        (simp_all add: shards_ok_def shard_ok_def shard_thread_def t_def cur_def rs_def)
    show "list_all2 shard_like [(a, shard)] [(a, ?shard)]" using kk(5,6) by (simp add: shard_like_def)
    show "\<forall>u. of_thread u ?moved @ ?p u = p u" by (auto simp: rs_def)
    show "\<forall>u. u \<notin> set (current_threads g [(a, shard)]) \<longrightarrow> of_thread u ?moved = []"
      by (auto simp: rs_def cur_def t_def)
    show "pr_data_head c' + pending_bytes [(a, ?shard)] = pr_data_head c + pending_bytes [(a, shard)]"
      using kk(4) used used' sum by (simp add: ring_grown_def)
    show "res = Thrown \<or> res = Ok () \<and>
        (ring_used c + pending_bytes [(a, shard)] < mmap_size c \<longrightarrow> pending_bytes [(a, ?shard)] = 0)"
      using kk(7) all by auto
  qed (use kk(3,4) in simp_all)
  with k that show ?thesis by blast
qed

lemma shards_ok_step:
  assumes ok: "shards_ok g p (x # shards)" and y: "shards_ok g q [y]" "shard_like x y"
    and rest: "shards_ok g q shards'" "list_all2 shard_like shards shards'"
  shows "shards_ok g q (y # shards')"
proof -
  obtain a shard b shard' where xy: "x = (a, shard)" "y = (b, shard')" by fastforce
  have same: "b = a" "sh_buffer_generation shard' = sh_buffer_generation shard" "shard_thread shard' = shard_thread shard"
    using y(2) by (simp_all add: xy shard_like_def shard_thread_def)
  have "fst ` set shards' = fst ` set shards" using like_addresses [OF rest(2)] by (metis list.set_map)
  then show ?thesis
    using ok y(1) rest(1) like_threads [OF rest(2), of g] same by (simp add: xy shards_ok_Cons)
qed

lemma drained_Cons:
  assumes ok: "shards_ok g p (x # shards)"
    and one: "drained g p [x] qs c p1 moved [y] c1 (Ok ())"
    and rest: "drained g p1 shards (qs @ map snd moved) c1 p2 moved' shards' c2 res"
  shows "drained g p (x # shards) qs c p2 (moved @ moved') (y # shards') c2 res"
  unfolding drained_def
proof (intro conjI)
  obtain a shard b shard' where xy: "x = (a, shard)" "y = (b, shard')" by fastforce
  note o = one [unfolded drained_def] and r = rest [unfolded drained_def]
  have like: "shard_like x y" using o by simp
  have keep: "p2 (shard_thread shard') = p1 (shard_thread shard')" if "sh_buffer_generation shard' = g"
    using ok like that drained_keeps [OF rest, of "shard_thread shard"]
    by (simp add: xy shard_like_def shard_thread_def shards_ok_Cons)
  have "shard_ok g p1 shard'" using o by (simp add: xy shards_ok_Cons)
  then have "shards_ok g p2 [y]" using keep shard_ok_cong [of shard' g p2 p1] by (simp add: xy shards_ok_Cons)
  then show "shards_ok g p2 (y # shards')" using shards_ok_step [OF ok _ like] r by blast
  show "list_all2 shard_like (x # shards) (y # shards')" using like r by simp
  show "ring_ok c2 (qs @ map snd (moved @ moved'))" using r by simp
  show "ring_grown c c2 (length (concat (map snd (moved @ moved'))))"
    using o r ring_grown_trans [of c c1 _ c2] by simp
  show "\<forall>t. of_thread t (moved @ moved') @ p2 t = p t" using o r by simp
  show "\<forall>t. t \<notin> set (current_threads g (x # shards)) \<longrightarrow> of_thread t (moved @ moved') = []"
    using o r by (auto simp: xy split: if_splits)
  have head1: "pr_data_head c1 + pending_bytes [y] = pr_data_head c + pending_bytes [x]" using o by simp
  have head2: "pr_data_head c2 + pending_bytes shards' = pr_data_head c1 + pending_bytes shards" using r by simp
  show "pr_data_head c2 + pending_bytes (y # shards') = pr_data_head c + pending_bytes (x # shards)"
    using head1 head2 by (simp add: xy)
  have g1: "ring_grown c c1 (length (concat (map snd moved)))" using o by simp
  have "pending_bytes (y # shards') = 0"
    if "res = Ok ()" "ring_used c + pending_bytes (x # shards) < mmap_size c"
  proof -
    have y0: "pending_bytes [y] = 0" using o that(2) by (simp add: xy)
    have "ring_used c1 \<le> ring_used c + pending_bytes [x]"
      using head1 y0 g1 by (simp add: ring_used_def ring_grown_def)
    then have "ring_used c1 + pending_bytes shards < mmap_size c1"
      using that(2) g1 by (simp add: xy ring_grown_def)
    then have "pending_bytes shards' = 0" using r that(1) by simp
    with y0 show ?thesis by (simp add: xy)
  qed
  then show "res = Thrown \<or> res = Ok () \<and>
      (ring_used c + pending_bytes (x # shards) < mmap_size c \<longrightarrow> pending_bytes (y # shards') = 0)"
    using r by blast
qed

lemma drained_Thrown:
  assumes ok: "shards_ok g p (x # shards)" and one: "drained g p [x] qs c p1 moved [y] c1 Thrown"
  shows "drained g p (x # shards) qs c p1 moved (y # shards) c1 Thrown"
proof -
  obtain a shard b shard' where xy: "x = (a, shard)" "y = (b, shard')" by fastforce
  note o = one [unfolded drained_def]
  note drained_others [OF ok one]
  then have "shards_ok g p1 shards" using ok shards_ok_cong [of g shards p1 p] by (simp add: xy shards_ok_Cons)
  then have "shards_ok g p1 (y # shards)" using shards_ok_step [OF ok, of p1 y shards] o by simp
  then show ?thesis using o by (auto simp: drained_def xy split: if_splits)
qed

lemma drain_shards_ok:
  assumes "shards_ok g p shards" and "ring_ok c qs"
    and "pr_data_head c + pending_bytes shards < 2 ^ 64"
  obtains p' moved shards' c' res where "drain_shards mem shards c = (shards', c', res)"
    "drained g p shards qs c p' moved shards' c' res" "(\<forall>n. mem n) \<Longrightarrow> res = Ok ()"
  using assms
proof (induction shards arbitrary: c qs p thesis)
  case Nil
  show ?case
    by (rule Nil.prems(1) [of "[]" c "Ok ()" p "[]"]) (use Nil.prems(3) in \<open>simp_all add: drained_def\<close>)
next
  case (Cons x shards)
  obtain a shard where x: "x = (a, shard)" by fastforce
  note ok = Cons.prems(2) [unfolded x]
  have one: "shard_ok g p shard" and wrap: "pr_data_head c + ring_used (sh_buffer shard) < 2 ^ 64"
    using ok Cons.prems(4) by (simp_all add: shards_ok_Cons x)
  obtain p1 moved b c1 res where c1: "copy_records mem (sh_buffer shard) c = (b, c1, res)"
    and d1: "drained g p [(a, shard)] qs c p1 moved [(a, shard\<lparr>sh_buffer := b\<rparr>)] c1 res"
    and m1: "(\<forall>n. mem n) \<Longrightarrow> res = Ok ()"
    by (rule drain_one [OF one Cons.prems(3) wrap, of mem a]) blast
  show ?case
  proof (cases "res = Thrown")
    case True
    then have "drain_shards mem (x # shards) c = ((a, shard\<lparr>sh_buffer := b\<rparr>) # shards, c1, Thrown)"
      using c1 by (simp add: x)
    moreover have "drained g p (x # shards) qs c p1 moved ((a, shard\<lparr>sh_buffer := b\<rparr>) # shards) c1 Thrown"
      using drained_Thrown [OF ok] d1 True x by simp
    ultimately show ?thesis by (rule Cons.prems(1)) (use m1 True in simp)
  next
    case False
    then have res: "res = Ok ()" using d1 by (simp add: drained_def)
    note threads = drained_others [OF ok d1]
    have ok1: "shards_ok g p1 shards"
      using ok shards_ok_cong [OF threads] by (simp add: shards_ok_Cons)
    have c1': "ring_ok c1 (qs @ map snd moved)" and head: "pr_data_head c1 + pending_bytes shards < 2 ^ 64"
      using d1 Cons.prems(4) by (auto simp: drained_def x)
    obtain p2 moved' shards' c2 res2 where r: "drain_shards mem shards c1 = (shards', c2, res2)"
      "drained g p1 shards (qs @ map snd moved) c1 p2 moved' shards' c2 res2" "(\<forall>n. mem n) \<Longrightarrow> res2 = Ok ()"
      by (rule Cons.IH [OF _ ok1 c1' head]) blast
    have "drain_shards mem (x # shards) c = ((a, shard\<lparr>sh_buffer := b\<rparr>) # shards', c2, res2)"
      using c1 r(1) res by (simp add: x)
    moreover have "drained g p (x # shards) qs c p2 (moved @ moved') ((a, shard\<lparr>sh_buffer := b\<rparr>) # shards') c2 res2"
      using drained_Cons [OF ok _ r(2)] d1 res x by simp
    ultimately show ?thesis by (rule Cons.prems(1)) (rule r(3))
  qed
qed

section \<open>The invariant of the event\<close>

text \<open>\<open>p\<close> are the pending records by thread, \<open>qs\<close> those in the consumer's ring, \<open>n\<close> bounds the bytes
  written so far. Shards made before the consumer mapped its buffer have no data area.\<close>

definition generation_ok :: "perf_event_state \<Rightarrow> bool" where
  "generation_ok d \<longleftrightarrow> pd_producer_buffer_generation d = (if mmap_size (pd_consumer_buffer d) = 0 then 1 else 2)"

lemma generation_ok_update [simp]:
  "generation_ok (d\<lparr>pd_producer_shards := shards\<rparr>) = generation_ok d"
  "generation_ok (d\<lparr>pd_drains_since_reclaim := k\<rparr>) = generation_ok d"
  "generation_ok (d\<lparr>pd_next_shard_generation := k\<rparr>) = generation_ok d"
  by (simp_all add: generation_ok_def)

definition strays_empty :: "nat \<Rightarrow> (thread_id \<Rightarrow> bytes list) \<Rightarrow> (nat \<times> perf_shard) list \<Rightarrow> bool" where
  "strays_empty generation p shards \<longleftrightarrow> (\<forall>t. t \<notin> set (current_threads generation shards) \<longrightarrow> p t = [])"

definition shard_sized :: "nat \<Rightarrow> nat \<Rightarrow> nat \<Rightarrow> perf_shard \<Rightarrow> bool" where
  "shard_sized generation sz n shard \<longleftrightarrow> sh_buffer_generation shard \<le> generation \<and>
     (mmap_size (sh_buffer shard) = 0 \<or> sz \<noteq> 0 \<and> sh_buffer_generation shard = generation) \<and>
     pr_data_head (sh_buffer shard) \<le> n"

definition event_ok :: "perf_event_state \<Rightarrow> (thread_id \<Rightarrow> bytes list) \<Rightarrow> bytes list \<Rightarrow> nat \<Rightarrow> bool" where
  "event_ok d p qs n \<longleftrightarrow>
     shards_ok (pd_producer_buffer_generation d) p (pd_producer_shards d) \<and>
     ring_ok (pd_consumer_buffer d) qs \<and>
     strays_empty (pd_producer_buffer_generation d) p (pd_producer_shards d) \<and>
     generation_ok d \<and> pr_pagesize (pd_consumer_buffer d) = pd_pagesize d \<and>
     (\<forall>(a, shard)\<in>set (pd_producer_shards d).
        shard_sized (pd_producer_buffer_generation d) (mmap_size (pd_consumer_buffer d)) n shard) \<and>
     pr_data_head (pd_consumer_buffer d) + pending_bytes (pd_producer_shards d) \<le> n"

lemma event_okD:
  assumes "event_ok d p qs n"
  shows "shards_ok (pd_producer_buffer_generation d) p (pd_producer_shards d)"
    and "ring_ok (pd_consumer_buffer d) qs"
    and "t \<notin> set (current_threads (pd_producer_buffer_generation d) (pd_producer_shards d)) \<Longrightarrow> p t = []"
    and "generation_ok d"
    and "pr_pagesize (pd_consumer_buffer d) = pd_pagesize d"
    and "pr_data_head (pd_consumer_buffer d) + pending_bytes (pd_producer_shards d) \<le> n"
    and "distinct (map fst (pd_producer_shards d))"
    and "(a, shard) \<in> set (pd_producer_shards d) \<Longrightarrow> shard_ok (pd_producer_buffer_generation d) p shard"
    and "(a, shard) \<in> set (pd_producer_shards d) \<Longrightarrow> pr_data_head (sh_buffer shard) \<le> n"
  using assms
  by (auto simp: event_ok_def shards_ok_def strays_empty_def shard_sized_def simp del: split_paired_All)

definition cache_ok :: "perf_event_state \<Rightarrow> thread_id \<Rightarrow> shard_cache_entry \<Rightarrow> bool" where
  "cache_ok d t e \<longleftrightarrow> ce_event_generation e = pd_event_generation d \<and>
     (\<exists>shard. (ce_shard e, shard) \<in> set (pd_producer_shards d) \<and> shard_thread shard = t \<and>
        sh_generation shard = ce_shard_generation e \<and> sh_buffer_generation shard = ce_buffer_generation e)"

definition cache_valid :: "perf_event_state \<Rightarrow> thread_id \<Rightarrow> shard_cache_entry option \<Rightarrow> bool" where
  "cache_valid d t cache \<longleftrightarrow> (\<forall>e. cache = Some e \<longrightarrow> cache_ok d t e)"

text \<open>The allocator gives an address that is not in use, and \<open>tgkill\<close> finds the threads that run.\<close>

definition fresh_node :: "perf_event_state \<Rightarrow> nat option \<Rightarrow> bool" where
  "fresh_node d node \<longleftrightarrow> (\<forall>a. node = Some a \<longrightarrow> a \<notin> fst ` set (pd_producer_shards d))"

definition sees :: "(int \<Rightarrow> int \<Rightarrow> unit outcome) \<Rightarrow> thread_id set \<Rightarrow> bool" where
  "sees tgkill live \<longleftrightarrow> (\<forall>(pid, tid)\<in>live. is_thread_alive tgkill pid tid)"

lemma event_new_ok: "event_ok (perf_event_new cpu config st pagesize generation) (\<lambda>_. []) [] n"
  using ring_ok_empty by (simp add: event_ok_def strays_empty_def generation_ok_def perf_event_new_def perf_ring_new_def mmap_size_def)

subsection \<open>Giving shards back\<close>

lemma pending_bytes_filter:
  assumes "\<And>a shard. (a, shard) \<in> set shards \<Longrightarrow> \<not> P (a, shard) \<Longrightarrow> ring_used (sh_buffer shard) = 0"
  shows "pending_bytes (filter P shards) = pending_bytes shards"
  using assms by (induction shards) fastforce+

lemma reclaim_ok:
  assumes ok: "event_ok d p qs n"
  shows "event_ok (reclaim_inactive_producer_shards tgkill d) p qs n"
    and "pending_bytes (pd_producer_shards (reclaim_inactive_producer_shards tgkill d)) =
      pending_bytes (pd_producer_shards d)"
proof -
  let ?g = "pd_producer_buffer_generation d" and ?shards = "pd_producer_shards d"
  define P :: "nat \<times> perf_shard \<Rightarrow> bool" where "P = (\<lambda>(a, shard). \<not> (\<not> ring_has_data (sh_buffer shard) \<and>
      \<not> is_thread_alive tgkill (sh_pid shard) (sh_tid shard)))"
  have eq: "reclaim_inactive_producer_shards tgkill d = d\<lparr>pd_producer_shards := filter P ?shards\<rparr>"
    by (simp add: reclaim_inactive_producer_shards_def P_def)
  have none: "\<not> ring_has_data (sh_buffer shard)" if "\<not> P (a, shard)" for a shard
    using that by (auto simp: P_def)
  then have sum: "pending_bytes (filter P ?shards) = pending_bytes ?shards"
    by (intro pending_bytes_filter) (simp add: ring_has_data_def ring_used_def)
  show "pending_bytes (pd_producer_shards (reclaim_inactive_producer_shards tgkill d)) = pending_bytes ?shards"
    by (simp add: eq sum)
  have "current_threads ?g (filter P ?shards) = map (\<lambda>(a, shard). shard_thread shard)
      (filter P (filter (\<lambda>(a, shard). sh_buffer_generation shard = ?g) ?shards))"
    by (simp add: current_threads_def conj_commute)
  then have "distinct (current_threads ?g (filter P ?shards))"
    using event_okD(1) [OF ok] by (simp add: shards_ok_def current_threads_def distinct_map_filter del: filter_filter)
  moreover have "p t = []" if "t \<notin> set (current_threads ?g (filter P ?shards))" for t
  proof (cases "t \<in> set (current_threads ?g ?shards)")
    case True
    then obtain a shard where sh: "(a, shard) \<in> set ?shards" "sh_buffer_generation shard = ?g" "shard_thread shard = t"
      by (auto simp: current_threads_def)
    with that have "\<not> P (a, shard)" using current_threadsI [of a shard "filter P ?shards" ?g] by auto
    then show ?thesis
      using ring_ok_no_data [OF _ none] event_okD(8) [OF ok sh(1)] sh(2,3) by (fastforce simp: shard_ok_def)
  qed (rule event_okD(3) [OF ok])
  ultimately show "event_ok (reclaim_inactive_producer_shards tgkill d) p qs n"
    using ok sum by (auto simp: eq event_ok_def shards_ok_def strays_empty_def distinct_map_filter
      simp del: split_paired_All)
qed

lemma reclaim_cache:
  assumes "cache_ok d t e" and "sees tgkill live" and "t \<in> live"
  shows "cache_ok (reclaim_inactive_producer_shards tgkill d) t e"
  using assms by (fastforce simp: cache_ok_def reclaim_inactive_producer_shards_def sees_def shard_thread_def)

lemma maybe_reclaim_ok:
  assumes ok: "event_ok d p qs n"
  shows "event_ok (maybe_reclaim_inactive_producer_shards tgkill d) p qs n"
proof -
  have "event_ok (d\<lparr>pd_drains_since_reclaim := k\<rparr>) p qs n" for k using ok by (simp add: event_ok_def)
  then show ?thesis
    using reclaim_ok(1) by (simp add: maybe_reclaim_inactive_producer_shards_def Let_def)
qed

lemma maybe_reclaim_cache:
  assumes "cache_ok d t e" and "sees tgkill live" and "t \<in> live"
  shows "cache_ok (maybe_reclaim_inactive_producer_shards tgkill d) t e"
proof -
  have "cache_ok (d\<lparr>pd_drains_since_reclaim := k\<rparr>) t e" for k using assms(1) by (simp add: cache_ok_def)
  then show ?thesis
    using reclaim_cache [OF _ assms(2,3)] by (simp add: maybe_reclaim_inactive_producer_shards_def Let_def)
qed

subsection \<open>Finding the shard\<close>

lemma ring_new_ensure:
  assumes c: "ring_ok c qs" and page: "pr_pagesize c = pagesize"
    and b: "b = fst (ring_ensure_mmap_buffer mem (perf_ring_new pagesize) (mmap_buffer_size c))"
  shows "ring_ok b []" "mmap_size b = 0 \<or> mmap_size b = mmap_size c" "pr_data_head b = 0" "ring_used b = 0"
proof -
  have "b = perf_ring_new pagesize \<or> mmap_size c \<noteq> 0 \<and> b = (perf_ring_new pagesize)
      \<lparr>pr_data := replicate (mmap_size c) 0, pr_data_size := mmap_size c\<rparr>"
    using page by (auto simp: b ring_ensure_mmap_buffer_def mmap_buffer_size_def mmap_size_def perf_ring_new_def)
  then have "ring_ok b [] \<and> (mmap_size b = 0 \<or> mmap_size b = mmap_size c) \<and> pr_data_head b = 0 \<and> ring_used b = 0"
  proof (elim disjE conjE)
    assume "b = perf_ring_new pagesize"
    then show ?thesis using ring_ok_empty by (simp add: perf_ring_new_def mmap_size_def ring_used_def)
  next
    assume n: "mmap_size c \<noteq> 0" and "b = (perf_ring_new pagesize)
        \<lparr>pr_data := replicate (mmap_size c) 0, pr_data_size := mmap_size c\<rparr>"
    moreover obtain e where "mmap_size c = 2 ^ e" using ring_ok_size [OF c n] by blast
    ultimately show ?thesis
      by (auto simp: ring_ok_def perf_ring_new_def mmap_size_def ring_used_def ring_bytes_def)
  qed
  then show "ring_ok b []" "mmap_size b = 0 \<or> mmap_size b = mmap_size c" "pr_data_head b = 0" "ring_used b = 0"
    by simp_all
qed

text \<open>Looking for a shard changes nothing that a reader sees.\<close>

definition same_event :: "perf_event_state \<Rightarrow> perf_event_state \<Rightarrow> bool" where
  "same_event d d' \<longleftrightarrow> pd_consumer_buffer d' = pd_consumer_buffer d \<and>
     pending_bytes (pd_producer_shards d') = pending_bytes (pd_producer_shards d)"

definition keeps_caches :: "thread_id set \<Rightarrow> perf_event_state \<Rightarrow> perf_event_state \<Rightarrow> bool" where
  "keeps_caches live d d' \<longleftrightarrow> (\<forall>t\<in>live. \<forall>e. cache_ok d t e \<longrightarrow> cache_ok d' t e)"

definition shard_of :: "perf_event_state \<Rightarrow> thread_id \<Rightarrow> nat \<Rightarrow> perf_shard \<Rightarrow> bool" where
  "shard_of d t a shard \<longleftrightarrow> (a, shard) \<in> set (pd_producer_shards d) \<and> shard_thread shard = t \<and>
     sh_buffer_generation shard = pd_producer_buffer_generation d"

lemma shard_of_cache: "shard_of d t a shard \<Longrightarrow> cache_ok d t (cache_entry d a shard)"
  by (auto simp: shard_of_def cache_ok_def cache_entry_def)

lemma event_ok_add_shard:
  assumes ok: "event_ok d p qs n" and a: "a \<notin> fst ` set (pd_producer_shards d)"
    and new: "shard = perf_shard_new mem pid tid generation (pd_producer_buffer_generation d)
      (pd_pagesize d) (mmap_buffer_size (pd_consumer_buffer d))"
    and t: "(pid, tid) \<notin> set (current_threads (pd_producer_buffer_generation d) (pd_producer_shards d))"
  defines "d' \<equiv> d\<lparr>pd_producer_shards := pd_producer_shards d @ [(a, shard)]\<rparr>"
  shows "event_ok d' p qs n" "same_event d d'" "keeps_caches live d d'" "shard_of d' (pid, tid) a shard"
proof -
  have buf: "sh_buffer shard =
      fst (ring_ensure_mmap_buffer mem (perf_ring_new (pd_pagesize d)) (mmap_buffer_size (pd_consumer_buffer d)))"
    and sh: "sh_pid shard = pid" "sh_tid shard = tid" "sh_buffer_generation shard = pd_producer_buffer_generation d"
    by (simp_all add: new perf_shard_new_def)
  note r = ring_new_ensure [OF event_okD(2,5) [OF ok] buf]
  have th: "shard_thread shard = (pid, tid)" using sh by (simp add: shard_thread_def)
  have "p (pid, tid) = []" using event_okD(3) [OF ok t] .
  then have "shard_ok (pd_producer_buffer_generation d) p shard" using r(1) th by (simp add: shard_ok_def)
  moreover have "shard_sized (pd_producer_buffer_generation d) (mmap_size (pd_consumer_buffer d)) n shard"
    using r(2,3) sh by (auto simp: shard_sized_def)
  ultimately show "event_ok d' p qs n"
    using ok a t r(4) th
    by (auto simp: d'_def event_ok_def shards_ok_def strays_empty_def simp del: split_paired_All)
  show "same_event d d'" using r(4) by (simp add: d'_def same_event_def)
  show "keeps_caches live d d'" by (auto simp: keeps_caches_def d'_def cache_ok_def)
  show "shard_of d' (pid, tid) a shard" using th sh by (simp add: shard_of_def d'_def)
qed

lemma locked_shard_ok:
  assumes ok: "event_ok d p qs n" and node: "fresh_node d node"
    and live: "sees tgkill live"
    and res: "locked_thread_shard mem node tgkill pid tid d = (d', cache, r)"
  shows "event_ok d' p qs n" "same_event d d'" "keeps_caches live d d'"
    "(\<exists>a shard. r = Ok a \<and> shard_of d' (pid, tid) a shard \<and> cache = Some (cache_entry d' a shard)) \<or>
      r = Thrown \<and> cache = None"
proof -
  define d1 where "d1 = (if length (pd_producer_shards d) \<ge> software_perf_event_reclaim_shard_threshold
    then reclaim_inactive_producer_shards tgkill d else d)"
  have ok1: "event_ok d1 p qs n" using ok reclaim_ok(1) [OF ok] by (simp add: d1_def)
  have same1: "same_event d d1" using reclaim_ok(2) [OF ok]
    by (simp add: d1_def same_event_def) (simp add: reclaim_inactive_producer_shards_def)
  have caches1: "keeps_caches live d d1"
    using reclaim_cache [OF _ live] by (simp add: d1_def keeps_caches_def)
  have sub: "set (pd_producer_shards d1) \<subseteq> set (pd_producer_shards d)"
    by (auto simp: d1_def reclaim_inactive_producer_shards_def)
  let ?find = "find (thread_shard pid tid (pd_producer_buffer_generation d1)) (pd_producer_shards d1)"
  have all: "event_ok d' p qs n \<and> same_event d1 d' \<and> keeps_caches live d1 d' \<and>
    ((\<exists>a shard. r = Ok a \<and> shard_of d' (pid, tid) a shard \<and> cache = Some (cache_entry d' a shard)) \<or>
      r = Thrown \<and> cache = None)"
  proof (cases ?find)
    case (Some x)
    obtain a shard where x: "x = (a, shard)" by fastforce
    have "d' = d1" "cache = Some (cache_entry d1 a shard)" "r = Ok a"
      using res Some by (auto simp: locked_thread_shard_def d1_def [symmetric] x)
    moreover have "shard_of d1 (pid, tid) a shard"
      using Some by (auto simp: find_Some_iff x shard_of_def thread_shard_def shard_thread_def in_set_conv_nth)
    ultimately show ?thesis using ok1 by (auto simp: same_event_def keeps_caches_def)
  next
    case None
    let ?d2 = "d1\<lparr>pd_next_shard_generation := u64 (pd_next_shard_generation d1 + 1)\<rparr>"
    have t: "(pid, tid) \<notin> set (current_threads (pd_producer_buffer_generation ?d2) (pd_producer_shards ?d2))"
      using None by (auto simp: find_None_iff thread_shard_def current_threads_def shard_thread_def)
    have ok2: "event_ok ?d2 p qs n" using ok1 by (simp add: event_ok_def)
    have eq2: "same_event d1 ?d2" "keeps_caches live d1 ?d2"
      by (simp_all add: same_event_def keeps_caches_def cache_ok_def)
    show ?thesis
    proof (cases node)
      case None': None
      then have "d' = ?d2" "cache = None" "r = Thrown"
        using res None by (auto simp: locked_thread_shard_def d1_def [symmetric] Let_def)
      then show ?thesis using ok2 eq2 by simp
    next
      case (Some a)
      define shard where "shard = perf_shard_new mem pid tid (pd_next_shard_generation d1)
        (pd_producer_buffer_generation ?d2) (pd_pagesize ?d2) (mmap_buffer_size (pd_consumer_buffer ?d2))"
      have "d' = ?d2\<lparr>pd_producer_shards := pd_producer_shards ?d2 @ [(a, shard)]\<rparr>" "r = Ok a"
        "cache = Some (cache_entry ?d2 a shard)"
        using res None Some by (auto simp: locked_thread_shard_def d1_def [symmetric] Let_def shard_def)
      moreover have "a \<notin> fst ` set (pd_producer_shards ?d2)" using node Some sub by (auto simp: fresh_node_def)
      moreover note event_ok_add_shard(1,2,4) [OF ok2 this shard_def t]
        event_ok_add_shard(3) [OF ok2 this shard_def t, of live]
      ultimately show ?thesis
        using eq2 by (auto simp: same_event_def keeps_caches_def cache_entry_def)
    qed
  qed
  then show "event_ok d' p qs n" "(\<exists>a shard. r = Ok a \<and> shard_of d' (pid, tid) a shard \<and>
      cache = Some (cache_entry d' a shard)) \<or> r = Thrown \<and> cache = None" by blast+
  from all same1 caches1 show "same_event d d'" "keeps_caches live d d'"
    by (simp_all add: same_event_def keeps_caches_def)
qed

lemma get_shard_ok:
  assumes ok: "event_ok d p qs n" and node: "fresh_node d node"
    and live: "sees tgkill live" and cache: "cache_valid d (pid, tid) cache"
    and res: "get_current_thread_shard mem node tgkill pid tid d cache = (d', cache', r)"
  shows "event_ok d' p qs n" "same_event d d'" "keeps_caches live d d'"
    "(\<exists>a shard. r = Ok a \<and> shard_of d' (pid, tid) a shard) \<or> r = Thrown"
    "cache_valid d' (pid, tid) cache'"
proof -
  have "cached_shard pid tid d cache = Ok None \<or>
    (\<exists>a shard. cached_shard pid tid d cache = Ok (Some a) \<and> shard_of d (pid, tid) a shard)"
  proof (cases cache)
    case (Some e)
    with cache obtain shard where "ce_event_generation e = pd_event_generation d"
      and elem: "(ce_shard e, shard) \<in> set (pd_producer_shards d)" and th: "shard_thread shard = (pid, tid)"
      and g: "sh_generation shard = ce_shard_generation e" "sh_buffer_generation shard = ce_buffer_generation e"
      by (auto simp: cache_valid_def cache_ok_def)
    moreover have "map_of (pd_producer_shards d) (ce_shard e) = Some shard"
      using elem event_okD(7) [OF ok] by simp
    ultimately show ?thesis
      using Some by (auto simp: cached_shard_def shard_of_def shard_thread_def)
  qed (simp add: cached_shard_def)
  then have "event_ok d' p qs n \<and> same_event d d' \<and> keeps_caches live d d' \<and>
    ((\<exists>a shard. r = Ok a \<and> shard_of d' (pid, tid) a shard) \<or> r = Thrown) \<and>
    cache_valid d' (pid, tid) cache'"
  proof (elim disjE exE conjE)
    assume "cached_shard pid tid d cache = Ok None"
    then have "locked_thread_shard mem node tgkill pid tid d = (d', cache', r)"
      using res by (simp add: get_current_thread_shard_def)
    from locked_shard_ok [OF ok node live this] show ?thesis
      using shard_of_cache [of d' "(pid, tid)"] by (auto simp: cache_valid_def)
  next
    fix a shard assume "cached_shard pid tid d cache = Ok (Some a)" and sh: "shard_of d (pid, tid) a shard"
    then have "d' = d" "cache' = cache" "r = Ok a" using res by (simp_all add: get_current_thread_shard_def)
    then show ?thesis using ok sh cache by (auto simp: same_event_def keeps_caches_def)
  qed
  then show "event_ok d' p qs n" "same_event d d'" "keeps_caches live d d'"
    "(\<exists>a shard. r = Ok a \<and> shard_of d' (pid, tid) a shard) \<or> r = Thrown"
    "cache_valid d' (pid, tid) cache'" by simp_all
qed

subsection \<open>Output\<close>

lemma put_shard_same:
  assumes "event_ok d p qs n" and "(a, shard) \<in> set (pd_producer_shards d)"
  shows "put_shard_buffer d a (sh_buffer shard) = d"
proof -
  have "map (\<lambda>(a', sh). (a', if a' = a then sh\<lparr>sh_buffer := sh_buffer shard\<rparr> else sh)) (pd_producer_shards d) =
      pd_producer_shards d"
  proof (rule map_idI)
    fix x assume x: "x \<in> set (pd_producer_shards d)"
    have "snd x = shard" if "fst x = a"
      using x that assms(2) event_okD(7) [OF assms(1)] by (metis eq_key_imp_eq_value prod.collapse)
    then show "(case x of (a', sh) \<Rightarrow> (a', if a' = a then sh\<lparr>sh_buffer := sh_buffer shard\<rparr> else sh)) = x"
      by (cases x) auto
  qed
  then show ?thesis by (simp add: put_shard_buffer_def)
qed

text \<open>A record more in one shard.\<close>

lemma put_shard_shards:
  assumes "shards_ok g p shards" and "(a, shard) \<in> set shards" and "sh_buffer_generation shard = g"
    and b: "ring_ok b (p (shard_thread shard) @ [r])" and used: "ring_used b = ring_used (sh_buffer shard) + k"
  defines "put \<equiv> map (\<lambda>(a', sh). (a', if a' = a then sh\<lparr>sh_buffer := b\<rparr> else sh))"
  defines "q \<equiv> p(shard_thread shard := p (shard_thread shard) @ [r])"
  shows "shards_ok g q (put shards) \<and> pending_bytes (put shards) = pending_bytes shards + k"
  using assms(1,2)
proof (induction shards)
  case (Cons x shards)
  obtain a' sh where x: "x = (a', sh)" by fastforce
  have same: "current_threads g (put ys) = current_threads g ys" "map fst (put ys) = map fst ys" for ys
    by (induction ys) (auto simp: put_def shard_thread_def)
  have addr: "fst ` set (put ys) = fst ` set ys" for ys using same(2) [of ys] by (metis list.set_map)
  note ok = Cons.prems(1) [unfolded x shards_ok_Cons]
  show ?case
  proof (cases "(a, shard) = x")
    case True
    then have sh: "a' = a" "sh = shard" by (simp_all add: x)
    have "a \<notin> fst ` set shards" using ok sh by simp
    then have id: "put shards = shards" unfolding put_def by (intro map_idI) force
    have "q t = p t" if "t \<in> set (current_threads g shards)" for t
      using ok sh assms(3) that by (auto simp: q_def)
    from shards_ok_cong [OF this] have "shards_ok g q shards" using ok by simp
    moreover have "shard_ok g q (shard\<lparr>sh_buffer := b\<rparr>)"
      using b assms(3) by (simp add: shard_ok_def q_def shard_thread_def)
    ultimately show ?thesis
      using ok sh id used by (simp add: x put_def shards_ok_Cons shard_thread_def)
  next
    case False
    then have elem: "(a, shard) \<in> set shards" using Cons.prems(2) by simp
    then have "a' \<noteq> a" using ok by force
    moreover have "shard_thread sh \<noteq> shard_thread shard" if "sh_buffer_generation sh = g"
      using ok that current_threadsI [OF elem assms(3)] by auto
    then have "shard_ok g q sh" using ok shard_ok_cong [of sh g q p] by (simp add: q_def)
    moreover note Cons.IH [OF _ elem] ok
    moreover have "put (x # shards) = x # put shards" using \<open>a' \<noteq> a\<close> by (simp add: put_def x)
    ultimately show ?thesis using addr same by (simp add: x shards_ok_Cons)
  qed
qed simp

lemma put_shard_ok:
  assumes ok: "event_ok d p qs n" and sh: "shard_of d t a shard"
    and b: "ring_ok b (p t @ [r])" and grown: "ring_grown (sh_buffer shard) b k"
  shows "event_ok (put_shard_buffer d a b) (p(t := p t @ [r])) qs (n + k)"
    and "pending_bytes (pd_producer_shards (put_shard_buffer d a b)) = pending_bytes (pd_producer_shards d) + k"
proof -
  let ?g = "pd_producer_buffer_generation d" and ?shards = "pd_producer_shards d"
  let ?put = "map (\<lambda>(a', sh). (a', if a' = a then sh\<lparr>sh_buffer := b\<rparr> else sh))"
  have elem: "(a, shard) \<in> set ?shards" and t: "shard_thread shard = t" and g: "sh_buffer_generation shard = ?g"
    using sh by (simp_all add: shard_of_def)
  have "ring_ok (sh_buffer shard) (p t)" using event_okD(8) [OF ok elem] g t by (simp add: shard_ok_def)
  then have "ring_used b = ring_used (sh_buffer shard) + k"
    using grown ring_okD(1) by (simp add: ring_grown_def ring_used_def)
  then have put: "shards_ok ?g (p(t := p t @ [r])) (?put ?shards)" "pending_bytes (?put ?shards) = pending_bytes ?shards + k"
    using put_shard_shards [OF event_okD(1) [OF ok] elem g, of b r k] b t by simp_all
  have eq: "put_shard_buffer d a b = d\<lparr>pd_producer_shards := ?put ?shards\<rparr>" by (simp add: put_shard_buffer_def)
  have threads: "current_threads ?g (?put ys) = current_threads ?g ys" for ys
    by (induction ys) (auto simp: shard_thread_def)
  have key: "sh' = shard" if "(a, sh') \<in> set ?shards" for sh'
    using that elem event_okD(7) [OF ok] by (metis eq_key_imp_eq_value)
  have "strays_empty ?g (p(t := p t @ [r])) (?put ?shards)"
    using ok current_threadsI [OF elem g] t threads
    by (auto simp: event_ok_def strays_empty_def simp del: split_paired_All)
  moreover have "shard_sized ?g (mmap_size (pd_consumer_buffer d)) (n + k) (snd x)"
    if "x \<in> set (?put ?shards)" for x
  proof -
    have sized: "\<forall>(a, sh)\<in>set ?shards. shard_sized ?g (mmap_size (pd_consumer_buffer d)) n sh"
      using ok by (simp add: event_ok_def)
    from that obtain a' sh0 where x: "(a', sh0) \<in> set ?shards" "snd x = (if a' = a then sh0\<lparr>sh_buffer := b\<rparr> else sh0)"
      by auto
    then have "shard_sized ?g (mmap_size (pd_consumer_buffer d)) n sh0" using sized by auto
    with x key grown show ?thesis by (auto simp: shard_sized_def ring_grown_def split: if_splits)
  qed
  ultimately show "event_ok (put_shard_buffer d a b) (p(t := p t @ [r])) qs (n + k)"
    using ok put unfolding eq event_ok_def case_prod_beta by simp
  show "pending_bytes (pd_producer_shards (put_shard_buffer d a b)) = pending_bytes ?shards + k"
    using put by (simp add: eq)
qed

lemma put_shard_caches: "keeps_caches live d (put_shard_buffer d a b)"
  by (force simp: keeps_caches_def cache_ok_def put_shard_buffer_def shard_thread_def)

lemma keeps_caches_trans: "keeps_caches live a b \<Longrightarrow> keeps_caches live b c \<Longrightarrow> keeps_caches live a c"
  by (simp add: keeps_caches_def)

lemma event_output_ok:
  assumes ok: "event_ok d p qs n" and node: "fresh_node d node"
    and live: "sees tgkill live" "(pid, tid) \<in> live" and cache: "cache_valid d (pid, tid) cache"
    and wrap: "n + sample_record_size (length buf) < 2 ^ 64"
    and res: "event_output_data mem node tgkill pid tid d cache buf = (d', cache', r)"
  shows "r \<noteq> UB" "keeps_caches live d d'" "cache_valid d' (pid, tid) cache'"
    "pd_consumer_buffer d' = pd_consumer_buffer d"
    "event_ok d' p qs n \<and> pending_bytes (pd_producer_shards d') = pending_bytes (pd_producer_shards d) \<or>
     (\<exists>rec. sample_of buf rec \<and>
        event_ok d' (p((pid, tid) := p (pid, tid) @ [rec])) qs (n + sample_record_size (length buf)) \<and>
        pending_bytes (pd_producer_shards d') = pending_bytes (pd_producer_shards d) + sample_record_size (length buf))"
proof -
  obtain d1 c1 r1 where get: "get_current_thread_shard mem node tgkill pid tid d cache = (d1, c1, r1)"
    by (metis prod_cases3)
  note g = get_shard_ok [OF ok node live(1) cache get]
  let ?k = "sample_record_size (length buf)"
  have "r \<noteq> UB \<and> keeps_caches live d1 d' \<and> cache' = c1 \<and> pd_consumer_buffer d' = pd_consumer_buffer d \<and>
    (event_ok d' p qs n \<and> pending_bytes (pd_producer_shards d') = pending_bytes (pd_producer_shards d) \<or>
     (\<exists>rec. sample_of buf rec \<and> event_ok d' (p((pid, tid) := p (pid, tid) @ [rec])) qs (n + ?k) \<and>
        pending_bytes (pd_producer_shards d') = pending_bytes (pd_producer_shards d) + ?k))"
    using g(4)
  proof (elim disjE exE conjE)
    assume "r1 = Thrown"
    then have "d' = d1" "cache' = c1" "r = Thrown" using res get by (simp_all add: event_output_data_def)
    with g(1,2) show ?thesis by (simp add: keeps_caches_def same_event_def)
  next
    fix a shard assume "r1 = Ok a" and sh: "shard_of d1 (pid, tid) a shard"
    have elem: "(a, shard) \<in> set (pd_producer_shards d1)" using sh by (simp add: shard_of_def)
    then have "map_of (pd_producer_shards d1) a = Some shard" using event_okD(7) [OF g(1)] by simp
    then have out: "ring_output_data (sh_buffer shard) buf = (b, x) \<Longrightarrow> d' = put_shard_buffer d1 a b \<and> cache' = c1 \<and> r = x" for b x
      using res get \<open>r1 = Ok a\<close> by (simp add: event_output_data_def)
    have ring: "ring_ok (sh_buffer shard) (p (pid, tid))"
      using event_okD(8) [OF g(1) elem] sh by (simp add: shard_ok_def shard_of_def)
    consider "length buf > 65516" | "length buf \<le> 65516" "\<not> ring_fits (sh_buffer shard) ?k"
      | "length buf \<le> 65516" "ring_fits (sh_buffer shard) ?k" by linarith
    then show ?thesis
    proof cases
      case 1
      then have "ring_output_data (sh_buffer shard) buf = (sh_buffer shard, Err E2BIG)" by (simp add: ring_output_data_def)
      from out [OF this] put_shard_same [OF g(1) elem] g(1,2) show ?thesis by (simp add: keeps_caches_def same_event_def)
    next
      case 2
      from out [OF output_refused [OF ring 2(2,1)]] put_shard_same [OF g(1) elem] g(1,2)
      show ?thesis by (simp add: keeps_caches_def same_event_def)
    next
      case 3
      have "pr_data_head (sh_buffer shard) + ?k < 2 ^ 64" using event_okD(9) [OF g(1) elem] wrap by linarith
      from output_accepted [OF ring 3(2,1) this] obtain b rec where b: "ring_output_data (sh_buffer shard) buf = (b, Ok ())"
        "sample_of buf rec" "ring_ok b (p (pid, tid) @ [rec])" "ring_grown (sh_buffer shard) b ?k" by blast
      have "pd_consumer_buffer (put_shard_buffer d1 a b) = pd_consumer_buffer d1" by (simp add: put_shard_buffer_def)
      with out [OF b(1)] b(2) put_shard_ok [OF g(1) sh b(3,4)] put_shard_caches g(2)
      show ?thesis by (auto simp: same_event_def)
    qed
  qed
  moreover from this have "keeps_caches live d d'" using keeps_caches_trans [OF g(3)] by blast
  moreover from calculation have "cache_valid d' (pid, tid) cache'"
    using g(5) live(2) by (auto simp: cache_valid_def keeps_caches_def)
  ultimately show "r \<noteq> UB" "keeps_caches live d d'" "cache_valid d' (pid, tid) cache'"
    "pd_consumer_buffer d' = pd_consumer_buffer d"
    "event_ok d' p qs n \<and> pending_bytes (pd_producer_shards d') = pending_bytes (pd_producer_shards d) \<or>
     (\<exists>rec. sample_of buf rec \<and>
        event_ok d' (p((pid, tid) := p (pid, tid) @ [rec])) qs (n + ?k) \<and>
        pending_bytes (pd_producer_shards d') = pending_bytes (pd_producer_shards d) + ?k)"
    by blast+
qed

subsection \<open>Draining and mapping\<close>

lemma list_all2_set1: "list_all2 P xs ys \<Longrightarrow> x \<in> set xs \<Longrightarrow> \<exists>y\<in>set ys. P x y"
  by (induction rule: list_all2_induct) auto

lemma list_all2_set2: "list_all2 P xs ys \<Longrightarrow> y \<in> set ys \<Longrightarrow> \<exists>x\<in>set xs. P x y"
  by (induction rule: list_all2_induct) auto

lemma drained_event_ok:
  assumes ok: "event_ok d p qs n"
    and dr: "drained (pd_producer_buffer_generation d) p (pd_producer_shards d) qs (pd_consumer_buffer d) p' moved shards c res"
  defines "d' \<equiv> d\<lparr>pd_producer_shards := shards, pd_consumer_buffer := c\<rparr>"
  shows "event_ok d' p' (qs @ map snd moved) n" "keeps_caches live d d'"
proof -
  let ?g = "pd_producer_buffer_generation d"
  note dd = dr [unfolded drained_def]
  have like: "list_all2 shard_like (pd_producer_shards d) shards" and grown: "ring_grown (pd_consumer_buffer d) c (length (concat (map snd moved)))"
    using dd by simp_all
  have empty: "p' t = []" if "t \<notin> set (current_threads ?g shards)" for t
  proof -
    have "of_thread t moved @ p' t = p t" using dd by blast
    then show ?thesis using event_okD(3) [OF ok, of t] that like_threads [OF like] by simp
  qed
  have sized: "shard_sized ?g (mmap_size c) n (snd y)" if "y \<in> set shards" for y
  proof -
    obtain x where "x \<in> set (pd_producer_shards d)" "shard_like x y" using list_all2_set2 [OF like \<open>y \<in> set shards\<close>] by blast
    moreover have "\<forall>x\<in>set (pd_producer_shards d). shard_sized ?g (mmap_size (pd_consumer_buffer d)) n (snd x)"
      using ok by (auto simp: event_ok_def)
    ultimately show ?thesis using grown by (fastforce simp: shard_like_def shard_sized_def ring_grown_def)
  qed
  have "pr_data_head c + pending_bytes shards \<le> n" using dd event_okD(6) [OF ok] by simp
  moreover have "generation_ok d'" using event_okD(4) [OF ok] grown by (simp add: generation_ok_def d'_def ring_grown_def)
  moreover have "pr_pagesize c = pd_pagesize d" using event_okD(5) [OF ok] grown by (simp add: ring_grown_def)
  moreover have "strays_empty ?g p' shards" using empty by (simp add: strays_empty_def)
  ultimately show "event_ok d' p' (qs @ map snd moved) n"
    using dd sized unfolding event_ok_def case_prod_beta by (simp add: d'_def)
  show "keeps_caches live d d'"
    unfolding keeps_caches_def cache_ok_def
  proof (intro ballI allI impI)
    fix t e assume "ce_event_generation e = pd_event_generation d \<and>
      (\<exists>shard. (ce_shard e, shard) \<in> set (pd_producer_shards d) \<and> shard_thread shard = t \<and>
        sh_generation shard = ce_shard_generation e \<and> sh_buffer_generation shard = ce_buffer_generation e)"
    then obtain shard where sh: "ce_event_generation e = pd_event_generation d" "(ce_shard e, shard) \<in> set (pd_producer_shards d)"
      "shard_thread shard = t" "sh_generation shard = ce_shard_generation e" "sh_buffer_generation shard = ce_buffer_generation e"
      by blast
    obtain y where "y \<in> set shards" "shard_like (ce_shard e, shard) y" using list_all2_set1 [OF like sh(2)] by blast
    with sh show "ce_event_generation e = pd_event_generation d' \<and>
      (\<exists>shard. (ce_shard e, shard) \<in> set (pd_producer_shards d') \<and> shard_thread shard = t \<and>
        sh_generation shard = ce_shard_generation e \<and> sh_buffer_generation shard = ce_buffer_generation e)"
      by (cases y) (auto simp: d'_def shard_like_def shard_thread_def)
  qed
qed

lemma event_drain_ok:
  assumes ok: "event_ok d p qs n" and "n < 2 ^ 64" and live: "sees tgkill live"
    and res: "event_has_data mem tgkill d = (d', r)"
  obtains p' moved where "event_ok d' p' (qs @ map snd moved) n" "\<And>t. of_thread t moved @ p' t = p t"
    "keeps_caches live d d'" "r = Thrown \<or> r = Ok (ring_has_data (pd_consumer_buffer d'))"
    "(\<forall>k. mem k) \<Longrightarrow> ring_used (pd_consumer_buffer d) + pending_bytes (pd_producer_shards d) < mmap_size (pd_consumer_buffer d) \<Longrightarrow>
      r = Ok (ring_has_data (pd_consumer_buffer d')) \<and> (\<forall>t. p' t = [])"
proof -
  let ?g = "pd_producer_buffer_generation d"
  have wrap: "pr_data_head (pd_consumer_buffer d) + pending_bytes (pd_producer_shards d) < 2 ^ 64"
    using event_okD(6) [OF ok] assms(2) by linarith
  obtain p' moved shards c x where dr: "drain_shards mem (pd_producer_shards d) (pd_consumer_buffer d) = (shards, c, x)"
    "drained ?g p (pd_producer_shards d) qs (pd_consumer_buffer d) p' moved shards c x" "(\<forall>k. mem k) \<Longrightarrow> x = Ok ()"
    by (rule drain_shards_ok [OF event_okD(1,2) [OF ok] wrap, of mem]) blast
  let ?d = "d\<lparr>pd_producer_shards := shards, pd_consumer_buffer := c\<rparr>"
  note ok1 = drained_event_ok [OF ok dr(2)]
  have moved: "of_thread t moved @ p' t = p t" for t using dr(2) unfolding drained_def by blast
  have all: "\<forall>t. p' t = []" if "x = Ok ()"
    "ring_used (pd_consumer_buffer d) + pending_bytes (pd_producer_shards d) < mmap_size (pd_consumer_buffer d)"
  proof
    fix t
    have "pending_bytes shards = 0" using dr(2) that by (simp add: drained_def)
    then have used: "ring_used (sh_buffer shard) = 0" if "(a, shard) \<in> set shards" for a shard
      using that by (force simp: pending_bytes_def)
    show "p' t = []"
    proof (cases "t \<in> set (current_threads ?g shards)")
      case True
      then obtain a shard where "(a, shard) \<in> set shards" "sh_buffer_generation shard = ?g" "shard_thread shard = t"
        by (auto simp: current_threads_def)
      then show ?thesis
        using event_okD(8) [OF ok1(1), of a shard] used ring_ok_unused by (fastforce simp: shard_ok_def)
    qed (use event_okD(3) [OF ok1(1), of t] in simp)
  qed
  have c: "pd_consumer_buffer (maybe_reclaim_inactive_producer_shards tgkill ?d) = c"
    by (simp add: maybe_reclaim_inactive_producer_shards_def reclaim_inactive_producer_shards_def Let_def)
  have "x = Thrown \<or> x = Ok ()" using dr(2) by (auto simp: drained_def)
  then show ?thesis
  proof
    assume x: "x = Thrown"
    then have "d' = ?d" "r = Thrown" using res dr(1) by (simp_all add: event_has_data_def drain_producer_shards_def)
    with ok1 moved x dr(3) that show ?thesis by blast
  next
    assume x: "x = Ok ()"
    then have d': "d' = maybe_reclaim_inactive_producer_shards tgkill ?d" and r: "r = Ok (ring_has_data (pd_consumer_buffer d'))"
      using res dr(1) c by (auto simp: event_has_data_def drain_producer_shards_def)
    have "keeps_caches live ?d d'"
      using maybe_reclaim_cache [OF _ live] by (simp add: d' keeps_caches_def)
    then have "keeps_caches live d d'" by (rule keeps_caches_trans [OF ok1(2)])
    with maybe_reclaim_ok [OF ok1(1), of tgkill, folded d'] moved r all [OF x] that show ?thesis by blast
  qed
qed

text \<open>Before the consumer maps its buffer nothing can be stored.\<close>

lemma unmapped_empty:
  assumes ok: "event_ok d p qs n" and zero: "mmap_size (pd_consumer_buffer d) = 0"
  shows "qs = []" "p t = []" "ring_used (pd_consumer_buffer d) = 0"
    "(a, shard) \<in> set (pd_producer_shards d) \<Longrightarrow> ring_ok (sh_buffer shard) [] \<and>
      mmap_size (sh_buffer shard) = 0 \<and> sh_buffer_generation shard \<le> 1 \<and> pr_data_head (sh_buffer shard) \<le> n"
proof -
  let ?g = "pd_producer_buffer_generation d" and ?shards = "pd_producer_shards d"
  have g1: "?g = 1" using event_okD(4) [OF ok] zero by (simp add: generation_ok_def)
  show used: "ring_used (pd_consumer_buffer d) = 0"
    using event_okD(2) [OF ok] zero by (simp add: ring_ok_def ring_used_def)
  then show "qs = []" using ring_ok_unused [OF event_okD(2) [OF ok]] by simp
  have small: "mmap_size (sh_buffer shard) = 0 \<and> sh_buffer_generation shard \<le> 1 \<and> pr_data_head (sh_buffer shard) \<le> n"
    if "(a, shard) \<in> set ?shards" for a shard
    using ok that zero g1 by (auto simp: event_ok_def shard_sized_def)
  have none: "ring_ok (sh_buffer shard) []" if elem: "(a, shard) \<in> set ?shards" for a shard
  proof -
    obtain rs where rs: "ring_ok (sh_buffer shard) rs" using event_okD(8) [OF ok elem] by (auto simp: shard_ok_def)
    then have "ring_used (sh_buffer shard) = 0" using small [OF elem] by (simp add: ring_ok_def ring_used_def)
    with ring_ok_unused [OF rs] rs show ?thesis by simp
  qed
  then show "(a, shard) \<in> set ?shards \<Longrightarrow> ring_ok (sh_buffer shard) [] \<and>
      mmap_size (sh_buffer shard) = 0 \<and> sh_buffer_generation shard \<le> 1 \<and> pr_data_head (sh_buffer shard) \<le> n"
    using small by blast
  show "p t = []"
  proof (cases "t \<in> set (current_threads ?g ?shards)")
    case True
    then obtain a shard where sh: "(a, shard) \<in> set ?shards" "sh_buffer_generation shard = ?g" "shard_thread shard = t"
      by (auto simp: current_threads_def)
    have "ring_ok (sh_buffer shard) (p t)" using event_okD(8) [OF ok sh(1)] sh by (simp add: shard_ok_def)
    moreover have "ring_used (sh_buffer shard) = 0" using ring_okD(6) [OF none [OF sh(1)]] by simp
    ultimately show ?thesis by (rule ring_ok_unused)
  qed (rule event_okD(3) [OF ok])
qed

lemma event_mmap_ok:
  assumes ok: "event_ok d p qs n"
    and grow: "mmap_size (pd_consumer_buffer d) = 0 \<or> buffer_size \<le> mmap_buffer_size (pd_consumer_buffer d)"
    and res: "event_ensure_mmap_buffer mem d buffer_size = (d', r)"
  shows "event_ok d' p qs n" "keeps_caches live d d'" "r \<noteq> UB"
proof -
  let ?c = "pd_consumer_buffer d" and ?g = "pd_producer_buffer_generation d"
  obtain c x where ens: "ring_ensure_mmap_buffer mem ?c buffer_size = (c, x)" by fastforce
  have d': "d' = d\<lparr>pd_consumer_buffer := c, pd_producer_buffer_generation := pd_producer_buffer_generation d'\<rparr>"
    and r: "r = x"
    using res ens by (auto simp: event_ensure_mmap_buffer_def Let_def split: outcome.splits)
  have "cache_ok d' t e = cache_ok d t e" for t e by (subst d') (simp add: cache_ok_def)
  then show "keeps_caches live d d'" by (simp add: keeps_caches_def)
  show "r \<noteq> UB" using ens r by (auto simp: ring_ensure_mmap_buffer_def split: if_splits)
  show "event_ok d' p qs n"
  proof (cases "c = ?c")
    case True
    then have "d' = d" using res ens by (auto simp: event_ensure_mmap_buffer_def Let_def split: outcome.splits)
    with ok show ?thesis by simp
  next
    case False
    then have x: "x = Ok ()" and big: "mmap_buffer_size ?c < buffer_size" and pow: "popcnt (buffer_size - pr_pagesize ?c) = 1"
      and c: "c = ?c\<lparr>pr_data := pr_data ?c @ replicate (buffer_size - mmap_buffer_size ?c) 0,
        pr_data_size := buffer_size - pr_pagesize ?c\<rparr>"
      using ens by (auto simp: ring_ensure_mmap_buffer_def split: if_splits)
    have zero: "mmap_size ?c = 0" using grow big by simp
    obtain k where k: "buffer_size - pr_pagesize ?c = 2 ^ k" using pow pop_cnt_1 by (auto simp: popcnt_def)
    have size: "pr_data c = replicate (2 ^ k) 0" using c zero k by (simp add: mmap_size_def mmap_buffer_size_def)
    have g1: "?g = 1" using event_okD(4) [OF ok] zero by (simp add: generation_ok_def)
    have g2: "pd_producer_buffer_generation d' = 2"
      using res ens x size zero g1 c
      by (auto simp: event_ensure_mmap_buffer_def mmap_buffer_size_def mmap_size_def)
    note d2 = d' [unfolded g2]
    note none = unmapped_empty [OF ok zero]
    have "current_threads 2 (pd_producer_shards d) = []"
      using none(4) by (force simp: current_threads_def filter_empty_conv)
    then have "shards_ok 2 p (pd_producer_shards d)"
      using none(2,4) event_okD(7) [OF ok] by (fastforce simp: shards_ok_def shard_ok_def)
    moreover have "ring_ok c []"
      using event_okD(2) [OF ok] none(3) size c
      by (auto simp: ring_ok_def mmap_size_def ring_used_def ring_bytes_def)
    moreover have "mmap_size c \<noteq> 0" using size by (simp add: mmap_size_def)
    moreover have "pr_pagesize c = pd_pagesize d" "pr_data_head c = pr_data_head ?c" using c event_okD(5) [OF ok] by simp_all
    moreover have "\<forall>(a, shard)\<in>set (pd_producer_shards d). shard_sized 2 (mmap_size c) n shard"
      using none(4) by (fastforce simp: shard_sized_def)
    ultimately show ?thesis
      using event_okD(6) [OF ok] none(1,2)
      by (subst d2) (simp add: event_ok_def generation_ok_def strays_empty_def)
  qed
qed

section \<open>Threads, drains and readers in any order\<close>

text \<open>
  The event with the caches of the running threads, and two logs: what was accepted from
  whom, and what the callback got. A thread may end and its id be used again; a cache entry
  may be dropped at any time, as the cache of a thread is cleared when it is full. The consumer
  maps its buffer once and asks for no larger one while it is in use (see
  \<open>grown_ring_garbles\<close>), and less than \<open>2 ^ 64\<close> bytes are written, so that the positions do not wrap.
\<close>

record perf_system =
  ps_event :: perf_event_state
  ps_caches :: "thread_id \<Rightarrow> shard_cache_entry option"
  ps_live :: "thread_id set"
  ps_accepted :: "(thread_id \<times> bytes) list"
  ps_reports :: "perf_report list"

definition pending_in :: "perf_event_state \<Rightarrow> nat" where
  "pending_in d = pending_bytes (pd_producer_shards d)"

definition accepted_bytes :: "perf_system \<Rightarrow> nat" where
  "accepted_bytes s = sum_list (map (\<lambda>(t, buf). sample_record_size (length buf)) (ps_accepted s))"

inductive perf_reach :: "perf_system \<Rightarrow> bool" where
  start: "perf_reach \<lparr>ps_event = perf_event_new cpu config sample_type pagesize generation,
    ps_caches = (\<lambda>_. None), ps_live = {}, ps_accepted = [], ps_reports = []\<rparr>"
| spawn: "perf_reach s \<Longrightarrow>
    perf_reach (s\<lparr>ps_live := insert t (ps_live s), ps_caches := (ps_caches s)(t := None)\<rparr>)"
| exit: "perf_reach s \<Longrightarrow> perf_reach (s\<lparr>ps_live := ps_live s - {t}\<rparr>)"
| forget: "perf_reach s \<Longrightarrow> perf_reach (s\<lparr>ps_caches := (ps_caches s)(t := None)\<rparr>)"
| map_buffer: "perf_reach s \<Longrightarrow>
    event_mmap_size (ps_event s) = 0 \<or> buffer_size \<le> mmap_buffer_size (pd_consumer_buffer (ps_event s)) \<Longrightarrow>
    event_ensure_mmap_buffer mem (ps_event s) buffer_size = (d, r) \<Longrightarrow> perf_reach (s\<lparr>ps_event := d\<rparr>)"
| emit: "perf_reach s \<Longrightarrow> (pid, tid) \<in> ps_live s \<Longrightarrow> sees tgkill (ps_live s) \<Longrightarrow> fresh_node (ps_event s) node \<Longrightarrow>
    accepted_bytes s + sample_record_size (length buf) < 2 ^ 64 \<Longrightarrow>
    event_output_data mem node tgkill pid tid (ps_event s) (ps_caches s (pid, tid)) buf = (d, cache, r) \<Longrightarrow>
    perf_reach (s\<lparr>ps_event := d, ps_caches := (ps_caches s)((pid, tid) := cache),
      ps_accepted := ps_accepted s @ (if pending_in (ps_event s) < pending_in d then [((pid, tid), buf)] else [])\<rparr>)"
| drain: "perf_reach s \<Longrightarrow> sees tgkill (ps_live s) \<Longrightarrow> event_has_data mem tgkill (ps_event s) = (d, r) \<Longrightarrow>
    perf_reach (s\<lparr>ps_event := d\<rparr>)"
| read: "perf_reach s \<Longrightarrow> malloc_ok malloc \<Longrightarrow>
    perf_event_read_simple None malloc (pd_consumer_buffer (ps_event s)) copy_mem = Some (Ok (c, m, reports, res)) \<Longrightarrow>
    perf_reach (s\<lparr>ps_event := (ps_event s)\<lparr>pd_consumer_buffer := c\<rparr>, ps_reports := ps_reports s @ reports\<rparr>)"

text \<open>The records that left the shards, with their threads: the first \<open>k\<close> were reported, the others
  are in the consumer's ring.\<close>

definition sys_ok :: "perf_system \<Rightarrow> (thread_id \<Rightarrow> bytes list) \<Rightarrow> (thread_id \<times> bytes) list \<Rightarrow> nat \<Rightarrow> bool" where
  "sys_ok s p moved k \<longleftrightarrow> k \<le> length moved \<and>
     event_ok (ps_event s) p (map snd (drop k moved)) (accepted_bytes s) \<and> accepted_bytes s < 2 ^ 64 \<and>
     (\<forall>t\<in>ps_live s. cache_valid (ps_event s) t (ps_caches s t)) \<and>
     ps_reports s = map (\<lambda>(t, r). Sample (drop 12 r)) (take k moved) \<and>
     (\<forall>t. list_all2 sample_of (of_thread t (ps_accepted s)) (of_thread t moved @ p t))"

lemma caches_kept:
  "keeps_caches live d d' \<Longrightarrow> \<forall>t\<in>live. cache_valid d t (c t) \<Longrightarrow> \<forall>t\<in>live. cache_valid d' t (c t)"
  by (auto simp: keeps_caches_def cache_valid_def)

lemma sys_ok_emit:
  assumes ok: "sys_ok s p moved k" and live: "(pid, tid) \<in> ps_live s" "sees tgkill (ps_live s)"
    and node: "fresh_node (ps_event s) node" and wrap: "accepted_bytes s + sample_record_size (length buf) < 2 ^ 64"
    and res: "event_output_data mem node tgkill pid tid (ps_event s) (ps_caches s (pid, tid)) buf = (d, cache, r)"
  shows "r \<noteq> UB" and "\<exists>p'. sys_ok (s\<lparr>ps_event := d, ps_caches := (ps_caches s)((pid, tid) := cache),
      ps_accepted := ps_accepted s @ (if pending_in (ps_event s) < pending_in d then [((pid, tid), buf)] else [])\<rparr>) p' moved k"
proof -
  let ?t = "(pid, tid)" and ?k = "sample_record_size (length buf)" and ?qs = "map snd (drop k moved)"
  have ev: "event_ok (ps_event s) p ?qs (accepted_bytes s)" and cv: "cache_valid (ps_event s) ?t (ps_caches s ?t)"
    and all: "\<forall>t\<in>ps_live s. cache_valid (ps_event s) t (ps_caches s t)"
    and logs: "\<And>t. list_all2 sample_of (of_thread t (ps_accepted s)) (of_thread t moved @ p t)"
    using ok live(1) unfolding sys_ok_def by blast+
  note o = event_output_ok [OF ev node live(2,1) cv wrap res]
  show "r \<noteq> UB" by (rule o(1))
  have caches: "\<forall>t\<in>ps_live s. cache_valid d t (((ps_caches s)(?t := cache)) t)"
    using caches_kept [OF o(2) all] o(3) by auto
  from o(5) show "\<exists>p'. sys_ok (s\<lparr>ps_event := d, ps_caches := (ps_caches s)(?t := cache),
      ps_accepted := ps_accepted s @ (if pending_in (ps_event s) < pending_in d then [(?t, buf)] else [])\<rparr>) p' moved k"
  proof (elim disjE exE conjE)
    assume "event_ok d p ?qs (accepted_bytes s)" "pending_bytes (pd_producer_shards d) = pending_bytes (pd_producer_shards (ps_event s))"
    with ok caches show ?thesis by (intro exI [of _ p]) (simp add: sys_ok_def pending_in_def accepted_bytes_def)
  next
    fix rec assume rec: "sample_of buf rec" "event_ok d (p(?t := p ?t @ [rec])) ?qs (accepted_bytes s + ?k)"
      "pending_bytes (pd_producer_shards d) = pending_bytes (pd_producer_shards (ps_event s)) + ?k"
    have "list_all2 sample_of (of_thread t (ps_accepted s @ [(?t, buf)])) (of_thread t moved @ (p(?t := p ?t @ [rec])) t)" for t
    proof (cases "t = ?t")
      case True
      have "list_all2 sample_of (of_thread ?t (ps_accepted s) @ [buf]) ((of_thread ?t moved @ p ?t) @ [rec])"
        using logs [of ?t] rec(1) by (intro list_all2_appendI) simp_all
      then show ?thesis unfolding True by simp
    qed (use logs [of t] in simp)
    moreover have "pending_in (ps_event s) < pending_in d"
      using rec(3) sample_record_size_bounds(3) [of "length buf"] by (simp add: pending_in_def)
    ultimately show ?thesis
      using ok caches rec(2) wrap
      by (intro exI [of _ "p(?t := p ?t @ [rec])"]) (simp add: sys_ok_def accepted_bytes_def add.commute del: split_paired_All fun_upd_apply)
  qed
qed

lemma sys_ok_drain:
  assumes ok: "sys_ok s p moved k" and live: "sees tgkill (ps_live s)"
    and res: "event_has_data mem tgkill (ps_event s) = (d, r)"
  shows "r \<noteq> UB" and "\<exists>p' more. sys_ok (s\<lparr>ps_event := d\<rparr>) p' (moved @ more) k \<and>
    ((\<forall>j. mem j) \<longrightarrow> ring_used (pd_consumer_buffer (ps_event s)) + pending_in (ps_event s) < event_mmap_size (ps_event s) \<longrightarrow>
      r = Ok (ring_has_data (pd_consumer_buffer d)) \<and> (\<forall>t. p' t = []))"
proof -
  have ev: "event_ok (ps_event s) p (map snd (drop k moved)) (accepted_bytes s)" and n: "accepted_bytes s < 2 ^ 64"
    and all: "\<forall>t\<in>ps_live s. cache_valid (ps_event s) t (ps_caches s t)" and k: "k \<le> length moved"
    and logs: "\<And>t. list_all2 sample_of (of_thread t (ps_accepted s)) (of_thread t moved @ p t)"
    using ok unfolding sys_ok_def by blast+
  obtain p' more where dr: "event_ok d p' (map snd (drop k moved) @ map snd more) (accepted_bytes s)"
    "\<And>t. of_thread t more @ p' t = p t" "keeps_caches (ps_live s) (ps_event s) d"
    "r = Thrown \<or> r = Ok (ring_has_data (pd_consumer_buffer d))"
    "(\<forall>j. mem j) \<Longrightarrow> ring_used (pd_consumer_buffer (ps_event s)) + pending_bytes (pd_producer_shards (ps_event s)) <
      mmap_size (pd_consumer_buffer (ps_event s)) \<Longrightarrow> r = Ok (ring_has_data (pd_consumer_buffer d)) \<and> (\<forall>t. p' t = [])"
    by (rule event_drain_ok [OF ev n live res]) blast
  show "r \<noteq> UB" using dr(4) by auto
  have "list_all2 sample_of (of_thread t (ps_accepted s)) (of_thread t (moved @ more) @ p' t)" for t
    using logs [of t] dr(2) [of t] by simp
  then have "sys_ok (s\<lparr>ps_event := d\<rparr>) p' (moved @ more) k"
    using ok k dr(1) caches_kept [OF dr(3) all]
    by (simp add: sys_ok_def accepted_bytes_def del: split_paired_All)
  with dr(5) show "\<exists>p' more. sys_ok (s\<lparr>ps_event := d\<rparr>) p' (moved @ more) k \<and>
    ((\<forall>j. mem j) \<longrightarrow> ring_used (pd_consumer_buffer (ps_event s)) + pending_in (ps_event s) < event_mmap_size (ps_event s) \<longrightarrow>
      r = Ok (ring_has_data (pd_consumer_buffer d)) \<and> (\<forall>t. p' t = []))"
    unfolding pending_in_def event_mmap_size_def by blast
qed

lemma event_ok_tail:
  assumes ok: "event_ok d p qs n" and c: "c = (pd_consumer_buffer d)\<lparr>pr_data_tail := t\<rparr>" and "ring_ok c rs"
  shows "event_ok (d\<lparr>pd_consumer_buffer := c\<rparr>) p rs n"
proof -
  have "mmap_size c = mmap_size (pd_consumer_buffer d)" by (simp add: c mmap_size_def)
  moreover from this have "generation_ok (d\<lparr>pd_consumer_buffer := c\<rparr>) = generation_ok d" by (simp add: generation_ok_def)
  ultimately show ?thesis using ok assms(3) by (simp add: event_ok_def) (simp add: c)
qed

lemma sys_ok_read:
  assumes ok: "sys_ok s p moved k" and m: "malloc_ok malloc"
  obtains c m' reports res j where
    "perf_event_read_simple None malloc (pd_consumer_buffer (ps_event s)) copy_mem = Some (Ok (c, m', reports, res))"
    "sys_ok (s\<lparr>ps_event := (ps_event s)\<lparr>pd_consumer_buffer := c\<rparr>, ps_reports := ps_reports s @ reports\<rparr>) p moved j"
    "(\<forall>i. malloc i \<noteq> None) \<Longrightarrow> j = length moved \<and> res = LIBBPF_PERF_EVENT_CONT"
proof -
  let ?rs = "map snd (drop k moved)" and ?c = "pd_consumer_buffer (ps_event s)"
  have ev: "event_ok (ps_event s) p ?rs (accepted_bytes s)" and k: "k \<le> length moved"
    and rep: "ps_reports s = map (\<lambda>(t, r). Sample (drop 12 r)) (take k moved)"
    using ok unfolding sys_ok_def by blast+
  obtain i m' res where i: "i \<le> length ?rs"
    "perf_event_read_simple None malloc ?c copy_mem =
      Some (Ok (?c\<lparr>pr_data_tail := pr_data_tail ?c + length (concat (take i ?rs))\<rparr>, m',
        map (\<lambda>r. Sample (drop 12 r)) (take i ?rs), res))"
    "ring_ok (?c\<lparr>pr_data_tail := pr_data_tail ?c + length (concat (take i ?rs))\<rparr>) (drop i ?rs)"
    "i < length ?rs \<Longrightarrow> malloc (length (?rs ! i)) = None \<and> res = LIBBPF_PERF_EVENT_ERROR"
    "i = length ?rs \<Longrightarrow> res = LIBBPF_PERF_EVENT_CONT"
    by (rule read_simple_ok [OF event_okD(2) [OF ev] m, of copy_mem]) blast
  let ?c' = "?c\<lparr>pr_data_tail := pr_data_tail ?c + length (concat (take i ?rs))\<rparr>"
  let ?reports = "map (\<lambda>r. Sample (drop 12 r)) (take i ?rs)"
  have "event_ok ((ps_event s)\<lparr>pd_consumer_buffer := ?c'\<rparr>) p (drop i ?rs) (accepted_bytes s)"
    using event_ok_tail [OF ev refl i(3)] .
  moreover have "drop i ?rs = map snd (drop (k + i) moved)" by (simp add: drop_map add.commute)
  moreover have "cache_ok ((ps_event s)\<lparr>pd_consumer_buffer := ?c'\<rparr>) = cache_ok (ps_event s)"
    by (simp add: fun_eq_iff cache_ok_def)
  moreover have "ps_reports s @ ?reports = map (\<lambda>(t, r). Sample (drop 12 r)) (take (k + i) moved)"
    by (simp add: rep take_add take_map case_prod_beta o_def)
  ultimately have "sys_ok (s\<lparr>ps_event := (ps_event s)\<lparr>pd_consumer_buffer := ?c'\<rparr>, ps_reports := ps_reports s @ ?reports\<rparr>)
      p moved (k + i)"
    using ok k i(1) by (simp add: sys_ok_def accepted_bytes_def cache_valid_def del: split_paired_All)
  moreover have "k + i = length moved \<and> res = LIBBPF_PERF_EVENT_CONT" if "\<forall>i. malloc i \<noteq> None"
  proof -
    have "i = length ?rs" using i(1,4) that by (meson le_neq_implies_less)
    then show ?thesis using i(5) k by simp
  qed
  ultimately show ?thesis using that i(2) by blast
qed

lemma perf_reach_ok: "perf_reach s \<Longrightarrow> \<exists>p moved k. sys_ok s p moved k"
proof (induction rule: perf_reach.induct)
  case (start cpu config sample_type pagesize generation)
  then show ?case
    using event_new_ok
    by (intro exI [of _ "\<lambda>_. []"] exI [of _ "[]"] exI [of _ 0]) (simp add: sys_ok_def accepted_bytes_def)
next
  case (spawn s t)
  then obtain p moved k where "sys_ok s p moved k" by blast
  then have "sys_ok (s\<lparr>ps_live := insert t (ps_live s), ps_caches := (ps_caches s)(t := None)\<rparr>) p moved k"
    by (simp add: sys_ok_def cache_valid_def accepted_bytes_def del: split_paired_All)
  then show ?case by blast
next
  case (exit s t)
  then obtain p moved k where "sys_ok s p moved k" by blast
  then have "sys_ok (s\<lparr>ps_live := ps_live s - {t}\<rparr>) p moved k"
    by (simp add: sys_ok_def cache_valid_def accepted_bytes_def del: split_paired_All)
  then show ?case by blast
next
  case (forget s t)
  then obtain p moved k where "sys_ok s p moved k" by blast
  then have "sys_ok (s\<lparr>ps_caches := (ps_caches s)(t := None)\<rparr>) p moved k"
    by (simp add: sys_ok_def cache_valid_def accepted_bytes_def del: split_paired_All)
  then show ?case by blast
next
  case (map_buffer s buffer_size mem d r)
  then obtain p moved k where ok: "sys_ok s p moved k" by blast
  then have ev: "event_ok (ps_event s) p (map snd (drop k moved)) (accepted_bytes s)"
    and all: "\<forall>t\<in>ps_live s. cache_valid (ps_event s) t (ps_caches s t)" unfolding sys_ok_def by blast+
  note m = event_mmap_ok [OF ev map_buffer.hyps(2) [unfolded event_mmap_size_def] map_buffer.hyps(3)]
  have "sys_ok (s\<lparr>ps_event := d\<rparr>) p moved k"
    using ok m(1) caches_kept [OF m(2) all] by (simp add: sys_ok_def accepted_bytes_def del: split_paired_All)
  then show ?case by blast
next
  case (emit s pid tid tgkill node buf mem d cache r)
  then show ?case using sys_ok_emit(2) by blast
next
  case (drain s tgkill mem d r)
  then show ?case using sys_ok_drain(2) by blast
next
  case (read s malloc copy_mem c m reports res)
  then obtain p moved k where ok: "sys_ok s p moved k" by blast
  show ?case by (rule sys_ok_read [OF ok read.hyps(2), of copy_mem]) (use read.hyps(3) in auto)
qed

section \<open>What the reader gets\<close>

text \<open>C8: Whatever the order of outputs, drains, reads, mappings and thread exits: the samples handed
  to the callback are an interleaving of the samples the threads' rings accepted, where those of
  each thread come in order, from the first, none twice and none left out, each followed by less
  than 8 bytes of padding. A sample for which the thread's ring has no room is not accepted:
  \<open>output_data\<close> drops it and still returns 0, and the theorem says nothing of it. It is about
  executions in which the consumer maps its ring once, asking for no larger one while it is in
  use (enlarging it breaks delivery, see \<open>grown_ring_garbles\<close>), and in which less than \<open>2 ^ 64\<close>
  bytes are accepted in all.\<close>

theorem perf_event_delivery:
  assumes "perf_reach s"
  shows "\<exists>owners. length owners = length (ps_reports s) \<and>
    (\<forall>t. let mine = of_thread t (zip owners (ps_reports s)); sent = of_thread t (ps_accepted s) in
       length mine \<le> length sent \<and>
       list_all2 (\<lambda>buf report. \<exists>padding. report = Sample (buf @ padding) \<and> length padding < 8)
         (take (length mine) sent) mine)"
proof -
  obtain p moved k where ok: "sys_ok s p moved k" using perf_reach_ok [OF assms] by blast
  let ?owners = "map fst (take k moved)"
  have rep: "ps_reports s = map (\<lambda>(t, r). Sample (drop 12 r)) (take k moved)" using ok by (simp add: sys_ok_def)
  have zip: "zip ?owners (ps_reports s) = map (\<lambda>(t, r). (t, Sample (drop 12 r))) (take k moved)"
    by (simp add: rep zip_map_map zip_same_conv_map case_prod_beta)
  have mine: "of_thread t (zip ?owners (ps_reports s)) = map (\<lambda>r. Sample (drop 12 r)) (of_thread t (take k moved))" for t
    by (simp add: zip of_thread_def filter_map o_def case_prod_beta)
  have "length (of_thread t (take k moved)) \<le> length (of_thread t (ps_accepted s)) \<and>
      list_all2 (\<lambda>buf report. \<exists>padding. report = Sample (buf @ padding) \<and> length padding < 8)
        (take (length (of_thread t (take k moved))) (of_thread t (ps_accepted s)))
        (map (\<lambda>r. Sample (drop 12 r)) (of_thread t (take k moved)))" for t
  proof -
    let ?A = "of_thread t (take k moved)"
    have "list_all2 sample_of (of_thread t (ps_accepted s)) (?A @ of_thread t (drop k moved) @ p t)"
    proof -
      have "of_thread t moved = ?A @ of_thread t (drop k moved)"
        by (metis append_take_drop_id of_thread_simps(3))
      then show ?thesis using ok unfolding sys_ok_def by (metis append.assoc)
    qed
    then have "length ?A \<le> length (of_thread t (ps_accepted s))"
      and all: "list_all2 sample_of (take (length ?A) (of_thread t (ps_accepted s))) ?A"
      using list_all2_lengthD list_all2_takeI [of sample_of _ "?A @ of_thread t (drop k moved) @ p t" "length ?A"] by fastforce+
    moreover have "\<exists>padding. Sample (drop 12 r) = Sample (buf @ padding) \<and> length padding < 8" if "sample_of buf r" for buf r
      using sample_padding [OF that] by simp
    ultimately show ?thesis by (auto simp: list_all2_map2 elim!: list_all2_mono)
  qed
  then show ?thesis
    by (intro exI [of _ ?owners] conjI allI) (simp_all add: mine Let_def, simp add: rep)
qed

text \<open>C18: In every reachable state no call runs into undefined behaviour: a thread's cached shard
  pointer is never dangling, no copy leaves a ring, and the reader always returns.\<close>

theorem perf_event_safe:
  assumes "perf_reach s" and "(pid, tid) \<in> ps_live s" and "sees tgkill (ps_live s)" and "fresh_node (ps_event s) node"
    and "accepted_bytes s + sample_record_size (length buf) < 2 ^ 64" and "malloc_ok malloc"
  shows "snd (snd (event_output_data mem node tgkill pid tid (ps_event s) (ps_caches s (pid, tid)) buf)) \<noteq> UB \<and>
    snd (event_has_data mem tgkill (ps_event s)) \<noteq> UB \<and>
    (\<exists>x. perf_event_read_simple None malloc (pd_consumer_buffer (ps_event s)) copy_mem = Some (Ok x))"
proof -
  obtain p moved k where ok: "sys_ok s p moved k" using perf_reach_ok [OF assms(1)] by blast
  obtain d cache r where emit: "event_output_data mem node tgkill pid tid (ps_event s) (ps_caches s (pid, tid)) buf = (d, cache, r)"
    by (metis prod_cases3)
  obtain d' r' where drain: "event_has_data mem tgkill (ps_event s) = (d', r')" by fastforce
  have "\<exists>x. perf_event_read_simple None malloc (pd_consumer_buffer (ps_event s)) copy_mem = Some (Ok x)"
    by (rule sys_ok_read [OF ok assms(6), of copy_mem]) blast
  then show ?thesis
    using sys_ok_emit(1) [OF ok assms(2-5) emit] sys_ok_drain(1) [OF ok assms(3) drain] emit drain by simp
qed

lemma of_thread_count: "length (of_thread t xs) = count_list (map fst xs) t"
  by (induction xs) auto

lemma same_threads_length:
  assumes "\<And>t. length (of_thread t xs) = length (of_thread t ys)"
  shows "length xs = length ys"
proof -
  have "count_list (map fst xs) = count_list (map fst ys)" using assms by (simp add: of_thread_count fun_eq_iff)
  then have "sum (count_list (map fst xs)) (fst ` set xs \<union> fst ` set ys) =
      sum (count_list (map fst ys)) (fst ` set xs \<union> fst ` set ys)" by simp
  then show ?thesis by (simp add: sum_count_set)
qed

text \<open>The reports of the records that left the shards, by thread.\<close>

lemma moved_reports:
  assumes "list_all2 sample_of (of_thread t sent) (of_thread t moved)"
  shows "list_all2 (\<lambda>buf report. \<exists>padding. report = Sample (buf @ padding) \<and> length padding < 8)
    (of_thread t sent) (of_thread t (zip (map fst moved) (map (\<lambda>(t, r). Sample (drop 12 r)) moved)))"
proof -
  have "zip (map fst moved) (map (\<lambda>(t, r). Sample (drop 12 r)) moved) = map (\<lambda>(t, r). (t, Sample (drop 12 r))) moved"
    by (simp add: zip_map_map zip_same_conv_map case_prod_beta)
  then have "of_thread t (zip (map fst moved) (map (\<lambda>(t, r). Sample (drop 12 r)) moved)) =
      map (\<lambda>r. Sample (drop 12 r)) (of_thread t moved)"
    by (simp add: of_thread_def filter_map o_def case_prod_beta)
  moreover have "\<exists>padding. Sample (drop 12 r) = Sample (buf @ padding) \<and> length padding < 8" if "sample_of buf r" for buf r
    using sample_padding [OF that] by simp
  ultimately show ?thesis using assms by (auto simp: list_all2_map2 elim!: list_all2_mono)
qed

lemma flush_all:
  assumes "perf_reach s" and "sees tgkill (ps_live s)" and "\<forall>n. mem n" and "malloc_ok malloc" and "\<forall>n. malloc n \<noteq> None"
    and "ring_used (pd_consumer_buffer (ps_event s)) + pending_in (ps_event s) < event_mmap_size (ps_event s)"
  obtains d c m reports owners where
    "event_has_data mem tgkill (ps_event s) = (d, Ok (ring_has_data (pd_consumer_buffer d)))"
    "perf_event_read_simple None malloc (pd_consumer_buffer d) copy_mem =
      Some (Ok (c, m, reports, LIBBPF_PERF_EVENT_CONT))"
    "length (ps_reports s @ reports) = length (ps_accepted s)"
    "length owners = length (ps_reports s @ reports)"
    "\<And>t. list_all2 (\<lambda>buf report. \<exists>padding. report = Sample (buf @ padding) \<and> length padding < 8)
       (of_thread t (ps_accepted s)) (of_thread t (zip owners (ps_reports s @ reports)))"
    "perf_reach (s\<lparr>ps_event := d\<lparr>pd_consumer_buffer := c\<rparr>, ps_reports := ps_reports s @ reports\<rparr>)"
proof -
  obtain p moved k where ok: "sys_ok s p moved k" using perf_reach_ok [OF assms(1)] by blast
  obtain d r where drain: "event_has_data mem tgkill (ps_event s) = (d, r)" by fastforce
  obtain p' more where ok1: "sys_ok (s\<lparr>ps_event := d\<rparr>) p' (moved @ more) k"
    and r: "r = Ok (ring_has_data (pd_consumer_buffer d))" and empty: "\<forall>t. p' t = []"
    using sys_ok_drain(2) [OF ok assms(2) drain] assms(3,6) by blast
  obtain c m reports res j where read: "perf_event_read_simple None malloc (pd_consumer_buffer d) copy_mem = Some (Ok (c, m, reports, res))"
    and ok2: "sys_ok (s\<lparr>ps_event := d\<lparr>pd_consumer_buffer := c\<rparr>, ps_reports := ps_reports s @ reports\<rparr>) p' (moved @ more) j"
    and j: "j = length (moved @ more)" "res = LIBBPF_PERF_EVENT_CONT"
    by (rule sys_ok_read [OF ok1 assms(4), of copy_mem]) (use assms(5) in simp)
  have all: "list_all2 sample_of (of_thread t (ps_accepted s)) (of_thread t (moved @ more))" for t
  proof -
    have "list_all2 sample_of (of_thread t (ps_accepted s)) (of_thread t (moved @ more) @ p' t)"
      using ok2 by (simp add: sys_ok_def del: split_paired_All)
    then show ?thesis using empty by (metis append_Nil2)
  qed
  then have n: "length (ps_accepted s) = length (moved @ more)"
    using list_all2_lengthD by (intro same_threads_length) blast
  have rep: "ps_reports s @ reports = map (\<lambda>(t, r). Sample (drop 12 r)) (moved @ more)"
    using ok2 j(1) by (simp add: sys_ok_def)
  have "perf_reach (s\<lparr>ps_event := d\<rparr>)" by (rule perf_reach.drain [OF assms(1,2) drain])
  from perf_reach.read [OF this assms(4)] read
  have "perf_reach (s\<lparr>ps_event := d\<lparr>pd_consumer_buffer := c\<rparr>, ps_reports := ps_reports s @ reports\<rparr>)" by simp
  with drain r read j(2) n show ?thesis
    using moved_reports [OF all] unfolding rep [symmetric]
    by (intro that [of d c m reports "map fst (moved @ more)"]) (simp_all add: rep)
qed

text \<open>C19: When the records pending in the threads' rings fit in the consumer's ring and memory is
  not exhausted, asking for data and then reading leaves nothing behind: with what was handed to
  the callback before, the callback has got the samples the rings accepted, each exactly once,
  those of a thread in order, and each followed by less than 8 bytes of padding. The executions
  and the meaning of an accepted sample are those of \<open>perf_reach\<close>.\<close>

theorem perf_event_flush:
  assumes "perf_reach s" and "sees tgkill (ps_live s)" and "\<forall>n. mem n" and "malloc_ok malloc" and "\<forall>n. malloc n \<noteq> None"
    and "ring_used (pd_consumer_buffer (ps_event s)) + pending_in (ps_event s) < event_mmap_size (ps_event s)"
  shows "\<exists>d c m reports.
    event_has_data mem tgkill (ps_event s) = (d, Ok (ring_has_data (pd_consumer_buffer d))) \<and>
    perf_event_read_simple None malloc (pd_consumer_buffer d) copy_mem =
      Some (Ok (c, m, reports, LIBBPF_PERF_EVENT_CONT)) \<and>
    length (ps_reports s @ reports) = length (ps_accepted s) \<and>
    (\<exists>owners. length owners = length (ps_reports s @ reports) \<and>
      (\<forall>t. list_all2 (\<lambda>buf report. \<exists>padding. report = Sample (buf @ padding) \<and> length padding < 8)
         (of_thread t (ps_accepted s)) (of_thread t (zip owners (ps_reports s @ reports)))))"
  by (rule flush_all [OF assms, of copy_mem]) blast

section \<open>A concrete event\<close>

text \<open>
  A page of 4 bytes and a data area of 32: thread 1 writes three bytes, which take a record of
  16 in its new shard; a drain and a read hand it out.
\<close>

definition sample_tgkill :: "int \<Rightarrow> int \<Rightarrow> unit outcome" where
  "sample_tgkill pid tid = Ok ()"

definition sample_malloc :: "nat \<Rightarrow> bytes option" where
  "sample_malloc n = Some (replicate n 0)"

definition sample_started :: perf_system where
  "sample_started = \<lparr>ps_event = perf_event_new 0 0 0 4 7, ps_caches = (\<lambda>_. None), ps_live = {},
     ps_accepted = [], ps_reports = []\<rparr>"

definition sample_mapped :: perf_system where
  "sample_mapped = sample_started\<lparr>ps_live := insert (1, 1) (ps_live sample_started),
     ps_caches := (ps_caches sample_started)((1, 1) := None),
     ps_event := fst (event_ensure_mmap_buffer (\<lambda>_. True) (ps_event sample_started) 36)\<rparr>"

definition sample_emit :: "bytes \<Rightarrow> perf_system \<Rightarrow> perf_system" where
  "sample_emit buf s =
     (case event_output_data (\<lambda>_. True) (Some 5) sample_tgkill 1 1 (ps_event s) (ps_caches s (1, 1)) buf of
        (d, cache, r) \<Rightarrow> s\<lparr>ps_event := d, ps_caches := (ps_caches s)((1, 1) := cache),
          ps_accepted := ps_accepted s @ (if pending_in (ps_event s) < pending_in d then [((1, 1), buf)] else [])\<rparr>)"

lemma popcnt_32: "popcnt 32 = Suc 0"
proof -
  have "\<exists>k. (32::nat) = 2 ^ k" by (rule exI [of _ 5]) simp
  then show ?thesis using pop_cnt_1 [of 32] by (simp add: popcnt_def)
qed

lemma sample_mapped_eq: "sample_mapped = \<lparr>ps_event = (perf_event_new 0 0 0 4 7)
    \<lparr>pd_consumer_buffer := sample_ring, pd_producer_buffer_generation := 2\<rparr>,
    ps_caches = (\<lambda>_. None), ps_live = {(1, 1)}, ps_accepted = [], ps_reports = []\<rparr>"
  by (simp add: sample_mapped_def sample_started_def event_ensure_mmap_buffer_def ring_ensure_mmap_buffer_def
    Let_def perf_event_new_def perf_ring_new_def mmap_buffer_size_def popcnt_32 sample_ring_def fun_eq_iff)

lemma sample_mapped_reach: "perf_reach sample_mapped"
proof -
  let ?s = "sample_started\<lparr>ps_live := insert (1, 1) (ps_live sample_started),
     ps_caches := (ps_caches sample_started)((1, 1) := None)\<rparr>"
  have "perf_reach sample_started" unfolding sample_started_def by (rule perf_reach.start)
  then have "perf_reach ?s" by (rule perf_reach.spawn)
  then have "perf_reach (?s\<lparr>ps_event := fst (event_ensure_mmap_buffer (\<lambda>_. True) (ps_event ?s) 36)\<rparr>)"
    by (rule perf_reach.map_buffer [OF _ _ prod.collapse [symmetric]])
      (simp add: sample_started_def event_mmap_size_def perf_event_new_def perf_ring_new_def mmap_size_def)
  then show ?thesis by (simp add: sample_mapped_def)
qed

lemma sample_sees [simp]: "sees sample_tgkill live"
  by (auto simp: sees_def is_thread_alive_def sample_tgkill_def)

lemma sample_malloc_ok [simp]: "malloc_ok sample_malloc"
  by (simp add: malloc_ok_def sample_malloc_def)

text \<open>The three bytes are accepted: they are in a new shard, whose ring has one record.\<close>

lemma sample_output:
  obtains b where "ring_output_data sample_ring [1, 2, 3] = (b, Ok ())" "ring_used b = 16"
proof -
  have k: "sample_record_size (length [1, 2, 3 :: byte]) = 16" by (simp add: sample_record_size_def)
  obtain b r where "ring_output_data sample_ring [1, 2, 3] = (b, Ok ())" "ring_grown sample_ring b 16"
    by (rule output_accepted [OF sample_ring_ok(1), of "[1, 2, 3]", unfolded k])
      (simp_all add: ring_fits_def sample_ring_ok)
  with that show ?thesis by (simp add: ring_grown_def ring_used_def sample_ring_ok)
qed

definition sample_emitted :: perf_system where
  "sample_emitted = sample_emit [1, 2, 3] sample_mapped"

lemma sample_shard_ring:
  "fst (ring_ensure_mmap_buffer (\<lambda>_. True) (perf_ring_new 4) (mmap_buffer_size sample_ring)) = sample_ring"
  by (simp add: ring_ensure_mmap_buffer_def mmap_buffer_size_def sample_ring_def perf_ring_new_def popcnt_32)

lemma sample_emitted_eq: "ps_accepted sample_emitted = [((1, 1), [1, 2, 3])]" "pending_in (ps_event sample_emitted) = 16"
  "pd_consumer_buffer (ps_event sample_emitted) = sample_ring" "ps_reports sample_emitted = []"
proof -
  obtain b where b: "ring_output_data sample_ring [1, 2, 3] = (b, Ok ())" "ring_used b = 16"
    by (rule sample_output)
  obtain d cache where out: "event_output_data (\<lambda>_. True) (Some 5) sample_tgkill 1 1 (ps_event sample_mapped) None [1, 2, 3] =
      (d, cache, Ok ())" "pending_in d = 16" "pd_consumer_buffer d = sample_ring"
    using b by (auto simp: sample_mapped_eq event_output_data_def get_current_thread_shard_def cached_shard_def
      locked_thread_shard_def Let_def software_perf_event_reclaim_shard_threshold_def perf_event_new_def
      perf_shard_new_def sample_shard_ring put_shard_buffer_def pending_in_def)
  have "pending_in (ps_event sample_mapped) = 0" by (simp add: sample_mapped_eq pending_in_def perf_event_new_def)
  with out have eq: "sample_emitted = sample_mapped\<lparr>ps_event := d, ps_caches := (ps_caches sample_mapped)((1, 1) := cache),
      ps_accepted := [((1, 1), [1, 2, 3])]\<rparr>"
    by (simp add: sample_emitted_def sample_emit_def sample_mapped_eq)
  show "ps_accepted sample_emitted = [((1, 1), [1, 2, 3])]" "pending_in (ps_event sample_emitted) = 16"
    "pd_consumer_buffer (ps_event sample_emitted) = sample_ring" "ps_reports sample_emitted = []"
    unfolding eq using out(2,3) by (simp_all add: sample_mapped_eq)
qed

lemma sample_emitted_reach: "perf_reach sample_emitted"
proof -
  obtain d cache r where out: "event_output_data (\<lambda>_. True) (Some 5) sample_tgkill 1 1 (ps_event sample_mapped)
      (ps_caches sample_mapped (1, 1)) [1, 2, 3] = (d, cache, r)"
    by (metis prod_cases3)
  have "perf_reach (sample_mapped\<lparr>ps_event := d, ps_caches := (ps_caches sample_mapped)((1, 1) := cache),
      ps_accepted := ps_accepted sample_mapped @
        (if pending_in (ps_event sample_mapped) < pending_in d then [((1, 1), [1, 2, 3])] else [])\<rparr>)"
    by (rule perf_reach.emit [OF sample_mapped_reach _ _ _ _ out])
      (simp_all add: sample_mapped_eq fresh_node_def accepted_bytes_def perf_event_new_def sample_record_size_def)
  then show ?thesis using out by (simp add: sample_emitted_def sample_emit_def)
qed

theorem perf_event_safe_witness:
  "snd (snd (event_output_data (\<lambda>_. True) (Some 5) sample_tgkill 1 1 (ps_event sample_mapped) (ps_caches sample_mapped (1, 1)) [1, 2, 3])) \<noteq> UB \<and>
    snd (event_has_data (\<lambda>_. True) sample_tgkill (ps_event sample_mapped)) \<noteq> UB \<and>
    (\<exists>x. perf_event_read_simple None sample_malloc (pd_consumer_buffer (ps_event sample_mapped)) [] = Some (Ok x))"
  by (rule perf_event_safe [OF sample_mapped_reach])
    (simp_all add: sample_mapped_eq fresh_node_def accepted_bytes_def perf_event_new_def sample_record_size_def)

theorem perf_event_flush_witness:
  "\<exists>d c m report.
    event_has_data (\<lambda>_. True) sample_tgkill (ps_event sample_emitted) = (d, Ok (ring_has_data (pd_consumer_buffer d))) \<and>
    perf_event_read_simple None sample_malloc (pd_consumer_buffer d) [] = Some (Ok (c, m, [report], LIBBPF_PERF_EVENT_CONT)) \<and>
    (\<exists>padding. report = Sample ([1, 2, 3] @ padding) \<and> length padding < 8)"
proof -
  obtain d c m reports owners where
    "event_has_data (\<lambda>_. True) sample_tgkill (ps_event sample_emitted) = (d, Ok (ring_has_data (pd_consumer_buffer d)))"
    and read: "perf_event_read_simple None sample_malloc (pd_consumer_buffer d) [] = Some (Ok (c, m, reports, LIBBPF_PERF_EVENT_CONT))"
    and len: "length reports = 1" "length owners = length reports"
    and all: "\<forall>t. list_all2 (\<lambda>buf report. \<exists>padding. report = Sample (buf @ padding) \<and> length padding < 8)
         (of_thread t [((1, 1), [1, 2, 3])]) (of_thread t (zip owners reports))"
    using perf_event_flush [OF sample_emitted_reach, of sample_tgkill "\<lambda>_. True" sample_malloc "[]"]
    by (auto simp: sample_emitted_eq sample_malloc_def sample_ring_ok event_mmap_size_def simp del: split_paired_All)
  moreover obtain report o1 where "reports = [report]" "owners = [o1]"
    using len by (auto simp: length_Suc_conv)
  ultimately show ?thesis
    using spec [OF all, of "(1, 1)"] by (auto simp: list_all2_Cons1 split: if_splits)
qed

theorem perf_event_delivery_witness:
  "\<exists>s. perf_reach s \<and> length (ps_reports s) = 1 \<and> ps_accepted s = [((1, 1), [1, 2, 3])] \<and>
    (\<exists>owners. length owners = length (ps_reports s) \<and>
      (\<forall>t. let mine = of_thread t (zip owners (ps_reports s)); sent = of_thread t (ps_accepted s) in
         length mine \<le> length sent \<and>
         list_all2 (\<lambda>buf report. \<exists>padding. report = Sample (buf @ padding) \<and> length padding < 8)
           (take (length mine) sent) mine))"
proof -
  obtain d c m reports owners where "length (ps_reports sample_emitted @ reports) = length (ps_accepted sample_emitted)"
    and reach: "perf_reach (sample_emitted\<lparr>ps_event := d\<lparr>pd_consumer_buffer := c\<rparr>,
      ps_reports := ps_reports sample_emitted @ reports\<rparr>)"
    by (rule flush_all [OF sample_emitted_reach, of sample_tgkill "\<lambda>_. True" sample_malloc "[]"])
      (simp_all add: sample_emitted_eq sample_malloc_def sample_ring_ok event_mmap_size_def)
  with perf_event_delivery [OF reach] show ?thesis
    by (intro exI [of _ "sample_emitted\<lparr>ps_event := d\<lparr>pd_consumer_buffer := c\<rparr>,
      ps_reports := ps_reports sample_emitted @ reports\<rparr>"] conjI reach) (simp_all add: sample_emitted_eq)
qed

end
