(* ===== verification/Shm_Buffer.thy ===== *)
theory Shm_Buffer
  imports Prelude
begin

text \<open>
  The double buffer in shared memory of \<open>ubpf_shm_buffer.hpp\<close> and the flush of
  \<open>ubpf_async_io_worker.cpp\<close>. Probes of any number of processes reserve, fill and commit records;
  the worker swaps the active buffer, waits for the registered writers, hands the bytes on and
  recycles the buffer. Every atomic access is one step, and the steps of the probes and of the
  worker interleave in any order. The probes' accesses that matter are atomic additions; the
  worker publishes the new buffer with a release store and then reads the number of writers with an
  acquire load, and that store may still be in the processor's store buffer when the load is done
  (\<open>tso_step\<close>). The theory shows that a flushed chunk holds the complete records of its buffer, in
  the order of their reservation, in the runs in which the store is visible before the load and
  the worker's wait does not time out; and that without either of the two it does not.
\<close>

unbundle bit_operations_syntax

section \<open>The segment\<close>

definition UBPF_SHM_MAGIC :: nat where "UBPF_SHM_MAGIC = 0x55425046"
definition UBPF_SHM_VERSION :: nat where "UBPF_SHM_VERSION = 0x00010000"
definition MAX_LOCAL_RANKS :: nat where "MAX_LOCAL_RANKS = 256"
definition BUFFER_CAPACITY :: nat where "BUFFER_CAPACITY = 16 * 1024 * 1024"
definition MAX_PROBE_RETRIES :: nat where "MAX_PROBE_RETRIES = 2"

record PerRankStats =
  dropped_events :: nat
  recorded_events :: nat

record ubpf_buffer_block =
  write_offset :: nat
  active_writers :: nat
  block_data :: bytes

text \<open>The arrays \<open>rank_stats\<close> and \<open>buffers\<close> are functions of the index.\<close>

record ubpf_node_shm_header =
  shm_magic :: nat
  shm_version :: nat
  shm_job_id :: nat
  shm_node_id :: nat
  num_local_ranks :: nat
  map_overflow_flag :: bool
  active_epoch_buffer :: nat
  rank_stats :: "nat \<Rightarrow> PerRankStats"
  buffers :: "nat \<Rightarrow> ubpf_buffer_block"

text \<open>The segment as its creator leaves it.\<close>

definition ubpf_shm_init :: "nat \<Rightarrow> nat \<Rightarrow> ubpf_node_shm_header" where
  "ubpf_shm_init job_id node_id =
     \<lparr>shm_magic = UBPF_SHM_MAGIC, shm_version = UBPF_SHM_VERSION, shm_job_id = job_id,
      shm_node_id = node_id, num_local_ranks = 0, map_overflow_flag = False,
      active_epoch_buffer = 0, rank_stats = (\<lambda>_. \<lparr>dropped_events = 0, recorded_events = 0\<rparr>),
      buffers = (\<lambda>_. \<lparr>write_offset = 0, active_writers = 0, block_data = replicate BUFFER_CAPACITY 0\<rparr>)\<rparr>"

section \<open>Atomic accesses\<close>

definition shm_buf_upd :: "nat \<Rightarrow> (ubpf_buffer_block \<Rightarrow> ubpf_buffer_block) \<Rightarrow> ubpf_node_shm_header \<Rightarrow>
    ubpf_node_shm_header" where
  "shm_buf_upd b f s = s\<lparr>buffers := (buffers s)(b := f (buffers s b))\<rparr>"

definition writers_inc :: "nat \<Rightarrow> ubpf_node_shm_header \<Rightarrow> ubpf_node_shm_header" where
  "writers_inc b = shm_buf_upd b (\<lambda>x. x\<lparr>active_writers := inc32 (active_writers x)\<rparr>)"

definition writers_dec :: "nat \<Rightarrow> ubpf_node_shm_header \<Rightarrow> ubpf_node_shm_header" where
  "writers_dec b = shm_buf_upd b (\<lambda>x. x\<lparr>active_writers := dec32 (active_writers x)\<rparr>)"

definition offset_add :: "nat \<Rightarrow> nat \<Rightarrow> ubpf_node_shm_header \<Rightarrow> ubpf_node_shm_header" where
  "offset_add b n = shm_buf_upd b (\<lambda>x. x\<lparr>write_offset := u64 (write_offset x + n)\<rparr>)"

definition count_dropped :: "nat \<Rightarrow> ubpf_node_shm_header \<Rightarrow> ubpf_node_shm_header" where
  "count_dropped r s = s\<lparr>rank_stats := (rank_stats s)(r := (rank_stats s r)
     \<lparr>dropped_events := u64 (dropped_events (rank_stats s r) + 1)\<rparr>)\<rparr>"

definition count_recorded :: "nat \<Rightarrow> ubpf_node_shm_header \<Rightarrow> ubpf_node_shm_header" where
  "count_recorded r s = s\<lparr>rank_stats := (rank_stats s)(r := (rank_stats s r)
     \<lparr>recorded_events := u64 (recorded_events (rank_stats s r) + 1)\<rparr>)\<rparr>"

text \<open>The buffer index and the epoch in the packed word.\<close>

definition epoch_idx :: "nat \<Rightarrow> nat" where
  "epoch_idx v = v AND 0xFFFFFFFF"

definition epoch_gen :: "nat \<Rightarrow> nat" where
  "epoch_gen v = u32 (drop_bit 32 v)"

section \<open>A probe\<close>

text \<open>
  The places in \<open>ubpf_probe_reserve_record\<close>, in \<open>log_event\<close> and in
  \<open>ubpf_probe_commit_record\<close> before the next access: load the packed word (with the number of
  the attempt), register, verify, release after a swap, reserve, give up when the buffer is full,
  count a drop; write the record, deregister, count the record.
\<close>

datatype probe_pc =
    PIdle
  | PLoad nat
  | PRegister nat nat
  | PVerify nat nat
  | PRelease nat nat
  | PReserve nat
  | PAbort nat
  | PDrop
  | PWriting nat nat
  | PCommit nat
  | PCount

fun probe_step :: "ubpf_node_shm_header \<Rightarrow> nat \<Rightarrow> bytes \<Rightarrow> probe_pc \<Rightarrow> ubpf_node_shm_header \<times> probe_pc" where
  "probe_step s r rec PIdle = (s, PIdle)"
| "probe_step s r rec (PLoad retry) =
     (if retry < MAX_PROBE_RETRIES then (s, PRegister retry (active_epoch_buffer s)) else (s, PDrop))"
| "probe_step s r rec (PRegister retry v) = (writers_inc (epoch_idx v) s, PVerify retry v)"
| "probe_step s r rec (PVerify retry v) =
     (if active_epoch_buffer s \<noteq> v then (s, PRelease retry v) else (s, PReserve v))"
| "probe_step s r rec (PRelease retry v) = (writers_dec (epoch_idx v) s, PLoad (retry + 1))"
| "probe_step s r rec (PReserve v) =
     (let b = epoch_idx v; off = write_offset (buffers s b) in
      (offset_add b (length rec) s,
       if u64 (off + length rec) \<le> BUFFER_CAPACITY then PWriting b off else PAbort b))"
| "probe_step s r rec (PAbort b) = (writers_dec b s, PDrop)"
| "probe_step s r rec PDrop = (count_dropped r s, PIdle)"
| "probe_step s r rec (PWriting b off) =
     (shm_buf_upd b (\<lambda>x. x\<lparr>block_data := patch (block_data x) off rec\<rparr>) s, PCommit b)"
| "probe_step s r rec (PCommit b) = (writers_dec b s, PCount)"
| "probe_step s r rec PCount = (count_recorded r s, PIdle)"

section \<open>The worker\<close>

text \<open>
  The places in \<open>swap_and_flush\<close>: look at the active buffer, publish the other one, wait for the
  writers (with the number of the turn), read the bytes, recycle. The third result is the chunk
  that is handed on.
\<close>

datatype worker_pc =
    WIdle
  | WCheck bool
  | WStore nat
  | WDrain nat nat
  | WRead nat
  | WRecycle nat

definition next_epoch :: "nat \<Rightarrow> nat" where
  "next_epoch v = push_bit 32 (inc32 (epoch_gen v)) OR u32 (1 + (2 ^ 32 - epoch_idx v))"

fun worker_step :: "ubpf_node_shm_header \<Rightarrow> worker_pc \<Rightarrow>
    ubpf_node_shm_header \<times> worker_pc \<times> bytes option" where
  "worker_step s WIdle = (s, WIdle, None)"
| "worker_step s (WCheck force) =
     (let v = active_epoch_buffer s in
      if write_offset (buffers s (epoch_idx v)) = 0 \<and> \<not> force then (s, WIdle, None)
      else (s, WStore v, None))"
| "worker_step s (WStore v) =
     (s\<lparr>active_epoch_buffer := next_epoch v\<rparr>, WDrain (epoch_idx v) 0, None)"
| "worker_step s (WDrain b spin) =
     (if 0 < active_writers (buffers s b) \<and> spin < 500 then (s, WDrain b (spin + 1), None)
      else (s, WRead b, None))"
| "worker_step s (WRead b) =
     (let len = min (write_offset (buffers s b)) BUFFER_CAPACITY in
      (s, WRecycle b, if 0 < len then Some (take len (block_data (buffers s b))) else None))"
| "worker_step s (WRecycle b) = (shm_buf_upd b (\<lambda>x. x\<lparr>write_offset := 0\<rparr>) s, WIdle, None)"

section \<open>The system\<close>

text \<open>
  A probe with its local rank and the record it logs; \<open>sy_log\<close> is the list of the records that were
  reserved in each buffer since it was recycled, with their offsets, and \<open>sy_out\<close> has for each
  chunk the log of its buffer and whether a reservation had failed for lack of space.
\<close>

record sys =
  sy_shm :: ubpf_node_shm_header
  sy_probes :: "(nat \<times> bytes \<times> probe_pc) list"
  sy_worker :: worker_pc
  sy_log :: "nat \<Rightarrow> (nat \<times> bytes) list"
  sy_out :: "(bytes \<times> bytes list \<times> bool) list"

definition log_add :: "probe_pc \<Rightarrow> probe_pc \<Rightarrow> bytes \<Rightarrow> (nat \<Rightarrow> (nat \<times> bytes) list) \<Rightarrow>
    nat \<Rightarrow> (nat \<times> bytes) list" where
  "log_add pc pc' rec l =
     (case (pc, pc') of (PReserve v, PWriting b off) \<Rightarrow> l(b := l b @ [(off, rec)]) | _ \<Rightarrow> l)"

text \<open>
  In a \<open>strict\<close> run the worker never gives up waiting. A probe steps only while the 64-bit offset
  counters are not about to wrap, which takes \<open>2^32\<close> failed reservations of 4 GB in one epoch.
\<close>

inductive sys_step :: "bool \<Rightarrow> sys \<Rightarrow> sys \<Rightarrow> bool" for strict where
  start: "i < length (sy_probes g) \<Longrightarrow> snd (snd (sy_probes g ! i)) = PIdle \<Longrightarrow> r < MAX_LOCAL_RANKS \<Longrightarrow>
    rec \<noteq> [] \<Longrightarrow> length rec < 2 ^ 32 \<Longrightarrow>
    sys_step strict g (g\<lparr>sy_probes := (sy_probes g)[i := (r, rec, PLoad 0)]\<rparr>)"
| probe: "i < length (sy_probes g) \<Longrightarrow> sy_probes g ! i = (r, rec, pc) \<Longrightarrow> pc \<noteq> PIdle \<Longrightarrow>
    (\<And>b. write_offset (buffers (sy_shm g) b) + 2 ^ 32 < 2 ^ 64) \<Longrightarrow>
    probe_step (sy_shm g) r rec pc = (s', pc') \<Longrightarrow>
    sys_step strict g (g\<lparr>sy_shm := s', sy_probes := (sy_probes g)[i := (r, rec, pc')],
      sy_log := log_add pc pc' rec (sy_log g)\<rparr>)"
| flush: "sy_worker g = WIdle \<Longrightarrow> sys_step strict g (g\<lparr>sy_worker := WCheck force\<rparr>)"
| drain: "sy_worker g = WDrain b spin \<Longrightarrow> worker_step (sy_shm g) (WDrain b spin) = (s', w', c) \<Longrightarrow>
    strict \<and> w' = WRead b \<longrightarrow> active_writers (buffers (sy_shm g) b) = 0 \<Longrightarrow>
    sys_step strict g (g\<lparr>sy_shm := s', sy_worker := w'\<rparr>)"
| swap: "sy_worker g = w \<Longrightarrow> (\<exists>force. w = WCheck force) \<or> (\<exists>v. w = WStore v) \<Longrightarrow>
    worker_step (sy_shm g) w = (s', w', c) \<Longrightarrow>
    sys_step strict g (g\<lparr>sy_shm := s', sy_worker := w'\<rparr>)"
| emit: "sy_worker g = WRead b \<Longrightarrow> worker_step (sy_shm g) (WRead b) = (s', w', c) \<Longrightarrow>
    sys_step strict g (g\<lparr>sy_shm := s', sy_worker := w',
      sy_out := sy_out g @ (case c of None \<Rightarrow> [] | Some x \<Rightarrow>
        [(x, map snd (sy_log g b), BUFFER_CAPACITY < write_offset (buffers (sy_shm g) b))])\<rparr>)"
| recycle: "sy_worker g = WRecycle b \<Longrightarrow> worker_step (sy_shm g) (WRecycle b) = (s', w', c) \<Longrightarrow>
    sys_step strict g (g\<lparr>sy_shm := s', sy_worker := w', sy_log := (sy_log g)(b := [])\<rparr>)"

definition sys_init :: "nat \<Rightarrow> nat \<Rightarrow> nat \<Rightarrow> sys" where
  "sys_init job_id node_id n =
     \<lparr>sy_shm = ubpf_shm_init job_id node_id, sy_probes = replicate n (0, [], PIdle),
      sy_worker = WIdle, sy_log = (\<lambda>_. []), sy_out = []\<rparr>"

inductive sys_reach :: "bool \<Rightarrow> sys \<Rightarrow> bool" for strict where
  init: "n < 2 ^ 32 - 1 \<Longrightarrow> sys_reach strict (sys_init job_id node_id n)"
| step: "sys_reach strict g \<Longrightarrow> sys_step strict g g' \<Longrightarrow> sys_reach strict g'"

text \<open>
  The store of the new epoch. In \<open>sys_step\<close> it is visible at once. Here the second component is the
  value that is in the worker's store buffer: the probes do not see it yet, and the worker goes on
  to its loads; its next store, and its next look at the epoch, wait until the buffer is empty.
  With \<open>fenced\<close> the store is always visible before the worker's next load, as a sequentially
  consistent store or a fence would make it; the source has neither.
\<close>

inductive tso_step :: "bool \<Rightarrow> bool \<Rightarrow> sys \<times> nat option \<Rightarrow> sys \<times> nat option \<Rightarrow> bool" for strict fenced where
  visible: "sys_step strict g g' \<Longrightarrow> pending = None \<or> sy_worker g' = sy_worker g \<or>
    (\<exists>b spin. sy_worker g = WDrain b spin) \<or> (\<exists>b. sy_worker g = WRead b) \<Longrightarrow>
    tso_step strict fenced (g, pending) (g', pending)"
| buffered: "\<not> fenced \<Longrightarrow> sy_worker g = WStore v \<Longrightarrow>
    tso_step strict fenced (g, None) (g\<lparr>sy_worker := WDrain (epoch_idx v) 0\<rparr>, Some (next_epoch v))"
| commit: "tso_step strict fenced (g, Some v) (g\<lparr>sy_shm := (sy_shm g)\<lparr>active_epoch_buffer := v\<rparr>\<rparr>, None)"

inductive tso_reach :: "bool \<Rightarrow> bool \<Rightarrow> sys \<times> nat option \<Rightarrow> bool" for strict fenced where
  init: "n < 2 ^ 32 - 1 \<Longrightarrow> tso_reach strict fenced (sys_init job_id node_id n, None)"
| step: "tso_reach strict fenced x \<Longrightarrow> tso_step strict fenced x y \<Longrightarrow> tso_reach strict fenced y"

lemma tso_fenced:
  assumes "tso_reach strict fenced x" and fenced
  shows "snd x = None \<and> sys_reach strict (fst x)"
  using assms(1)
proof (induction rule: tso_reach.induct)
  case (init n job_id node_id)
  then show ?case by (simp add: sys_reach.init)
next
  case (step x y)
  from step.hyps(2) step.IH assms(2) show ?case by cases (auto intro: sys_reach.step)
qed

lemma sys_reach_tso: "sys_reach strict g \<Longrightarrow> tso_reach strict fenced (g, None)"
  by (induction rule: sys_reach.induct) (auto intro: tso_reach.intros tso_step.visible)

section \<open>The packed word\<close>

lemma epoch_idx_mod: "epoch_idx v = v mod 4294967296"
proof -
  have "mask 32 = (4294967295 :: nat)" by (simp add: mask_eq_exp_minus_1)
  then show ?thesis using take_bit_eq_mask [of 32 v] by (simp add: epoch_idx_def take_bit_eq_mod)
qed

lemma next_epoch_idx:
  assumes "epoch_idx v < 2"
  shows "epoch_idx (next_epoch v) = 1 - epoch_idx v"
proof -
  have i: "u32 (1 + (2 ^ 32 - epoch_idx v)) = 1 - epoch_idx v"
    using assms by (auto simp: u32_def less_2_cases_iff)
  have z: "push_bit 32 x AND (1 - epoch_idx v) = 0" for x :: nat
  proof (rule bit_eqI)
    fix n
    have "1 - epoch_idx v = 0 \<or> 1 - epoch_idx v = 1" by linarith
    then show "bit (push_bit 32 x AND (1 - epoch_idx v)) n = bit (0::nat) n"
      by (auto simp: bit_and_iff bit_push_bit_iff bit_Suc_0_iff)
  qed
  have "next_epoch v = inc32 (epoch_gen v) * 4294967296 + (1 - epoch_idx v)"
    using disjunctive_add_eq_or [OF z [of "inc32 (epoch_gen v)"]]
    unfolding next_epoch_def i by (simp add: push_bit_eq_mult)
  then show ?thesis by (simp add: epoch_idx_mod [of "_ + _"])
qed

section \<open>Access lemmas\<close>

lemma buffers_shm_buf_upd [simp]:
  "buffers (shm_buf_upd b f s) c = (if c = b then f (buffers s b) else buffers s c)"
  by (simp add: shm_buf_upd_def)

lemma active_accesses [simp]:
  "active_epoch_buffer (shm_buf_upd b f s) = active_epoch_buffer s"
  "active_epoch_buffer (count_dropped r s) = active_epoch_buffer s"
  "active_epoch_buffer (count_recorded r s) = active_epoch_buffer s"
  by (simp_all add: shm_buf_upd_def count_dropped_def count_recorded_def)

lemma buffers_counts [simp]:
  "buffers (count_dropped r s) = buffers s" "buffers (count_recorded r s) = buffers s"
  by (simp_all add: count_dropped_def count_recorded_def)

lemmas access_defs = writers_inc_def writers_dec_def offset_add_def

section \<open>Wait-freedom\<close>

text \<open>The number of own steps a probe can still take, whatever the others do.\<close>

fun probe_bound :: "probe_pc \<Rightarrow> nat" where
  "probe_bound PIdle = 0"
| "probe_bound (PLoad retry) = 4 * (MAX_PROBE_RETRIES - retry) + 3"
| "probe_bound (PRegister retry v) = 4 * (MAX_PROBE_RETRIES - (retry + 1)) + 6"
| "probe_bound (PVerify retry v) = 4 * (MAX_PROBE_RETRIES - (retry + 1)) + 5"
| "probe_bound (PRelease retry v) = 4 * (MAX_PROBE_RETRIES - (retry + 1)) + 4"
| "probe_bound (PReserve v) = 4"
| "probe_bound (PAbort b) = 2"
| "probe_bound PDrop = 1"
| "probe_bound (PWriting b off) = 3"
| "probe_bound (PCommit b) = 2"
| "probe_bound PCount = 1"

lemma probe_bound_step:
  "pc \<noteq> PIdle \<Longrightarrow> probe_bound (snd (probe_step s r rec pc)) < probe_bound pc"
  by (cases "(s, r, rec, pc)" rule: probe_step.cases)
    (auto simp: Let_def MAX_PROBE_RETRIES_def)

text \<open>
  The run of a probe against any other activity: before its \<open>k\<close>-th step the segment is
  whatever \<open>env k\<close> makes of it.
\<close>

primrec probe_run :: "(nat \<Rightarrow> ubpf_node_shm_header \<Rightarrow> ubpf_node_shm_header) \<Rightarrow> nat \<Rightarrow> nat \<Rightarrow> bytes \<Rightarrow>
    ubpf_node_shm_header \<times> probe_pc \<Rightarrow> ubpf_node_shm_header \<times> probe_pc" where
  "probe_run env 0 r rec sp = sp"
| "probe_run env (Suc n) r rec sp = probe_run env n r rec (probe_step (env n (fst sp)) r rec (snd sp))"

lemma probe_run_idle: "snd sp = PIdle \<Longrightarrow> snd (probe_run env n r rec sp) = PIdle"
  by (induction n arbitrary: sp) simp_all

lemma probe_run_bound: "probe_bound (snd sp) \<le> n \<Longrightarrow> snd (probe_run env n r rec sp) = PIdle"
proof (induction n arbitrary: sp)
  case 0
  then show ?case by (cases "snd sp") simp_all
next
  case (Suc n)
  show ?case
  proof (cases "snd sp = PIdle")
    case False
    from Suc.prems probe_bound_step [OF False, of "env n (fst sp)" r rec]
    have "probe_bound (snd (probe_step (env n (fst sp)) r rec (snd sp))) \<le> n" by linarith
    from Suc.IH [OF this] show ?thesis by simp
  qed (simp add: probe_run_idle)
qed

section \<open>Invariants\<close>

text \<open>A probe registered on a buffer, and one that has verified its registration.\<close>

fun holds_buf :: "probe_pc \<Rightarrow> nat \<Rightarrow> bool" where
  "holds_buf (PVerify retry v) b = (b = epoch_idx v)"
| "holds_buf (PRelease retry v) b = (b = epoch_idx v)"
| "holds_buf (PReserve v) b = (b = epoch_idx v)"
| "holds_buf (PAbort c) b = (b = c)"
| "holds_buf (PWriting c off) b = (b = c)"
| "holds_buf (PCommit c) b = (b = c)"
| "holds_buf _ b = False"

fun verified_buf :: "probe_pc \<Rightarrow> nat \<Rightarrow> bool" where
  "verified_buf (PReserve v) b = (b = epoch_idx v)"
| "verified_buf (PAbort c) b = (b = c)"
| "verified_buf (PWriting c off) b = (b = c)"
| "verified_buf (PCommit c) b = (b = c)"
| "verified_buf _ b = False"

text \<open>Consecutive records from offset \<open>o\<close>, and the bytes they take.\<close>

fun tiles :: "nat \<Rightarrow> (nat \<times> bytes) list \<Rightarrow> bool" where
  "tiles p [] = True"
| "tiles p ((off, rec) # l) = (off = p \<and> rec \<noteq> [] \<and> tiles (p + length rec) l)"

definition log_size :: "(nat \<times> bytes) list \<Rightarrow> nat" where
  "log_size l = length (concat (map snd l))"

fun word_ok :: "worker_pc \<Rightarrow> nat \<Rightarrow> bool" where
  "word_ok (WStore v) a = (v = a)"
| "word_ok (WDrain b n) a = (epoch_idx a = 1 - b \<and> b < 2)"
| "word_ok (WRead b) a = (epoch_idx a = 1 - b \<and> b < 2)"
| "word_ok (WRecycle b) a = (epoch_idx a = 1 - b \<and> b < 2)"
| "word_ok _ a = True"

definition inv_word :: "sys \<Rightarrow> bool" where
  "inv_word g = (epoch_idx (active_epoch_buffer (sy_shm g)) < 2 \<and>
     word_ok (sy_worker g) (active_epoch_buffer (sy_shm g)))"

definition inv_count :: "sys \<Rightarrow> bool" where
  "inv_count g = (length (sy_probes g) < 2 ^ 32 - 1 \<and>
     (\<forall>b. active_writers (buffers (sy_shm g) b) =
        length (filter (\<lambda>p. holds_buf (snd (snd p)) b) (sy_probes g))))"

definition inv_verified :: "sys \<Rightarrow> bool" where
  "inv_verified g = (\<forall>p \<in> set (sy_probes g). \<forall>b. verified_buf (snd (snd p)) b \<longrightarrow>
     epoch_idx (active_epoch_buffer (sy_shm g)) = b \<or> (\<exists>n. sy_worker g = WDrain b n))"

definition inv_records :: "sys \<Rightarrow> bool" where
  "inv_records g = (\<forall>(r, rec, pc) \<in> set (sy_probes g). pc \<noteq> PIdle \<longrightarrow> rec \<noteq> [] \<and> length rec < 2 ^ 32)"

definition inv_space :: "sys \<Rightarrow> bool" where
  "inv_space g = (\<forall>b. length (block_data (buffers (sy_shm g) b)) = BUFFER_CAPACITY \<and>
     tiles 0 (sy_log g b) \<and> log_size (sy_log g b) \<le> BUFFER_CAPACITY \<and>
     (write_offset (buffers (sy_shm g) b) = log_size (sy_log g b) \<or>
      BUFFER_CAPACITY < write_offset (buffers (sy_shm g) b)))"

definition inv_data :: "sys \<Rightarrow> bool" where
  "inv_data g = ((\<forall>(r, rec, pc) \<in> set (sy_probes g). \<forall>b off. pc = PWriting b off \<longrightarrow> (off, rec) \<in> set (sy_log g b)) \<and>
     (\<forall>b. \<forall>(off, rec) \<in> set (sy_log g b).
        take (length rec) (drop off (block_data (buffers (sy_shm g) b))) = rec \<or>
        (\<exists>r. (r, rec, PWriting b off) \<in> set (sy_probes g))))"

definition inv_out :: "sys \<Rightarrow> bool" where
  "inv_out g = (\<forall>(c, recs, overflow) \<in> set (sy_out g). length c \<le> BUFFER_CAPACITY \<and>
     (\<exists>junk. c = concat recs @ junk \<and> (\<not> overflow \<longrightarrow> junk = [])))"

definition sys_inv :: "sys \<Rightarrow> bool" where
  "sys_inv g = (inv_word g \<and> inv_count g \<and> inv_verified g \<and> inv_records g \<and> inv_space g \<and>
     inv_data g \<and> inv_out g)"

lemma sys_inv_init: "n < 2 ^ 32 - 1 \<Longrightarrow> sys_inv (sys_init job_id node_id n)"
  by (auto simp: sys_inv_def inv_word_def inv_count_def inv_verified_def inv_records_def inv_space_def
      inv_data_def inv_out_def sys_init_def ubpf_shm_init_def epoch_idx_mod log_size_def
      simp del: replicate_numeral)

section \<open>What a probe step changes\<close>

lemma length_filter_update:
  "i < length ps \<Longrightarrow> length (filter P (ps[i := x])) + of_bool (P (ps ! i)) =
     length (filter P ps) + of_bool (P x)"
proof (induction ps arbitrary: i)
  case (Cons p ps)
  then show ?case by (cases i) auto
qed simp

lemma filter_update_member:
  "i < length ps \<Longrightarrow> P (ps ! i) \<Longrightarrow> 0 < length (filter P ps)"
  by (auto simp: filter_empty_conv intro: nth_mem)

lemma probe_step_active:
  "active_epoch_buffer (fst (probe_step s r rec pc)) = active_epoch_buffer s"
  by (cases "(s, r, rec, pc)" rule: probe_step.cases) (simp_all add: access_defs Let_def)

lemma probe_step_writers:
  assumes "holds_buf pc b \<Longrightarrow> 0 < active_writers (buffers s b)"
    and "active_writers (buffers s b) < 2 ^ 32 - 1"
  shows "active_writers (buffers (fst (probe_step s r rec pc)) b) + of_bool (holds_buf pc b) =
     active_writers (buffers s b) + of_bool (holds_buf (snd (probe_step s r rec pc)) b)"
  using assms
  by (cases "(s, r, rec, pc)" rule: probe_step.cases) (auto simp: access_defs Let_def)

lemma probe_step_verified:
  "verified_buf (snd (probe_step s r rec pc)) b \<Longrightarrow>
     verified_buf pc b \<or> epoch_idx (active_epoch_buffer s) = b"
  by (cases "(s, r, rec, pc)" rule: probe_step.cases) (auto simp: Let_def split: if_splits)

lemma probe_step_data:
  "block_data (buffers (fst (probe_step s r rec pc)) b) =
     (case pc of PWriting c off \<Rightarrow> if c = b then patch (block_data (buffers s b)) off rec
        else block_data (buffers s b) | _ \<Rightarrow> block_data (buffers s b))"
  by (cases "(s, r, rec, pc)" rule: probe_step.cases) (simp_all add: access_defs Let_def)

lemma probe_step_offset:
  "write_offset (buffers (fst (probe_step s r rec pc)) b) =
     (case pc of PReserve v \<Rightarrow> if epoch_idx v = b then u64 (write_offset (buffers s b) + length rec)
        else write_offset (buffers s b) | _ \<Rightarrow> write_offset (buffers s b))"
  by (cases "(s, r, rec, pc)" rule: probe_step.cases) (simp_all add: access_defs Let_def)

lemma probe_step_writing:
  "snd (probe_step s r rec pc) = PWriting b off \<longleftrightarrow>
     (\<exists>v. pc = PReserve v \<and> b = epoch_idx v \<and> off = write_offset (buffers s b) \<and>
        u64 (off + length rec) \<le> BUFFER_CAPACITY)"
  by (cases "(s, r, rec, pc)" rule: probe_step.cases) (auto simp: Let_def)

section \<open>Logs and tiles\<close>

lemma log_size_simps [simp]:
  "log_size [] = 0" "log_size (x # l) = length (snd x) + log_size l"
  "log_size (l @ l') = log_size l + log_size l'"
  by (simp_all add: log_size_def)

lemma tiles_append: "tiles p (l @ l') \<longleftrightarrow> tiles p l \<and> tiles (p + log_size l) l'"
  by (induction p l rule: tiles.induct) (auto simp: add.assoc)

lemma tiles_member: "tiles p l \<Longrightarrow> (off, rec) \<in> set l \<Longrightarrow> p \<le> off \<and> off + length rec \<le> p + log_size l \<and> rec \<noteq> []"
  by (induction p l rule: tiles.induct) fastforce+

lemma tiles_disjoint:
  "tiles p l \<Longrightarrow> (off, rec) \<in> set l \<Longrightarrow> (off', rec') \<in> set l \<Longrightarrow>
     (off, rec) = (off', rec') \<or> off + length rec \<le> off' \<or> off' + length rec' \<le> off"
  by (induction p l rule: tiles.induct) (auto dest: tiles_member)

lemma tiles_concat:
  assumes "tiles p l" and "p + log_size l \<le> length d"
    and "\<And>off rec. (off, rec) \<in> set l \<Longrightarrow> take (length rec) (drop off d) = rec"
  shows "take (log_size l) (drop p d) = concat (map snd l)"
  using assms
proof (induction p l rule: tiles.induct)
  case (2 p off rec l)
  have "take (length rec) (drop p d) = rec" using 2(2,4) by auto
  moreover have "take (log_size l) (drop (p + length rec) d) = concat (map snd l)"
    using 2 by (intro 2(1)) auto
  ultimately show ?case by (simp add: take_add add.commute)
qed simp

lemma patch_same:
  assumes "off + length rec \<le> length d"
  shows "take (length rec) (drop off (patch d off rec)) = rec"
  using assms by (simp add: patch_def)

lemma patch_other:
  assumes "off + length rec \<le> length d" and "n + off' \<le> length d"
    and "off + length rec \<le> off' \<or> off' + n \<le> off"
  shows "take n (drop off' (patch d off rec)) = take n (drop off' d)"
  using assms by (intro nth_equalityI) (auto simp: length_patch patch_nth)

lemma log_add_simps:
  "log_add (PReserve v) (PWriting b off) rec l = l(b := l b @ [(off, rec)])"
  "(\<And>v. pc \<noteq> PReserve v) \<Longrightarrow> log_add pc pc' rec l = l"
  "(\<And>b off. pc' \<noteq> PWriting b off) \<Longrightarrow> log_add pc pc' rec l = l"
  by (auto simp: log_add_def split: probe_pc.splits)

section \<open>The invariants are kept by a probe\<close>

definition after_probe :: "sys \<Rightarrow> nat \<Rightarrow> sys" where
  "after_probe g i = (case sy_probes g ! i of (r, rec, pc) \<Rightarrow>
     (case probe_step (sy_shm g) r rec pc of (s', pc') \<Rightarrow>
        g\<lparr>sy_shm := s', sy_probes := (sy_probes g)[i := (r, rec, pc')],
          sy_log := log_add pc pc' rec (sy_log g)\<rparr>))"

lemma after_probe_sel:
  assumes "sy_probes g ! i = (r, rec, pc)"
  shows "sy_shm (after_probe g i) = fst (probe_step (sy_shm g) r rec pc)"
    and "sy_probes (after_probe g i) = (sy_probes g)[i := (r, rec, snd (probe_step (sy_shm g) r rec pc))]"
    and "sy_worker (after_probe g i) = sy_worker g"
    and "sy_out (after_probe g i) = sy_out g"
    and "sy_log (after_probe g i) = log_add pc (snd (probe_step (sy_shm g) r rec pc)) rec (sy_log g)"
  using assms by (simp_all add: after_probe_def split: prod.splits)

lemma probe_keeps_word:
  assumes "inv_word g" and "sy_probes g ! i = (r, rec, pc)"
  shows "inv_word (after_probe g i)"
  using assms(1)
  by (simp add: inv_word_def after_probe_sel [OF assms(2)] probe_step_active)

lemma probe_keeps_count:
  assumes inv: "inv_count g" and i: "i < length (sy_probes g)" and p: "sy_probes g ! i = (r, rec, pc)"
  shows "inv_count (after_probe g i)"
proof -
  have "active_writers (buffers (sy_shm (after_probe g i)) b) =
      length (filter (\<lambda>p. holds_buf (snd (snd p)) b) (sy_probes (after_probe g i)))" for b
  proof -
    let ?P = "\<lambda>p. holds_buf (snd (snd p)) b"
    have cnt: "active_writers (buffers (sy_shm g) b) = length (filter ?P (sy_probes g))"
      and len: "length (sy_probes g) < 2 ^ 32 - 1" using inv by (simp_all add: inv_count_def)
    have pos: "holds_buf pc b \<Longrightarrow> 0 < active_writers (buffers (sy_shm g) b)"
      using filter_update_member [OF i, of ?P] p cnt by simp
    have lt: "active_writers (buffers (sy_shm g) b) < 2 ^ 32 - 1"
      using cnt len length_filter_le [of ?P "sy_probes g"] by linarith
    show ?thesis
      using probe_step_writers [where pc = pc, OF pos lt, where r = r and rec = rec] cnt
        length_filter_update [OF i, of ?P "(r, rec, snd (probe_step (sy_shm g) r rec pc))"] p
      by (simp add: after_probe_sel [OF p])
  qed
  then show ?thesis using inv by (simp add: inv_count_def after_probe_sel [OF p])
qed

lemma probe_keeps_verified:
  assumes inv: "inv_verified g" and i: "i < length (sy_probes g)" and p: "sy_probes g ! i = (r, rec, pc)"
  shows "inv_verified (after_probe g i)"
proof -
  have "epoch_idx (active_epoch_buffer (sy_shm g)) = b \<or> (\<exists>n. sy_worker g = WDrain b n)"
    if "q \<in> set (sy_probes (after_probe g i))" "verified_buf (snd (snd q)) b" for q b
  proof -
    from that(1) consider "q \<in> set (sy_probes g)" | "q = (r, rec, snd (probe_step (sy_shm g) r rec pc))"
      by (auto simp: after_probe_sel [OF p] dest: set_update_subset_insert [THEN subsetD])
    then show ?thesis
    proof cases
      case 1
      then show ?thesis using inv that(2) by (auto simp: inv_verified_def)
    next
      case 2
      then have "verified_buf pc b \<or> epoch_idx (active_epoch_buffer (sy_shm g)) = b"
        using probe_step_verified that(2) by auto
      moreover have "verified_buf pc b \<Longrightarrow> ?thesis"
        using inv nth_mem [OF i] p by (force simp: inv_verified_def)
      ultimately show ?thesis by blast
    qed
  qed
  then show ?thesis by (auto simp: inv_verified_def after_probe_sel [OF p] probe_step_active)
qed

lemma probe_keeps_records:
  assumes "inv_records g" and "i < length (sy_probes g)" and p: "sy_probes g ! i = (r, rec, pc)" and "pc \<noteq> PIdle"
  shows "inv_records (after_probe g i)"
  using assms nth_mem [OF assms(2)]
  by (fastforce simp: inv_records_def after_probe_sel [OF p] dest: set_update_subset_insert [THEN subsetD])

lemma probe_keeps_space:
  assumes inv: "inv_space g" and rec: "inv_records g" and i: "i < length (sy_probes g)"
    and p: "sy_probes g ! i = (r, rec, pc)" and pc: "pc \<noteq> PIdle" and data: "inv_data g"
    and wrap: "\<And>b. write_offset (buffers (sy_shm g) b) + 2 ^ 32 < 2 ^ 64"
  shows "inv_space (after_probe g i)"
proof -
  have len: "rec \<noteq> []" "length rec < 2 ^ 32" using rec nth_mem [OF i] p pc by (auto simp: inv_records_def)
  note sp = inv [unfolded inv_space_def, rule_format]
  show ?thesis
  proof (cases "\<exists>v. pc = PReserve v")
    case True
    then obtain v where v: "pc = PReserve v" by blast
    have u: "u64 (write_offset (buffers (sy_shm g) b) + length rec) =
        write_offset (buffers (sy_shm g) b) + length rec" for b
      using wrap [of b] len by (intro u64_id) simp
    show ?thesis unfolding inv_space_def
    proof (rule allI, goal_cases)
      case (1 b)
      from sp [of b] len show ?case
        by (cases "b = epoch_idx v")
          (auto simp: after_probe_sel [OF p] v access_defs Let_def u log_add_simps tiles_append)
    qed
  next
    case False
    then have "log_add pc (snd (probe_step (sy_shm g) r rec pc)) rec (sy_log g) = sy_log g"
      by (intro log_add_simps) blast
    moreover have "length (block_data (buffers (fst (probe_step (sy_shm g) r rec pc)) b)) = BUFFER_CAPACITY" for b
    proof -
      have "off + length rec \<le> BUFFER_CAPACITY" if "pc = PWriting b off" for off
      proof -
        have "(off, rec) \<in> set (sy_log g b)" using data nth_mem [OF i] p that by (auto simp: inv_data_def)
        then show ?thesis using tiles_member [of 0 "sy_log g b"] sp [of b] by fastforce
      qed
      then show ?thesis using sp [of b] by (auto simp: probe_step_data length_patch split: probe_pc.split)
    qed
    ultimately show ?thesis using sp False
      by (auto simp: inv_space_def after_probe_sel [OF p] probe_step_offset split: probe_pc.split)
  qed
qed

lemma update_member:
  "i < length ps \<Longrightarrow> q \<in> set ps \<Longrightarrow> q \<noteq> ps ! i \<Longrightarrow> q \<in> set (ps[i := x])"
  by (metis in_set_conv_nth length_list_update nth_list_update_neq)

lemma inv_dataI:
  assumes "\<And>r rec b off. (r, rec, PWriting b off) \<in> set (sy_probes g) \<Longrightarrow> (off, rec) \<in> set (sy_log g b)"
    and "\<And>b off rec. (off, rec) \<in> set (sy_log g b) \<Longrightarrow>
      take (length rec) (drop off (block_data (buffers (sy_shm g) b))) = rec \<or>
      (\<exists>r. (r, rec, PWriting b off) \<in> set (sy_probes g))"
  shows "inv_data g"
  using assms unfolding inv_data_def by fast

lemma inv_dataD:
  assumes "inv_data g"
  shows "(r, rec, PWriting b off) \<in> set (sy_probes g) \<Longrightarrow> (off, rec) \<in> set (sy_log g b)"
    and "(off, rec) \<in> set (sy_log g b) \<Longrightarrow>
      take (length rec) (drop off (block_data (buffers (sy_shm g) b))) = rec \<or>
      (\<exists>r. (r, rec, PWriting b off) \<in> set (sy_probes g))"
  using assms by (auto simp: inv_data_def)

lemma set_updateD: "q \<in> set (ps[i := x]) \<Longrightarrow> q \<in> set ps \<or> q = x"
  by (auto dest: set_update_subset_insert [THEN subsetD])

lemma probe_keeps_data_writing:
  assumes inv: "inv_data g" and sp: "inv_space g" and i: "i < length (sy_probes g)"
    and p: "sy_probes g ! i = (r, rec, PWriting c off)"
  shows "inv_data (after_probe g i)"
proof (rule inv_dataI)
  have log: "sy_log (after_probe g i) = sy_log g"
    by (simp add: after_probe_sel [OF p] log_add_simps)
  have own: "(off, rec) \<in> set (sy_log g c)" using inv_dataD(1) [OF inv] nth_mem [OF i] p by simp
  note spc = sp [unfolded inv_space_def, rule_format, of c]
  have fits: "off' + length rec' \<le> BUFFER_CAPACITY" if "(off', rec') \<in> set (sy_log g c)" for off' rec'
    using tiles_member [OF _ that, of 0] spc by linarith
  show "(off', rec') \<in> set (sy_log (after_probe g i) b)"
    if "(r', rec', PWriting b off') \<in> set (sy_probes (after_probe g i))" for r' rec' b off'
    using set_updateD [OF that [unfolded after_probe_sel [OF p]]] inv_dataD(1) [OF inv]
    by (auto simp: log)
  show "take (length rec') (drop off' (block_data (buffers (sy_shm (after_probe g i)) b))) = rec' \<or>
      (\<exists>r'. (r', rec', PWriting b off') \<in> set (sy_probes (after_probe g i)))"
    if "(off', rec') \<in> set (sy_log (after_probe g i) b)" for b off' rec'
  proof (cases "b = c \<and> (off', rec') = (off, rec)")
    case True
    then show ?thesis using fits [OF own] spc by (simp add: after_probe_sel [OF p] patch_same)
  next
    case False
    have "(r', rec', PWriting b off') \<in> set (sy_probes (after_probe g i))"
      if "(r', rec', PWriting b off') \<in> set (sy_probes g)" for r'
      using update_member [OF i that] False p by (auto simp: after_probe_sel [OF p])
    moreover have "take (length rec') (drop off' (block_data (buffers (sy_shm (after_probe g i)) b))) =
        take (length rec') (drop off' (block_data (buffers (sy_shm g) b)))"
    proof (cases "b = c")
      case True
      with False that have "off + length rec \<le> off' \<or> off' + length rec' \<le> off"
        using tiles_disjoint [OF _ own, of 0 off' rec'] spc by (auto simp: log)
      moreover have "off' + length rec' \<le> BUFFER_CAPACITY"
        using True that by (intro fits) (simp add: log)
      ultimately show ?thesis using True fits [OF own] spc
        by (simp add: after_probe_sel [OF p] patch_other add.commute)
    qed (simp add: after_probe_sel [OF p])
    ultimately show ?thesis using inv_dataD(2) [OF inv that [unfolded log]] by auto
  qed
qed

lemma probe_keeps_data:
  assumes inv: "inv_data g" and sp: "inv_space g" and i: "i < length (sy_probes g)"
    and p: "sy_probes g ! i = (r, rec, pc)"
  shows "inv_data (after_probe g i)"
proof (cases "\<exists>b off. pc = PWriting b off")
  case True
  then show ?thesis using probe_keeps_data_writing [OF inv sp i] p by blast
next
  case False
  let ?pc' = "snd (probe_step (sy_shm g) r rec pc)"
  have data: "block_data (buffers (sy_shm (after_probe g i)) b) = block_data (buffers (sy_shm g) b)" for b
    using False by (auto simp: after_probe_sel [OF p] probe_step_data split: probe_pc.split)
  have log: "(off', rec') \<in> set (sy_log (after_probe g i) b) \<longleftrightarrow>
      (off', rec') \<in> set (sy_log g b) \<or> ?pc' = PWriting b off' \<and> rec' = rec" for b off' rec'
  proof (cases "\<exists>v. pc = PReserve v")
    case True
    then obtain v where "pc = PReserve v" by blast
    then show ?thesis
      by (cases "u64 (write_offset (buffers (sy_shm g) (epoch_idx v)) + length rec) \<le> BUFFER_CAPACITY")
        (auto simp: after_probe_sel [OF p] log_add_def Let_def split: if_splits)
  next
    case False
    then show ?thesis by (auto simp: after_probe_sel [OF p] log_add_simps probe_step_writing)
  qed
  have new: "(r, rec, ?pc') \<in> set (sy_probes (after_probe g i))"
    using i by (simp add: after_probe_sel [OF p] set_update_memI)
  have old: "(r', rec', PWriting b off') \<in> set (sy_probes (after_probe g i))"
    if "(r', rec', PWriting b off') \<in> set (sy_probes g)" for r' rec' b off'
  proof -
    have "(r', rec', PWriting b off') \<noteq> sy_probes g ! i" using False p by auto
    from update_member [OF i that this] show ?thesis by (simp add: after_probe_sel [OF p])
  qed
  show ?thesis
  proof (rule inv_dataI)
    show "(off', rec') \<in> set (sy_log (after_probe g i) b)"
      if "(r', rec', PWriting b off') \<in> set (sy_probes (after_probe g i))" for r' rec' b off'
      using set_updateD [OF that [unfolded after_probe_sel [OF p]]] inv_dataD(1) [OF inv]
      by (auto simp: log)
    show "take (length rec') (drop off' (block_data (buffers (sy_shm (after_probe g i)) b))) = rec' \<or>
        (\<exists>r'. (r', rec', PWriting b off') \<in> set (sy_probes (after_probe g i)))"
      if "(off', rec') \<in> set (sy_log (after_probe g i) b)" for b off' rec'
      using that [unfolded log]
    proof
      assume "(off', rec') \<in> set (sy_log g b)"
      from inv_dataD(2) [OF inv this] show ?thesis unfolding data using old by blast
    next
      assume "?pc' = PWriting b off' \<and> rec' = rec"
      with new show ?thesis by auto
    qed
  qed
qed

lemma probe_keeps:
  assumes inv: "sys_inv g" and i: "i < length (sy_probes g)" and p: "sy_probes g ! i = (r, rec, pc)"
    and pc: "pc \<noteq> PIdle" and wrap: "\<And>b. write_offset (buffers (sy_shm g) b) + 2 ^ 32 < 2 ^ 64"
  shows "sys_inv (after_probe g i)"
  using inv probe_keeps_word [OF _ p] probe_keeps_count [OF _ i p] probe_keeps_verified [OF _ i p]
    probe_keeps_records [OF _ i p pc] probe_keeps_space [OF _ _ i p pc _ wrap] probe_keeps_data [OF _ _ i p]
  by (simp add: sys_inv_def inv_out_def after_probe_sel [OF p])

lemma start_keeps:
  assumes inv: "sys_inv g" and i: "i < length (sy_probes g)" and p: "snd (snd (sy_probes g ! i)) = PIdle"
    and rec: "rec \<noteq> []" "length rec < 2 ^ 32"
  shows "sys_inv (g\<lparr>sy_probes := (sy_probes g)[i := (r, rec, PLoad 0)]\<rparr>)" (is "sys_inv ?g")
proof -
  note parts = inv [unfolded sys_inv_def]
  have "inv_count ?g"
  proof -
    have "length (filter (\<lambda>p. holds_buf (snd (snd p)) b) ((sy_probes g)[i := (r, rec, PLoad 0)])) =
        length (filter (\<lambda>p. holds_buf (snd (snd p)) b) (sy_probes g))" for b
      using length_filter_update [OF i, of "\<lambda>p. holds_buf (snd (snd p)) b" "(r, rec, PLoad 0)"] p by simp
    then show ?thesis using parts by (simp add: inv_count_def)
  qed
  moreover have "inv_verified ?g" "inv_records ?g"
    using parts rec by (auto simp: inv_verified_def inv_records_def dest!: set_updateD)
  moreover have "inv_data ?g"
  proof (rule inv_dataI)
    show "(off', rec') \<in> set (sy_log ?g b)" if "(r', rec', PWriting b off') \<in> set (sy_probes ?g)"
      for r' rec' b off'
      using that parts inv_dataD(1) by (auto dest!: set_updateD)
    show "take (length rec') (drop off' (block_data (buffers (sy_shm ?g) b))) = rec' \<or>
        (\<exists>r'. (r', rec', PWriting b off') \<in> set (sy_probes ?g))"
      if "(off', rec') \<in> set (sy_log ?g b)" for b off' rec'
    proof -
      have "(r', rec', PWriting b off') \<in> set (sy_probes ?g)"
        if "(r', rec', PWriting b off') \<in> set (sy_probes g)" for r'
      proof -
        have "(r', rec', PWriting b off') \<noteq> sy_probes g ! i" using p by (metis probe_pc.distinct(15) snd_conv)
        from update_member [OF i that this] show ?thesis by simp
      qed
      then show ?thesis using inv_dataD(2) [of g off' rec' b] parts that by auto
    qed
  qed
  ultimately show ?thesis using parts
    by (simp add: sys_inv_def inv_word_def inv_space_def inv_out_def)
qed

section \<open>The invariants are kept by the worker\<close>

lemma worker_move_keeps:
  assumes "sys_inv g" and "inv_word (g\<lparr>sy_worker := w\<rparr>)" and "inv_verified (g\<lparr>sy_worker := w\<rparr>)"
  shows "sys_inv (g\<lparr>sy_worker := w\<rparr>)"
  using assms by (simp add: sys_inv_def inv_count_def inv_records_def inv_space_def inv_data_def inv_out_def)

lemma no_verified:
  assumes inv: "inv_verified g" and word: "inv_word g" and w: "sy_worker g = WRead b \<or> sy_worker g = WRecycle b"
  shows "\<forall>p \<in> set (sy_probes g). \<not> verified_buf (snd (snd p)) b"
proof -
  have "epoch_idx (active_epoch_buffer (sy_shm g)) \<noteq> b" using word w
    by (auto simp: inv_word_def less_2_cases_iff)
  then show ?thesis using inv w unfolding inv_verified_def by auto
qed

lemma drained_no_verified:
  assumes "inv_count g" and "active_writers (buffers (sy_shm g) b) = 0"
  shows "\<forall>p \<in> set (sy_probes g). \<not> verified_buf (snd (snd p)) b"
proof -
  have "verified_buf pc b \<Longrightarrow> holds_buf pc b" for pc by (cases pc) auto
  then show ?thesis using assms by (auto simp: inv_count_def filter_empty_conv)
qed

lemma flush_keeps:
  assumes "sys_inv g" and "sy_worker g = WIdle"
  shows "sys_inv (g\<lparr>sy_worker := WCheck force\<rparr>)"
  using assms by (intro worker_move_keeps) (auto simp: sys_inv_def inv_word_def inv_verified_def)

lemma drain_keeps:
  assumes inv: "sys_inv g" and w: "sy_worker g = WDrain b spin"
    and step: "worker_step (sy_shm g) (WDrain b spin) = (s', w', c)"
    and strict: "w' = WRead b \<longrightarrow> active_writers (buffers (sy_shm g) b) = 0"
  shows "sys_inv (g\<lparr>sy_shm := s', sy_worker := w'\<rparr>)"
proof -
  have s: "s' = sy_shm g" and w': "w' = WDrain b (spin + 1) \<or> w' = WRead b"
    using step by (auto split: if_splits)
  have "inv_verified (g\<lparr>sy_worker := w'\<rparr>)"
    using w' inv w strict drained_no_verified [of g b] by (auto simp: sys_inv_def inv_verified_def)
  then have "sys_inv (g\<lparr>sy_worker := w'\<rparr>)"
    using inv w w' by (intro worker_move_keeps) (auto simp: sys_inv_def inv_word_def)
  then show ?thesis using s by simp
qed

lemma swap_keeps:
  assumes inv: "sys_inv g" and w: "sy_worker g = w" "(\<exists>force. w = WCheck force) \<or> (\<exists>v. w = WStore v)"
    and step: "worker_step (sy_shm g) w = (s', w', c)"
  shows "sys_inv (g\<lparr>sy_shm := s', sy_worker := w'\<rparr>)"
  using w(2)
proof (elim disjE exE)
  fix force assume f: "w = WCheck force"
  then have "s' = sy_shm g" and "w' = WIdle \<or> w' = WStore (active_epoch_buffer (sy_shm g))"
    using step by (auto simp: Let_def split: if_splits)
  moreover have "sys_inv (g\<lparr>sy_worker := w'\<rparr>)"
    using calculation(2) inv w(1) f
    by (intro worker_move_keeps) (auto simp: sys_inv_def inv_word_def inv_verified_def)
  ultimately show ?thesis by simp
next
  fix v assume v: "w = WStore v"
  have act: "v = active_epoch_buffer (sy_shm g)" "epoch_idx v < 2"
    using inv w(1) v by (auto simp: sys_inv_def inv_word_def)
  have s': "s' = (sy_shm g)\<lparr>active_epoch_buffer := next_epoch v\<rparr>" "w' = WDrain (epoch_idx v) 0"
    using step v by auto
  have "inv_verified (g\<lparr>sy_shm := s', sy_worker := w'\<rparr>)"
    using inv w(1) v act s' by (auto simp: sys_inv_def inv_verified_def)
  moreover have "inv_word (g\<lparr>sy_shm := s', sy_worker := w'\<rparr>)"
    using s' act next_epoch_idx [OF act(2)] by (auto simp: inv_word_def)
  ultimately show ?thesis using inv s'
    by (simp add: sys_inv_def inv_count_def inv_records_def inv_space_def inv_data_def inv_out_def)
qed

lemma emit_keeps:
  assumes inv: "sys_inv g" and w: "sy_worker g = WRead b"
    and step: "worker_step (sy_shm g) (WRead b) = (s', w', c)"
  shows "sys_inv (g\<lparr>sy_shm := s', sy_worker := w',
      sy_out := sy_out g @ (case c of None \<Rightarrow> [] | Some x \<Rightarrow>
        [(x, map snd (sy_log g b), BUFFER_CAPACITY < write_offset (buffers (sy_shm g) b))])\<rparr>)"
    (is "sys_inv ?g")
proof -
  let ?d = "block_data (buffers (sy_shm g) b)" and ?o = "write_offset (buffers (sy_shm g) b)"
  note parts = inv [unfolded sys_inv_def]
  have sp: "length ?d = BUFFER_CAPACITY" "tiles 0 (sy_log g b)" "log_size (sy_log g b) \<le> BUFFER_CAPACITY"
      "?o = log_size (sy_log g b) \<or> BUFFER_CAPACITY < ?o"
    using parts by (auto simp: inv_space_def)
  have nov: "\<forall>p \<in> set (sy_probes g). \<not> verified_buf (snd (snd p)) b"
    using no_verified [of g b] parts w by blast
  have "take (length rec) (drop off ?d) = rec" if "(off, rec) \<in> set (sy_log g b)" for off rec
    using inv_dataD(2) [OF _ that] parts nov by fastforce
  from tiles_concat [OF sp(2) _ this] sp(1,3)
  have flat: "take (log_size (sy_log g b)) ?d = concat (map snd (sy_log g b))" by simp
  have chunk: "x = concat (map snd (sy_log g b)) @ drop (log_size (sy_log g b)) x \<and>
      length x \<le> BUFFER_CAPACITY \<and> (\<not> BUFFER_CAPACITY < ?o \<longrightarrow> drop (log_size (sy_log g b)) x = [])"
    if "c = Some x" for x
  proof -
    have x: "x = take (min ?o BUFFER_CAPACITY) ?d"
      using step that by (auto simp: Let_def split: if_splits)
    have le: "log_size (sy_log g b) \<le> min ?o BUFFER_CAPACITY" using sp(3,4) by linarith
    then have "take (log_size (sy_log g b)) x = concat (map snd (sy_log g b))"
      unfolding x flat [symmetric] take_take by (simp add: min_def)
    then show ?thesis using append_take_drop_id [of "log_size (sy_log g b)" x] sp x by auto
  qed
  have s: "s' = sy_shm g" "w' = WRecycle b" using step by (auto simp: Let_def)
  have "inv_out ?g" using parts chunk by (cases c) (auto simp: inv_out_def)
  moreover have "inv_word ?g" "inv_verified ?g"
    using parts w s by (auto simp: inv_word_def inv_verified_def)
  ultimately show ?thesis using parts s
    by (simp add: sys_inv_def inv_count_def inv_records_def inv_space_def inv_data_def)
qed

lemma recycle_keeps:
  assumes inv: "sys_inv g" and w: "sy_worker g = WRecycle b"
    and step: "worker_step (sy_shm g) (WRecycle b) = (s', w', c)"
  shows "sys_inv (g\<lparr>sy_shm := s', sy_worker := w', sy_log := (sy_log g)(b := [])\<rparr>)" (is "sys_inv ?g")
proof -
  note parts = inv [unfolded sys_inv_def]
  have nov: "\<forall>p \<in> set (sy_probes g). \<not> verified_buf (snd (snd p)) b"
    using no_verified [of g b] parts w by blast
  have s: "s' = shm_buf_upd b (\<lambda>x. x\<lparr>write_offset := 0\<rparr>) (sy_shm g)" "w' = WIdle" using step by auto
  have "inv_word ?g" "inv_verified ?g" "inv_count ?g" "inv_space ?g"
    using parts w s by (auto simp: inv_word_def inv_verified_def inv_count_def inv_space_def)
  moreover have "inv_data ?g"
  proof (rule inv_dataI)
    show "(off, rec) \<in> set (sy_log ?g c)" if "(r, rec, PWriting c off) \<in> set (sy_probes ?g)" for r rec c off
      using that parts nov inv_dataD(1) [of g r rec c off] by fastforce
    show "take (length rec) (drop off (block_data (buffers (sy_shm ?g) c))) = rec \<or>
        (\<exists>r. (r, rec, PWriting c off) \<in> set (sy_probes ?g))" if "(off, rec) \<in> set (sy_log ?g c)" for c off rec
      using that parts inv_dataD(2) [of g off rec c] s by (cases "c = b") auto
  qed
  ultimately show ?thesis using parts by (simp add: sys_inv_def inv_records_def inv_out_def)
qed

lemma sys_inv_step:
  assumes "sys_step True g g'" and "sys_inv g"
  shows "sys_inv g'"
  using assms
proof cases
  case (probe i r rec pc s' pc')
  then show ?thesis using probe_keeps [OF assms(2) probe(2-5)] by (simp add: after_probe_def)
qed (auto intro: start_keeps flush_keeps swap_keeps emit_keeps recycle_keeps
    drain_keeps simp del: worker_step.simps)

lemma sys_reach_inv: "sys_reach True g \<Longrightarrow> sys_inv g"
  by (induction rule: sys_reach.induct) (auto intro: sys_inv_init sys_inv_step)

section \<open>Delivery\<close>

text \<open>C10: Take any order in which the probes and the worker take their steps, in which the worker's
  store of the new epoch is visible before it reads the number of writers, and in which the worker
  does not give up waiting for them. (The code ensures neither: see \<open>shm_store_race\<close> and
  \<open>shm_drain_timeout\<close>.) Then every chunk that \<open>swap_and_flush\<close> hands on starts with the records that
  were reserved in its buffer since the last swap, each complete and in the order of the
  reservations, and is never longer than a buffer; it holds nothing else if every reservation found
  room, while after one that failed for lack of space bytes of earlier epochs may follow.\<close>
theorem shm_flush_complete:
  assumes "tso_reach True True (g, pending)" and "(c, recs, overflow) \<in> set (sy_out g)"
  shows "length c \<le> BUFFER_CAPACITY \<and> (\<exists>junk. c = concat recs @ junk \<and> (\<not> overflow \<longrightarrow> junk = []))"
  using sys_reach_inv [of g] tso_fenced [OF assms(1)] assms(2) by (auto simp: sys_inv_def inv_out_def)

text \<open>Steps of a run, for the concrete runs below.\<close>

lemma reach_probe:
  assumes "sys_reach strict g" and "i < length (sy_probes g)" and "snd (snd (sy_probes g ! i)) \<noteq> PIdle"
    and "\<And>b. write_offset (buffers (sy_shm g) b) + 2 ^ 32 < 2 ^ 64"
  shows "sys_reach strict (after_probe g i)"
proof (rule sys_reach.step [OF assms(1)])
  obtain r rec pc where p: "sy_probes g ! i = (r, rec, pc)" by (metis prod_cases3)
  then show "sys_step strict g (after_probe g i)"
    using sys_step.probe [OF assms(2) p _ assms(4)] assms(3) by (auto simp: after_probe_def split: prod.split)
qed

lemma reach_drain:
  assumes "sys_reach False g" and "sy_worker g = WDrain b k" and "0 < active_writers (buffers (sy_shm g) b)"
    and "k \<le> 500"
  shows "sys_reach False (g\<lparr>sy_worker := WRead b\<rparr>)"
  using assms
proof (induction "500 - k" arbitrary: g k)
  case 0
  then show ?case using sys_reach.step [OF 0(2) sys_step.drain [OF 0(3), of "sy_shm g" "WRead b" None]] by simp
next
  case (Suc n)
  have "sys_reach False (g\<lparr>sy_worker := WDrain b (k + 1)\<rparr>)"
    using sys_reach.step [OF Suc(3) sys_step.drain [OF Suc(4), of "sy_shm g" "WDrain b (k + 1)" None]] Suc(2,5)
    by simp
  from Suc(1) [OF _ this, of "k + 1"] Suc(2,5,6) show ?case by simp
qed

lemma reach_swap:
  assumes "sys_reach strict g" and "case sy_worker g of WCheck force \<Rightarrow> True | WStore v \<Rightarrow> True | _ \<Rightarrow> False"
    and "worker_step (sy_shm g) (sy_worker g) = (s', w', c)"
  shows "sys_reach strict (g\<lparr>sy_shm := s', sy_worker := w'\<rparr>)"
  using sys_reach.step [OF assms(1) sys_step.swap [OF refl _ assms(3)]] assms(2)
  by (auto split: worker_pc.splits)

lemma reach_drain_start:
  assumes r: "sys_reach strict g" and w: "sy_worker g = WIdle" and a: "active_epoch_buffer (sy_shm g) = 0"
    and o: "0 < write_offset (buffers (sy_shm g) 0)"
  shows "sys_reach strict (g\<lparr>sy_shm := (sy_shm g)\<lparr>active_epoch_buffer := next_epoch 0\<rparr>,
    sy_worker := WDrain 0 0\<rparr>)"
proof -
  have e: "epoch_idx 0 = 0" by (simp add: epoch_idx_mod)
  have 1: "sys_reach strict (g\<lparr>sy_worker := WCheck False\<rparr>)"
    by (rule sys_reach.step [OF r], rule sys_step.flush, rule w)
  have 2: "sys_reach strict (g\<lparr>sy_worker := WStore 0\<rparr>)"
    using reach_swap [OF 1, of "sy_shm g" "WStore 0" None] o by (simp add: a e)
  show ?thesis using reach_swap [OF 2] by (simp add: e)
qed

lemma reach_emit:
  assumes "sys_reach strict g" and "sy_worker g = WRead b"
    and "worker_step (sy_shm g) (WRead b) = (s', w', Some x)"
  shows "\<exists>g'. sys_reach strict g' \<and> sy_out g' = sy_out g @
     [(x, map snd (sy_log g b), BUFFER_CAPACITY < write_offset (buffers (sy_shm g) b))]"
  using sys_reach.step [OF assms(1) sys_step.emit [OF assms(2,3)]] by (intro exI conjI) auto

text \<open>A probe that has reserved space and not yet written its record.\<close>

definition stalled :: "bytes \<Rightarrow> sys" where
  "stalled rec = (sys_init 0 0 1)
     \<lparr>sy_shm := offset_add 0 (length rec) (writers_inc 0 (ubpf_shm_init 0 0)),
      sy_probes := [(0, rec, PWriting 0 0)], sy_log := (\<lambda>_. [])(0 := [(0, rec)])\<rparr>"

lemma stalled_reach:
  assumes "rec \<noteq> []" and "length rec \<le> BUFFER_CAPACITY"
  shows "sys_reach strict (stalled rec)"
proof -
  let ?g = "(sys_init 0 0 1)\<lparr>sy_probes := [(0, rec, PLoad 0)]\<rparr>"
  have len: "length rec < 4294967296" using assms(2) by (simp add: BUFFER_CAPACITY_def)
  have "sys_step strict (sys_init 0 0 1) ?g"
    using sys_step.start [of 0 "sys_init 0 0 1" 0 rec] assms len
    by (simp add: sys_init_def MAX_LOCAL_RANKS_def)
  then have r: "sys_reach strict ?g" using sys_reach.step [OF sys_reach.init [of 1 strict 0 0]] by simp
  have e: "epoch_idx 0 = 0" by (simp add: epoch_idx_mod)
  note sel = after_probe_def sys_init_def ubpf_shm_init_def MAX_PROBE_RETRIES_def access_defs e log_add_simps
  have "sys_reach strict (after_probe (after_probe (after_probe (after_probe ?g 0) 0) 0) 0)"
    by (intro reach_probe r) (simp_all add: sel)
  moreover have "after_probe (after_probe (after_probe (after_probe ?g 0) 0) 0) 0 = stalled rec"
    using assms(2) len by (simp add: sel stalled_def)
  ultimately show ?thesis by simp
qed

lemma stalled_drain:
  assumes "rec \<noteq> []" and "length rec \<le> BUFFER_CAPACITY"
  shows "sys_reach strict ((stalled rec)\<lparr>sy_shm := (sy_shm (stalled rec))\<lparr>active_epoch_buffer := next_epoch 0\<rparr>,
    sy_worker := WDrain 0 0\<rparr>)"
proof -
  have "length rec < 18446744073709551616" using assms(2) by (simp add: BUFFER_CAPACITY_def)
  then show ?thesis using assms(1)
    by (intro reach_drain_start stalled_reach assms)
      (simp_all add: stalled_def sys_init_def ubpf_shm_init_def access_defs)
qed

text \<open>The same probe after its write and its commit, and an undisturbed flush.\<close>

lemma committed_reach:
  assumes "rec \<noteq> []" and "length rec \<le> BUFFER_CAPACITY"
  shows "sys_reach strict (after_probe (after_probe (stalled rec) 0) 0)"
proof -
  have "length rec + 4294967296 < 18446744073709551616" using assms(2) by (simp add: BUFFER_CAPACITY_def)
  then show ?thesis
    by (intro reach_probe stalled_reach assms)
      (simp_all add: after_probe_def stalled_def sys_init_def ubpf_shm_init_def access_defs log_add_simps)
qed

lemma reach_flush:
  assumes r: "sys_reach strict g" and w: "sy_worker g = WIdle" and a: "active_epoch_buffer (sy_shm g) = 0"
    and z: "active_writers (buffers (sy_shm g) 0) = 0" and o: "0 < write_offset (buffers (sy_shm g) 0)"
  shows "\<exists>g'. sys_reach strict g' \<and> sy_out g' = sy_out g @
     [(take (min (write_offset (buffers (sy_shm g) 0)) BUFFER_CAPACITY) (block_data (buffers (sy_shm g) 0)),
       map snd (sy_log g 0), BUFFER_CAPACITY < write_offset (buffers (sy_shm g) 0))]"
proof -
  let ?s = "(sy_shm g)\<lparr>active_epoch_buffer := next_epoch 0\<rparr>"
  note 3 = reach_drain_start [OF r w a o]
  have 4: "sys_reach strict (g\<lparr>sy_shm := ?s, sy_worker := WRead 0\<rparr>)"
    using sys_reach.step [OF 3 sys_step.drain [of _ 0 0 ?s "WRead 0" None]] z by simp
  show ?thesis
    using reach_emit [OF 4, of 0 ?s "WRecycle 0"] o by (simp add: Let_def BUFFER_CAPACITY_def)
qed

theorem shm_flush_complete_witness:
  "\<exists>g c recs overflow. tso_reach True True (g, None) \<and> (c, recs, overflow) \<in> set (sy_out g) \<and> recs = [[1, 2, 3]] \<and>
     length c \<le> BUFFER_CAPACITY \<and> (\<exists>junk. c = concat recs @ junk \<and> (\<not> overflow \<longrightarrow> junk = []))"
proof -
  let ?g = "after_probe (after_probe (stalled [1, 2, 3]) 0) 0"
  have "\<exists>g'. sys_reach True g' \<and> sy_out g' = sy_out ?g @
     [(take (min (write_offset (buffers (sy_shm ?g) 0)) BUFFER_CAPACITY) (block_data (buffers (sy_shm ?g) 0)),
       map snd (sy_log ?g 0), BUFFER_CAPACITY < write_offset (buffers (sy_shm ?g) 0))]"
    by (rule reach_flush, rule committed_reach)
      (simp_all add: BUFFER_CAPACITY_def after_probe_def stalled_def sys_init_def ubpf_shm_init_def access_defs
        log_add_simps)
  then obtain g' x ov where "sys_reach True g'" "(x, map snd (sy_log ?g 0), ov) \<in> set (sy_out g')"
    by (metis list.set_intros(1) set_append Un_iff)
  moreover have "map snd (sy_log ?g 0) = [[1, 2, 3]]"
    by (simp add: after_probe_def stalled_def log_add_simps)
  ultimately have "tso_reach True True (g', None)" "(x, [[1, 2, 3]], ov) \<in> set (sy_out g')"
    by (simp_all add: sys_reach_tso)
  with shm_flush_complete [OF this] show ?thesis by blast
qed

text \<open>C37: The wait is bounded, and a probe that is stopped between its reservation and its write
  outlasts it: the worker then hands on a chunk with the bytes the buffer had before, here the zeros
  of the fresh segment, in place of the record.\<close>
theorem shm_drain_timeout:
  assumes "rec \<noteq> []" and "length rec \<le> BUFFER_CAPACITY"
  shows "\<exists>g. sys_reach False g \<and> sy_out g = [(replicate (length rec) 0, [rec], False)]"
proof -
  let ?h = "(stalled rec)\<lparr>sy_shm := (sy_shm (stalled rec))\<lparr>active_epoch_buffer := next_epoch 0\<rparr>,
    sy_worker := WDrain 0 0\<rparr>"
  have len: "length rec < 18446744073709551616" using assms(2) by (simp add: BUFFER_CAPACITY_def)
  have sel: "write_offset (buffers (sy_shm ?h) 0) = length rec" "active_writers (buffers (sy_shm ?h) 0) = 1"
      "block_data (buffers (sy_shm ?h) 0) = replicate BUFFER_CAPACITY 0" "sy_out ?h = []"
      "sy_log ?h 0 = [(0, rec)]"
    using len by (simp_all add: stalled_def sys_init_def ubpf_shm_init_def access_defs)
  have r: "sys_reach False (?h\<lparr>sy_worker := WRead 0\<rparr>)"
    using reach_drain [OF stalled_drain [OF assms], of 0 0] sel(2) by simp
  have "worker_step (sy_shm (?h\<lparr>sy_worker := WRead 0\<rparr>)) (WRead 0) =
      (sy_shm ?h, WRecycle 0, Some (replicate (length rec) 0))"
    using assms sel by (simp add: min_absorb1)
  from reach_emit [OF r _ this] show ?thesis using sel assms(2) by simp
qed

theorem shm_drain_timeout_witness:
  "[1, 2] \<noteq> ([] :: bytes) \<and> length [1, 2 :: byte] \<le> BUFFER_CAPACITY \<and>
   (\<exists>g. sys_reach False g \<and> sy_out g = [([0, 0], [[1, 2]], False)])"
  using shm_drain_timeout [of "[1, 2]"] by (simp add: BUFFER_CAPACITY_def numeral_2_eq_2)

text \<open>A step of a probe, of the worker's wait and of its read, while the store is in the buffer.\<close>

lemma tso_probe:
  assumes "tso_reach strict fenced (g, pending)" and "i < length (sy_probes g)" and "snd (snd (sy_probes g ! i)) \<noteq> PIdle"
    and "\<And>b. write_offset (buffers (sy_shm g) b) + 2 ^ 32 < 2 ^ 64"
  shows "tso_reach strict fenced (after_probe g i, pending)"
proof (rule tso_reach.step [OF assms(1)], rule tso_step.visible)
  obtain r rec pc where p: "sy_probes g ! i = (r, rec, pc)" by (metis prod_cases3)
  then show "sys_step strict g (after_probe g i)"
    using sys_step.probe [OF assms(2) p _ assms(4)] assms(3) by (auto simp: after_probe_def split: prod.split)
  show "pending = None \<or> sy_worker (after_probe g i) = sy_worker g \<or>
      (\<exists>b spin. sy_worker g = WDrain b spin) \<or> (\<exists>b. sy_worker g = WRead b)"
    by (simp add: after_probe_def split: prod.split)
qed

lemma tso_worker:
  assumes "tso_reach strict fenced (g, pending)" and "sys_step strict g g'"
    and "pending = None \<or> (\<exists>b spin. sy_worker g = WDrain b spin) \<or> (\<exists>b. sy_worker g = WRead b)"
  shows "tso_reach strict fenced (g', pending)"
  by (rule tso_reach.step [OF assms(1)], rule tso_step.visible [OF assms(2)]) (use assms(3) in blast)

text \<open>The worker has found no writers while its store is in the buffer; then a probe reserves space.\<close>

lemma race_reach:
  assumes "rec \<noteq> []" and "length rec \<le> BUFFER_CAPACITY"
  shows "tso_reach strict False ((stalled rec)\<lparr>sy_worker := WRead 0\<rparr>, Some (next_epoch 0))"
proof -
  let ?i = "sys_init 0 0 1" and ?p = "Some (next_epoch 0)"
  have e: "epoch_idx 0 = 0" by (simp add: epoch_idx_mod)
  note sel = after_probe_def sys_init_def ubpf_shm_init_def MAX_PROBE_RETRIES_def access_defs e log_add_simps
  have "tso_reach strict False (?i\<lparr>sy_worker := WCheck True\<rparr>, None)"
    by (rule tso_worker [OF tso_reach.init sys_step.flush]) (simp_all add: sys_init_def)
  then have "tso_reach strict False (?i\<lparr>sy_worker := WStore 0\<rparr>, None)"
    by (rule tso_worker) (use sys_step.swap [of "?i\<lparr>sy_worker := WCheck True\<rparr>" "WCheck True" "sy_shm ?i" "WStore 0" None strict]
      in \<open>auto simp: sys_init_def ubpf_shm_init_def\<close>)
  then have "tso_reach strict False (?i\<lparr>sy_worker := WDrain 0 0\<rparr>, ?p)"
    using tso_reach.step [OF _ tso_step.buffered [of False "?i\<lparr>sy_worker := WStore 0\<rparr>" 0]] by (simp add: e)
  then have "tso_reach strict False (?i\<lparr>sy_worker := WRead 0\<rparr>, ?p)"
    by (rule tso_worker) (use sys_step.drain [of "?i\<lparr>sy_worker := WDrain 0 0\<rparr>" 0 0 "sy_shm ?i" "WRead 0" None strict]
      in \<open>simp_all add: sys_init_def ubpf_shm_init_def\<close>)
  moreover let ?g = "?i\<lparr>sy_worker := WRead 0, sy_probes := [(0, rec, PLoad 0)]\<rparr>"
  have len: "length rec < 4294967296" using assms(2) by (simp add: BUFFER_CAPACITY_def)
  have "sys_step strict (?i\<lparr>sy_worker := WRead 0\<rparr>) ?g"
    using sys_step.start [of 0 "?i\<lparr>sy_worker := WRead 0\<rparr>" 0 rec] assms len
    by (simp add: sys_init_def MAX_LOCAL_RANKS_def)
  ultimately have r: "tso_reach strict False (?g, ?p)" by (rule tso_worker) simp
  have "tso_reach strict False (after_probe (after_probe (after_probe (after_probe ?g 0) 0) 0) 0, ?p)"
    by (intro tso_probe r) (simp_all add: sel)
  moreover have "after_probe (after_probe (after_probe (after_probe ?g 0) 0) 0) 0 = (stalled rec)\<lparr>sy_worker := WRead 0\<rparr>"
    using assms(2) len by (simp add: sel stalled_def)
  ultimately show ?thesis by simp
qed

text \<open>The release store of the new epoch and the acquire load of the number of writers may take
  effect in the other order: the worker finds no writers, a probe that still sees the old epoch then
  registers, verifies the epoch and reserves space, and the worker, whose wait did not time out,
  hands on a chunk with the bytes the buffer had before, here the zeros of the fresh segment, in
  place of the record.\<close>
theorem shm_store_race:
  assumes "rec \<noteq> []" and "length rec \<le> BUFFER_CAPACITY"
  shows "\<exists>g pending. tso_reach True False (g, pending) \<and> sy_out g = [(replicate (length rec) 0, [rec], False)]"
proof -
  let ?h = "(stalled rec)\<lparr>sy_worker := WRead 0\<rparr>"
  have len: "length rec < 18446744073709551616" using assms(2) by (simp add: BUFFER_CAPACITY_def)
  have sel: "write_offset (buffers (sy_shm ?h) 0) = length rec"
      "block_data (buffers (sy_shm ?h) 0) = replicate BUFFER_CAPACITY 0" "sy_out ?h = []"
      "sy_log ?h 0 = [(0, rec)]"
    using len by (simp_all add: stalled_def sys_init_def ubpf_shm_init_def access_defs)
  have st: "worker_step (sy_shm ?h) (WRead 0) = (sy_shm ?h, WRecycle 0, Some (replicate (length rec) 0))"
    using assms sel by (simp add: min_absorb1)
  have "sy_worker ?h = WRead 0" by simp
  note emit = sys_step.emit [OF this st, of True]
  show ?thesis
    using tso_worker [OF race_reach [OF assms] emit] sel assms(2) by (intro exI conjI) auto
qed

theorem shm_store_race_witness:
  "[1, 2] \<noteq> ([] :: bytes) \<and> length [1, 2 :: byte] \<le> BUFFER_CAPACITY \<and>
   (\<exists>g pending. tso_reach True False (g, pending) \<and> sy_out g = [([0, 0], [[1, 2]], False)])"
  using shm_store_race [of "[1, 2]"] by (simp add: BUFFER_CAPACITY_def numeral_2_eq_2)

text \<open>C29: A reservation is wait-free: whatever the other probes and the worker do to the segment
  before each of its steps, a call of \<open>log_event\<close> is done after at most eleven accesses.\<close>
theorem probe_wait_free: "snd (probe_run env 11 r rec (s, PLoad 0)) = PIdle"
  by (rule probe_run_bound) (simp add: MAX_PROBE_RETRIES_def)

end
