(* ===== verification/Event_Record.thy ===== *)
theory Event_Record
  imports Prelude
begin

text \<open>
  The binary event record of \<open>ubpf_shm_buffer.hpp\<close>, as \<open>ubpf_agent_manager::log_event\<close> lays it out
  in the shared buffer, the decoding of its header, and the decimal printing that the readers of
  records use.
\<close>

section \<open>Fields of a byte sequence\<close>

definition get_le :: "bytes \<Rightarrow> nat \<Rightarrow> nat \<Rightarrow> nat" where
  "get_le bs off n = le_nat (take n (drop off bs))"

definition str_bytes :: "string \<Rightarrow> bytes" where
  "str_bytes s = map of_char s"

text \<open>\<open>std::to_string\<close> of an unsigned integer.\<close>

fun dec_bytes :: "nat \<Rightarrow> bytes" where
  "dec_bytes n = (if n < 10 then [of_nat (48 + n)] else dec_bytes (n div 10) @ [of_nat (48 + n mod 10)])"

declare dec_bytes.simps [simp del]

section \<open>The record header\<close>

record ubpf_event_record_header =
  rh_record_len :: nat
  rh_rank :: nat
  rh_event_type :: nat
  rh_timestamp_ns :: nat
  rh_payload_len :: nat
  rh_reserved :: nat

definition SIZEOF_RECORD_HEADER :: nat where "SIZEOF_RECORD_HEADER = 24"

definition encode_record_header :: "ubpf_event_record_header \<Rightarrow> bytes" where
  "encode_record_header h = le_bytes 4 (rh_record_len h) @ le_bytes 2 (rh_rank h) @
     le_bytes 2 (rh_event_type h) @ le_bytes 8 (rh_timestamp_ns h) @ le_bytes 4 (rh_payload_len h) @
     le_bytes 4 (rh_reserved h)"

definition decode_record_header :: "bytes \<Rightarrow> ubpf_event_record_header" where
  "decode_record_header bs =
     \<lparr>rh_record_len = get_le bs 0 4, rh_rank = get_le bs 4 2, rh_event_type = get_le bs 6 2,
      rh_timestamp_ns = get_le bs 8 8, rh_payload_len = get_le bs 16 4, rh_reserved = get_le bs 20 4\<rparr>"

section \<open>A logged record\<close>

text \<open>
  What \<open>log_event\<close> puts into the reserved space: the header with the rank cut to 16 bits, then the
  payload. \<open>record_len\<close> is the 32-bit sum of the header's size and the payload's.
\<close>

definition event_record_len :: "nat \<Rightarrow> nat" where
  "event_record_len plen = u32 (SIZEOF_RECORD_HEADER + plen)"

definition event_header :: "nat \<Rightarrow> nat \<Rightarrow> nat \<Rightarrow> nat \<Rightarrow> ubpf_event_record_header" where
  "event_header rank ty now plen =
     \<lparr>rh_record_len = event_record_len plen, rh_rank = rank mod 2 ^ 16, rh_event_type = ty,
      rh_timestamp_ns = now, rh_payload_len = plen, rh_reserved = 0\<rparr>"

definition event_record :: "nat \<Rightarrow> nat \<Rightarrow> nat \<Rightarrow> bytes \<Rightarrow> bytes" where
  "event_record rank ty now payload = encode_record_header (event_header rank ty now (length payload)) @ payload"

section \<open>Decoding what was encoded\<close>

lemma length_encode_record_header [simp]: "length (encode_record_header h) = 24"
  by (simp add: encode_record_header_def)

definition header_fits :: "ubpf_event_record_header \<Rightarrow> bool" where
  "header_fits h = (rh_record_len h < 2 ^ 32 \<and> rh_rank h < 2 ^ 16 \<and> rh_event_type h < 2 ^ 16 \<and>
     rh_timestamp_ns h < 2 ^ 64 \<and> rh_payload_len h < 2 ^ 32 \<and> rh_reserved h < 2 ^ 32)"

lemma get_le_append1: "length xs = off \<Longrightarrow> get_le (xs @ ys) off n = get_le ys 0 n"
  by (simp add: get_le_def)

lemma get_le_here: "x < 256 ^ n \<Longrightarrow> get_le (le_bytes n x @ ys) 0 n = x"
  by (simp add: get_le_def le_nat_le_bytes)

lemma get_le_skip: "k \<le> off \<Longrightarrow> get_le (le_bytes k x @ ys) off n = get_le ys (off - k) n"
  by (simp add: get_le_def)

lemma decode_encode_header:
  assumes "header_fits h"
  shows "decode_record_header (encode_record_header h @ rest) = h"
  using assms
  by (simp add: header_fits_def decode_record_header_def encode_record_header_def get_le_skip get_le_here)

lemma event_header_fits:
  "ty < 2 ^ 16 \<Longrightarrow> now < 2 ^ 64 \<Longrightarrow> plen < 2 ^ 32 \<Longrightarrow> header_fits (event_header rank ty now plen)"
  by (simp add: header_fits_def event_header_def event_record_len_def)

lemma length_event_record [simp]: "length (event_record rank ty now payload) = 24 + length payload"
  by (simp add: event_record_def)

end
