(* ===== verification/Crc32.thy ===== *)
theory Crc32
  imports Prelude
begin

text \<open>
  The checksum \<open>compute_crc32\<close>, which \<open>ubpf_container_writer.cpp\<close> stores with each chunk and
  \<open>ubpftrace_cat.cpp\<close> recomputes. Both files have the same function. Two blocks of the same length
  that differ in one byte never have the same checksum.
\<close>

unbundle bit_operations_syntax

section \<open>The bitwise loop\<close>

definition crc_bit :: "32 word \<Rightarrow> 32 word" where
  "crc_bit crc = drop_bit 1 crc XOR (0xEDB88320 AND - (crc AND 1))"

primrec crc_bits :: "nat \<Rightarrow> 32 word \<Rightarrow> 32 word" where
  "crc_bits 0 crc = crc"
| "crc_bits (Suc j) crc = crc_bits j (crc_bit crc)"

definition crc_byte :: "32 word \<Rightarrow> byte \<Rightarrow> 32 word" where
  "crc_byte crc b = crc_bits 8 (crc XOR ucast b)"

definition compute_crc32 :: "bytes \<Rightarrow> 32 word" where
  "compute_crc32 data = NOT (foldl crc_byte 0xFFFFFFFF data)"

section \<open>Injectivity\<close>

lemma crc_bit_cases: "crc_bit crc = (if bit crc 0 then drop_bit 1 crc XOR 0xEDB88320 else drop_bit 1 crc)"
proof (cases "bit crc 0")
  case True
  then have "crc AND 1 = 1" by (simp only: and_one_eq bit_0 odd_iff_mod_2_eq_one)
  then show ?thesis using True by (simp only: crc_bit_def bit.conj_one_right if_True)
next
  case False
  then have "crc AND 1 = 0" by (simp only: and_one_eq bit_0 even_iff_mod_2_eq_zero not_not)
  then show ?thesis using False
    by (simp only: crc_bit_def minus_zero bit.conj_zero_right xor.right_neutral if_False)
qed

lemma crc_bit_top: "bit (crc_bit crc) 31 = bit crc 0"
proof -
  have top: "bit (0xEDB88320 :: 32 word) 31" by (simp add: bit_numeral_rec)
  have "\<not> bit (drop_bit 1 crc) 31" using bit_imp_le_length [of crc 32] by (auto simp: bit_drop_bit_eq)
  then show ?thesis by (cases "bit crc 0") (simp_all only: crc_bit_cases bit_xor_iff top if_True if_False simp_thms)
qed

lemma xor_cancel: "x XOR z = y XOR z \<longleftrightarrow> x = (y :: 32 word)"
  by (metis xor.assoc xor_self_eq xor.right_neutral)

lemma xor_cancel_left: "z XOR x = z XOR y \<longleftrightarrow> x = (y :: 32 word)"
  by (metis xor_cancel xor.commute)

lemma crc_bit_inj: "inj crc_bit"
proof (rule injI)
  fix x y assume eq: "crc_bit x = crc_bit y"
  then have b: "bit x 0 = bit y 0" by (metis crc_bit_top)
  have d: "drop_bit 1 x = drop_bit 1 y"
    using eq b by (auto simp: crc_bit_cases xor_cancel split: if_splits)
  show "x = y"
  proof (rule bit_eqI)
    fix n
    show "bit x n = bit y n"
    proof (cases n)
      case (Suc m)
      then show ?thesis using arg_cong [OF d, of "\<lambda>w. bit w m"] by (simp add: bit_drop_bit_eq)
    qed (simp add: b)
  qed
qed

lemma crc_bits_inj: "crc_bits j x = crc_bits j y \<longleftrightarrow> x = y"
  by (induction j arbitrary: x y) (auto dest: injD [OF crc_bit_inj])

lemma crc_byte_crc: "crc_byte x b = crc_byte y b \<longleftrightarrow> x = y"
  by (simp add: crc_byte_def crc_bits_inj xor_cancel)

lemma crc_byte_byte: "crc_byte x b = crc_byte x c \<longleftrightarrow> b = c"
proof -
  have "unat (ucast v :: 32 word) = unat v" for v :: byte
    using unsigned_less [of v, where ?'a = nat] by (simp add: unsigned_ucast_eq take_bit_nat_eq_self_iff)
  then have "ucast b = (ucast c :: 32 word) \<longleftrightarrow> b = c" by (metis word_unat_eq_iff)
  then show ?thesis by (simp add: crc_byte_def crc_bits_inj xor_cancel_left)
qed

lemma crc_foldl: "foldl crc_byte x bs = foldl crc_byte y bs \<longleftrightarrow> x = y"
  by (induction bs arbitrary: x y) (simp_all add: crc_byte_crc)

text \<open>C33: The checksum of a chunk detects every change of a single byte: the blocks
  \<open>xs b ys\<close> and \<open>xs c ys\<close> have the same checksum only when \<open>b = c\<close>.\<close>
theorem crc32_detects_byte:
  "compute_crc32 (xs @ b # ys) = compute_crc32 (xs @ c # ys) \<longleftrightarrow> b = c"
  by (simp only: compute_crc32_def bit.compl_eq_compl_iff foldl_append foldl_Cons crc_foldl crc_byte_byte)

end
