(* ===== verification/Container_Writer.thy ===== *)
theory Container_Writer
  imports Event_Record Crc32
begin

text \<open>
  The trace container of \<open>ubpf_container_writer.cpp\<close>: a file header, compressed chunks with their
  checksums, an index table and a trailer. The LZ4 compressor is the parameter \<open>lz4\<close> (the block, or
  \<open>None\<close> when it fails) and the \<open>write\<close> system call the parameter \<open>wr\<close>, which says from the state of
  the disk and the number of bytes how many of them were written.
\<close>

section \<open>The format\<close>

definition UBPF_FILE_MAGIC :: nat where "UBPF_FILE_MAGIC = 0x55425046"
definition UBPF_FILE_VERSION :: nat where "UBPF_FILE_VERSION = 0x00010000"
definition UBPF_CHUNK_MAGIC :: nat where "UBPF_CHUNK_MAGIC = 0x43484E4B"
definition UBPF_TRAILER_MAGIC :: nat where "UBPF_TRAILER_MAGIC = 0x5542504654524C52"
definition CHUNK_TYPE_EVENT_STREAM :: nat where "CHUNK_TYPE_EVENT_STREAM = 1"
definition CODEC_LZ4 :: nat where "CODEC_LZ4 = 1"
definition LUSTRE_STRIPE_BLOCK_SIZE :: nat where "LUSTRE_STRIPE_BLOCK_SIZE = 2 * 1024 * 1024"

lemmas container_consts = UBPF_FILE_MAGIC_def UBPF_FILE_VERSION_def UBPF_CHUNK_MAGIC_def
  UBPF_TRAILER_MAGIC_def CHUNK_TYPE_EVENT_STREAM_def CODEC_LZ4_def LUSTRE_STRIPE_BLOCK_SIZE_def

record ubpf_file_header =
  fh_magic :: nat
  fh_version :: nat
  fh_job_id :: nat
  fh_node_id :: nat
  fh_hostname :: bytes
  fh_codec_id :: nat
  fh_timestamp_base_ns :: nat
  fh_wallclock_base_ns :: nat

definition encode_file_header :: "ubpf_file_header \<Rightarrow> bytes" where
  "encode_file_header h = le_bytes 4 (fh_magic h) @ le_bytes 4 (fh_version h) @ le_bytes 4 (fh_job_id h) @
     le_bytes 4 (fh_node_id h) @ fh_hostname h @ le_bytes 2 (fh_codec_id h) @ le_bytes 2 0 @ le_bytes 4 0 @
     le_bytes 8 (fh_timestamp_base_ns h) @ le_bytes 8 (fh_wallclock_base_ns h) @ replicate 24 0"

text \<open>\<open>strncpy\<close> of at most 63 bytes into the zeroed field of 64.\<close>

definition hostname_field :: "bytes option \<Rightarrow> bytes" where
  "hostname_field hostname = (case hostname of None \<Rightarrow> replicate 64 0
     | Some s \<Rightarrow> let c = take 63 (takeWhile (\<lambda>b. b \<noteq> 0) s) in c @ replicate (64 - length c) 0)"

record ubpf_chunk_header =
  chunk_magic :: nat
  chunk_type :: nat
  chunk_codec_id :: nat
  uncompressed_size :: nat
  compressed_size :: nat
  chunk_start_ns :: nat
  chunk_end_ns :: nat
  chunk_record_count :: nat
  dropped_events_count :: nat
  chunk_crc32 :: nat

definition encode_chunk_header :: "ubpf_chunk_header \<Rightarrow> bytes" where
  "encode_chunk_header h = le_bytes 4 (chunk_magic h) @ le_bytes 2 (chunk_type h) @
     le_bytes 2 (chunk_codec_id h) @ le_bytes 4 (uncompressed_size h) @ le_bytes 4 (compressed_size h) @
     le_bytes 8 (chunk_start_ns h) @ le_bytes 8 (chunk_end_ns h) @ le_bytes 4 (chunk_record_count h) @
     le_bytes 4 (dropped_events_count h) @ le_bytes 4 (chunk_crc32 h) @ replicate 20 0"

record ubpf_chunk_index_entry =
  ie_file_offset :: nat
  ie_compressed_size :: nat
  ie_chunk_type :: nat
  ie_codec_id :: nat
  ie_start_ns :: nat
  ie_end_ns :: nat
  ie_record_count :: nat
  ie_dropped_count :: nat

definition encode_index_entry :: "ubpf_chunk_index_entry \<Rightarrow> bytes" where
  "encode_index_entry e = le_bytes 8 (ie_file_offset e) @ le_bytes 4 (ie_compressed_size e) @
     le_bytes 2 (ie_chunk_type e) @ le_bytes 2 (ie_codec_id e) @ le_bytes 8 (ie_start_ns e) @
     le_bytes 8 (ie_end_ns e) @ le_bytes 4 (ie_record_count e) @ le_bytes 4 (ie_dropped_count e)"

text \<open>The trailer, with four bytes of padding after the first field.\<close>

record ubpf_file_trailer =
  total_chunks :: nat
  tr_total_records :: nat
  tr_total_dropped :: nat
  index_table_offset :: nat
  trailer_magic :: nat

definition encode_trailer :: "ubpf_file_trailer \<Rightarrow> bytes" where
  "encode_trailer t = le_bytes 4 (total_chunks t) @ le_bytes 4 0 @ le_bytes 8 (tr_total_records t) @
     le_bytes 8 (tr_total_dropped t) @ le_bytes 8 (index_table_offset t) @ le_bytes 8 (trailer_magic t)"

section \<open>The writer\<close>

text \<open>\<open>cw_file\<close> is what the file holds and \<open>cw_disk\<close> the state of the device.\<close>

record 'd ubpf_container_writer =
  cw_fd :: bool
  cw_filepath :: string
  cw_offset :: nat
  cw_total_records :: nat
  cw_total_dropped :: nat
  cw_index_table :: "ubpf_chunk_index_entry list"
  cw_staging_buffer :: bytes
  cw_file :: bytes
  cw_disk :: 'd

type_synonym 'd write_call = "'d \<Rightarrow> nat \<Rightarrow> int \<times> 'd"

definition sys_write :: "'d write_call \<Rightarrow> bytes \<Rightarrow> 'd ubpf_container_writer \<Rightarrow> int \<times> 'd ubpf_container_writer" where
  "sys_write wr bs w = (let (n, d) = wr (cw_disk w) (length bs) in
     (n, w\<lparr>cw_disk := d, cw_file := cw_file w @ take (nat n) bs\<rparr>))"

definition cw_open :: "'d write_call \<Rightarrow> bool \<Rightarrow> nat \<Rightarrow> nat \<Rightarrow> string \<Rightarrow> nat \<Rightarrow> nat \<Rightarrow> bytes option \<Rightarrow>
    'd ubpf_container_writer \<Rightarrow> bool \<times> 'd ubpf_container_writer" where
  "cw_open wr open_ok mono_ns wall_ns filepath job_id node_id hostname w =
     (if cw_fd w then (True, w)
      else if \<not> open_ok then (False, w\<lparr>cw_filepath := filepath\<rparr>)
      else
        let fhdr = \<lparr>fh_magic = UBPF_FILE_MAGIC, fh_version = UBPF_FILE_VERSION, fh_job_id = job_id,
              fh_node_id = node_id, fh_hostname = hostname_field hostname, fh_codec_id = CODEC_LZ4,
              fh_timestamp_base_ns = mono_ns, fh_wallclock_base_ns = wall_ns\<rparr>;
            bs = encode_file_header fhdr;
            (n, w) = sys_write wr bs (w\<lparr>cw_filepath := filepath, cw_fd := True, cw_file := []\<rparr>)
        in if n \<noteq> int (length bs) then (False, w\<lparr>cw_fd := False\<rparr>)
           else (True, w\<lparr>cw_offset := length bs, cw_total_records := 0, cw_total_dropped := 0,
                   cw_index_table := [], cw_staging_buffer := []\<rparr>))"

primrec flush_loop :: "'d write_call \<Rightarrow> nat \<Rightarrow> bytes \<Rightarrow> 'd ubpf_container_writer \<Rightarrow> 'd ubpf_container_writer" where
  "flush_loop wr 0 p w = w"
| "flush_loop wr (Suc fuel) p w =
     (if p = [] then w
      else let (n, w) = sys_write wr p w in
        if n \<le> 0 then w
        else flush_loop wr fuel (drop (nat n) p)
               (w\<lparr>cw_offset := u64 (cw_offset w + nat n)\<rparr>))"

definition flush_staging_buffer_locked :: "'d write_call \<Rightarrow> 'd ubpf_container_writer \<Rightarrow> 'd ubpf_container_writer" where
  "flush_staging_buffer_locked wr w =
     (if \<not> cw_fd w \<or> cw_staging_buffer w = [] then w
      else (flush_loop wr (length (cw_staging_buffer w)) (cw_staging_buffer w) w)\<lparr>cw_staging_buffer := []\<rparr>)"

definition cw_flush :: "'d write_call \<Rightarrow> 'd ubpf_container_writer \<Rightarrow> 'd ubpf_container_writer" where
  "cw_flush = flush_staging_buffer_locked"

text \<open>The arguments of \<open>write_chunk\<close>.\<close>

record chunk_args =
  ca_type :: nat
  ca_data :: bytes
  ca_record_count :: nat
  ca_dropped_count :: nat
  ca_start_ns :: nat
  ca_end_ns :: nat

definition chunk_header_of :: "chunk_args \<Rightarrow> bytes \<Rightarrow> ubpf_chunk_header" where
  "chunk_header_of a blk =
     \<lparr>chunk_magic = UBPF_CHUNK_MAGIC, chunk_type = ca_type a, chunk_codec_id = CODEC_LZ4,
      uncompressed_size = length (ca_data a), compressed_size = length blk,
      chunk_start_ns = ca_start_ns a, chunk_end_ns = ca_end_ns a,
      chunk_record_count = ca_record_count a, dropped_events_count = ca_dropped_count a,
      chunk_crc32 = unat (compute_crc32 blk)\<rparr>"

definition index_entry_of :: "nat \<Rightarrow> chunk_args \<Rightarrow> bytes \<Rightarrow> ubpf_chunk_index_entry" where
  "index_entry_of pos a blk =
     \<lparr>ie_file_offset = pos, ie_compressed_size = length blk, ie_chunk_type = ca_type a,
      ie_codec_id = CODEC_LZ4, ie_start_ns = ca_start_ns a, ie_end_ns = ca_end_ns a,
      ie_record_count = ca_record_count a, ie_dropped_count = ca_dropped_count a\<rparr>"

definition write_chunk :: "(bytes \<Rightarrow> bytes option) \<Rightarrow> 'd write_call \<Rightarrow> chunk_args \<Rightarrow>
    'd ubpf_container_writer \<Rightarrow> bool \<times> 'd ubpf_container_writer" where
  "write_chunk lz4 wr a w =
     (if ca_data a = [] \<or> \<not> cw_fd w then (False, w)
      else case lz4 (ca_data a) of None \<Rightarrow> (False, w)
      | Some blk \<Rightarrow>
        let pos = u64 (cw_offset w + length (cw_staging_buffer w));
            w = w\<lparr>cw_index_table := cw_index_table w @ [index_entry_of pos a blk],
                  cw_total_records := u64 (cw_total_records w + ca_record_count a),
                  cw_total_dropped := u64 (cw_total_dropped w + ca_dropped_count a),
                  cw_staging_buffer := cw_staging_buffer w @ encode_chunk_header (chunk_header_of a blk) @ blk\<rparr>
        in (True, if LUSTRE_STRIPE_BLOCK_SIZE \<le> length (cw_staging_buffer w)
                  then flush_staging_buffer_locked wr w else w))"

definition cw_close :: "'d write_call \<Rightarrow> 'd ubpf_container_writer \<Rightarrow> 'd ubpf_container_writer" where
  "cw_close wr w =
     (if \<not> cw_fd w then w
      else
        let w = flush_staging_buffer_locked wr w;
            index_off = cw_offset w;
            w = (if cw_index_table w = [] then w
                 else let (n, w) = sys_write wr (concat (map encode_index_entry (cw_index_table w))) w in
                   if 0 < n then w\<lparr>cw_offset := u64 (cw_offset w + nat n)\<rparr> else w);
            trailer = \<lparr>total_chunks = u32 (length (cw_index_table w)), tr_total_records = cw_total_records w,
              tr_total_dropped = cw_total_dropped w, index_table_offset = index_off,
              trailer_magic = UBPF_TRAILER_MAGIC\<rparr>;
            (n, w) = sys_write wr (encode_trailer trailer) w
        in w\<lparr>cw_fd := False\<rparr>)"

text \<open>A fresh writer.\<close>

definition cw_new :: "'d \<Rightarrow> 'd ubpf_container_writer" where
  "cw_new d = \<lparr>cw_fd = False, cw_filepath = '''', cw_offset = 0, cw_total_records = 0,
     cw_total_dropped = 0, cw_index_table = [], cw_staging_buffer = [], cw_file = [], cw_disk = d\<rparr>"

section \<open>A session of the writer\<close>

datatype cw_op = WriteChunk chunk_args | FlushChunks

primrec cw_exec :: "(bytes \<Rightarrow> bytes option) \<Rightarrow> 'd write_call \<Rightarrow> cw_op \<Rightarrow> 'd ubpf_container_writer \<Rightarrow>
    'd ubpf_container_writer" where
  "cw_exec lz4 wr (WriteChunk a) w = snd (write_chunk lz4 wr a w)"
| "cw_exec lz4 wr FlushChunks w = cw_flush wr w"

definition cw_session :: "(bytes \<Rightarrow> bytes option) \<Rightarrow> 'd write_call \<Rightarrow> cw_op list \<Rightarrow> 'd ubpf_container_writer \<Rightarrow>
    'd ubpf_container_writer" where
  "cw_session lz4 wr ops w = foldl (\<lambda>w p. cw_exec lz4 wr p w) w ops"

text \<open>
  Two conditions on a run, which \<open>write\<close> does not promise and without which the code loses data.
  The first: no call of \<open>write\<close> fails, each writes at least one byte and at most what it was
  given (a full device makes it fail, and then \<open>container_lost_chunk\<close> holds). The second: the
  call that writes the 40 bytes of the trailer, which \<open>close\<close> does not repeat, is not short.
\<close>

definition no_write_fails :: "'d write_call \<Rightarrow> bool" where
  "no_write_fails wr = (\<forall>d n. 0 < n \<longrightarrow> 0 < fst (wr d n) \<and> fst (wr d n) \<le> int n)"

definition trailer_write_whole :: "'d write_call \<Rightarrow> bool" where
  "trailer_write_whole wr = (\<forall>d. fst (wr d 40) = 40)"

text \<open>The chunks a session accepts, with their compressed blocks, and their bytes.\<close>

fun accepted :: "(bytes \<Rightarrow> bytes option) \<Rightarrow> cw_op list \<Rightarrow> (chunk_args \<times> bytes) list" where
  "accepted lz4 [] = []"
| "accepted lz4 (FlushChunks # ops) = accepted lz4 ops"
| "accepted lz4 (WriteChunk a # ops) =
     (if ca_data a = [] then accepted lz4 ops
      else case lz4 (ca_data a) of None \<Rightarrow> accepted lz4 ops | Some c \<Rightarrow> (a, c) # accepted lz4 ops)"

definition chunk_bytes :: "chunk_args \<times> bytes \<Rightarrow> bytes" where
  "chunk_bytes x = encode_chunk_header (chunk_header_of (fst x) (snd x)) @ snd x"

definition chunks_bytes :: "(chunk_args \<times> bytes) list \<Rightarrow> bytes" where
  "chunks_bytes cs = concat (map chunk_bytes cs)"

fun index_of :: "nat \<Rightarrow> (chunk_args \<times> bytes) list \<Rightarrow> ubpf_chunk_index_entry list" where
  "index_of pos [] = []"
| "index_of pos ((a, c) # cs) = index_entry_of (u64 pos) a c # index_of (pos + 64 + length c) cs"

section \<open>What the operations keep\<close>

lemma length_encodings [simp]:
  "length (encode_chunk_header h) = 64" "length (encode_index_entry e) = 40" "length (encode_trailer t) = 40"
  by (simp_all add: encode_chunk_header_def encode_index_entry_def encode_trailer_def)

lemma length_hostname_field [simp]: "length (hostname_field h) = 64"
  by (cases h) (auto simp: hostname_field_def Let_def)

lemma length_encode_file_header: "length (fh_hostname h) = 64 \<Longrightarrow> length (encode_file_header h) = 128"
  by (simp add: encode_file_header_def)

lemma chunks_bytes_simps [simp]:
  "chunks_bytes [] = []" "chunks_bytes (x # cs) = chunk_bytes x @ chunks_bytes cs"
  "chunks_bytes (cs @ cs') = chunks_bytes cs @ chunks_bytes cs'"
  by (simp_all add: chunks_bytes_def)

lemma length_chunk_bytes [simp]: "length (chunk_bytes x) = 64 + length (snd x)"
  by (simp add: chunk_bytes_def)

lemma index_of_append: "index_of pos (cs @ cs') = index_of pos cs @ index_of (pos + length (chunks_bytes cs)) cs'"
  by (induction pos cs rule: index_of.induct) (simp_all add: add.assoc)

lemma accepted_append: "accepted lz4 (ops @ ops') = accepted lz4 ops @ accepted lz4 ops'"
  by (induction lz4 ops rule: accepted.induct) (simp_all split: option.split)

lemma u64_add: "u64 (u64 a + b) = u64 (a + b)"
  by (simp add: u64_def mod_simps)

lemma flush_loop_all:
  assumes "no_write_fails wr" and "length p \<le> fuel"
  shows "\<exists>d. flush_loop wr fuel p w = w\<lparr>cw_disk := d, cw_file := cw_file w @ p,
    cw_offset := (if p = [] then cw_offset w else u64 (cw_offset w + length p))\<rparr>"
  using assms(2)
proof (induction fuel arbitrary: p w)
  case 0
  then show ?case by (intro exI [of _ "cw_disk w"]) simp
next
  case (Suc fuel)
  show ?case
  proof (cases "p = []")
    case True
    then show ?thesis by (intro exI [of _ "cw_disk w"]) simp
  next
    case False
    obtain n d where nd: "wr (cw_disk w) (length p) = (n, d)" by fastforce
    have n: "0 < n" "nat n \<le> length p"
      using assms(1) False nd unfolding no_write_fails_def by (metis fst_conv length_greater_0_conv nat_le_iff)+
    let ?w = "w\<lparr>cw_disk := d, cw_file := cw_file w @ take (nat n) p, cw_offset := u64 (cw_offset w + nat n)\<rparr>"
    have "length (drop (nat n) p) \<le> fuel" using n Suc.prems False by simp
    from Suc.IH [OF this, of ?w] obtain d' where
      "flush_loop wr fuel (drop (nat n) p) ?w = ?w\<lparr>cw_disk := d', cw_file := cw_file ?w @ drop (nat n) p,
        cw_offset := (if drop (nat n) p = [] then cw_offset ?w else u64 (cw_offset ?w + length (drop (nat n) p)))\<rparr>"
      by blast
    moreover have "u64 (u64 (cw_offset w + nat n) + (length p - nat n)) = u64 (cw_offset w + length p)"
      using n by (simp only: u64_add) simp
    ultimately show ?thesis using n False nd by (intro exI [of _ d']) (auto simp: sys_write_def)
  qed
qed

lemma flush_staging:
  assumes "no_write_fails wr" and "cw_fd w"
  shows "\<exists>d. flush_staging_buffer_locked wr w = w\<lparr>cw_disk := d, cw_file := cw_file w @ cw_staging_buffer w,
    cw_offset := (if cw_staging_buffer w = [] then cw_offset w else u64 (cw_offset w + length (cw_staging_buffer w))),
    cw_staging_buffer := []\<rparr>"
proof (cases "cw_staging_buffer w = []")
  case True
  then show ?thesis using assms(2)
    by (intro exI [of _ "cw_disk w"]) (simp add: flush_staging_buffer_locked_def)
next
  case False
  then show ?thesis
    using flush_loop_all [OF assms(1) order_refl, of "cw_staging_buffer w" w] assms(2)
    by (auto simp: flush_staging_buffer_locked_def)
qed

text \<open>
  The state of an open writer after the chunks \<open>cs\<close>: the file and the staging buffer hold the header
  and the chunks, the offset is the length of the file and the index has the chunks' positions.
\<close>

definition cw_inv :: "bytes \<Rightarrow> (chunk_args \<times> bytes) list \<Rightarrow> 'd ubpf_container_writer \<Rightarrow> bool" where
  "cw_inv hdr cs w = (cw_fd w \<and> cw_file w @ cw_staging_buffer w = hdr @ chunks_bytes cs \<and>
     cw_offset w = u64 (length (cw_file w)) \<and> cw_index_table w = index_of (length hdr) cs \<and>
     cw_total_records w = u64 (\<Sum>x\<leftarrow>cs. ca_record_count (fst x)) \<and>
     cw_total_dropped w = u64 (\<Sum>x\<leftarrow>cs. ca_dropped_count (fst x)))"

lemma cw_inv_length:
  "cw_inv hdr cs w \<Longrightarrow>
     length (cw_file w) + length (cw_staging_buffer w) = length hdr + length (chunks_bytes cs)"
  unfolding cw_inv_def by (metis length_append)

lemma cw_inv_flush:
  assumes "no_write_fails wr" and "cw_inv hdr cs w"
  shows "cw_inv hdr cs (flush_staging_buffer_locked wr w) \<and>
    cw_staging_buffer (flush_staging_buffer_locked wr w) = []"
  using flush_staging [OF assms(1), of w] assms(2) cw_inv_length [OF assms(2)] by (auto simp: cw_inv_def u64_add)

lemma cw_inv_write:
  assumes wr: "no_write_fails wr" and inv: "cw_inv hdr cs w"
  shows "cw_inv hdr (cs @ accepted lz4 [WriteChunk a]) (snd (write_chunk lz4 wr a w))"
proof (cases "ca_data a = [] \<or> lz4 (ca_data a) = None")
  case True
  then show ?thesis using inv by (auto simp: write_chunk_def split: option.split)
next
  case False
  then obtain c where c: "lz4 (ca_data a) = Some c" by blast
  let ?w = "w\<lparr>cw_index_table := cw_index_table w @
        [index_entry_of (u64 (cw_offset w + length (cw_staging_buffer w))) a c],
      cw_total_records := u64 (cw_total_records w + ca_record_count a),
      cw_total_dropped := u64 (cw_total_dropped w + ca_dropped_count a),
      cw_staging_buffer := cw_staging_buffer w @ encode_chunk_header (chunk_header_of a c) @ c\<rparr>"
  have "cw_inv hdr (cs @ [(a, c)]) ?w"
    using inv cw_inv_length [OF inv] append_assoc [of "cw_file w" "cw_staging_buffer w"]
    by (simp add: cw_inv_def index_of_append u64_add chunk_bytes_def flip: append_assoc)
  moreover have "cw_inv hdr (cs @ [(a, c)]) (flush_staging_buffer_locked wr ?w)"
    using cw_inv_flush [OF wr] calculation by blast
  moreover have "cw_fd w" using inv by (simp add: cw_inv_def)
  ultimately show ?thesis using False c
    by (cases "LUSTRE_STRIPE_BLOCK_SIZE \<le> length (cw_staging_buffer ?w)") (simp_all add: write_chunk_def Let_def)
qed

lemma cw_session_inv:
  assumes "no_write_fails wr" and "cw_inv hdr cs w"
  shows "cw_inv hdr (cs @ accepted lz4 ops) (cw_session lz4 wr ops w)"
  using assms(2)
proof (induction ops arbitrary: cs w)
  case (Cons p ops)
  have "cw_inv hdr (cs @ accepted lz4 [p]) (cw_exec lz4 wr p w)"
  proof (cases p)
    case (WriteChunk a)
    then show ?thesis using cw_inv_write [OF assms(1) Cons.prems, of lz4 a] by simp
  next
    case FlushChunks
    then show ?thesis using cw_inv_flush [OF assms(1) Cons.prems] by (simp add: cw_flush_def)
  qed
  from Cons.IH [OF this] show ?case using accepted_append [of lz4 "[p]" ops] by (simp add: cw_session_def)
qed (simp add: cw_session_def)

text \<open>Opening gives a writer with no chunks.\<close>

definition file_header_of :: "nat \<Rightarrow> nat \<Rightarrow> nat \<Rightarrow> nat \<Rightarrow> bytes option \<Rightarrow> ubpf_file_header" where
  "file_header_of mono_ns wall_ns job_id node_id hostname =
     \<lparr>fh_magic = UBPF_FILE_MAGIC, fh_version = UBPF_FILE_VERSION, fh_job_id = job_id,
      fh_node_id = node_id, fh_hostname = hostname_field hostname, fh_codec_id = CODEC_LZ4,
      fh_timestamp_base_ns = mono_ns, fh_wallclock_base_ns = wall_ns\<rparr>"

lemma length_file_header_of [simp]:
  "length (encode_file_header (file_header_of mono_ns wall_ns job_id node_id hostname)) = 128"
  by (rule length_encode_file_header) (simp add: file_header_of_def)

lemma cw_open_inv:
  assumes "cw_open wr True mono_ns wall_ns path job_id node_id hostname w = (True, w')" and "\<not> cw_fd w"
  shows "cw_inv (encode_file_header (file_header_of mono_ns wall_ns job_id node_id hostname)) [] w'"
proof -
  obtain n d where nd: "wr (cw_disk w) 128 = (n, d)" by fastforce
  then show ?thesis using assms
    by (auto simp: cw_open_def Let_def sys_write_def cw_inv_def file_header_of_def [symmetric] split: if_splits)
qed

text \<open>The file after \<open>close\<close>: header, chunks, as much of the index as one call wrote, trailer.\<close>

definition trailer_of :: "bytes \<Rightarrow> (chunk_args \<times> bytes) list \<Rightarrow> ubpf_file_trailer" where
  "trailer_of hdr cs = \<lparr>total_chunks = u32 (length cs),
     tr_total_records = u64 (\<Sum>x\<leftarrow>cs. ca_record_count (fst x)),
     tr_total_dropped = u64 (\<Sum>x\<leftarrow>cs. ca_dropped_count (fst x)),
     index_table_offset = u64 (length hdr + length (chunks_bytes cs)), trailer_magic = UBPF_TRAILER_MAGIC\<rparr>"

lemma length_index_of [simp]: "length (index_of pos cs) = length cs"
  by (induction pos cs rule: index_of.induct) simp_all

lemma cw_close_file:
  assumes wr: "no_write_fails wr" "trailer_write_whole wr" and inv: "cw_inv hdr cs w"
  shows "\<exists>k. cw_file (cw_close wr w) = hdr @ chunks_bytes cs @
    take k (concat (map encode_index_entry (index_of (length hdr) cs))) @ encode_trailer (trailer_of hdr cs)"
proof -
  let ?w = "flush_staging_buffer_locked wr w"
  have f: "cw_inv hdr cs ?w" "cw_staging_buffer ?w = []" using cw_inv_flush [OF wr(1) inv] by auto
  then have fl: "cw_file ?w = hdr @ chunks_bytes cs" "cw_offset ?w = u64 (length hdr + length (chunks_bytes cs))"
      "cw_index_table ?w = index_of (length hdr) cs"
      "cw_total_records ?w = u64 (\<Sum>x\<leftarrow>cs. ca_record_count (fst x))"
      "cw_total_dropped ?w = u64 (\<Sum>x\<leftarrow>cs. ca_dropped_count (fst x))" and fd: "cw_fd w"
    using inv by (auto simp: cw_inv_def)
  have tr: "\<exists>d'. wr d 40 = (40, d')" for d
    using wr(2) [unfolded trailer_write_whole_def, rule_format, of d] by (cases "wr d 40") simp
  show ?thesis
  proof (cases "cs = []")
    case True
    then have "index_of (length hdr) cs = []" by simp
    obtain d' where "wr (cw_disk ?w) 40 = (40, d')" using tr by blast
    then show ?thesis using fd True fl
      by (auto simp: cw_close_def Let_def sys_write_def trailer_of_def)
  next
    case False
    let ?idx = "concat (map encode_index_entry (index_of (length hdr) cs))"
    have ne: "index_of (length hdr) cs \<noteq> []" using False by (metis length_0_conv length_index_of)
    obtain n d where nd: "wr (cw_disk ?w) (length ?idx) = (n, d)" by fastforce
    obtain d' where "wr d 40 = (40, d')" using tr by blast
    then have "cw_file (cw_close wr w) = hdr @ chunks_bytes cs @ take (nat n) ?idx @ encode_trailer (trailer_of hdr cs)"
      using fd ne fl nd by (simp add: cw_close_def Let_def sys_write_def trailer_of_def)
    then show ?thesis by blast
  qed
qed

lemma index_of_nth:
  "i < length cs \<Longrightarrow> index_of pos cs ! i =
     index_entry_of (u64 (pos + length (chunks_bytes (take i cs)))) (fst (cs ! i)) (snd (cs ! i))"
proof (induction pos cs arbitrary: i rule: index_of.induct)
  case (2 pos a c cs)
  then show ?case by (cases i) (simp_all add: add.assoc)
qed simp

lemma chunk_at:
  assumes "i < length cs"
  shows "take (64 + length (snd (cs ! i))) (drop (length hdr + length (chunks_bytes (take i cs)))
    (hdr @ chunks_bytes cs)) = chunk_bytes (cs ! i)"
proof -
  have "chunks_bytes cs = chunks_bytes (take i cs) @ chunk_bytes (cs ! i) @ chunks_bytes (drop (Suc i) cs)"
    using id_take_nth_drop [OF assms] by (metis chunks_bytes_simps(2,3))
  then show ?thesis by simp
qed

text \<open>C31: In a container whose \<open>open\<close> succeeded, whatever chunks were written and flushed before
  and however the system splits the writes, as long as no call of \<open>write\<close> fails (after a failure
  the index is wrong, see \<open>container_lost_chunk\<close>) and the file stays below \<open>2 ^ 64\<close> bytes, the index table has one entry for each accepted chunk, and at the
  entry's offset the file (with the bytes still staged) has the chunk's header and its compressed
  block of the entry's size.\<close>
theorem container_index_points:
  assumes "no_write_fails wr" and "\<not> cw_fd w"
    and "cw_open wr True mono_ns wall_ns path job_id node_id hostname w = (True, w0)"
    and "i < length (accepted lz4 ops)"
    and "128 + length (chunks_bytes (accepted lz4 ops)) < 2 ^ 64"
  shows "\<exists>e. length (cw_index_table (cw_session lz4 wr ops w0)) = length (accepted lz4 ops) \<and>
    cw_index_table (cw_session lz4 wr ops w0) ! i = e \<and>
    ie_compressed_size e = length (snd (accepted lz4 ops ! i)) \<and>
    take (64 + ie_compressed_size e) (drop (ie_file_offset e)
      (cw_file (cw_session lz4 wr ops w0) @ cw_staging_buffer (cw_session lz4 wr ops w0))) =
    chunk_bytes (accepted lz4 ops ! i)"
proof -
  let ?w = "cw_session lz4 wr ops w0" and ?cs = "accepted lz4 ops"
  let ?hdr = "encode_file_header (file_header_of mono_ns wall_ns job_id node_id hostname)"
  let ?pos = "128 + length (chunks_bytes (take i ?cs))"
  have "cw_inv ?hdr [] w0"
    by (rule cw_open_inv [OF assms(3,2)])
  from cw_session_inv [OF assms(1) this, of lz4 ops]
  have inv: "cw_file ?w @ cw_staging_buffer ?w = ?hdr @ chunks_bytes ?cs" "cw_index_table ?w = index_of 128 ?cs"
    by (simp_all add: cw_inv_def)
  have "length (chunks_bytes (take i ?cs)) \<le> length (chunks_bytes ?cs)"
    by (metis append_take_drop_id chunks_bytes_simps(3) le_add1 length_append)
  then have pos: "u64 ?pos = ?pos" using assms(5) by (intro u64_id) simp
  have "cw_index_table ?w ! i = index_entry_of ?pos (fst (?cs ! i)) (snd (?cs ! i))"
    using index_of_nth [OF assms(4), of 128] by (simp add: inv pos)
  then show ?thesis using chunk_at [OF assms(4), of ?hdr] by (simp add: inv index_entry_of_def)
qed

text \<open>A disk that writes everything, a compressor that stores, and a chunk, for the witnesses.\<close>

definition whole_write :: "unit write_call" where
  "whole_write d n = (int n, d)"

definition sample_chunk :: chunk_args where
  "sample_chunk = \<lparr>ca_type = 1, ca_data = [1, 2, 3], ca_record_count = 1, ca_dropped_count = 0,
     ca_start_ns = 5, ca_end_ns = 9\<rparr>"

lemma whole_write_ok: "no_write_fails whole_write" "trailer_write_whole whole_write"
  by (simp_all add: no_write_fails_def trailer_write_whole_def whole_write_def)

lemma whole_open:
  "\<not> cw_fd w \<Longrightarrow> fst (cw_open whole_write True mono_ns wall_ns path job_id node_id hostname w)"
  by (simp add: cw_open_def Let_def sys_write_def whole_write_def)

theorem container_index_points_witness:
  "let w0 = snd (cw_open whole_write True 7 8 ''t.ubpt'' 1 2 None (cw_new ()));
       w = cw_session Some whole_write [WriteChunk sample_chunk, FlushChunks] w0
   in no_write_fails whole_write \<and> length (cw_index_table w) = 1 \<and>
     take (64 + ie_compressed_size (cw_index_table w ! 0)) (drop (ie_file_offset (cw_index_table w ! 0))
       (cw_file w @ cw_staging_buffer w)) = chunk_bytes (sample_chunk, [1, 2, 3])"
proof -
  have acc: "accepted Some [WriteChunk sample_chunk, FlushChunks] = [(sample_chunk, [1, 2, 3])]"
    by (simp add: sample_chunk_def)
  define w0 where "w0 = snd (cw_open whole_write True 7 8 ''t.ubpt'' 1 2 None (cw_new ()))"
  have "cw_open whole_write True 7 8 ''t.ubpt'' 1 2 None (cw_new ()) = (True, w0)"
    using whole_open [of "cw_new ()" 7 8 "''t.ubpt''" 1 2 None] by (simp add: w0_def prod_eq_iff cw_new_def)
  from container_index_points [OF whole_write_ok(1) _ this, of 0 Some "[WriteChunk sample_chunk, FlushChunks]",
      unfolded acc]
  show ?thesis unfolding w0_def [symmetric] Let_def
    by (auto simp: cw_new_def whole_write_ok)
qed

lemma write_chunk_staged:
  assumes "cw_fd w" and "ca_data a \<noteq> []" and "lz4 (ca_data a) = Some blk" and "cw_staging_buffer w = []"
    and "64 + length blk < LUSTRE_STRIPE_BLOCK_SIZE"
  shows "snd (write_chunk lz4 wr a w) = w\<lparr>cw_index_table := cw_index_table w @ [index_entry_of (u64 (cw_offset w)) a blk],
     cw_total_records := u64 (cw_total_records w + ca_record_count a),
     cw_total_dropped := u64 (cw_total_dropped w + ca_dropped_count a),
     cw_staging_buffer := chunk_bytes (a, blk)\<rparr>"
  using assms by (simp add: write_chunk_def chunk_bytes_def Let_def)

lemma flush_refused:
  assumes "cw_fd w" and "wr (cw_disk w) (length (cw_staging_buffer w)) = (n, d)" and "n \<le> 0"
    and "cw_staging_buffer w = x # xs"
  shows "cw_flush wr w = w\<lparr>cw_disk := d, cw_staging_buffer := []\<rparr>"
  using assms by (simp add: cw_flush_def flush_staging_buffer_locked_def sys_write_def)

text \<open>C38: A chunk that the device refuses is lost, but the index keeps it: when the write of the staged
  bytes fails, \<open>flush\<close> drops them and leaves the offset, so the entry of the lost chunk and the
  entry of the next one have the same offset.\<close>
theorem container_lost_chunk:
  assumes "cw_fd w" and "\<And>n. fst (wr (cw_disk w) n) = -1" and "cw_staging_buffer w = []"
    and "ca_data a \<noteq> []" and "lz4 (ca_data a) = Some blk" and "ca_data a' \<noteq> []" and "lz4 (ca_data a') = Some blk'"
    and "64 + length blk < LUSTRE_STRIPE_BLOCK_SIZE" and "64 + length blk' < LUSTRE_STRIPE_BLOCK_SIZE"
  shows "\<exists>e e'. cw_index_table (cw_session lz4 wr [WriteChunk a, FlushChunks, WriteChunk a'] w) =
      cw_index_table w @ [e, e'] \<and> ie_file_offset e = ie_file_offset e' \<and>
    cw_file (cw_session lz4 wr [WriteChunk a, FlushChunks, WriteChunk a'] w) = cw_file w"
proof -
  let ?w1 = "snd (write_chunk lz4 wr a w)"
  note w1 = write_chunk_staged [of w a lz4 blk, OF assms(1,4,5,3,8), of wr]
  obtain d where d: "wr (cw_disk w) (64 + length blk) = (-1, d)"
    using assms(2) [of "64 + length blk"] by (cases "wr (cw_disk w) (64 + length blk)") simp
  obtain x xs where xs: "chunk_bytes (a, blk) = x # xs"
    by (metis length_chunk_bytes length_0_conv neq_Nil_conv add_is_0 zero_neq_numeral)
  have "64 + length blk = Suc (length xs)" using arg_cong [OF xs, of length] by simp
  with d have "wr (cw_disk w) (Suc (length xs)) = (-1, d)" by (simp only:)
  then have w2: "cw_flush wr ?w1 = ?w1\<lparr>cw_disk := d, cw_staging_buffer := []\<rparr>"
    using assms(1) xs by (intro flush_refused [of _ _ "-1"]) (simp_all add: w1)
  show ?thesis
    using write_chunk_staged [of "cw_flush wr ?w1" a' lz4 blk' wr] assms(1,6,7,9)
    by (simp add: cw_session_def w1 w2 [unfolded w1 index_entry_of_def] index_entry_of_def)
qed

theorem container_lost_chunk_witness:
  "let w = (cw_new ())\<lparr>cw_fd := True\<rparr>; wr = (\<lambda>d n. (-1, d));
       ops = [WriteChunk sample_chunk, FlushChunks, WriteChunk sample_chunk]
   in \<exists>e e'. cw_index_table (cw_session Some wr ops w) = [e, e'] \<and> ie_file_offset e = ie_file_offset e' \<and>
     cw_file (cw_session Some wr ops w) = []"
  using container_lost_chunk [of "(cw_new ())\<lparr>cw_fd := True\<rparr>" "\<lambda>d n. (-1, d)" sample_chunk Some
      "[1, 2, 3]" sample_chunk "[1, 2, 3]"]
  by (simp add: cw_new_def sample_chunk_def container_consts)

end
