(* ===== verification/Ubpftrace_Cat.thy ===== *)
theory Ubpftrace_Cat
  imports Container_Writer
begin

text \<open>
  The reader of trace containers, \<open>parse_ubpf_file\<close> of \<open>ubpftrace_cat.cpp\<close>. The LZ4 decompressor is
  the parameter \<open>lz4d\<close>: the block and the size of the output buffer give the output, or \<open>None\<close> for an
  error. The theory shows that the reader gives back the events that were logged, in their order,
  from every container the writer closed.
\<close>

section \<open>Decoded data\<close>

record DecodedEvent =
  ev_timestamp_ns :: nat
  ev_rank :: nat
  ev_event_type :: nat
  ev_node_id :: nat
  ev_payload :: bytes

record DecodedChunk =
  dc_header :: ubpf_chunk_header
  dc_crc_valid :: bool
  dc_file_offset :: nat

record DecodedFile =
  df_file_size :: nat
  df_header :: ubpf_file_header
  df_trailer :: "ubpf_file_trailer option"
  df_chunks :: "DecodedChunk list"
  df_events :: "DecodedEvent list"
  df_total_uncompressed_bytes :: nat
  df_total_compressed_bytes :: nat
  df_total_dropped_events :: nat

text \<open>The structs as they are read from the file.\<close>

definition decode_file_header :: "bytes \<Rightarrow> ubpf_file_header" where
  "decode_file_header bs = \<lparr>fh_magic = get_le bs 0 4, fh_version = get_le bs 4 4, fh_job_id = get_le bs 8 4,
     fh_node_id = get_le bs 12 4, fh_hostname = take 64 (drop 16 bs), fh_codec_id = get_le bs 80 2,
     fh_timestamp_base_ns = get_le bs 88 8, fh_wallclock_base_ns = get_le bs 96 8\<rparr>"

definition decode_chunk_header :: "bytes \<Rightarrow> ubpf_chunk_header" where
  "decode_chunk_header bs = \<lparr>chunk_magic = get_le bs 0 4, chunk_type = get_le bs 4 2,
     chunk_codec_id = get_le bs 6 2, uncompressed_size = get_le bs 8 4, compressed_size = get_le bs 12 4,
     chunk_start_ns = get_le bs 16 8, chunk_end_ns = get_le bs 24 8, chunk_record_count = get_le bs 32 4,
     dropped_events_count = get_le bs 36 4, chunk_crc32 = get_le bs 40 4\<rparr>"

definition decode_trailer :: "bytes \<Rightarrow> ubpf_file_trailer" where
  "decode_trailer bs = \<lparr>total_chunks = get_le bs 0 4, tr_total_records = get_le bs 8 8,
     tr_total_dropped = get_le bs 16 8, index_table_offset = get_le bs 24 8, trailer_magic = get_le bs 32 8\<rparr>"

section \<open>The payload of an event\<close>

text \<open>
  \<open>avail\<close> are the bytes of the buffer from the payload on. The scan stops at the first byte that is
  neither printable nor one of the three control characters, except for a final zero; a read past
  the buffer is undefined.
\<close>

definition is_print :: "byte \<Rightarrow> bool" where
  "is_print c = (32 \<le> unat c \<and> unat c < 127)"

fun scan_printable :: "bytes \<Rightarrow> nat \<Rightarrow> bool outcome" where
  "scan_printable avail 0 = Ok True"
| "scan_printable [] (Suc n) = UB"
| "scan_printable (c # avail) (Suc n) =
     (if c = 0 \<and> n = 0 then Ok True
      else if \<not> is_print c \<and> c \<noteq> 10 \<and> c \<noteq> 9 \<and> c \<noteq> 13 then Ok False
      else scan_printable avail n)"

definition strip_end :: "bytes \<Rightarrow> bytes" where
  "strip_end s = rev (dropWhile (\<lambda>c. c = 0 \<or> c = 10 \<or> c = 13) (rev s))"

definition read_u64 :: "bytes \<Rightarrow> nat \<Rightarrow> nat outcome" where
  "read_u64 p off = of_option (map_option le_nat (read_at p off 8))"

definition action_text :: "bytes \<Rightarrow> nat \<Rightarrow> bytes outcome" where
  "action_text avail plen =
     bind_out (read_u64 avail 0) (\<lambda>action_id.
     if plen = 16 then
       bind_out (read_u64 avail 8) (\<lambda>v0. Ok (
         if action_id = 0 then str_bytes ''[HPC Compute] Compute time: '' @ dec_bytes v0 @ str_bytes '' us''
         else if action_id = 1 then str_bytes ''[MPI Barrier] Barrier wait time: '' @ dec_bytes v0 @ str_bytes '' us''
         else if action_id = 2 then str_bytes ''[MPI Allreduce] Allreduce latency: '' @ dec_bytes v0 @ str_bytes '' us''
         else str_bytes ''[Event Action '' @ dec_bytes action_id @ str_bytes ''] Value: '' @ dec_bytes v0))
     else if plen = 24 then
       bind_out (read_u64 avail 8) (\<lambda>v0. bind_out (read_u64 avail 16) (\<lambda>v1. Ok (
         str_bytes ''[Event Action '' @ dec_bytes action_id @ str_bytes ''] Args: ('' @ dec_bytes v0 @
         str_bytes '', '' @ dec_bytes v1 @ str_bytes '')'')))
     else Ok (str_bytes ''[Event Action '' @ dec_bytes action_id @ str_bytes '' ('' @ dec_bytes plen @
       str_bytes '' bytes)]''))"

definition decode_payload :: "bytes \<Rightarrow> nat \<Rightarrow> bytes outcome" where
  "decode_payload avail plen =
     (if plen = 0 then Ok []
      else bind_out (scan_printable avail plen) (\<lambda>printable.
        if printable then Ok (strip_end (take plen avail))
        else if 8 \<le> plen then action_text avail plen
        else Ok (str_bytes ''[Binary Payload: '' @ dec_bytes plen @ str_bytes '' bytes]'')))"

section \<open>The events of a chunk\<close>

text \<open>
  The loop over the records of a decompressed chunk: \<open>buf\<close> is the output buffer, of which the
  first \<open>dlen\<close> bytes were decompressed.
\<close>

primrec decode_events :: "nat \<Rightarrow> bytes \<Rightarrow> nat \<Rightarrow> nat \<Rightarrow> nat \<Rightarrow> DecodedEvent list outcome" where
  "decode_events 0 buf dlen node_id off = NoReturn"
| "decode_events (Suc fuel) buf dlen node_id off =
     (if \<not> off + SIZEOF_RECORD_HEADER \<le> dlen then Ok []
      else let h = decode_record_header (drop off buf) in
        if rh_record_len h = 0 \<or> dlen < off + rh_record_len h then Ok []
        else
          bind_out (decode_payload (drop (off + SIZEOF_RECORD_HEADER) buf) (rh_payload_len h)) (\<lambda>payload.
          bind_out (decode_events fuel buf dlen node_id (off + rh_record_len h)) (\<lambda>evs.
          Ok (\<lparr>ev_timestamp_ns = rh_timestamp_ns h, ev_rank = rh_rank h, ev_event_type = rh_event_type h,
               ev_node_id = node_id, ev_payload = payload\<rparr> # evs))))"

section \<open>The chunks of a file\<close>

text \<open>
  The position of the stream is \<open>None\<close> after a read past the end: \<open>tellg\<close> then returns \<open>-1\<close>, the sum
  in the loop condition wraps to 63, and the next header is never filled in. A header of which
  only a part is in the file is undefined too, unless its magic number already ends the loop.
\<close>

definition chunk_step :: "(bytes \<Rightarrow> nat \<Rightarrow> bytes option) \<Rightarrow> bytes \<Rightarrow> nat \<Rightarrow> DecodedFile \<Rightarrow>
    (DecodedFile \<times> nat option) outcome" where
  "chunk_step lz4d file p df =
     (let h = decode_chunk_header (drop p file);
          csz = compressed_size h;
          avail = take csz (drop (p + 64) file);
          buf = avail @ replicate (csz - length avail) 0;
          pos = (if p + 64 + csz \<le> length file then Some (p + 64 + csz) else None);
          df = df\<lparr>df_chunks := df_chunks df @
                  [\<lparr>dc_header = h, dc_crc_valid = (unat (compute_crc32 buf) = chunk_crc32 h), dc_file_offset = p\<rparr>],
                df_total_compressed_bytes := u64 (df_total_compressed_bytes df + csz),
                df_total_uncompressed_bytes := u64 (df_total_uncompressed_bytes df + uncompressed_size h),
                df_total_dropped_events := u64 (df_total_dropped_events df + dropped_events_count h)\<rparr>
      in case lz4d buf (uncompressed_size h) of
           None \<Rightarrow> Ok (df, pos)
         | Some out \<Rightarrow>
             bind_out (decode_events (Suc (length out)) (out @ replicate (uncompressed_size h - length out) 0)
               (length out) (fh_node_id (df_header df)) 0) (\<lambda>evs.
             Ok (df\<lparr>df_events := df_events df @ evs\<rparr>, pos)))"

primrec read_chunks :: "nat \<Rightarrow> (bytes \<Rightarrow> nat \<Rightarrow> bytes option) \<Rightarrow> bytes \<Rightarrow> nat \<Rightarrow> nat option \<Rightarrow> DecodedFile \<Rightarrow>
    DecodedFile outcome" where
  "read_chunks 0 lz4d file end_offset pos df = NoReturn"
| "read_chunks (Suc fuel) lz4d file end_offset pos df =
     (case pos of
        None \<Rightarrow> if 63 \<le> end_offset then UB else Ok df
      | Some p \<Rightarrow>
          if \<not> u64 (p + 64) \<le> end_offset then Ok df
          else if length file < p + 64 then
            (if p + 4 \<le> length file \<and> get_le (drop p file) 0 4 \<noteq> UBPF_CHUNK_MAGIC then Ok df else UB)
          else if chunk_magic (decode_chunk_header (drop p file)) \<noteq> UBPF_CHUNK_MAGIC then Ok df
          else bind_out (chunk_step lz4d file p df) (\<lambda>(df, pos).
            read_chunks fuel lz4d file end_offset pos df))"

text \<open>\<open>None\<close> is the result \<open>false\<close>.\<close>

definition parse_ubpf_file :: "(bytes \<Rightarrow> nat \<Rightarrow> bytes option) \<Rightarrow> bytes \<Rightarrow> DecodedFile option outcome" where
  "parse_ubpf_file lz4d file =
     (if length file < 128 then Ok None
      else let h = decode_file_header file in
        if fh_magic h \<noteq> UBPF_FILE_MAGIC then Ok None
        else
          let t = decode_trailer (drop (length file - 40) file);
              tr = (if 128 + 40 \<le> length file \<and> trailer_magic t = UBPF_TRAILER_MAGIC then Some t else None);
              end_offset = (case tr of Some t \<Rightarrow> index_table_offset t | None \<Rightarrow> length file)
          in bind_out (read_chunks (Suc (length file)) lz4d file end_offset (Some 128)
               \<lparr>df_file_size = length file, df_header = h, df_trailer = tr, df_chunks = [], df_events = [],
                df_total_uncompressed_bytes = 0, df_total_compressed_bytes = 0, df_total_dropped_events = 0\<rparr>)
             (\<lambda>df. Ok (Some df)))"

section \<open>The reader returns\<close>

text \<open>The parts of the reader return a value or leave the buffer.\<close>

definition ok_or_ub :: "'a outcome \<Rightarrow> bool" where
  "ok_or_ub x = (x = UB \<or> (\<exists>y. x = Ok y))"

lemma ok_or_ub_simps [simp]: "ok_or_ub (Ok y)" "ok_or_ub UB" "\<not> ok_or_ub NoReturn"
  by (simp_all add: ok_or_ub_def)

lemma ok_or_ub_bind: "ok_or_ub x \<Longrightarrow> (\<And>y. x = Ok y \<Longrightarrow> ok_or_ub (f y)) \<Longrightarrow> ok_or_ub (bind_out x f)"
  by (auto simp: ok_or_ub_def)

lemma scan_printable_returns: "ok_or_ub (scan_printable avail n)"
  by (induction avail n rule: scan_printable.induct) auto

lemma read_u64_returns: "ok_or_ub (read_u64 p off)"
  by (cases "read_at p off 8") (simp_all add: read_u64_def)

lemma action_text_returns: "ok_or_ub (action_text avail plen)"
  unfolding action_text_def
  by (intro ok_or_ub_bind read_u64_returns) (auto intro!: ok_or_ub_bind read_u64_returns)

lemma decode_payload_returns: "ok_or_ub (decode_payload avail plen)"
  by (auto simp: decode_payload_def intro!: ok_or_ub_bind scan_printable_returns action_text_returns)

lemma decode_events_returns:
  "dlen < fuel + off \<Longrightarrow> 0 < fuel \<Longrightarrow> ok_or_ub (decode_events fuel buf dlen node_id off)"
proof (induction fuel arbitrary: off)
  case (Suc fuel)
  let ?h = "decode_record_header (drop off buf)"
  have "ok_or_ub (decode_events fuel buf dlen node_id (off + rh_record_len ?h))"
    if "rh_record_len ?h \<noteq> 0" "off + SIZEOF_RECORD_HEADER \<le> dlen" "\<not> dlen < off + rh_record_len ?h"
    using Suc.prems that by (intro Suc.IH) (auto simp: SIZEOF_RECORD_HEADER_def)
  then show ?case by (auto simp: Let_def intro!: ok_or_ub_bind decode_payload_returns)
qed simp

lemma chunk_step_returns: "ok_or_ub (chunk_step lz4d file p df)"
  by (auto simp: chunk_step_def Let_def simp del: decode_events.simps split: option.split
      intro!: ok_or_ub_bind decode_events_returns)

lemma chunk_step_pos:
  "chunk_step lz4d file p df = Ok (df', Some q) \<Longrightarrow> p + 64 \<le> q \<and> q \<le> length file"
  by (auto simp: chunk_step_def Let_def bind_out_Ok split: option.splits if_splits)

lemma read_chunks_returns:
  "p \<le> length file \<Longrightarrow> length file < fuel + p \<Longrightarrow> ok_or_ub (read_chunks fuel lz4d file end_offset (Some p) df)"
proof (induction fuel arbitrary: p df)
  case (Suc fuel)
  have "ok_or_ub (read_chunks fuel lz4d file end_offset pos df')"
    if step: "chunk_step lz4d file p df = Ok (df', pos)" and room: "p + 64 \<le> length file" for df' pos
  proof (cases pos)
    case None
    then show ?thesis using room Suc.prems by (cases fuel) auto
  next
    case (Some q)
    then show ?thesis using chunk_step_pos [of lz4d "file" p df df' q] step Suc.prems Suc.IH by simp
  qed
  then show ?case by (auto simp: not_less intro!: ok_or_ub_bind chunk_step_returns)
qed simp

text \<open>Neither the loop over the chunks nor the loop over the records of a chunk runs forever: on every
  file the reader returns or runs into undefined behaviour.\<close>
theorem cat_terminates: "parse_ubpf_file lz4d file \<noteq> NoReturn"
proof -
  have "ok_or_ub (parse_ubpf_file lz4d file)"
    by (auto simp: parse_ubpf_file_def Let_def simp del: read_chunks.simps
        intro!: ok_or_ub_bind read_chunks_returns)
  then show ?thesis by (auto simp: ok_or_ub_def)
qed

section \<open>Records that were logged\<close>

text \<open>A call of \<open>log_event\<close>: rank, event type, time and payload; and the event it is decoded to.\<close>

type_synonym logged = "nat \<times> nat \<times> nat \<times> bytes"

definition logged_bytes :: "logged \<Rightarrow> bytes" where
  "logged_bytes l = (case l of (rank, ty, now, p) \<Rightarrow> event_record rank ty now p)"

definition logged_ok :: "logged \<Rightarrow> bool" where
  "logged_ok l = (case l of (rank, ty, now, p) \<Rightarrow> ty < 2 ^ 16 \<and> now < 2 ^ 64 \<and> 24 + length p < 2 ^ 32)"

text \<open>
  What the reader is to show of a payload. A payload of printable characters, line breaks and tabs,
  with or without a NUL at its end, is its own text without the NULs and line breaks at the end.
  Any other payload is shown as a line that depends on its length only, on its first word, or for 16
  and 24 bytes on all its words; the bytes themselves are not kept.
\<close>

definition text_char :: "byte \<Rightarrow> bool" where
  "text_char c = (c \<in> {9, 10, 13} \<or> unat c \<in> {32..126})"

definition text_payload :: "bytes \<Rightarrow> bool" where
  "text_payload p = list_all text_char (if p \<noteq> [] \<and> last p = 0 then butlast p else p)"

fun rstrip :: "bytes \<Rightarrow> bytes" where
  "rstrip [] = []"
| "rstrip (c # s) = (if rstrip s = [] \<and> c \<in> {0, 10, 13} then [] else c # rstrip s)"

definition payload_word :: "bytes \<Rightarrow> nat \<Rightarrow> bytes" where
  "payload_word p i = dec_bytes (le_nat (take 8 (drop (8 * i) p)))"

definition action_prefix :: "bytes \<Rightarrow> bytes" where
  "action_prefix p = str_bytes ''[Event Action '' @ payload_word p 0"

definition timing_lines :: "(nat \<times> string) list" where
  "timing_lines = [(0, ''[HPC Compute] Compute time: ''), (1, ''[MPI Barrier] Barrier wait time: ''),
     (2, ''[MPI Allreduce] Allreduce latency: '')]"

definition binary_text :: "bytes \<Rightarrow> bytes" where
  "binary_text p =
     (if length p < 8 then str_bytes ''[Binary Payload: '' @ dec_bytes (length p) @ str_bytes '' bytes]''
      else if length p = 16 then
        (case map_of timing_lines (le_nat (take 8 p)) of
           Some line \<Rightarrow> str_bytes line @ payload_word p 1 @ str_bytes '' us''
         | None \<Rightarrow> action_prefix p @ str_bytes ''] Value: '' @ payload_word p 1)
      else if length p = 24 then
        action_prefix p @ str_bytes ''] Args: ('' @ payload_word p 1 @ str_bytes '', '' @ payload_word p 2 @ str_bytes '')''
      else action_prefix p @ str_bytes '' ('' @ dec_bytes (length p) @ str_bytes '' bytes)]'')"

definition payload_text :: "bytes \<Rightarrow> bytes" where
  "payload_text p = (if text_payload p then rstrip p else binary_text p)"

definition logged_event :: "nat \<Rightarrow> logged \<Rightarrow> DecodedEvent" where
  "logged_event node_id l = (case l of (rank, ty, now, p) \<Rightarrow>
     \<lparr>ev_timestamp_ns = now, ev_rank = rank mod 2 ^ 16, ev_event_type = ty, ev_node_id = node_id,
      ev_payload = payload_text p\<rparr>)"

lemma text_payload_Cons: "text_payload (c # p) = (if p = [] \<and> c = 0 then True else text_char c \<and> text_payload p)"
  by (auto simp: text_payload_def)

lemma scan_printable_text: "scan_printable (p @ rest) (length p) = Ok (text_payload p)"
proof (induction p)
  case (Cons c p)
  have "text_char c \<longleftrightarrow> is_print c \<or> c = 10 \<or> c = 9 \<or> c = 13"
    by (auto simp: text_char_def is_print_def)
  then show ?case using Cons by (auto simp: text_payload_Cons)
qed (simp add: text_payload_def)

lemma strip_end_rstrip: "strip_end s = rstrip s"
proof (induction s)
  case (Cons c s)
  let ?P = "\<lambda>c. c = 0 \<or> c = 10 \<or> c = (13 :: byte)"
  have r: "dropWhile ?P (rev s) = rev (rstrip s)" using Cons by (simp add: strip_end_def rev_swap)
  have "rstrip s = [] \<longleftrightarrow> (\<forall>x \<in> set s. ?P x)"
    unfolding Cons [symmetric] by (simp add: strip_end_def dropWhile_eq_Nil_conv)
  then show ?case by (auto simp: strip_end_def dropWhile_append r)
qed (simp add: strip_end_def)

lemma read_u64_prefix: "off + 8 \<le> length p \<Longrightarrow> read_u64 (p @ rest) off = Ok (le_nat (take 8 (drop off p)))"
  by (simp add: read_u64_def read_at_def)

lemma action_text_binary:
  assumes "8 \<le> length p"
  shows "action_text (p @ rest) (length p) = Ok (binary_text p)"
  using assms read_u64_prefix [of 0 p rest] read_u64_prefix [of 8 p rest] read_u64_prefix [of 16 p rest]
  by (auto simp: action_text_def binary_text_def payload_word_def action_prefix_def timing_lines_def)

lemma decode_payload_prefix: "decode_payload (p @ rest) (length p) = Ok (payload_text p)"
proof (cases "p = []")
  case False
  then show ?thesis using action_text_binary [of p rest]
    by (auto simp: decode_payload_def payload_text_def scan_printable_text strip_end_rstrip binary_text_def)
qed (simp add: decode_payload_def payload_text_def text_payload_def)

lemma decode_record:
  assumes "logged_ok l"
  shows "decode_record_header (logged_bytes l @ rest) =
    (case l of (rank, ty, now, p) \<Rightarrow> event_header rank ty now (length p))"
  using assms decode_encode_header [OF event_header_fits]
  by (auto simp: logged_ok_def logged_bytes_def event_record_def split: prod.splits)

lemma decode_events_logged:
  assumes "\<And>l. l \<in> set ls \<Longrightarrow> logged_ok l" and "length ls < fuel"
    and "drop off buf = concat (map logged_bytes ls)" and "dlen = length buf" and "off \<le> dlen"
  shows "decode_events fuel buf dlen node_id off = Ok (map (logged_event node_id) ls)"
  using assms
proof (induction ls arbitrary: fuel off)
  case Nil
  then obtain k where "fuel = Suc k" by (cases fuel) auto
  then show ?case using Nil by (simp add: SIZEOF_RECORD_HEADER_def)
next
  case (Cons l ls)
  obtain k where k: "fuel = Suc k" "length ls < k" using Cons.prems(2) by (cases fuel) auto
  obtain rank ty now p where l: "l = (rank, ty, now, p)" by (metis prod_cases4)
  have ok: "logged_ok l" using Cons.prems(1) by simp
  let ?rest = "concat (map logged_bytes ls)"
  have d: "drop off buf = logged_bytes l @ ?rest" using Cons.prems(3) by simp
  have h: "decode_record_header (drop off buf) = event_header rank ty now (length p)"
    using decode_record [OF ok, of ?rest] by (simp add: d l)
  have len: "event_record_len (length p) = 24 + length p" "length (logged_bytes l) = 24 + length p"
    using ok by (simp_all add: l logged_ok_def logged_bytes_def event_record_len_def SIZEOF_RECORD_HEADER_def)
  have size: "off + (24 + length p) \<le> dlen"
    using arg_cong [OF d, of length] Cons.prems(4,5) len by simp
  have pl: "drop (off + 24) buf = p @ ?rest"
  proof -
    have "drop 24 (drop off buf) = p @ ?rest"
      unfolding d by (simp add: l logged_bytes_def event_record_def)
    then show ?thesis by (simp add: add.commute)
  qed
  have after: "drop (off + (24 + length p)) buf = ?rest"
    using d len by (metis add.commute append_eq_conv_conj drop_drop)
  have "decode_events k buf dlen node_id (off + (24 + length p)) = Ok (map (logged_event node_id) ls)"
    using Cons.prems(1,4) k(2) after size by (intro Cons.IH) auto
  then show ?case using size
    by (simp add: k(1) h event_header_def len SIZEOF_RECORD_HEADER_def pl decode_payload_prefix Let_def l logged_event_def)
qed

section \<open>Reading what the writer wrote\<close>

text \<open>
  The documented behaviour of LZ4: a block of at most \<open>LZ4_MAX_INPUT_SIZE\<close> bytes is always compressed
  into a buffer of \<open>LZ4_compressBound\<close> bytes, and decompression into a buffer of the original size
  gives it back.
\<close>

definition lz4_ok :: "(bytes \<Rightarrow> bytes option) \<Rightarrow> (bytes \<Rightarrow> nat \<Rightarrow> bytes option) \<Rightarrow> bool" where
  "lz4_ok lz4 lz4d = (\<forall>x. x \<noteq> [] \<and> length x \<le> 0x7E000000 \<longrightarrow>
     (\<exists>c. lz4 x = Some c \<and> length c < 2 ^ 31 \<and> lz4d c (length x) = Some x))"

text \<open>
  A batch is what one flush hands on: the logged events, and the counters and times that
  \<open>swap_and_flush\<close> passes to \<open>write_chunk\<close> before it calls \<open>flush\<close>.
\<close>

type_synonym batch = "logged list \<times> nat \<times> nat \<times> nat \<times> nat"

definition batch_args :: "batch \<Rightarrow> chunk_args" where
  "batch_args b = (case b of (ls, recorded, dropped, start_ns, end_ns) \<Rightarrow>
     \<lparr>ca_type = CHUNK_TYPE_EVENT_STREAM, ca_data = concat (map logged_bytes ls), ca_record_count = u32 recorded,
      ca_dropped_count = u32 dropped, ca_start_ns = start_ns, ca_end_ns = end_ns\<rparr>)"

definition batch_ok :: "batch \<Rightarrow> bool" where
  "batch_ok b = ((\<forall>l \<in> set (fst b). logged_ok l) \<and> length (ca_data (batch_args b)) \<le> 0x7E000000 \<and>
     ca_start_ns (batch_args b) < 2 ^ 64 \<and> ca_end_ns (batch_args b) < 2 ^ 64)"

definition batch_ops :: "batch \<Rightarrow> cw_op list" where
  "batch_ops b = [WriteChunk (batch_args b), FlushChunks]"

lemma batch_data: "ca_data (batch_args b) = concat (map logged_bytes (fst b))"
  by (simp add: batch_args_def split: prod.split)

lemma length_logged_le: "length ls \<le> length (concat (map logged_bytes ls))"
  by (induction ls) (auto simp: logged_bytes_def split: prod.splits)

lemma decode_chunk_header_encode:
  assumes "batch_ok b" and "length c < 2 ^ 31"
  shows "decode_chunk_header (encode_chunk_header (chunk_header_of (batch_args b) c) @ rest) =
    chunk_header_of (batch_args b) c"
proof -
  have "unat (compute_crc32 c) < 4294967296" using unsigned_less [of "compute_crc32 c", where ?'a = nat] by simp
  then show ?thesis using assms
    by (simp add: decode_chunk_header_def encode_chunk_header_def chunk_header_of_def batch_ok_def batch_args_def
        get_le_skip get_le_here container_consts split: prod.splits)
qed

definition add_chunk :: "nat \<Rightarrow> batch \<Rightarrow> bytes \<Rightarrow> DecodedFile \<Rightarrow> DecodedFile" where
  "add_chunk p b c df = df\<lparr>
     df_chunks := df_chunks df @ [\<lparr>dc_header = chunk_header_of (batch_args b) c, dc_crc_valid = True, dc_file_offset = p\<rparr>],
     df_total_compressed_bytes := u64 (df_total_compressed_bytes df + length c),
     df_total_uncompressed_bytes := u64 (df_total_uncompressed_bytes df + length (ca_data (batch_args b))),
     df_total_dropped_events := u64 (df_total_dropped_events df + ca_dropped_count (batch_args b)),
     df_events := df_events df @ map (logged_event (fh_node_id (df_header df))) (fst b)\<rparr>"

lemma chunk_step_batch:
  assumes ok: "batch_ok b" and c: "length c < 2 ^ 31" "lz4d c (length (ca_data (batch_args b))) = Some (ca_data (batch_args b))"
    and f: "drop p f = chunk_bytes (batch_args b, c) @ rest" and p: "p \<le> length f"
  shows "chunk_step lz4d f p df = Ok (add_chunk p b c df, Some (p + 64 + length c))"
proof -
  let ?a = "batch_args b"
  have h: "decode_chunk_header (drop p f) = chunk_header_of ?a c"
    using decode_chunk_header_encode [OF ok c(1)] by (simp add: f chunk_bytes_def)
  have cs: "compressed_size (chunk_header_of ?a c) = length c" "uncompressed_size (chunk_header_of ?a c) = length (ca_data ?a)"
      "chunk_crc32 (chunk_header_of ?a c) = unat (compute_crc32 c)"
      "dropped_events_count (chunk_header_of ?a c) = ca_dropped_count ?a"
    by (simp_all add: chunk_header_of_def)
  have "drop 64 (drop p f) = c @ rest" unfolding f by (simp add: chunk_bytes_def)
  then have av: "take (length c) (drop (p + 64) f) = c" by (simp add: add.commute)
  have room: "p + 64 + length c \<le> length f" using arg_cong [OF f, of length] p by simp
  have mn: "min (length f - (p + 64)) (length c) = length c" using room by simp
  have "length (fst b) \<le> length (ca_data ?a)" unfolding batch_data by (rule length_logged_le)
  then have ev: "decode_events (Suc (length (ca_data ?a))) (ca_data ?a) (length (ca_data ?a)) n 0 =
      Ok (map (logged_event n) (fst b))" for n
    using ok by (intro decode_events_logged) (auto simp: batch_ok_def batch_data)
  show ?thesis
    by (simp add: chunk_step_def Let_def h cs av room mn c(2) ev add_chunk_def del: decode_events.simps)
qed

fun add_chunks :: "nat \<Rightarrow> (batch \<times> bytes) list \<Rightarrow> DecodedFile \<Rightarrow> DecodedFile" where
  "add_chunks p [] df = df"
| "add_chunks p ((b, c) # bcs) df = add_chunks (p + 64 + length c) bcs (add_chunk p b c df)"

definition blocks :: "(batch \<times> bytes) list \<Rightarrow> (chunk_args \<times> bytes) list" where
  "blocks bcs = map (\<lambda>(b, c). (batch_args b, c)) bcs"

definition block_ok :: "(bytes \<Rightarrow> nat \<Rightarrow> bytes option) \<Rightarrow> batch \<times> bytes \<Rightarrow> bool" where
  "block_ok lz4d x = (batch_ok (fst x) \<and> length (snd x) < 2 ^ 31 \<and>
     lz4d (snd x) (length (ca_data (batch_args (fst x)))) = Some (ca_data (batch_args (fst x))))"

lemma read_chunks_blocks:
  assumes "\<And>x. x \<in> set bcs \<Longrightarrow> block_ok lz4d x" and "length bcs < fuel" and "p \<le> length f"
    and "drop p f = chunks_bytes (blocks bcs) @ suf" and "end_offset = p + length (chunks_bytes (blocks bcs))"
    and "end_offset + 64 < 2 ^ 64"
  shows "read_chunks fuel lz4d f end_offset (Some p) df = Ok (add_chunks p bcs df)"
  using assms
proof (induction bcs arbitrary: fuel p df)
  case Nil
  then obtain k where "fuel = Suc k" by (cases fuel) auto
  then show ?case using Nil by (simp add: blocks_def)
next
  case (Cons x bcs)
  obtain b c where x: "x = (b, c)" by (cases x)
  obtain k where k: "fuel = Suc k" "length bcs < k" using Cons.prems(2) by (cases fuel) auto
  have ok: "block_ok lz4d (b, c)" using Cons.prems(1) x by simp
  have d: "drop p f = chunk_bytes (batch_args b, c) @ chunks_bytes (blocks bcs) @ suf"
    using Cons.prems(4) by (simp add: x blocks_def)
  have room: "p + 64 + length c \<le> length f" using arg_cong [OF d, of length] Cons.prems(3) by simp
  have after: "drop (p + 64 + length c) f = chunks_bytes (blocks bcs) @ suf"
  proof -
    have "drop (64 + length c) (drop p f) = chunks_bytes (blocks bcs) @ suf" unfolding d by simp
    then show ?thesis by (simp add: add.commute add.left_commute)
  qed
  have e: "end_offset = p + 64 + length c + length (chunks_bytes (blocks bcs))"
    using Cons.prems(5) by (simp add: x blocks_def)
  have "chunk_magic (decode_chunk_header (drop p f)) = UBPF_CHUNK_MAGIC"
    using decode_chunk_header_encode [of b c] ok
    by (simp add: d chunk_bytes_def block_ok_def chunk_header_of_def)
  moreover have "chunk_step lz4d f p df = Ok (add_chunk p b c df, Some (p + 64 + length c))"
    using ok d Cons.prems(3) by (intro chunk_step_batch) (auto simp: block_ok_def)
  moreover have "read_chunks k lz4d f end_offset (Some (p + 64 + length c)) (add_chunk p b c df) =
      Ok (add_chunks (p + 64 + length c) bcs (add_chunk p b c df))"
    using Cons.prems(1,6) k(2) room after e by (intro Cons.IH) auto
  moreover have "u64 (p + 64) \<le> end_offset" using Cons.prems(6) e by simp
  ultimately show ?case using room by (simp add: k(1) x)
qed

lemma add_chunks_sel:
  "df_events (add_chunks p bcs df) = df_events df @ map (logged_event (fh_node_id (df_header df))) (concat (map (fst \<circ> fst) bcs))"
  "df_trailer (add_chunks p bcs df) = df_trailer df"
  "length (df_chunks (add_chunks p bcs df)) = length (df_chunks df) + length bcs"
  "(\<forall>ch \<in> set (df_chunks (add_chunks p bcs df)). dc_crc_valid ch) = (\<forall>ch \<in> set (df_chunks df). dc_crc_valid ch)"
  by (induction p bcs df rule: add_chunks.induct) (simp_all add: add_chunk_def)

lemma decode_file_header_encode:
  assumes "node_id < 2 ^ 32"
  shows "fh_magic (decode_file_header (encode_file_header (file_header_of m w j node_id h) @ rest)) = UBPF_FILE_MAGIC"
    and "fh_node_id (decode_file_header (encode_file_header (file_header_of m w j node_id h) @ rest)) = node_id"
  using assms
  by (simp_all add: decode_file_header_def encode_file_header_def file_header_of_def get_le_skip get_le_here container_consts)

lemma decode_trailer_of:
  "trailer_magic (decode_trailer (encode_trailer (trailer_of hdr cs))) = UBPF_TRAILER_MAGIC"
  "index_table_offset (decode_trailer (encode_trailer (trailer_of hdr cs))) = u64 (length hdr + length (chunks_bytes cs))"
  "total_chunks (decode_trailer (encode_trailer (trailer_of hdr cs))) = u32 (length cs)"
  "tr_total_records (decode_trailer (encode_trailer (trailer_of hdr cs))) = u64 (\<Sum>x\<leftarrow>cs. ca_record_count (fst x))"
proof -
  have last: "x < 256 ^ n \<Longrightarrow> get_le (le_bytes n x) 0 n = x" for n x using get_le_here [of x n "[]"] by simp
  show "trailer_magic (decode_trailer (encode_trailer (trailer_of hdr cs))) = UBPF_TRAILER_MAGIC"
    "index_table_offset (decode_trailer (encode_trailer (trailer_of hdr cs))) = u64 (length hdr + length (chunks_bytes cs))"
    "total_chunks (decode_trailer (encode_trailer (trailer_of hdr cs))) = u32 (length cs)"
    "tr_total_records (decode_trailer (encode_trailer (trailer_of hdr cs))) = u64 (\<Sum>x\<leftarrow>cs. ca_record_count (fst x))"
    by (simp_all add: decode_trailer_def encode_trailer_def trailer_of_def get_le_skip get_le_here last container_consts)
qed

text \<open>The blocks of the batches that are not empty.\<close>

definition batch_blocks :: "(bytes \<Rightarrow> bytes option) \<Rightarrow> batch list \<Rightarrow> (batch \<times> bytes) list" where
  "batch_blocks lz4 bs = map (\<lambda>b. (b, the (lz4 (ca_data (batch_args b))))) (filter (\<lambda>b. fst b \<noteq> []) bs)"

lemma logged_bytes_nonempty [simp]: "logged_bytes l \<noteq> []"
proof -
  have "24 \<le> length (logged_bytes l)" by (simp add: logged_bytes_def split: prod.split)
  then show ?thesis by auto
qed

lemma batch_data_empty: "ca_data (batch_args b) = [] \<longleftrightarrow> fst b = []"
  by (cases "fst b") (auto simp: batch_data)

lemma lz4_batch:
  assumes "lz4_ok lz4 lz4d" and "batch_ok b" and "fst b \<noteq> []"
  shows "\<exists>c. lz4 (ca_data (batch_args b)) = Some c \<and> block_ok lz4d (b, c)"
  using assms unfolding lz4_ok_def by (auto simp: batch_ok_def block_ok_def batch_data_empty)

lemma accepted_batches:
  assumes "lz4_ok lz4 lz4d" and "\<And>b. b \<in> set bs \<Longrightarrow> batch_ok b"
  shows "accepted lz4 (concat (map batch_ops bs)) = blocks (batch_blocks lz4 bs)"
  using assms(2)
proof (induction bs)
  case (Cons b bs)
  then show ?case using lz4_batch [OF assms(1), of b]
    by (cases "fst b = []") (auto simp: batch_ops_def batch_blocks_def blocks_def batch_data_empty)
qed (simp add: batch_blocks_def blocks_def)

lemma batch_blocks_ok:
  assumes "lz4_ok lz4 lz4d" and "\<And>b. b \<in> set bs \<Longrightarrow> batch_ok b" and "x \<in> set (batch_blocks lz4 bs)"
  shows "block_ok lz4d x"
  using assms(2,3) lz4_batch [OF assms(1)] by (fastforce simp: batch_blocks_def)

lemma concat_batch_blocks: "concat (map (fst \<circ> fst) (batch_blocks lz4 bs)) = concat (map fst bs)"
  by (induction bs) (auto simp: batch_blocks_def)

lemma parse_container:
  assumes "node_id < 2 ^ 32" and "\<And>x. x \<in> set bcs \<Longrightarrow> block_ok lz4d x"
    and "128 + length (chunks_bytes (blocks bcs)) + 64 < 2 ^ 64"
    and "f = encode_file_header (file_header_of m w j node_id h) @ chunks_bytes (blocks bcs) @ idx @
      encode_trailer (trailer_of (encode_file_header (file_header_of m w j node_id h)) (blocks bcs))"
  shows "\<exists>df0. parse_ubpf_file lz4d f = Ok (Some (add_chunks 128 bcs df0)) \<and> df_events df0 = [] \<and> df_chunks df0 = [] \<and>
    fh_node_id (df_header df0) = node_id \<and>
    df_trailer df0 = Some (decode_trailer (encode_trailer (trailer_of (encode_file_header (file_header_of m w j node_id h)) (blocks bcs))))"
proof -
  let ?hdr = "encode_file_header (file_header_of m w j node_id h)"
  let ?t = "encode_trailer (trailer_of ?hdr (blocks bcs))"
  let ?df0 = "\<lparr>df_file_size = length f, df_header = decode_file_header f, df_trailer = Some (decode_trailer ?t),
    df_chunks = [], df_events = [], df_total_uncompressed_bytes = 0, df_total_compressed_bytes = 0,
    df_total_dropped_events = 0\<rparr>"
  have len: "length f = 128 + length (chunks_bytes (blocks bcs)) + length idx + 40" by (simp add: assms(4))
  then have t: "drop (length f - 40) f = ?t" by (simp add: assms(4))
  have "length bcs \<le> length (chunks_bytes (blocks bcs))"
    by (induction bcs) (auto simp: blocks_def)
  then have "read_chunks (Suc (length f)) lz4d f (128 + length (chunks_bytes (blocks bcs))) (Some 128) df =
      Ok (add_chunks 128 bcs df)" for df
    using assms(2,3) len by (intro read_chunks_blocks [of _ _ _ _ _ "idx @ ?t"]) (auto simp: assms(4))
  moreover have "u64 (128 + length (chunks_bytes (blocks bcs))) = 128 + length (chunks_bytes (blocks bcs))"
    using assms(3) by simp
  moreover have "fh_magic (decode_file_header f) = UBPF_FILE_MAGIC" "fh_node_id (decode_file_header f) = node_id"
    using decode_file_header_encode [OF assms(1)] by (simp_all add: assms(4))
  moreover have "\<not> length f < 128" "168 \<le> length f" using len by simp_all
  ultimately have "parse_ubpf_file lz4d f = Ok (Some (add_chunks 128 bcs ?df0)) \<and> fh_node_id (df_header ?df0) = node_id"
    by (simp add: parse_ubpf_file_def Let_def t decode_trailer_of del: read_chunks.simps)
  then show ?thesis by (intro exI [of _ ?df0]) simp
qed

text \<open>The records the trailer counts.\<close>

lemma blocks_records:
  "(\<Sum>x\<leftarrow>blocks (batch_blocks lz4 bs). ca_record_count (fst x)) = (\<Sum>b\<leftarrow>filter (\<lambda>b. fst b \<noteq> []) bs. u32 (fst (snd b)))"
  by (induction bs) (auto simp: blocks_def batch_blocks_def batch_args_def)

lemma batch_length:
  assumes "batch_ok b"
  shows "length (fst b) < 2 ^ 32"
proof -
  have "length ls \<le> length (concat (map logged_bytes ls))" for ls
  proof (induction ls)
    case (Cons l ls)
    have "0 < length (logged_bytes l)" by simp
    then have "1 + length ls \<le> length (logged_bytes l) + length (concat (map logged_bytes ls))"
      using Cons by linarith
    then show ?case by simp
  qed simp
  then show ?thesis using assms le_less_trans by (fastforce simp: batch_ok_def batch_data)
qed

lemma counted_records:
  assumes "list_all batch_ok bs" and "\<forall>b \<in> set bs. fst (snd b) = length (fst b)"
  shows "(\<Sum>b\<leftarrow>filter (\<lambda>b. fst b \<noteq> []) bs. u32 (fst (snd b))) = length (concat (map fst bs))"
proof -
  have "u32 (length (fst b)) = length (fst b)" if "b \<in> set bs" for b
    using batch_length [of b] assms(1) that by (simp add: list_all_iff u32_def)
  then show ?thesis using assms(2) by (induction bs) auto
qed

text \<open>The round trip through the writer and the reader.\<close>

lemma container_roundtrip:
  assumes wr: "no_write_fails wr" "trailer_write_whole wr" and lz: "lz4_ok lz4 lz4d"
    and node: "node_id < 2 ^ 32" and ok: "list_all batch_ok bs"
    and op: "cw_open wr True mono_ns wall_ns path job_id node_id hostname (cw_new d) = (True, w)"
    and ops: "accepted lz4 ops = accepted lz4 (concat (map batch_ops bs))"
    and size: "length (chunks_bytes (accepted lz4 ops)) < 2 ^ 63"
  shows "\<exists>df. parse_ubpf_file lz4d (cw_file (cw_close wr (cw_session lz4 wr ops w))) = Ok (Some df) \<and>
    df_events df = map (logged_event node_id) (concat (map fst bs)) \<and>
    (\<forall>ch \<in> set (df_chunks df). dc_crc_valid ch) \<and>
    (\<exists>t. df_trailer df = Some t \<and> total_chunks t = u32 (length (df_chunks df)) \<and>
      tr_total_records t = u64 (\<Sum>b\<leftarrow>filter (\<lambda>b. fst b \<noteq> []) bs. u32 (fst (snd b))) \<and>
      ((\<forall>b \<in> set bs. fst (snd b) = length (fst b)) \<longrightarrow> tr_total_records t = u64 (length (df_events df))))"
proof -
  let ?hdr = "encode_file_header (file_header_of mono_ns wall_ns job_id node_id hostname)"
  let ?bcs = "batch_blocks lz4 bs"
  have bok: "\<And>b. b \<in> set bs \<Longrightarrow> batch_ok b" using ok by (simp add: list_all_iff)
  have acc: "accepted lz4 ops = blocks ?bcs" using accepted_batches [OF lz bok] ops by simp
  have "cw_inv ?hdr [] w"
    by (rule cw_open_inv [OF op]) (simp add: cw_new_def)
  from cw_session_inv [OF wr(1) this, of lz4 ops]
  have "cw_inv ?hdr (blocks ?bcs) (cw_session lz4 wr ops w)" by (simp add: acc)
  from cw_close_file [OF wr this] obtain k where
    fl: "cw_file (cw_close wr (cw_session lz4 wr ops w)) =
      ?hdr @ chunks_bytes (blocks ?bcs) @ take k (concat (map encode_index_entry (index_of (length ?hdr) (blocks ?bcs)))) @
      encode_trailer (trailer_of ?hdr (blocks ?bcs))" by blast
  have "128 + length (chunks_bytes (blocks ?bcs)) + 64 < 2 ^ 64" using size by (simp add: acc)
  moreover have "\<And>x. x \<in> set ?bcs \<Longrightarrow> block_ok lz4d x" using batch_blocks_ok [OF lz bok] by blast
  ultimately have "\<exists>df0. parse_ubpf_file lz4d (cw_file (cw_close wr (cw_session lz4 wr ops w))) =
      Ok (Some (add_chunks 128 ?bcs df0)) \<and> df_events df0 = [] \<and> df_chunks df0 = [] \<and>
      fh_node_id (df_header df0) = node_id \<and>
      df_trailer df0 = Some (decode_trailer (encode_trailer (trailer_of ?hdr (blocks ?bcs))))"
    using fl by (intro parse_container [OF node]) auto
  then
  obtain df0 where df0: "parse_ubpf_file lz4d (cw_file (cw_close wr (cw_session lz4 wr ops w))) =
      Ok (Some (add_chunks 128 ?bcs df0))" "df_events df0 = []" "df_chunks df0 = []"
      "fh_node_id (df_header df0) = node_id"
      "df_trailer df0 = Some (decode_trailer (encode_trailer (trailer_of ?hdr (blocks ?bcs))))"
    by blast
  have "length (blocks ?bcs) = length ?bcs" by (simp add: blocks_def)
  then show ?thesis
    using df0 counted_records [OF ok]
    by (simp add: add_chunks_sel concat_batch_blocks decode_trailer_of blocks_records)
qed

text \<open>C11: Round trip. Open a container, write any batches of logged events with the counters and
  times of \<open>swap_and_flush\<close>, flushing after each, and close it: \<open>parse_ubpf_file\<close> accepts the file and
  returns exactly the logged events, in their order, each with its time, its 16-bit rank, its type,
  the node and the text of its payload, that is, a textual payload without the line breaks and NULs
  at its end, and for any other one the line that stands for it (\<open>payload_text\<close>). Every chunk's
  checksum is valid, and the trailer is found and counts the chunks and the records passed with
  them, which are the events read when each batch is passed with its number of events (the worker
  passes its running totals instead, so that its trailers count events repeatedly). The system may split the writes of staged bytes and of the index. This holds of runs in which no call of
  \<open>write\<close> fails and that of the trailer is not short; after a failed write chunks are lost (see
  \<open>container_lost_chunk\<close>). A batch has at most \<open>LZ4_MAX_INPUT_SIZE\<close> bytes, the chunks together less
  than \<open>2 ^ 63\<close>, and LZ4 is taken to do what it documents.\<close>
theorem cat_roundtrip:
  assumes wr: "no_write_fails wr" "trailer_write_whole wr" and lz: "lz4_ok lz4 lz4d"
    and node: "node_id < 2 ^ 32" and ok: "list_all batch_ok bs"
    and op: "cw_open wr True mono_ns wall_ns path job_id node_id hostname (cw_new d) = (True, w)"
    and size: "length (chunks_bytes (accepted lz4 (concat (map batch_ops bs)))) < 2 ^ 63"
  shows "\<exists>df. parse_ubpf_file lz4d (cw_file (cw_close wr (cw_session lz4 wr (concat (map batch_ops bs)) w))) = Ok (Some df) \<and>
    df_events df = map (logged_event node_id) (concat (map fst bs)) \<and>
    (\<forall>ch \<in> set (df_chunks df). dc_crc_valid ch) \<and>
    (\<exists>t. df_trailer df = Some t \<and> total_chunks t = u32 (length (df_chunks df)) \<and>
      tr_total_records t = u64 (\<Sum>b\<leftarrow>filter (\<lambda>b. fst b \<noteq> []) bs. u32 (fst (snd b))) \<and>
      ((\<forall>b \<in> set bs. fst (snd b) = length (fst b)) \<longrightarrow> tr_total_records t = u64 (length (df_events df))))"
  by (rule container_roundtrip [OF wr lz node ok op refl size])

text \<open>A batch of two events and a compressor that stores, for the witness.\<close>

definition sample_batch :: batch where
  "sample_batch = ([(3, 1, 10, [104, 105, 10]), (4, 1, 20, [111, 107])], 2, 0, 5, 9)"

lemma store_ok: "lz4_ok Some (\<lambda>c n. Some c)"
  by (simp add: lz4_ok_def)

lemma sample_batch_ok: "list_all batch_ok [sample_batch]"
  by (simp add: sample_batch_def batch_ok_def logged_ok_def batch_args_def logged_bytes_def)

lemma open_new_true:
  "fst (cw_open whole_write True m w path j n h (cw_new ()))"
  by (rule whole_open) (simp add: cw_new_def)

theorem cat_roundtrip_witness:
  "let w = snd (cw_open whole_write True 7 8 ''t.ubpt'' 1 2 None (cw_new ()));
       f = cw_file (cw_close whole_write (cw_session Some whole_write (concat (map batch_ops [sample_batch])) w))
   in list_all batch_ok [sample_batch] \<and> lz4_ok Some (\<lambda>c n. Some c) \<and>
     (\<exists>df. parse_ubpf_file (\<lambda>c n. Some c) f = Ok (Some df) \<and>
       map ev_payload (df_events df) = [[104, 105], [111, 107]] \<and> map ev_rank (df_events df) = [3, 4])"
proof -
  define w where "w = snd (cw_open whole_write True 7 8 ''t.ubpt'' 1 2 None (cw_new ()))"
  have op: "cw_open whole_write True 7 8 ''t.ubpt'' 1 2 None (cw_new ()) = (True, w)"
    using open_new_true [of 7 8 "''t.ubpt''" 1 2 None] by (simp add: w_def prod_eq_iff)
  have size: "length (chunks_bytes (accepted Some (concat (map batch_ops [sample_batch])))) < 2 ^ 63"
    by (simp add: batch_ops_def sample_batch_def batch_args_def logged_bytes_def)
  have "map ev_payload (map (logged_event 2) (concat (map fst [sample_batch]))) = [[104, 105], [111, 107]]"
      "map ev_rank (map (logged_event 2) (concat (map fst [sample_batch]))) = [3, 4]"
    by (simp_all add: sample_batch_def logged_event_def payload_text_def text_payload_def text_char_def)
  then show ?thesis
    using cat_roundtrip [OF whole_write_ok store_ok _ sample_batch_ok op size] sample_batch_ok
    unfolding w_def [symmetric] Let_def by (auto simp: store_ok)
qed

section \<open>Damaged files\<close>

text \<open>C39: A container that ends inside the block of a chunk, as it does when the traced program is
  killed during a write, is not read safely: after the short read the stream's position is \<open>-1\<close>, the
  loop condition still holds, and the next chunk header is used without having been read. Here the
  file has the header and one chunk header, and not all of the block that it announces.\<close>
theorem cat_truncated_block:
  assumes "fh_magic (decode_file_header f) = UBPF_FILE_MAGIC" and "192 \<le> length f"
    and "trailer_magic (decode_trailer (drop (length f - 40) f)) \<noteq> UBPF_TRAILER_MAGIC"
    and "chunk_magic (decode_chunk_header (drop 128 f)) = UBPF_CHUNK_MAGIC"
    and "length f < 192 + compressed_size (decode_chunk_header (drop 128 f))"
  shows "parse_ubpf_file lz4d f = UB"
proof -
  have "read_chunks (Suc (length f)) lz4d f (length f) (Some 128) df = UB" for df
  proof (cases "chunk_step lz4d f 128 df")
    case (Ok x)
    obtain df' pos where x: "x = (df', pos)" by (cases x)
    have "pos = None" using Ok x assms(5) by (auto simp: chunk_step_def Let_def bind_out_Ok split: option.splits if_splits)
    moreover obtain k where "length f = Suc k" using assms(2) by (cases "length f") auto
    ultimately show ?thesis using Ok x assms(2,4) by auto
  qed (use chunk_step_returns [of lz4d f 128 df] assms(2,4) in \<open>auto simp: ok_or_ub_def\<close>)
  then show ?thesis using assms by (simp add: parse_ubpf_file_def Let_def del: read_chunks.simps)
qed

theorem cat_truncated_block_witness:
  "let f = encode_file_header (file_header_of 7 8 1 2 None) @
         encode_chunk_header (chunk_header_of (batch_args sample_batch) [1])
   in length f = 192 \<and> parse_ubpf_file (\<lambda>c n. None) f = UB"
proof -
  let ?c = "encode_chunk_header (chunk_header_of (batch_args sample_batch) [1])"
  let ?f = "encode_file_header (file_header_of 7 8 1 2 None) @ ?c"
  have d: "drop 128 ?f = ?c" by simp
  have ch: "decode_chunk_header ?c = chunk_header_of (batch_args sample_batch) [1]"
    using decode_chunk_header_encode [of sample_batch "[1]" "[]"] sample_batch_ok by simp
  have "get_le (drop 152 ?f) 32 8 = 0"
    by (simp add: get_le_def encode_chunk_header_def drop_Cons' replicate_numeral)
  then have "trailer_magic (decode_trailer (drop (length ?f - 40) ?f)) \<noteq> UBPF_TRAILER_MAGIC"
    by (simp add: decode_trailer_def container_consts)
  moreover have "chunk_magic (chunk_header_of (batch_args sample_batch) [1]) = UBPF_CHUNK_MAGIC"
      "compressed_size (chunk_header_of (batch_args sample_batch) [1]) = 1"
    by (simp_all add: chunk_header_of_def)
  ultimately show ?thesis
    using cat_truncated_block [of ?f] decode_file_header_encode(1) [of 2 7 8 1 None ?c]
    by (simp add: d ch)
qed

end
