(* ===== verification/Trace_Merge.thy ===== *)
theory Trace_Merge
  imports Ubpftrace_Cat
begin

text \<open>
  The merge of several containers, \<open>merge_and_dump_events\<close> of \<open>ubpftrace_cat.cpp\<close>: a priority queue
  holds one cursor per file. Which of several cursors with the least time \<open>top\<close> returns is not
  specified by \<open>std::priority_queue\<close>, so the choice is the parameter \<open>pick\<close>. The formatting of a
  line is not modelled; the result is the sequence of printed events.
\<close>

section \<open>The loop\<close>

record cursor =
  file_idx :: nat
  event_idx :: nat
  cursor_ns :: nat

definition event_at :: "DecodedEvent list list \<Rightarrow> cursor \<Rightarrow> DecodedEvent" where
  "event_at files c = files ! file_idx c ! event_idx c"

definition cursor_at :: "DecodedEvent list list \<Rightarrow> nat \<Rightarrow> nat \<Rightarrow> cursor" where
  "cursor_at files f e = \<lparr>file_idx = f, event_idx = e, cursor_ns = ev_timestamp_ns (files ! f ! e)\<rparr>"

definition initial_cursors :: "DecodedEvent list list \<Rightarrow> cursor list" where
  "initial_cursors files = map (\<lambda>f. cursor_at files f 0) (filter (\<lambda>f. files ! f \<noteq> []) [0..<length files])"

primrec merge_loop :: "nat \<Rightarrow> (cursor list \<Rightarrow> nat) \<Rightarrow> DecodedEvent list list \<Rightarrow> cursor list \<Rightarrow> cursor list outcome" where
  "merge_loop 0 pick files pq = NoReturn"
| "merge_loop (Suc fuel) pick files pq =
     (if pq = [] then Ok []
      else let i = pick pq; cur = pq ! i; rest = take i pq @ drop (Suc i) pq in
        bind_out (merge_loop fuel pick files
          (if event_idx cur + 1 < length (files ! file_idx cur)
           then rest @ [cursor_at files (file_idx cur) (event_idx cur + 1)] else rest))
        (\<lambda>cs. Ok (cur # cs)))"

definition merge_order :: "(cursor list \<Rightarrow> nat) \<Rightarrow> DecodedEvent list list \<Rightarrow> cursor list outcome" where
  "merge_order pick files = merge_loop (Suc (length (concat files))) pick files (initial_cursors files)"

definition merge_and_dump_events :: "(cursor list \<Rightarrow> nat) \<Rightarrow> DecodedEvent list list \<Rightarrow> DecodedEvent list outcome" where
  "merge_and_dump_events pick files = bind_out (merge_order pick files) (\<lambda>cs. Ok (map (event_at files) cs))"

text \<open>The plain dump, and the choice that \<open>main\<close> makes between the two.\<close>

definition dump_events :: "DecodedEvent list list \<Rightarrow> DecodedEvent list" where
  "dump_events files = concat files"

definition print_events :: "bool \<Rightarrow> (cursor list \<Rightarrow> nat) \<Rightarrow> DecodedEvent list list \<Rightarrow> DecodedEvent list outcome" where
  "print_events opt_merge pick files =
     (if opt_merge \<or> 1 < length files then merge_and_dump_events pick files else Ok (dump_events files))"

text \<open>The documented behaviour of the queue: the top is an element with the least time.\<close>

definition pq_ok :: "(cursor list \<Rightarrow> nat) \<Rightarrow> bool" where
  "pq_ok pick = (\<forall>q. q \<noteq> [] \<longrightarrow> pick q < length q \<and> (\<forall>c \<in> set q. cursor_ns (q ! pick q) \<le> cursor_ns c))"

section \<open>The invariant of the queue\<close>

definition pq_inv :: "DecodedEvent list list \<Rightarrow> cursor list \<Rightarrow> bool" where
  "pq_inv files pq = (distinct (map file_idx pq) \<and>
     (\<forall>c \<in> set pq. file_idx c < length files \<and> event_idx c < length (files ! file_idx c) \<and>
        c = cursor_at files (file_idx c) (event_idx c)))"

definition remaining :: "DecodedEvent list list \<Rightarrow> cursor list \<Rightarrow> nat" where
  "remaining files pq = (\<Sum>c\<leftarrow>pq. length (files ! file_idx c) - event_idx c)"

definition events_sorted :: "DecodedEvent list list \<Rightarrow> bool" where
  "events_sorted files = (\<forall>evs \<in> set files. sorted (map ev_timestamp_ns evs))"

text \<open>What the cursors \<open>cs\<close> that come out have of file \<open>f\<close>.\<close>

definition file_part :: "nat \<Rightarrow> cursor list \<Rightarrow> nat list" where
  "file_part f cs = map event_idx (filter (\<lambda>c. file_idx c = f) cs)"

definition merge_result :: "DecodedEvent list list \<Rightarrow> cursor list \<Rightarrow> cursor list \<Rightarrow> bool" where
  "merge_result files pq cs =
     ((\<forall>c \<in> set pq. file_part (file_idx c) cs = [event_idx c..<length (files ! file_idx c)]) \<and>
      (\<forall>f. f \<notin> file_idx ` set pq \<longrightarrow> file_part f cs = []) \<and>
      (\<forall>c \<in> set cs. c = cursor_at files (file_idx c) (event_idx c)) \<and>
      (events_sorted files \<longrightarrow> sorted (map cursor_ns cs) \<and>
         (\<forall>t. (\<forall>c \<in> set pq. t \<le> cursor_ns c) \<longrightarrow> (\<forall>c \<in> set cs. t \<le> cursor_ns c))))"

lemma cursor_at_sel [simp]:
  "file_idx (cursor_at files f e) = f" "event_idx (cursor_at files f e) = e"
  "cursor_ns (cursor_at files f e) = ev_timestamp_ns (files ! f ! e)"
  by (simp_all add: cursor_at_def)

lemma take_drop_perm:
  assumes "i < length q" and "distinct (map file_idx q)"
  shows "set (take i q @ drop (Suc i) q) = set q - {q ! i}"
    and "file_idx ` set (take i q @ drop (Suc i) q) = file_idx ` set q - {file_idx (q ! i)}"
    and "distinct (map file_idx (take i q @ drop (Suc i) q))"
proof -
  have q: "q = take i q @ q ! i # drop (Suc i) q" using id_take_nth_drop [OF assms(1)] .
  have d: "distinct (map file_idx (take i q @ q ! i # drop (Suc i) q))" using assms(2) q by metis
  show "distinct (map file_idx (take i q @ drop (Suc i) q))" using d by auto
  have s: "set q = insert (q ! i) (set (take i q @ drop (Suc i) q))" by (subst q) auto
  have n: "file_idx (q ! i) \<notin> file_idx ` set (take i q @ drop (Suc i) q)" using d by auto
  show "set (take i q @ drop (Suc i) q) = set q - {q ! i}" using s n by auto
  show "file_idx ` set (take i q @ drop (Suc i) q) = file_idx ` set q - {file_idx (q ! i)}" using s n by auto
qed

text \<open>The queue after one turn of the loop.\<close>

definition next_queue :: "DecodedEvent list list \<Rightarrow> cursor list \<Rightarrow> nat \<Rightarrow> cursor list" where
  "next_queue files q i = (let cur = q ! i; rest = take i q @ drop (Suc i) q in
     if event_idx cur + 1 < length (files ! file_idx cur)
     then rest @ [cursor_at files (file_idx cur) (event_idx cur + 1)] else rest)"

lemma next_queue_set:
  assumes "i < length q" and "distinct (map file_idx q)"
  shows "set (next_queue files q i) = (set q - {q ! i}) \<union>
    (if event_idx (q ! i) + 1 < length (files ! file_idx (q ! i))
     then {cursor_at files (file_idx (q ! i)) (event_idx (q ! i) + 1)} else {})"
  using take_drop_perm(1) [OF assms] by (auto simp: next_queue_def Let_def)

lemma next_queue_inv:
  assumes i: "i < length q" and inv: "pq_inv files q"
  shows "pq_inv files (next_queue files q i)"
proof -
  have d: "distinct (map file_idx q)" using inv by (simp add: pq_inv_def)
  have "distinct (map file_idx (next_queue files q i))"
    using take_drop_perm(2,3) [OF i d] by (auto simp: next_queue_def Let_def)
  moreover have "file_idx c < length files \<and> event_idx c < length (files ! file_idx c) \<and>
      c = cursor_at files (file_idx c) (event_idx c)" if "c \<in> set (next_queue files q i)" for c
    using that inv nth_mem [OF i] by (auto simp: next_queue_set [OF i d] pq_inv_def split: if_splits)
  ultimately show ?thesis by (simp add: pq_inv_def)
qed

lemma next_queue_remaining:
  assumes i: "i < length q" and inv: "pq_inv files q"
  shows "Suc (remaining files (next_queue files q i)) = remaining files q"
proof -
  have "event_idx (q ! i) < length (files ! file_idx (q ! i))" using inv nth_mem [OF i] by (auto simp: pq_inv_def)
  moreover have "remaining files q = remaining files (take i q @ q ! i # drop (Suc i) q)"
    using id_take_nth_drop [OF i] by simp
  ultimately show ?thesis by (auto simp: next_queue_def Let_def remaining_def)
qed

lemma file_part_Cons: "file_part f (c # cs) = (if file_idx c = f then event_idx c # file_part f cs else file_part f cs)"
  by (simp add: file_part_def)

lemma merge_result_parts:
  assumes i: "i < length q" and inv: "pq_inv files q" and res: "merge_result files (next_queue files q i) cs"
  shows "\<forall>c \<in> set q. file_part (file_idx c) (q ! i # cs) = [event_idx c..<length (files ! file_idx c)]"
    and "f \<notin> file_idx ` set q \<Longrightarrow> file_part f (q ! i # cs) = []"
proof -
  let ?cur = "q ! i"
  have d: "distinct (map file_idx q)" and cur: "event_idx ?cur < length (files ! file_idx ?cur)"
    using inv nth_mem [OF i] by (auto simp: pq_inv_def)
  note set' = next_queue_set [OF i d, of files]
  have uniq: "c = ?cur" if "c \<in> set q" "file_idx c = file_idx ?cur" for c
    using that d nth_mem [OF i] by (auto simp: distinct_map dest: inj_onD)
  have mine: "file_part (file_idx ?cur) cs = [Suc (event_idx ?cur)..<length (files ! file_idx ?cur)]"
  proof (cases "event_idx ?cur + 1 < length (files ! file_idx ?cur)")
    case True
    then have "cursor_at files (file_idx ?cur) (event_idx ?cur + 1) \<in> set (next_queue files q i)"
      by (simp add: set')
    then show ?thesis using res by (auto simp: merge_result_def)
  next
    case False
    then have "file_idx ?cur \<notin> file_idx ` set (next_queue files q i)" using uniq by (auto simp: set')
    then show ?thesis using res False by (simp add: merge_result_def)
  qed
  show "\<forall>c \<in> set q. file_part (file_idx c) (?cur # cs) = [event_idx c..<length (files ! file_idx c)]"
  proof
    fix c assume c: "c \<in> set q"
    show "file_part (file_idx c) (?cur # cs) = [event_idx c..<length (files ! file_idx c)]"
    proof (cases "file_idx c = file_idx ?cur")
      case True
      then show ?thesis using uniq [OF c] mine cur by (simp add: file_part_Cons upt_conv_Cons)
    next
      case False
      then have "c \<in> set (next_queue files q i)" using c by (auto simp: set')
      then show ?thesis using res False by (auto simp: merge_result_def file_part_Cons)
    qed
  qed
  show "file_part f (?cur # cs) = []" if "f \<notin> file_idx ` set q"
  proof -
    have "f \<notin> file_idx ` set (next_queue files q i)" "f \<noteq> file_idx ?cur"
      using that nth_mem [OF i] by (auto simp: set' split: if_splits)
    then show ?thesis using res by (simp add: merge_result_def file_part_Cons)
  qed
qed

lemma next_queue_later:
  assumes i: "i < length q" and inv: "pq_inv files q" and least: "\<forall>c \<in> set q. cursor_ns (q ! i) \<le> cursor_ns c"
    and sorted: "events_sorted files" and c: "c \<in> set (next_queue files q i)"
  shows "cursor_ns (q ! i) \<le> cursor_ns c"
proof -
  let ?cur = "q ! i"
  have d: "distinct (map file_idx q)" and cur: "file_idx ?cur < length files"
      "?cur = cursor_at files (file_idx ?cur) (event_idx ?cur)"
    using inv nth_mem [OF i] by (auto simp: pq_inv_def)
  have ns: "cursor_ns ?cur = ev_timestamp_ns (files ! file_idx ?cur ! event_idx ?cur)"
    by (subst cur(2)) simp
  have "sorted (map ev_timestamp_ns (files ! file_idx ?cur))" using sorted cur(1) by (simp add: events_sorted_def)
  then have "event_idx ?cur + 1 < length (files ! file_idx ?cur) \<Longrightarrow>
      cursor_ns ?cur \<le> ev_timestamp_ns (files ! file_idx ?cur ! (event_idx ?cur + 1))"
    using sorted_nth_mono [of "map ev_timestamp_ns (files ! file_idx ?cur)" "event_idx ?cur" "event_idx ?cur + 1"]
    by (simp add: ns)
  then show ?thesis using c least by (auto simp: next_queue_set [OF i d] split: if_splits)
qed

lemma merge_result_Cons:
  assumes i: "i < length q" and inv: "pq_inv files q" and least: "\<forall>c \<in> set q. cursor_ns (q ! i) \<le> cursor_ns c"
    and res: "merge_result files (next_queue files q i) cs"
  shows "merge_result files q (q ! i # cs)"
proof -
  have "sorted (map cursor_ns (q ! i # cs)) \<and>
      (\<forall>t. (\<forall>c \<in> set q. t \<le> cursor_ns c) \<longrightarrow> (\<forall>c \<in> set (q ! i # cs). t \<le> cursor_ns c))" if "events_sorted files"
  proof -
    have ge: "\<forall>c \<in> set cs. cursor_ns (q ! i) \<le> cursor_ns c" and so: "sorted (map cursor_ns cs)"
      using res that next_queue_later [OF i inv least that] by (auto simp: merge_result_def)
    then show ?thesis using nth_mem [OF i] by (auto intro: order_trans)
  qed
  moreover have "\<forall>c \<in> set (q ! i # cs). c = cursor_at files (file_idx c) (event_idx c)"
    using res inv nth_mem [OF i] by (auto simp: merge_result_def pq_inv_def)
  ultimately show ?thesis
    using merge_result_parts [OF i inv res] unfolding merge_result_def by blast
qed

lemma merge_loop_result:
  assumes "pq_ok pick" and "pq_inv files q" and "remaining files q < fuel"
  shows "\<exists>cs. merge_loop fuel pick files q = Ok cs \<and> merge_result files q cs"
  using assms(2,3)
proof (induction fuel arbitrary: q)
  case (Suc fuel)
  show ?case
  proof (cases "q = []")
    case True
    then show ?thesis by (simp add: merge_result_def file_part_def)
  next
    case False
    then have i: "pick q < length q" "\<forall>c \<in> set q. cursor_ns (q ! pick q) \<le> cursor_ns c"
      using assms(1) by (auto simp: pq_ok_def)
    obtain cs where cs: "merge_loop fuel pick files (next_queue files q (pick q)) = Ok cs"
        "merge_result files (next_queue files q (pick q)) cs"
      using Suc.IH [OF next_queue_inv [OF i(1) Suc.prems(1)]] next_queue_remaining [OF i(1) Suc.prems(1)] Suc.prems(2)
      by auto
    have "merge_loop (Suc fuel) pick files q = Ok (q ! pick q # cs)"
      using False cs(1) by (simp add: Let_def next_queue_def)
    then show ?thesis using merge_result_Cons [OF i(1) Suc.prems(1) i(2) cs(2)] by blast
  qed
qed simp

lemma initial_cursors_inv: "pq_inv files (initial_cursors files)"
  by (auto simp: pq_inv_def initial_cursors_def o_def)

lemma initial_remaining: "remaining files (initial_cursors files) \<le> length (concat files)"
proof -
  have "remaining files (initial_cursors files) =
      (\<Sum>f\<leftarrow>filter (\<lambda>f. files ! f \<noteq> []) [0..<length files]. length (files ! f))"
    by (simp add: remaining_def initial_cursors_def o_def)
  also have "\<dots> \<le> (\<Sum>f\<leftarrow>[0..<length files]. length (files ! f))"
    by (rule sum_list_filter_le_nat)
  also have "\<dots> = length (concat files)"
  proof -
    have "map length files = map (\<lambda>f. length (files ! f)) [0..<length files]" by (rule nth_equalityI) simp_all
    then show ?thesis by (simp add: length_concat)
  qed
  finally show ?thesis .
qed

text \<open>C12: The merge prints every event of every file exactly once, those of one file in the file's
  order, and when each file's events are in the order of their times the whole output is. It ends,
  whichever of several cursors with the same time the priority queue returns.\<close>
theorem merge_correct:
  assumes "pq_ok pick"
  shows "\<exists>cs. merge_and_dump_events pick files = Ok (map (event_at files) cs) \<and>
    (\<forall>f<length files. file_part f cs = [0..<length (files ! f)]) \<and> (\<forall>c \<in> set cs. file_idx c < length files) \<and>
    (events_sorted files \<longrightarrow> sorted (map ev_timestamp_ns (map (event_at files) cs)))"
proof -
  obtain cs where cs: "merge_order pick files = Ok cs" "merge_result files (initial_cursors files) cs"
    using merge_loop_result [OF assms initial_cursors_inv] initial_remaining [of files]
    unfolding merge_order_def by (metis le_imp_less_Suc)
  have part: "file_part f cs = [0..<length (files ! f)]" if "f < length files" for f
  proof (cases "files ! f = []")
    case False
    then have "cursor_at files f 0 \<in> set (initial_cursors files)" using that by (auto simp: initial_cursors_def)
    then show ?thesis using cs(2) by (auto simp: merge_result_def)
  next
    case True
    then have "f \<notin> file_idx ` set (initial_cursors files)" by (auto simp: initial_cursors_def)
    then show ?thesis using cs(2) True by (simp add: merge_result_def)
  qed
  have "file_idx c < length files" if "c \<in> set cs" for c
  proof (rule ccontr)
    assume "\<not> file_idx c < length files"
    then have "file_part (file_idx c) cs = []"
      using cs(2) by (auto simp: merge_result_def initial_cursors_def)
    then show False using that by (auto simp: file_part_def filter_empty_conv)
  qed
  moreover have ts: "map ev_timestamp_ns (map (event_at files) cs) = map cursor_ns cs"
  proof -
    have "cursor_ns c = ev_timestamp_ns (event_at files c)" if "c \<in> set cs" for c
    proof -
      have "c = cursor_at files (file_idx c) (event_idx c)" using cs(2) that by (auto simp: merge_result_def)
      then have "cursor_ns c = cursor_ns (cursor_at files (file_idx c) (event_idx c))" by simp
      then show ?thesis by (simp add: event_at_def)
    qed
    then show ?thesis by simp
  qed
  moreover have "events_sorted files \<longrightarrow> sorted (map ev_timestamp_ns (map (event_at files) cs))"
    unfolding ts using cs(2) by (simp add: merge_result_def)
  ultimately show ?thesis using cs(1) part
    by (intro exI [of _ cs] conjI) (auto simp: merge_and_dump_events_def)
qed

text \<open>A queue that returns the first of the least cursors, for the witness.\<close>

definition pick_first :: "cursor list \<Rightarrow> nat" where
  "pick_first q = length (takeWhile (\<lambda>c. \<exists>d \<in> set q. cursor_ns d < cursor_ns c) q)"

lemma pick_first_ok: "pq_ok pick_first"
  unfolding pq_ok_def
proof (intro allI impI)
  fix q :: "cursor list" assume "q \<noteq> []"
  let ?P = "\<lambda>c. \<exists>d \<in> set q. cursor_ns d < cursor_ns c"
  have "Min (cursor_ns ` set q) \<in> cursor_ns ` set q" using \<open>q \<noteq> []\<close> by (intro Min_in) auto
  then obtain m where m: "m \<in> set q" "cursor_ns m = Min (cursor_ns ` set q)" by auto
  then have nm: "\<not> ?P m" by (auto simp: not_less)
  have ne: "takeWhile ?P q \<noteq> q"
  proof
    assume "takeWhile ?P q = q"
    then have "\<forall>x \<in> set q. ?P x" by simp
    with m(1) nm show False by blast
  qed
  have len: "pick_first q < length q"
  proof (rule ccontr)
    assume "\<not> pick_first q < length q"
    then have "take (pick_first q) q = q" by simp
    moreover have "takeWhile ?P q = take (pick_first q) q" unfolding pick_first_def by (rule takeWhile_eq_take)
    ultimately show False using ne by argo
  qed
  have "\<not> ?P (q ! pick_first q)" using len unfolding pick_first_def by (rule nth_length_takeWhile)
  then show "pick_first q < length q \<and> (\<forall>c \<in> set q. cursor_ns (q ! pick_first q) \<le> cursor_ns c)"
    using len by (auto simp: not_less)
qed

definition sample_event :: "nat \<Rightarrow> nat \<Rightarrow> DecodedEvent" where
  "sample_event t r = \<lparr>ev_timestamp_ns = t, ev_rank = r, ev_event_type = 1, ev_node_id = 0, ev_payload = []\<rparr>"

theorem merge_correct_witness:
  "let files = [[sample_event 1 0, sample_event 4 0], [], [sample_event 2 1, sample_event 3 1]]
   in pq_ok pick_first \<and> events_sorted files \<and>
     (\<exists>cs. merge_and_dump_events pick_first files = Ok (map (event_at files) cs) \<and>
       file_part 0 cs = [0, 1] \<and> file_part 1 cs = [] \<and> file_part 2 cs = [0, 1] \<and>
       sorted (map ev_timestamp_ns (map (event_at files) cs)))"
proof -
  let ?files = "[[sample_event 1 0, sample_event 4 0], [], [sample_event 2 1, sample_event 3 1]]"
  have s: "events_sorted ?files" by (simp add: events_sorted_def sample_event_def)
  obtain cs where cs: "merge_and_dump_events pick_first ?files = Ok (map (event_at ?files) cs)"
      "\<forall>f<length ?files. file_part f cs = [0..<length (?files ! f)]"
      "events_sorted ?files \<longrightarrow> sorted (map ev_timestamp_ns (map (event_at ?files) cs))"
    using merge_correct [OF pick_first_ok, of ?files] by blast
  have "file_part 0 cs = [0, 1]" "file_part 1 cs = []" "file_part 2 cs = [0, 1]"
    using cs(2) [rule_format, of 0] cs(2) [rule_format, of 1] cs(2) [rule_format, of 2] by simp_all
  then show ?thesis using cs(1,3) s pick_first_ok unfolding Let_def by blast
qed

end
