(* ===== verification/Json_Escape.thy ===== *)
theory Json_Escape
  imports Event_Record
begin

text \<open>
  The strings of the Chrome trace export of \<open>ubpftrace_cat.cpp\<close>: \<open>escape_json_string\<close> and the name of
  an event. A JSON reader gets back the bytes that were escaped.
\<close>

section \<open>Escaping\<close>

definition hex_digit :: "nat \<Rightarrow> byte" where
  "hex_digit n = (if n < 10 then of_nat (48 + n) else of_nat (87 + n))"

text \<open>One character: the seven short escapes, \<open>\u\<close> with four hexadecimal digits for the other control
  characters, the character itself otherwise.\<close>

definition escape_char :: "byte \<Rightarrow> bytes" where
  "escape_char c =
     (if c = 34 then [92, 34]
      else if c = 92 then [92, 92]
      else if c = 8 then [92, 98]
      else if c = 12 then [92, 102]
      else if c = 10 then [92, 110]
      else if c = 13 then [92, 114]
      else if c = 9 then [92, 116]
      else if unat c < 32 then [92, 117, 48, 48, hex_digit (unat c div 16), hex_digit (unat c mod 16)]
      else [c])"

definition escape_json_string :: "bytes \<Rightarrow> bytes" where
  "escape_json_string s = concat (map escape_char s)"

text \<open>The name of an exported event: the payload up to the first \<open>(\<close>, with two fallbacks.\<close>

definition chrome_event_name :: "bytes \<Rightarrow> nat \<Rightarrow> bytes" where
  "chrome_event_name payload ty =
     (let n = (if payload = [] then str_bytes ''trace_event'' else takeWhile (\<lambda>c. c \<noteq> 40) payload)
      in if n = [] then str_bytes ''event_'' @ dec_bytes ty else n)"

section \<open>A JSON reader\<close>

text \<open>The characters between the quotes of a JSON string, decoded; \<open>None\<close> when they are not allowed there.\<close>

definition hex_value :: "byte \<Rightarrow> nat option" where
  "hex_value c = (if 48 \<le> unat c \<and> unat c < 58 then Some (unat c - 48)
     else if 97 \<le> unat c \<and> unat c < 103 then Some (unat c - 87)
     else if 65 \<le> unat c \<and> unat c < 71 then Some (unat c - 55) else None)"

definition short_escape :: "byte \<Rightarrow> byte option" where
  "short_escape c = (if c = 34 \<or> c = 92 \<or> c = 47 then Some c
     else if c = 98 then Some 8 else if c = 102 then Some 12 else if c = 110 then Some 10
     else if c = 114 then Some 13 else if c = 116 then Some 9 else None)"

fun json_unescape :: "bytes \<Rightarrow> bytes option" where
  "json_unescape [] = Some []"
| "json_unescape (c # s) =
     (if c = 34 \<or> unat c < 32 then None
      else if c \<noteq> 92 then map_option ((#) c) (json_unescape s)
      else case s of
        [] \<Rightarrow> None
      | e # s' \<Rightarrow>
          if e = 117 then
            (case s' of a # b # d # f # s'' \<Rightarrow>
               (case (hex_value a, hex_value b, hex_value d, hex_value f) of
                  (Some 0, Some 0, Some x, Some y) \<Rightarrow> map_option ((#) (of_nat (16 * x + y))) (json_unescape s'')
                | _ \<Rightarrow> None)
             | _ \<Rightarrow> None)
          else case short_escape e of None \<Rightarrow> None | Some x \<Rightarrow> map_option ((#) x) (json_unescape s'))"

lemma hex_value_digit: "n < 16 \<Longrightarrow> hex_value (hex_digit n) = Some n"
proof -
  assume n: "n < 16"
  have "m < 256 \<Longrightarrow> unat (of_nat m :: byte) = m" for m by (simp add: unat_of_nat)
  from this [of "48 + n"] this [of "87 + n"] n show ?thesis
    by (auto simp: hex_value_def hex_digit_def simp del: of_nat_add)
qed

lemma unescape_char: "json_unescape (escape_char c @ s) = map_option ((#) c) (json_unescape s)"
proof -
  have hex: "hex_value (48 :: byte) = Some 0" by (simp add: hex_value_def)
  have c: "(of_nat (16 * (unat c div 16) + unat c mod 16) :: byte) = c" by simp
  show ?thesis
  proof (cases "unat c < 32")
    case True
    then have "unat c div 16 < 16" by simp
    then show ?thesis using True c
      by (auto simp: escape_char_def hex hex_value_digit short_escape_def)
  next
    case False
    then show ?thesis by (auto simp: escape_char_def short_escape_def)
  qed
qed

text \<open>C35: The escaped payload is the body of a valid JSON string, and a JSON reader decodes it to the
  payload, byte for byte; so no payload can break the structure of the exported file.\<close>
theorem json_roundtrip: "json_unescape (escape_json_string s) = Some s"
  by (induction s) (simp_all add: escape_json_string_def unescape_char del: json_unescape.simps(2))

end
