(* ===== verification/Micro_Streamer.thy ===== *)
theory Micro_Streamer
  imports Ubpftrace_Cat
begin

text \<open>
  The live text output of \<open>ubpf_micro_streamer.cpp\<close>: the records of a chunk are collected, sorted by
  time, rendered as lines into a batch buffer, and the buffer is written to standard output when it
  is large enough, after a timeout, or on request. \<open>ms_stdout\<close> is what was written so far; a call of
  \<open>fwrite\<close> on standard output is taken to write all its bytes. The theorems say that every logged
  record is printed once, sorted by time within its chunk, whatever the thresholds are.
\<close>

section \<open>The streamer\<close>

record ubpf_micro_streamer =
  ms_flush_timeout_ns :: nat
  ms_buffer_threshold_bytes :: nat
  ms_last_flush_ns :: nat
  ms_batch_buffer :: bytes
  ms_stdout :: bytes

definition micro_streamer_new :: "nat \<Rightarrow> nat \<Rightarrow> nat \<Rightarrow> bytes \<Rightarrow> ubpf_micro_streamer" where
  "micro_streamer_new now flush_timeout_ns buffer_threshold_bytes written =
     \<lparr>ms_flush_timeout_ns = flush_timeout_ns, ms_buffer_threshold_bytes = buffer_threshold_bytes,
      ms_last_flush_ns = now, ms_batch_buffer = [], ms_stdout = written\<rparr>"

definition ms_write_out :: "nat \<Rightarrow> ubpf_micro_streamer \<Rightarrow> ubpf_micro_streamer" where
  "ms_write_out now m = m\<lparr>ms_stdout := ms_stdout m @ ms_batch_buffer m, ms_batch_buffer := [], ms_last_flush_ns := now\<rparr>"

text \<open>
  The first loop of \<open>process_chunk\<close>: the offsets of the records in the first \<open>len\<close> bytes of \<open>buf\<close>. It
  stops at a record that is shorter than a header or runs over the end.
\<close>

function collect_records :: "bytes \<Rightarrow> nat \<Rightarrow> nat \<Rightarrow> nat list" where
  "collect_records buf len off =
     (if off + SIZEOF_RECORD_HEADER \<le> len then
        let rl = rh_record_len (decode_record_header (drop off buf))
        in if rl < SIZEOF_RECORD_HEADER \<or> len < off + rl then []
           else off # collect_records buf len (off + rl)
      else [])"
  by pat_completeness auto
termination
  by (relation "measure (\<lambda>(buf, len, off). Suc len - off)") (auto simp: SIZEOF_RECORD_HEADER_def)

declare collect_records.simps [simp del]

text \<open>
  One line. The payload is read at the length its header claims; \<open>snprintf\<close> has 128 bytes, and the
  \<open>n\<close> bytes copied after it would leave the array if the text were longer.
\<close>

definition summary_line :: "ubpf_event_record_header \<Rightarrow> bytes" where
  "summary_line h = str_bytes ''[Rank '' @ dec_bytes (rh_rank h) @ str_bytes '', EventType '' @
     dec_bytes (rh_event_type h) @ str_bytes '', TS '' @ dec_bytes (rh_timestamp_ns h) @
     str_bytes '' ns] Payload: '' @ dec_bytes (rh_payload_len h) @ str_bytes '' bytes'' @ [10]"

definition format_record :: "bytes \<Rightarrow> nat \<Rightarrow> bytes outcome" where
  "format_record buf off =
     (let h = decode_record_header (drop off buf) in
      if rh_event_type h = 1 then
        if 0 < rh_payload_len h then
          bind_out (of_option (read_at buf (off + SIZEOF_RECORD_HEADER) (rh_payload_len h)))
            (\<lambda>p. Ok (if last p = 10 then p else p @ [10]))
        else Ok []
      else if length (summary_line h) < 128 then Ok (summary_line h) else UB)"

primrec append_records :: "bytes \<Rightarrow> nat list \<Rightarrow> bytes \<Rightarrow> bytes outcome" where
  "append_records buf [] acc = Ok acc"
| "append_records buf (off # offs) acc = bind_out (format_record buf off) (\<lambda>l. append_records buf offs (acc @ l))"

text \<open>\<open>std::stable_sort\<close> by the time in the header.\<close>

definition process_chunk :: "nat \<Rightarrow> bytes \<Rightarrow> nat \<Rightarrow> ubpf_micro_streamer \<Rightarrow> ubpf_micro_streamer outcome" where
  "process_chunk now buf len m =
     (if len < SIZEOF_RECORD_HEADER then Ok m
      else let offs = collect_records buf len 0 in
        if offs = [] then Ok m
        else let sorted = (if 1 < length offs
               then sort_key (\<lambda>off. rh_timestamp_ns (decode_record_header (drop off buf))) offs else offs)
        in bind_out (append_records buf sorted (ms_batch_buffer m)) (\<lambda>b.
           let m' = m\<lparr>ms_batch_buffer := b\<rparr>
           in Ok (if ms_buffer_threshold_bytes m \<le> length b then ms_write_out now m' else m')))"

definition check_timer_and_flush :: "nat \<Rightarrow> ubpf_micro_streamer \<Rightarrow> ubpf_micro_streamer" where
  "check_timer_and_flush now m =
     (if ms_batch_buffer m = [] then m
      else if ms_flush_timeout_ns m \<le> u64 (now + (2 ^ 64 - ms_last_flush_ns m)) then ms_write_out now m else m)"

definition ms_flush :: "nat \<Rightarrow> ubpf_micro_streamer \<Rightarrow> ubpf_micro_streamer" where
  "ms_flush now m = (if ms_batch_buffer m \<noteq> [] then ms_write_out now m else m)"

definition ms_set_flush_timeout_ns :: "nat \<Rightarrow> ubpf_micro_streamer \<Rightarrow> ubpf_micro_streamer" where
  "ms_set_flush_timeout_ns ns m = m\<lparr>ms_flush_timeout_ns := ns\<rparr>"

definition ms_set_buffer_threshold_bytes :: "nat \<Rightarrow> ubpf_micro_streamer \<Rightarrow> ubpf_micro_streamer" where
  "ms_set_buffer_threshold_bytes n m = m\<lparr>ms_buffer_threshold_bytes := n\<rparr>"

section \<open>What has been handed over\<close>

text \<open>The text that was printed, and what still waits in the batch buffer.\<close>

definition ms_text :: "ubpf_micro_streamer \<Rightarrow> bytes" where
  "ms_text m = ms_stdout m @ ms_batch_buffer m"

lemma ms_text_simps [simp]:
  "ms_text (ms_write_out now m) = ms_text m" "ms_text (check_timer_and_flush now m) = ms_text m"
  "ms_text (ms_flush now m) = ms_text m" "ms_text (ms_set_flush_timeout_ns ns m) = ms_text m"
  "ms_text (ms_set_buffer_threshold_bytes n m) = ms_text m"
  by (simp_all add: ms_text_def ms_write_out_def check_timer_and_flush_def ms_flush_def
      ms_set_flush_timeout_ns_def ms_set_buffer_threshold_bytes_def)

lemma ms_flush_empties: "ms_batch_buffer (ms_flush now m) = []" "ms_stdout (ms_flush now m) = ms_text m"
  by (simp_all add: ms_flush_def ms_write_out_def ms_text_def)

section \<open>Chunks of logged records\<close>

text \<open>The line of a logged event.\<close>

definition logged_line :: "logged \<Rightarrow> bytes" where
  "logged_line l = (case l of (rank, ty, now, p) \<Rightarrow>
     if ty = 1 then (if p = [] then [] else if last p = 10 then p else p @ [10])
     else summary_line (event_header rank ty now (length p)))"

definition logged_time :: "logged \<Rightarrow> nat" where
  "logged_time l = (case l of (rank, ty, now, p) \<Rightarrow> now)"

text \<open>The offsets of the records in a chunk.\<close>

fun record_offsets :: "nat \<Rightarrow> logged list \<Rightarrow> nat list" where
  "record_offsets off [] = []"
| "record_offsets off (l # ls) = off # record_offsets (off + length (logged_bytes l)) ls"

lemma length_record_offsets [simp]: "length (record_offsets off ls) = length ls"
  by (induction ls arbitrary: off) simp_all

lemma record_offsets_at:
  assumes "i < length ls" and "length pre = off"
  shows "drop (record_offsets off ls ! i) (pre @ concat (map logged_bytes ls) @ post) =
      logged_bytes (ls ! i) @ concat (map logged_bytes (drop (Suc i) ls)) @ post"
  using assms
proof (induction ls arbitrary: i off pre)
  case (Cons l ls)
  show ?case
  proof (cases i)
    case (Suc j)
    have "drop (record_offsets (off + length (logged_bytes l)) ls ! j)
        ((pre @ logged_bytes l) @ concat (map logged_bytes ls) @ post) =
      logged_bytes (ls ! j) @ concat (map logged_bytes (drop (Suc j) ls)) @ post"
      by (rule Cons.IH) (use Cons.prems Suc in auto)
    then show ?thesis using Suc by simp
  qed (use Cons.prems in simp)
qed simp

lemma logged_length: "logged_ok l \<Longrightarrow> event_record_len (length (snd (snd (snd l)))) = length (logged_bytes l)"
  by (auto simp: logged_ok_def logged_bytes_def event_record_len_def SIZEOF_RECORD_HEADER_def split: prod.splits)

lemma collect_logged:
  assumes "\<And>l. l \<in> set ls \<Longrightarrow> logged_ok l" and "drop off buf = concat (map logged_bytes ls) @ post"
    and "len = off + length (concat (map logged_bytes ls))"
  shows "collect_records buf len off = record_offsets off ls"
  using assms
proof (induction ls arbitrary: off)
  case Nil
  then show ?case by (subst collect_records.simps) (simp add: SIZEOF_RECORD_HEADER_def)
next
  case (Cons l ls)
  obtain rank ty now p where l: "l = (rank, ty, now, p)" by (metis prod_cases4)
  have ok: "logged_ok l" using Cons.prems(1) by simp
  have h: "rh_record_len (decode_record_header (drop off buf)) = length (logged_bytes l)"
    using decode_record [OF ok, of "concat (map logged_bytes ls) @ post"] logged_length [OF ok]
    by (simp add: Cons.prems(2) l event_header_def)
  have "24 \<le> length (logged_bytes l)" by (simp add: l logged_bytes_def)
  moreover have "off + length (logged_bytes l) \<le> len" using Cons.prems(3) by simp
  ultimately have "collect_records buf len off = off # collect_records buf len (off + length (logged_bytes l))"
    by (subst collect_records.simps) (simp add: SIZEOF_RECORD_HEADER_def Let_def h)
  moreover have "drop (off + length (logged_bytes l)) buf = concat (map logged_bytes ls) @ post"
    using Cons.prems(2) by (metis add.commute append_eq_conv_conj append.assoc concat.simps(2) drop_drop list.simps(9))
  then have "collect_records buf len (off + length (logged_bytes l)) = record_offsets (off + length (logged_bytes l)) ls"
    using Cons.prems by (intro Cons.IH) auto
  ultimately show ?case by simp
qed

section \<open>The summary line fits\<close>

lemma length_dec_bytes: "n < 10 ^ Suc k \<Longrightarrow> length (dec_bytes n) \<le> Suc k"
proof (induction k arbitrary: n)
  case 0
  then show ?case by (simp add: dec_bytes.simps [of n])
next
  case (Suc k)
  then have "n div 10 < 10 ^ Suc k" by (simp add: less_mult_imp_div_less)
  from Suc.IH [OF this] show ?case by (subst dec_bytes.simps) simp
qed

lemma summary_line_fits:
  assumes "header_fits h"
  shows "length (summary_line h) < 128"
proof -
  have "length (dec_bytes (rh_rank h)) \<le> 5" "length (dec_bytes (rh_event_type h)) \<le> 5"
      "length (dec_bytes (rh_timestamp_ns h)) \<le> 20" "length (dec_bytes (rh_payload_len h)) \<le> 10"
    using assms length_dec_bytes [of "rh_rank h" 4] length_dec_bytes [of "rh_event_type h" 4]
      length_dec_bytes [of "rh_timestamp_ns h" 19] length_dec_bytes [of "rh_payload_len h" 9]
    by (simp_all add: header_fits_def)
  then show ?thesis by (simp add: summary_line_def str_bytes_def)
qed

lemma format_logged:
  assumes "logged_ok l" and "drop off buf = logged_bytes l @ rest" and "off \<le> length buf"
  shows "format_record buf off = Ok (logged_line l)"
    "rh_timestamp_ns (decode_record_header (drop off buf)) = logged_time l"
proof -
  obtain rank ty now p where l: "l = (rank, ty, now, p)" by (metis prod_cases4)
  have h: "decode_record_header (drop off buf) = event_header rank ty now (length p)"
    using decode_record [OF assms(1), of rest] by (simp add: assms(2) l)
  have fits: "length (summary_line (event_header rank ty now (length p))) < 128"
    using assms(1) by (intro summary_line_fits event_header_fits) (auto simp: l logged_ok_def)
  have "drop 24 (drop off buf) = p @ rest" unfolding assms(2) by (simp add: l logged_bytes_def event_record_def)
  then have d: "drop (off + 24) buf = p @ rest" by (simp add: add.commute)
  have "length buf = off + length (drop off buf)" using assms(3) by simp
  then have "off + 24 + length p \<le> length buf" by (simp add: assms(2) l logged_bytes_def)
  then have "read_at buf (off + 24) (length p) = Some p" by (simp add: read_at_def d)
  then show "format_record buf off = Ok (logged_line l)" using fits
    by (auto simp: format_record_def h event_header_def SIZEOF_RECORD_HEADER_def logged_line_def l Let_def)
  show "rh_timestamp_ns (decode_record_header (drop off buf)) = logged_time l"
    by (simp add: h event_header_def logged_time_def l)
qed

section \<open>Sorting offsets and sorting records\<close>

lemma insort_key_map: "insort_key f (g x) (map g ys) = map g (insort_key (\<lambda>a. f (g a)) x ys)"
  by (induction ys) simp_all

lemma sort_key_map: "sort_key f (map g xs) = map g (sort_key (\<lambda>a. f (g a)) xs)"
  by (induction xs) (simp_all add: insort_key_map)

lemma insort_key_eq: "(\<And>y. y \<in> set (x # ys) \<Longrightarrow> f y = g y) \<Longrightarrow> insort_key f x ys = insort_key g x ys"
  by (induction ys) auto

lemma sort_key_eq: "(\<And>y. y \<in> set xs \<Longrightarrow> f y = g y) \<Longrightarrow> sort_key f xs = sort_key g xs"
proof (induction xs)
  case (Cons x xs)
  then show ?case using insort_key_eq [of x "sort_key g xs" f g] by simp
qed simp

text \<open>Each offset with its record.\<close>

lemma append_pairs:
  assumes "\<And>off l. (off, l) \<in> set ps \<Longrightarrow> format_record buf off = Ok (logged_line l)"
  shows "append_records buf (map fst ps) acc = Ok (acc @ concat (map (\<lambda>p. logged_line (snd p)) ps))"
  using assms
proof (induction ps arbitrary: acc)
  case (Cons p ps)
  have f: "format_record buf (fst p) = Ok (logged_line (snd p))" by (rule Cons.prems) simp
  have "append_records buf (map fst ps) x = Ok (x @ concat (map (\<lambda>p. logged_line (snd p)) ps))" for x
    by (rule Cons.IH) (use Cons.prems in simp)
  then show ?case by (simp add: f)
qed simp

definition chunk_text :: "logged list \<Rightarrow> bytes" where
  "chunk_text ls = concat (map logged_line (sort_key logged_time ls))"

lemma append_sorted:
  assumes "\<And>l. l \<in> set ls \<Longrightarrow> logged_ok l" and "buf = concat (map logged_bytes ls) @ post"
  shows "append_records buf (sort_key (\<lambda>off. rh_timestamp_ns (decode_record_header (drop off buf))) (record_offsets 0 ls)) acc =
    Ok (acc @ chunk_text ls)"
proof -
  let ?ps = "zip (record_offsets 0 ls) ls" and ?t = "\<lambda>off. rh_timestamp_ns (decode_record_header (drop off buf))"
  have at: "\<exists>rest. drop off buf = logged_bytes l @ rest" "off \<le> length buf" "logged_ok l" if p: "(off, l) \<in> set ?ps" for off l
  proof -
    obtain i where i: "i < length ls" "off = record_offsets 0 ls ! i" "l = ls ! i"
      using p unfolding in_set_zip by auto
    then show *: "\<exists>rest. drop off buf = logged_bytes l @ rest"
      using record_offsets_at [OF i(1), of "[]" 0 post] by (simp add: assms(2))
    show "off \<le> length buf"
    proof (rule ccontr)
      assume "\<not> off \<le> length buf"
      then show False using * by simp
    qed
    show "logged_ok l" using assms(1) i by simp
  qed
  have f: "format_record buf off = Ok (logged_line l)" "?t off = logged_time l" if "(off, l) \<in> set ?ps" for off l
    using at [OF that] format_logged by blast+
  have "sort_key ?t (map fst ?ps) = map fst (sort_key (\<lambda>p. ?t (fst p)) ?ps)" by (rule sort_key_map)
  also have "sort_key (\<lambda>p. ?t (fst p)) ?ps = sort_key (\<lambda>p. logged_time (snd p)) ?ps"
    by (rule sort_key_eq) (use f(2) in auto)
  finally have s: "sort_key ?t (record_offsets 0 ls) = map fst (sort_key (\<lambda>p. logged_time (snd p)) ?ps)" by simp
  have "map snd ?ps = ls" by simp
  moreover have "sort_key logged_time (map snd ?ps) = map snd (sort_key (\<lambda>p. logged_time (snd p)) ?ps)" by (rule sort_key_map)
  ultimately have "chunk_text ls = concat (map (\<lambda>p. logged_line (snd p)) (sort_key (\<lambda>p. logged_time (snd p)) ?ps))"
    by (simp add: chunk_text_def comp_def)
  moreover have "append_records buf (map fst (sort_key (\<lambda>p. logged_time (snd p)) ?ps)) acc =
      Ok (acc @ concat (map (\<lambda>p. logged_line (snd p)) (sort_key (\<lambda>p. logged_time (snd p)) ?ps)))"
    by (rule append_pairs) (use f(1) in simp)
  ultimately show ?thesis by (simp add: s)
qed

lemma sort_key_short: "length xs \<le> 1 \<Longrightarrow> sort_key f xs = xs"
  by (cases xs) auto

lemma process_chunk_logged:
  assumes "\<And>l. l \<in> set ls \<Longrightarrow> logged_ok l" and "take len buf = concat (map logged_bytes ls)" and "len \<le> length buf"
  shows "\<exists>m'. process_chunk now buf len m = Ok m' \<and> ms_text m' = ms_text m @ chunk_text ls"
proof (cases ls)
  case Nil
  then have "len = 0" using assms(2,3) by auto
  then show ?thesis using Nil by (simp add: process_chunk_def SIZEOF_RECORD_HEADER_def chunk_text_def)
next
  case (Cons l ls')
  have buf: "buf = concat (map logged_bytes ls) @ drop len buf" using assms(2) by (metis append_take_drop_id)
  have len: "len = length (concat (map logged_bytes ls))" using arg_cong [OF assms(2), of length] assms(3) by simp
  have c: "collect_records buf len 0 = record_offsets 0 ls"
    by (rule collect_logged [of ls 0 buf "drop len buf"]) (use assms(1) buf len in auto)
  have "24 \<le> len" unfolding len by (simp add: Cons logged_bytes_def split: prod.split)
  let ?t = "\<lambda>off. rh_timestamp_ns (decode_record_header (drop off buf))"
  let ?s = "if 1 < length (record_offsets 0 ls) then sort_key ?t (record_offsets 0 ls) else record_offsets 0 ls"
  have "?s = sort_key ?t (record_offsets 0 ls)" using sort_key_short [of "record_offsets 0 ls" ?t] by auto
  then have "append_records buf ?s (ms_batch_buffer m) = Ok (ms_batch_buffer m @ chunk_text ls)"
    using append_sorted [OF assms(1) buf, of "ms_batch_buffer m"] by simp
  moreover have "record_offsets 0 ls \<noteq> []" by (simp add: Cons)
  ultimately show ?thesis using \<open>24 \<le> len\<close>
    by (simp add: process_chunk_def c SIZEOF_RECORD_HEADER_def Let_def ms_text_def ms_write_out_def)
qed

section \<open>Runs\<close>

text \<open>What the worker asks of the streamer: a chunk, the periodic check, a flush; each with the time it reads.\<close>

datatype ms_op = Chunk nat bytes nat | Timer nat | Flush nat | SetTimeout nat | SetThreshold nat

primrec ms_step :: "ms_op \<Rightarrow> ubpf_micro_streamer \<Rightarrow> ubpf_micro_streamer outcome" where
  "ms_step (Chunk now buf len) m = process_chunk now buf len m"
| "ms_step (Timer now) m = Ok (check_timer_and_flush now m)"
| "ms_step (Flush now) m = Ok (ms_flush now m)"
| "ms_step (SetTimeout ns) m = Ok (ms_set_flush_timeout_ns ns m)"
| "ms_step (SetThreshold n) m = Ok (ms_set_buffer_threshold_bytes n m)"

primrec ms_run :: "ms_op list \<Rightarrow> ubpf_micro_streamer \<Rightarrow> ubpf_micro_streamer outcome" where
  "ms_run [] m = Ok m"
| "ms_run (p # ps) m = bind_out (ms_step p m) (ms_run ps)"

text \<open>The calls carry the logged records of their chunks.\<close>

inductive ms_carries :: "ms_op list \<Rightarrow> logged list list \<Rightarrow> bool" where
  "ms_carries [] []"
| "\<forall>l \<in> set ls. logged_ok l \<Longrightarrow> take len buf = concat (map logged_bytes ls) \<Longrightarrow> len \<le> length buf \<Longrightarrow>
    ms_carries ps lss \<Longrightarrow> ms_carries (Chunk now buf len # ps) (ls # lss)"
| "ms_carries ps lss \<Longrightarrow> ms_carries (Timer now # ps) lss"
| "ms_carries ps lss \<Longrightarrow> ms_carries (Flush now # ps) lss"
| "ms_carries ps lss \<Longrightarrow> ms_carries (SetTimeout ns # ps) lss"
| "ms_carries ps lss \<Longrightarrow> ms_carries (SetThreshold n # ps) lss"

lemma ms_run_text:
  assumes "ms_carries ps lss"
  shows "\<exists>m'. ms_run ps m = Ok m' \<and> ms_text m' = ms_text m @ concat (map chunk_text lss)"
  using assms
proof (induction arbitrary: m)
  case (2 ls len buf ps lss now)
  obtain m1 where m1: "process_chunk now buf len m = Ok m1" "ms_text m1 = ms_text m @ chunk_text ls"
    using process_chunk_logged [of ls len buf now m] 2(1-3) by blast
  obtain m2 where "ms_run ps m1 = Ok m2" "ms_text m2 = ms_text m1 @ concat (map chunk_text lss)" using 2 by blast
  then show ?case using m1 by simp
next
  case (3 ps lss now)
  then show ?case by (metis bind_out.simps(1) ms_run.simps(2) ms_step.simps(2) ms_text_simps(2))
next
  case (4 ps lss now)
  then show ?case by (metis bind_out.simps(1) ms_run.simps(2) ms_step.simps(3) ms_text_simps(3))
next
  case (5 ps lss ns)
  then show ?case by (metis bind_out.simps(1) ms_run.simps(2) ms_step.simps(4) ms_text_simps(4))
next
  case (6 ps lss n)
  then show ?case by (metis bind_out.simps(1) ms_run.simps(2) ms_step.simps(5) ms_text_simps(5))
qed simp

lemma ms_run_append: "ms_run (ps @ qs) m = bind_out (ms_run ps m) (ms_run qs)"
proof (induction ps arbitrary: m)
  case (Cons p ps)
  then show ?case by (cases "ms_step p m") simp_all
qed simp

text \<open>C32: Live output is complete. However the calls of the worker and the changes of the timeout and the threshold fall,
  after a final flush standard output has exactly the lines of the logged records, chunk after chunk and
  sorted by time within a chunk, records of equal time in the order they were logged; nothing is
  printed twice, and no call reads outside its buffer.\<close>
theorem stream_complete:
  assumes "ms_carries ps lss"
  shows "\<exists>m. ms_run (ps @ [Flush now]) (micro_streamer_new t timeout threshold []) = Ok m \<and>
    ms_stdout m = concat (map (\<lambda>ls. concat (map logged_line (sort_key logged_time ls))) lss) \<and> ms_batch_buffer m = []"
proof -
  obtain m where "ms_run ps (micro_streamer_new t timeout threshold []) = Ok m"
      "ms_text m = concat (map chunk_text lss)"
    using ms_run_text [OF assms, of "micro_streamer_new t timeout threshold []"]
    by (auto simp: ms_text_def micro_streamer_new_def)
  then show ?thesis by (simp add: ms_run_append ms_flush_empties chunk_text_def [abs_def])
qed

text \<open>Two ranks whose records were reserved in the other order than their times.\<close>

definition late_early :: "logged list" where
  "late_early = [(3, 1, 20, [104, 105]), (4, 1, 10, [111, 107, 10])]"

theorem stream_complete_witness:
  "let buf = concat (map logged_bytes late_early) in
   ms_carries [Chunk 5 buf (length buf), Timer 6] [late_early] \<and>
   (\<exists>m. ms_run ([Chunk 5 buf (length buf), Timer 6] @ [Flush 7]) (micro_streamer_new 0 20000000 8192 []) = Ok m \<and>
     ms_stdout m = [111, 107, 10, 104, 105, 10])"
proof -
  let ?buf = "concat (map logged_bytes late_early)"
  have c: "ms_carries [Chunk 5 ?buf (length ?buf), Timer 6] [late_early]"
    by (intro ms_carries.intros) (simp_all add: late_early_def logged_ok_def)
  have "concat (map (\<lambda>ls. concat (map logged_line (sort_key logged_time ls))) [late_early]) = [111, 107, 10, 104, 105, 10]"
    by (simp add: late_early_def logged_line_def logged_time_def)
  with stream_complete [OF c, of 7 0 20000000 8192] c show ?thesis unfolding Let_def by metis
qed

end
