(* ===== verification/Io_Worker.thy ===== *)
theory Io_Worker
  imports Micro_Streamer Shm_Buffer
begin

text \<open>
  The flush worker around the swap of the buffers (\<open>ubpf_async_io_worker.cpp\<close>): when a turn of its loop
  flushes, and what a flush does with the bytes of the buffer: they go to the live streamer, and with
  the counters of all ranks to the container writer. The accesses to shared memory of the swap itself
  are steps of \<open>Shm_Buffer\<close>; here a flush is given the bytes it read. The lemmas say which chunks reach
  the writer and which text the streamer, over any number of flushes.
\<close>

section \<open>The worker\<close>

text \<open>The exporter that \<open>worker_loop\<close> also calls writes a file of its own and is left out.\<close>

record 'd ubpf_async_io_worker =
  aw_running :: bool
  aw_stop_requested :: bool
  aw_force_flush_requested :: bool
  aw_high_watermark_bytes :: nat
  aw_soft_timer_ns :: nat
  aw_last_flush_ns :: nat
  aw_writer :: "'d ubpf_container_writer option"
  aw_streamer :: "ubpf_micro_streamer option"

text \<open>\<open>start\<close> refuses a null segment and a second start; a start reads the clock and clears the requests.\<close>

definition worker_start :: "bool \<Rightarrow> nat \<Rightarrow> 'd ubpf_container_writer option \<Rightarrow> ubpf_micro_streamer option \<Rightarrow>
    nat \<Rightarrow> nat \<Rightarrow> 'd ubpf_async_io_worker \<Rightarrow> bool \<times> 'd ubpf_async_io_worker" where
  "worker_start have_shm now wr st high_watermark_bytes soft_timer_ns a =
     (if \<not> have_shm \<or> aw_running a then (False, a)
      else (True, \<lparr>aw_running = True, aw_stop_requested = False, aw_force_flush_requested = False,
        aw_high_watermark_bytes = high_watermark_bytes, aw_soft_timer_ns = soft_timer_ns,
        aw_last_flush_ns = now, aw_writer = wr, aw_streamer = st\<rparr>))"

definition trigger_force_flush :: "'d ubpf_async_io_worker \<Rightarrow> 'd ubpf_async_io_worker" where
  "trigger_force_flush a = a\<lparr>aw_force_flush_requested := True\<rparr>"

text \<open>
  One turn of \<open>worker_loop\<close>: the occupancy of the active buffer and the time since the last flush
  decide whether \<open>swap_and_flush\<close> is called, and with which argument; the request is consumed.
\<close>

definition worker_turn :: "ubpf_node_shm_header \<Rightarrow> nat \<Rightarrow> 'd ubpf_async_io_worker \<Rightarrow>
    bool option \<times> 'd ubpf_async_io_worker" where
  "worker_turn s now a =
     (let occupancy = write_offset (buffers s (epoch_idx (active_epoch_buffer s)));
          elapsed_ns = u64 (now + (2 ^ 64 - aw_last_flush_ns a));
          watermark_triggered = aw_high_watermark_bytes a \<le> occupancy;
          timer_triggered = (aw_soft_timer_ns a \<le> elapsed_ns \<and> 0 < occupancy);
          force_triggered = aw_force_flush_requested a;
          a' = a\<lparr>aw_streamer := map_option (check_timer_and_flush now) (aw_streamer a), aw_force_flush_requested := False\<rparr>
      in (if watermark_triggered \<or> timer_triggered \<or> force_triggered then Some force_triggered else None, a'))"

section \<open>What a flush hands on\<close>

text \<open>The counters of all ranks, added up in 64 bits.\<close>

definition total_stat :: "(PerRankStats \<Rightarrow> nat) \<Rightarrow> ubpf_node_shm_header \<Rightarrow> nat" where
  "total_stat f s = foldl (\<lambda>t r. u64 (t + f (rank_stats s r))) 0 [0..<MAX_LOCAL_RANKS]"

definition flush_args :: "ubpf_node_shm_header \<Rightarrow> bytes \<Rightarrow> nat \<Rightarrow> nat \<Rightarrow> chunk_args" where
  "flush_args s data prev now =
     \<lparr>ca_type = CHUNK_TYPE_EVENT_STREAM, ca_data = data, ca_record_count = u32 (total_stat recorded_events s),
      ca_dropped_count = u32 (total_stat dropped_events s), ca_start_ns = prev, ca_end_ns = now\<rparr>"

text \<open>
  The third part of \<open>swap_and_flush\<close>, on the first \<open>len\<close> bytes of the buffer \<open>buf\<close>; \<open>now\<close> is the time the
  streamer and the worker read.
\<close>

definition dispatch_chunk :: "(bytes \<Rightarrow> bytes option) \<Rightarrow> 'd write_call \<Rightarrow> ubpf_node_shm_header \<Rightarrow> bytes \<Rightarrow> nat \<Rightarrow>
    nat \<Rightarrow> 'd ubpf_async_io_worker \<Rightarrow> 'd ubpf_async_io_worker outcome" where
  "dispatch_chunk lz4 wr s buf len now a =
     (if len = 0 then Ok a
      else bind_out (case aw_streamer a of None \<Rightarrow> Ok None | Some m \<Rightarrow> bind_out (process_chunk now buf len m) (\<lambda>m'. Ok (Some m')))
        (\<lambda>st. Ok (a\<lparr>aw_streamer := st,
            aw_writer := map_option (\<lambda>w. cw_flush wr (snd (write_chunk lz4 wr
              (flush_args s (take len buf) (aw_last_flush_ns a) now) w))) (aw_writer a),
            aw_last_flush_ns := now\<rparr>)))"

text \<open>What \<open>stop\<close> does after its last flush: the staged bytes of the writer and the batch of the streamer.\<close>

definition worker_finish :: "'d write_call \<Rightarrow> nat \<Rightarrow> 'd ubpf_async_io_worker \<Rightarrow> 'd ubpf_async_io_worker" where
  "worker_finish wr now a = a\<lparr>aw_running := False, aw_stop_requested := True,
     aw_writer := map_option (cw_flush wr) (aw_writer a), aw_streamer := map_option (ms_flush now) (aw_streamer a)\<rparr>"

text \<open>A flush: the segment when its counters were read, the buffer, the length read, the time.\<close>

type_synonym flush = "ubpf_node_shm_header \<times> bytes \<times> nat \<times> nat"

primrec run_flushes :: "(bytes \<Rightarrow> bytes option) \<Rightarrow> 'd write_call \<Rightarrow> flush list \<Rightarrow> 'd ubpf_async_io_worker \<Rightarrow>
    'd ubpf_async_io_worker outcome" where
  "run_flushes lz4 wr [] a = Ok a"
| "run_flushes lz4 wr (x # xs) a = (case x of (s, buf, len, now) \<Rightarrow>
     bind_out (dispatch_chunk lz4 wr s buf len now a) (run_flushes lz4 wr xs))"

section \<open>Flushes of logged records\<close>

text \<open>A flush whose bytes are the records \<open>ls\<close>.\<close>

definition flush_of :: "logged list \<Rightarrow> flush \<Rightarrow> bool" where
  "flush_of ls x = (case x of (s, buf, len, now) \<Rightarrow> take len buf = concat (map logged_bytes ls) \<and> len \<le> length buf \<and>
     now < 2 ^ 64)"

text \<open>The batches that reach the writer, with the times and counters of their flushes.\<close>

fun flush_batches :: "nat \<Rightarrow> logged list list \<Rightarrow> flush list \<Rightarrow> batch list" where
  "flush_batches prev (ls # lss) ((s, buf, len, now) # xs) =
     (if ls = [] then flush_batches prev lss xs
      else (ls, total_stat recorded_events s, total_stat dropped_events s, prev, now) # flush_batches now lss xs)"
| "flush_batches prev _ _ = []"

lemma flush_batches_events: "length lss = length xs \<Longrightarrow> concat (map fst (flush_batches prev lss xs)) = concat lss"
  by (induction prev lss xs rule: flush_batches.induct) auto

lemma flush_batches_length: "length (flush_batches prev lss xs) \<le> length lss"
  by (induction prev lss xs rule: flush_batches.induct) auto

lemma flush_batches_ok:
  assumes "list_all2 flush_of lss xs" and "prev < 2 ^ 64"
    and "\<And>ls. ls \<in> set lss \<Longrightarrow> (\<forall>l \<in> set ls. logged_ok l) \<and> length (concat (map logged_bytes ls)) \<le> 0x7E000000"
  shows "list_all batch_ok (flush_batches prev lss xs)"
  using assms
proof (induction prev lss xs rule: flush_batches.induct)
  case (1 prev ls lss s buf len now xs)
  then show ?case by (auto simp: batch_ok_def batch_args_def flush_of_def)
qed auto

lemma logged_nil: "concat (map logged_bytes ls) = [] \<longleftrightarrow> ls = []"
  by (cases ls) auto

lemma dispatch_logged:
  assumes "flush_of ls (s, buf, len, now)" and "\<And>l. l \<in> set ls \<Longrightarrow> logged_ok l"
    and "aw_writer a = Some w" and "aw_streamer a = Some m"
  shows "\<exists>m'. dispatch_chunk lz4 wr s buf len now a = Ok (a\<lparr>aw_streamer := Some m',
      aw_writer := Some (if ls = [] then w else cw_session lz4 wr (batch_ops
        (ls, total_stat recorded_events s, total_stat dropped_events s, aw_last_flush_ns a, now)) w),
      aw_last_flush_ns := if ls = [] then aw_last_flush_ns a else now\<rparr>) \<and> ms_text m' = ms_text m @ chunk_text ls"
proof (cases "ls = []")
  case True
  then have "len = 0" using assms(1) by (auto simp: flush_of_def)
  then show ?thesis using True assms(3,4) by (cases a) (simp add: dispatch_chunk_def chunk_text_def)
next
  case False
  have t: "take len buf = concat (map logged_bytes ls)" "len \<le> length buf" using assms(1) by (simp_all add: flush_of_def)
  then have "len \<noteq> 0" using False logged_nil [of ls] by (metis take_0)
  moreover obtain m' where "process_chunk now buf len m = Ok m'" "ms_text m' = ms_text m @ chunk_text ls"
    using process_chunk_logged [OF assms(2) t] by blast
  ultimately show ?thesis using False assms(3,4)
    by (intro exI [of _ m']) (simp add: dispatch_chunk_def t(1) flush_args_def cw_session_def batch_ops_def batch_args_def)
qed

lemma cw_session_append: "cw_session lz4 wr (ps @ qs) w = cw_session lz4 wr qs (cw_session lz4 wr ps w)"
  by (simp add: cw_session_def)

lemma run_flushes_logged:
  assumes "list_all2 flush_of lss xs" and "\<forall>ls \<in> set lss. \<forall>l \<in> set ls. logged_ok l"
    and "aw_writer a = Some w" and "aw_streamer a = Some m"
  shows "\<exists>a' m'. run_flushes lz4 wr xs a = Ok a' \<and> aw_streamer a' = Some m' \<and>
    aw_writer a' = Some (cw_session lz4 wr (concat (map batch_ops (flush_batches (aw_last_flush_ns a) lss xs))) w) \<and>
    ms_text m' = ms_text m @ concat (map chunk_text lss)"
  using assms
proof (induction arbitrary: a w m rule: list_all2_induct)
  case Nil
  then show ?case by (simp add: cw_session_def)
next
  case (Cons ls lss x xs)
  obtain s buf len now where x: "x = (s, buf, len, now)" by (metis prod_cases4)
  have ok: "\<And>l. l \<in> set ls \<Longrightarrow> logged_ok l" using Cons.prems(1) by (meson list.set_intros(1))
  have ok': "\<forall>us \<in> set lss. \<forall>l \<in> set us. logged_ok l" using Cons.prems(1) by (meson list.set_intros(2))
  let ?b = "(ls, total_stat recorded_events s, total_stat dropped_events s, aw_last_flush_ns a, now)"
  obtain m1 where m1: "dispatch_chunk lz4 wr s buf len now a = Ok (a\<lparr>aw_streamer := Some m1,
      aw_writer := Some (if ls = [] then w else cw_session lz4 wr (batch_ops ?b) w),
      aw_last_flush_ns := if ls = [] then aw_last_flush_ns a else now\<rparr>)" "ms_text m1 = ms_text m @ chunk_text ls"
    using dispatch_logged [OF Cons.hyps(1) [unfolded x] ok Cons.prems(2,3), of lz4 wr] by blast
  let ?a = "a\<lparr>aw_streamer := Some m1, aw_writer := Some (if ls = [] then w else cw_session lz4 wr (batch_ops ?b) w),
      aw_last_flush_ns := if ls = [] then aw_last_flush_ns a else now\<rparr>"
  have "\<exists>a' m'. run_flushes lz4 wr xs ?a = Ok a' \<and> aw_streamer a' = Some m' \<and>
      aw_writer a' = Some (cw_session lz4 wr (concat (map batch_ops (flush_batches (aw_last_flush_ns ?a) lss xs)))
        (if ls = [] then w else cw_session lz4 wr (batch_ops ?b) w)) \<and>
      ms_text m' = ms_text m1 @ concat (map chunk_text lss)"
    by (rule Cons.IH [OF ok']) simp_all
  then show ?case using m1 x by (auto simp: cw_session_append)
qed

end
