(* ===== verification/Util_Strings.thy ===== *)
theory Util_Strings
  imports Prelude "HOL-Library.Sublist"
begin

text \<open>
  The string helpers of bpftrace (\<open>src/src/util/strings.cpp\<close> and \<open>strings.h\<close>) and the members of
  \<open>std::string\<close> they are made of. A string is a list of characters; a position is a natural number
  and \<open>npos\<close> is \<open>None\<close>. The lemmas say that splitting undoes joining and what the search returns.
\<close>

section \<open>Searching\<close>

text \<open>\<open>s.find(t, pos)\<close>: the first occurrence of \<open>t\<close> that starts at \<open>pos\<close> or later.\<close>

definition str_find :: "string \<Rightarrow> string \<Rightarrow> nat \<Rightarrow> nat option" where
  "str_find s t pos = List.find (\<lambda>i. prefix t (drop i s)) [pos..<Suc (length s)]"

definition find_char :: "string \<Rightarrow> char \<Rightarrow> nat option" where
  "find_char s c = List.find (\<lambda>i. s ! i = c) [0..<length s]"

definition find_last_char :: "string \<Rightarrow> char \<Rightarrow> nat option" where
  "find_last_char s c = List.find (\<lambda>i. s ! i = c) (rev [0..<length s])"

section \<open>The helpers\<close>

definition is_trimmed :: "char \<Rightarrow> bool" where
  "is_trimmed c = (c \<in> {CHR '' '', CHR 0x09, CHR 0x0D, CHR 0x0A})"

text \<open>
  \<open>find_last_not_of\<close> gives \<open>npos\<close> on a string of blanks; adding 1 to it gives 0, so all is erased.
  \<open>find_first_not_of\<close> gives \<open>npos\<close> there as well, and erasing \<open>npos\<close> characters erases all.
\<close>

definition rtrim :: "string \<Rightarrow> string" where
  "rtrim s = rev (dropWhile is_trimmed (rev s))"

definition ltrim :: "string \<Rightarrow> string" where
  "ltrim s = dropWhile is_trimmed s"

definition trim :: "string \<Rightarrow> string" where
  "trim s = ltrim (rtrim s)"

text \<open>
  The lines \<open>std::getline(ss, value, delimiter)\<close> extracts one after the other. A delimiter at the
  very end is consumed with the line before it and opens no further line.
\<close>

function getlines :: "char \<Rightarrow> string \<Rightarrow> string list" where
  "getlines d [] = []"
| "getlines d (c # s) =
     takeWhile (\<lambda>x. x \<noteq> d) (c # s) # getlines d (drop 1 (dropWhile (\<lambda>x. x \<noteq> d) (c # s)))"
  by pat_completeness auto
termination
  by (relation "measure (\<lambda>(d, s). length s)")
    (auto simp: less_Suc_eq_le intro: le_trans [OF diff_le_self] length_dropWhile_le)

declare getlines.simps(2) [simp del]

definition split_string :: "string \<Rightarrow> char \<Rightarrow> bool \<Rightarrow> string list" where
  "split_string s d remove_empty = filter (\<lambda>v. \<not> (remove_empty \<and> v = [])) (getlines d s)"

text \<open>\<open>erase_prefix\<close> returns the part before the first colon and leaves what follows it.\<close>

definition erase_prefix :: "string \<Rightarrow> string \<times> string" where
  "erase_prefix s =
     (let p = (case find_char s (CHR '':'') of None \<Rightarrow> s | Some i \<Rightarrow> take i s)
      in (p, drop (length p + 1) s))"

text \<open>The backward walk of \<open>erase_parameter_list\<close>, with the number of open parentheses.\<close>

fun args_start :: "string \<Rightarrow> nat \<Rightarrow> int \<Rightarrow> nat option" where
  "args_start s it st =
     (let st1 = (if s ! it = CHR '')'' then st + 1 else st);
          st2 = (if s ! it = CHR ''('' then st1 - 1 else st1)
      in if st2 = 0 then Some it else if it = 0 then None else args_start s (it - 1) st2)"

declare args_start.simps [simp del]

definition erase_parameter_list :: "string \<Rightarrow> string" where
  "erase_parameter_list s = (case find_last_char s (CHR '')'') of None \<Rightarrow> s
     | Some it \<Rightarrow> (case args_start s it 0 of None \<Rightarrow> s | Some i \<Rightarrow> take i s))"

fun str_join :: "string list \<Rightarrow> string \<Rightarrow> string" where
  "str_join [] delim = []"
| "str_join [x] delim = x"
| "str_join (x # y # xs) delim = x @ delim @ str_join (y # xs) delim"

definition lower_hex :: "nat \<Rightarrow> char" where
  "lower_hex n = (if n < 10 then char_of (48 + n) else char_of (87 + n))"

definition hex_byte :: "byte \<Rightarrow> string" where
  "hex_byte b = [lower_hex (unat b div 16), lower_hex (unat b mod 16)]"

text \<open>The three formats of \<open>hex_format_buffer\<close>; a signed \<open>char\<close> above 127 is negative and not printed as it is.\<close>

definition hex_format_buffer :: "bytes \<Rightarrow> bool \<Rightarrow> bool \<Rightarrow> string" where
  "hex_format_buffer buf keep_ascii escape_hex = concat (map (\<lambda>i.
     if keep_ascii \<and> 32 \<le> unat (buf ! i) \<and> unat (buf ! i) \<le> 126 then [char_of (unat (buf ! i))]
     else if escape_hex then CHR 0x5C # CHR ''x'' # hex_byte (buf ! i)
     else if i = length buf - 1 then hex_byte (buf ! i)
     else hex_byte (buf ! i) @ '' '') [0..<length buf])"

definition to_lower :: "string \<Rightarrow> string" where
  "to_lower s = map (\<lambda>c. let n = of_char c :: nat in if 65 \<le> n \<and> n \<le> 90 then char_of (n + 32) else c) s"

definition is_str_bool_truthy :: "string \<Rightarrow> bool" where
  "is_str_bool_truthy s = (to_lower s \<in> {''1'', ''true'', ''on'', ''yes''})"

definition is_str_bool_falsy :: "string \<Rightarrow> bool" where
  "is_str_bool_falsy s = (to_lower s \<in> {''0'', ''false'', ''off'', ''no''})"

text \<open>\<open>std::isspace\<close> in the C locale, and \<open>std::ranges::unique\<close>: keep the first of a group.\<close>

definition isspace :: "char \<Rightarrow> bool" where
  "isspace c = (c = CHR '' '' \<or> 9 \<le> (of_char c :: nat) \<and> (of_char c :: nat) \<le> 13)"

fun unique_by :: "('a \<Rightarrow> 'a \<Rightarrow> bool) \<Rightarrow> 'a list \<Rightarrow> 'a list" where
  "unique_by eq (x # y # xs) = (if eq x y then unique_by eq (x # xs) else x # unique_by eq (y # xs))"
| "unique_by eq xs = xs"

definition normalize_whitespace :: "string \<Rightarrow> string" where
  "normalize_whitespace s = unique_by (\<lambda>l r. isspace l \<and> isspace r) (trim s)"

section \<open>What the search returns\<close>

lemma find_upt_Some:
  "List.find P [a..<b] = Some i \<longleftrightarrow> a \<le> i \<and> i < b \<and> P i \<and> (\<forall>j. a \<le> j \<and> j < i \<longrightarrow> \<not> P j)"
proof (induction "b - a" arbitrary: a)
  case (Suc n)
  then have "a < b" "n = b - Suc a" by auto
  then have "List.find P [a..<b] = (if P a then Some a else List.find P [Suc a..<b])"
    by (simp add: upt_conv_Cons)
  then show ?case using Suc.hyps(1) [OF \<open>n = b - Suc a\<close>] \<open>a < b\<close>
    by (auto simp: Suc_le_eq) (metis le_neq_implies_less le_refl)+
qed simp

lemma find_upt_None: "List.find P [a..<b] = None \<longleftrightarrow> (\<forall>i. a \<le> i \<and> i < b \<longrightarrow> \<not> P i)"
  by (auto simp: find_None_iff)

lemma str_find_Some:
  "str_find s t pos = Some i \<longleftrightarrow>
     pos \<le> i \<and> i \<le> length s \<and> prefix t (drop i s) \<and> (\<forall>j. pos \<le> j \<and> j < i \<longrightarrow> \<not> prefix t (drop j s))"
  by (auto simp: str_find_def find_upt_Some less_Suc_eq_le simp del: upt_Suc)

lemma str_find_None: "str_find s t pos = None \<longleftrightarrow> (\<forall>i. pos \<le> i \<and> i \<le> length s \<longrightarrow> \<not> prefix t (drop i s))"
  by (auto simp: str_find_def find_upt_None less_Suc_eq_le simp del: upt_Suc)

text \<open>Searching from a position is searching in what follows it.\<close>

lemma str_find_drop:
  assumes "pos \<le> length s"
  shows "str_find s t pos = map_option ((+) pos) (str_find (drop pos s) t 0)"
proof (cases "str_find (drop pos s) t 0")
  case None
  then have "str_find s t pos = None" using assms
    by (auto simp: str_find_None) (metis add.commute diff_le_mono le_add_diff_inverse)
  then show ?thesis using None by simp
next
  case (Some i)
  have "\<not> prefix t (drop j s)" if "pos \<le> j" "j < pos + i" for j
    using Some that unfolding str_find_Some
    by (metis add.commute drop_drop le0 le_add_diff_inverse2 less_diff_conv2)
  then have "str_find s t pos = Some (pos + i)" using Some assms
    by (auto simp: str_find_Some add.commute)
  then show ?thesis using Some by simp
qed

section \<open>Splitting\<close>

lemma getlines_step:
  assumes "d \<notin> set v"
  shows "getlines d (v @ d # s) = v # getlines d s"
proof (cases "v @ d # s")
  case (Cons c r)
  have "takeWhile (\<lambda>x. x \<noteq> d) (v @ d # s) = v" "dropWhile (\<lambda>x. x \<noteq> d) (v @ d # s) = d # s"
    using assms by (auto simp: takeWhile_append dropWhile_append)
  then show ?thesis using Cons getlines.simps(2) [of d c r] by simp
qed simp

lemma getlines_last:
  assumes "d \<notin> set v" and "v \<noteq> []"
  shows "getlines d v = [v]"
proof (cases v)
  case (Cons c r)
  have "takeWhile (\<lambda>x. x \<noteq> d) v = v" "dropWhile (\<lambda>x. x \<noteq> d) v = []"
    using assms by (auto simp: takeWhile_eq_all_conv dropWhile_eq_Nil_conv)
  then show ?thesis using Cons getlines.simps(2) [of d c r] by simp
qed (use assms in simp)

lemma getlines_cases [case_names Nil last line]:
  assumes "s = [] \<Longrightarrow> P" and "d \<notin> set s \<Longrightarrow> s \<noteq> [] \<Longrightarrow> P"
    and "\<And>v r. d \<notin> set v \<Longrightarrow> s = v @ d # r \<Longrightarrow> P"
  shows P
proof (cases "d \<in> set s")
  case True
  then obtain v r where "s = v @ d # r" "d \<notin> set v" by (metis split_list_first)
  then show ?thesis by (rule assms(3) [rotated])
next
  case False
  then show ?thesis using assms(1,2) by blast
qed

lemma split_join:
  assumes "\<And>x. x \<in> set xs \<Longrightarrow> d \<notin> set x" and "xs = [] \<or> last xs \<noteq> []"
  shows "split_string (str_join xs [d]) d False = xs"
  using assms
proof (induction xs "[d]" rule: str_join.induct)
  case (2 x)
  then show ?case by (simp add: split_string_def getlines_last)
next
  case (3 x y xs)
  then have "split_string (str_join (y # xs) [d]) d False = y # xs" by simp
  then show ?case using 3(2) by (simp add: split_string_def getlines_step)
qed (simp add: split_string_def)

end
