(* ===== verification/Wildcard.thy ===== *)
theory Wildcard
  imports Util_Strings
begin

text \<open>
  The wildcard matching of bpftrace (\<open>src/src/util/wildcard.cpp\<close>): a pattern is cut at its stars
  into tokens, and the tokens are looked for one after the other, each at its first occurrence.
  The reference is the documented meaning of a pattern (\<open>docs/tutorial_one_liners.md\<close>), in which a
  star stands for any string and a question mark for any character. On patterns without question
  marks and brackets the matcher never accepts a string the pattern does not describe, and it
  accepts all of them when the pattern ends with a star or has none; with a token at the end the
  first occurrence may be the wrong one. Question marks and brackets it takes literally, although
  the documentation has the former and \<open>has_wildcard\<close> the latter as wildcards.
\<close>

section \<open>The matcher\<close>

definition has_wildcard :: "string \<Rightarrow> bool" where
  "has_wildcard s = (str_find s ''*'' 0 \<noteq> None \<or> str_find s ''['' 0 \<noteq> None \<and> str_find s '']'' 0 \<noteq> None)"

text \<open>The two flags are reference arguments, which an empty input leaves as they were.\<close>

definition get_wildcard_tokens :: "string \<Rightarrow> bool \<Rightarrow> bool \<Rightarrow> string list \<times> bool \<times> bool" where
  "get_wildcard_tokens input start_wildcard end_wildcard =
     (if input = [] then ([], start_wildcard, end_wildcard)
      else (filter (\<lambda>t. t \<noteq> []) (split_string input (CHR ''*'') False),
            input ! 0 = CHR ''*'', input ! (length input - 1) = CHR ''*''))"

text \<open>The loop over the tokens: the position after the last one, or \<open>None\<close> when one is missing.\<close>

fun find_tokens :: "string \<Rightarrow> string list \<Rightarrow> nat \<Rightarrow> nat option" where
  "find_tokens s [] next = Some next"
| "find_tokens s (t # ts) next = (case str_find s t next of None \<Rightarrow> None
     | Some found \<Rightarrow> find_tokens s ts (found + length t))"

text \<open>\<open>tokens[0]\<close> of an empty vector is undefined.\<close>

definition wildcard_match :: "string \<Rightarrow> string list \<Rightarrow> bool \<Rightarrow> bool \<Rightarrow> bool outcome" where
  "wildcard_match s tokens start_wildcard end_wildcard =
     (if \<not> start_wildcard \<and> tokens = [] then UB
      else if \<not> start_wildcard \<and> str_find s (tokens ! 0) 0 \<noteq> Some 0 then Ok False
      else case find_tokens s tokens 0 of None \<Rightarrow> Ok False
      | Some next \<Rightarrow> Ok (end_wildcard \<or> length s = next))"

text \<open>The two steps together, as \<open>get_modules\<close> and the cgroup lookup use them.\<close>

definition pattern_match :: "string \<Rightarrow> string \<Rightarrow> bool outcome" where
  "pattern_match p s = (case get_wildcard_tokens p False False of (ts, sw, ew) \<Rightarrow> wildcard_match s ts sw ew)"

section \<open>The meaning of a pattern\<close>

fun glob :: "string \<Rightarrow> string \<Rightarrow> bool" where
  "glob [] s = (s = [])"
| "glob (c # p) [] = (c = CHR ''*'' \<and> glob p [])"
| "glob (c # p) (x # s) = (if c = CHR ''*'' then glob p (x # s) \<or> glob (c # p) s else (c = CHR ''?'' \<or> c = x) \<and> glob p s)"

definition plain :: "string \<Rightarrow> bool" where
  "plain p \<longleftrightarrow> CHR ''?'' \<notin> set p \<and> CHR ''['' \<notin> set p \<and> CHR '']'' \<notin> set p"

lemma glob_star: "glob (CHR ''*'' # p) s \<longleftrightarrow> (\<exists>a b. s = a @ b \<and> glob p b)"
proof (induction s)
  case (Cons c s)
  have "glob (CHR ''*'' # p) (c # s) \<longleftrightarrow> glob p (c # s) \<or> (\<exists>a b. s = a @ b \<and> glob p b)"
    using Cons by simp
  also have "\<dots> \<longleftrightarrow> (\<exists>a b. c # s = a @ b \<and> glob p b)"
    by (auto simp: Cons_eq_append_conv)
  finally show ?case .
qed simp

lemma glob_literal: "CHR ''*'' \<notin> set v \<Longrightarrow> CHR ''?'' \<notin> set v \<Longrightarrow> glob (v @ p) s \<longleftrightarrow> (\<exists>b. s = v @ b \<and> glob p b)"
proof (induction v arbitrary: s)
  case (Cons c v)
  then show ?case by (cases s) auto
qed simp

text \<open>Tokens with gaps before them, and after the last one when the pattern ends with a star.\<close>

fun gaps :: "string list \<Rightarrow> bool \<Rightarrow> string \<Rightarrow> bool" where
  "gaps [] ew s = (ew \<or> s = [])"
| "gaps (t # ts) ew s = (\<exists>a b. s = a @ t @ b \<and> gaps ts ew b)"

lemma gaps_absorb:
  assumes "gaps ts ew b" and "ts = [] \<Longrightarrow> ew"
  shows "gaps ts ew (a @ b)"
proof (cases ts)
  case (Cons t us)
  then show ?thesis using assms(1) by simp (metis append.assoc)
qed (use assms(2) in simp)

abbreviation tokens_of :: "string \<Rightarrow> string list" where
  "tokens_of p \<equiv> filter (\<lambda>t. t \<noteq> []) (getlines (CHR ''*'') p)"

definition open_end :: "string \<Rightarrow> bool" where
  "open_end p = (p = [] \<or> last p = CHR ''*'')"

lemma open_end_line [simp]: "open_end (v @ CHR ''*'' # r) = open_end r"
  by (simp add: open_end_def)

lemma open_end_last: "CHR ''*'' \<notin> set p \<Longrightarrow> p \<noteq> [] \<Longrightarrow> \<not> open_end p"
  by (auto simp: open_end_def dest: last_in_set)

lemma no_tokens_open: "tokens_of p = [] \<Longrightarrow> open_end p"
proof (induction "length p" arbitrary: p rule: less_induct)
  case less
  show ?case
  proof (cases rule: getlines_cases [of p _ "CHR ''*''"])
    case Nil
    then show ?thesis by (simp add: open_end_def)
  next
    case last
    then show ?thesis using less.prems by (simp add: getlines_last)
  next
    case (line v r)
    then show ?thesis using less.prems less.hyps [of r] by (simp add: getlines_step split: if_splits)
  qed
qed

lemma glob_gaps:
  assumes "CHR ''?'' \<notin> set p"
  shows "glob (CHR ''*'' # p) s \<longleftrightarrow> gaps (tokens_of p) (open_end p) s"
  using assms
proof (induction "length p" arbitrary: p s rule: less_induct)
  case less
  show ?case
  proof (cases rule: getlines_cases [of p _ "CHR ''*''"])
    case Nil
    then show ?thesis by (simp add: glob_star open_end_def)
  next
    case last
    then show ?thesis using glob_literal [of p "[]"] less.prems
      by (auto simp: glob_star getlines_last open_end_last)
  next
    case (line v r)
    have r: "glob (CHR ''*'' # r) b \<longleftrightarrow> gaps (tokens_of r) (open_end r) b" for b
      using less line by simp
    have "glob (CHR ''*'' # p) s \<longleftrightarrow> (\<exists>a b. s = a @ v @ b \<and> gaps (tokens_of r) (open_end r) b)"
      using line less.prems glob_literal [of v "CHR ''*'' # r"] unfolding glob_star [of p] r [symmetric] by auto
    also have "\<dots> \<longleftrightarrow> gaps (tokens_of p) (open_end p) s"
    proof (cases "v = []")
      case True
      have p: "tokens_of p = tokens_of r" "open_end p = open_end r"
        using getlines_step [of "CHR ''*''" "[]" r] open_end_line [of "[]" r] line True by simp_all
      show ?thesis unfolding p using True no_tokens_open [of r] gaps_absorb [of "tokens_of r" "open_end r"]
        by (metis append_Nil)
    qed (use line in \<open>simp add: getlines_step\<close>)
    finally show ?thesis .
  qed
qed

section \<open>First occurrences\<close>

lemma find_tokens_drop:
  assumes "n \<le> length s"
  shows "find_tokens s ts n = map_option ((+) n) (find_tokens (drop n s) ts 0)"
  using assms
proof (induction ts arbitrary: n s)
  case (Cons t ts)
  show ?case
  proof (cases "str_find (drop n s) t 0")
    case (Some i)
    then obtain b where "drop i (drop n s) = t @ b" "i \<le> length s - n" by (auto simp: str_find_Some prefix_def)
    then have i: "i + length t \<le> length (drop n s)"
      by (metis add_le_cancel_left le_add_diff_inverse length_append length_drop le_add1)
    have dd: "drop (i + length t) (drop n s) = drop (n + i + length t) s" by (simp add: ac_simps)
    have "find_tokens s ts (n + i + length t) =
        map_option ((+) (n + i + length t)) (find_tokens (drop (n + i + length t) s) ts 0)"
      by (rule Cons.IH) (use i Cons.prems in simp)
    moreover have "find_tokens (drop n s) ts (i + length t) =
        map_option ((+) (i + length t)) (find_tokens (drop (n + i + length t) s) ts 0)"
      unfolding dd [symmetric] by (rule Cons.IH [OF i])
    ultimately show ?thesis using Some
      by (cases "find_tokens (drop (n + i + length t) s) ts 0") (simp_all add: str_find_drop [OF Cons.prems])
  qed (simp add: str_find_drop [OF Cons.prems])
qed simp

text \<open>A token that is found splits the string, and no occurrence lies further to the left.\<close>

lemma str_find_split:
  assumes "str_find s t 0 = Some i"
  obtains a b where "s = a @ t @ b" "length a = i" "drop (i + length t) s = b"
    "\<And>a' b'. s = a' @ t @ b' \<Longrightarrow> i \<le> length a'"
proof -
  obtain b where b: "drop i s = t @ b" and i: "i \<le> length s" using assms by (auto simp: str_find_Some prefix_def)
  have "s = take i s @ t @ b" using b by (metis append_take_drop_id)
  moreover have "drop (i + length t) s = b" using b by (metis add.commute append_eq_conv_conj drop_drop)
  moreover have "i \<le> length a'" if "s = a' @ t @ b'" for a' b'
    using assms that by (auto simp: str_find_Some not_less [symmetric])
  ultimately show ?thesis using i that [of "take i s" b] by simp
qed

lemma str_find_exists: "\<exists>i. str_find (a @ t @ b) t 0 = Some i"
proof (cases "str_find (a @ t @ b) t 0")
  case None
  then have "\<not> prefix t (drop (length a) (a @ t @ b))" unfolding str_find_None by (metis le_add1 length_append le0)
  then show ?thesis by simp
qed simp

lemma find_tokens_step:
  assumes "str_find s t 0 = Some i" and "s = a @ t @ b" and "length a = i"
  shows "find_tokens s (t # ts) 0 = map_option ((+) (i + length t)) (find_tokens b ts 0)"
  using assms find_tokens_drop [of "i + length t" s ts] by simp

lemma find_tokens_sound:
  assumes "find_tokens s ts 0 = Some n" and "ew \<or> length s = n"
  shows "gaps ts ew s"
  using assms
proof (induction ts arbitrary: s n)
  case (Cons t ts)
  then obtain i where i: "str_find s t 0 = Some i" by (auto split: option.splits)
  obtain a b where ab: "s = a @ t @ b" "length a = i" by (rule str_find_split [OF i])
  obtain m where "find_tokens b ts 0 = Some m" "n = i + length t + m"
    using Cons.prems(1) find_tokens_step [OF i ab] by auto
  then show ?case using Cons.IH [of b m] Cons.prems(2) ab by auto
qed auto

lemma find_tokens_complete:
  assumes "gaps ts True s"
  shows "\<exists>n. find_tokens s ts 0 = Some n"
  using assms
proof (induction ts arbitrary: s)
  case (Cons t ts)
  then obtain a' b' where ab': "s = a' @ t @ b'" "gaps ts True b'" by auto
  obtain i where i: "str_find s t 0 = Some i" using str_find_exists ab'(1) by blast
  obtain a b where ab: "s = a @ t @ b" "length a = i" and first: "\<And>x y. s = x @ t @ y \<Longrightarrow> i \<le> length x"
    by (rule str_find_split [OF i]) blast
  have "i \<le> length a'" by (rule first [OF ab'(1)])
  have "b = drop (i + length t) s" using ab by simp
  also have "\<dots> = drop (i + length t) (a' @ t) @ b'" using \<open>i \<le> length a'\<close> by (simp add: ab'(1))
  finally have "gaps ts True b" using gaps_absorb [OF ab'(2)] by (metis (full_types))
  then show ?case using Cons.IH find_tokens_step [OF i ab(1,2)] by fastforce
qed simp

section \<open>The matcher and the meaning\<close>

lemma tokens_pattern:
  assumes "p \<noteq> []"
  shows "get_wildcard_tokens p False False = (tokens_of p, hd p = CHR ''*'', open_end p)"
  using assms by (simp add: get_wildcard_tokens_def split_string_def open_end_def hd_conv_nth last_conv_nth)

lemma find_prefix: "str_find s t 0 = Some 0 \<longleftrightarrow> prefix t s"
  by (simp add: str_find_Some)

text \<open>A pattern that starts with a star is a list of tokens with gaps; one that does not has its first token in front.\<close>

lemma pattern_match_star:
  assumes "p = CHR ''*'' # q"
  shows "pattern_match p s = Ok (\<exists>n. find_tokens s (tokens_of q) 0 = Some n \<and> (open_end q \<or> length s = n))"
proof -
  have "tokens_of p = tokens_of q" "open_end p = open_end q"
    using getlines_step [of "CHR ''*''" "[]" q] open_end_line [of "[]" q] assms by simp_all
  then show ?thesis using assms
    by (simp add: pattern_match_def tokens_pattern wildcard_match_def split: option.split)
qed

lemma pattern_match_literal:
  assumes "v \<noteq> []" and "CHR ''*'' \<notin> set v" and "p = v \<and> ts = [] \<and> \<not> ew \<or> (\<exists>r. p = v @ CHR ''*'' # r \<and> ts = tokens_of r \<and> ew = open_end r)"
  shows "pattern_match p s =
    Ok (\<exists>b n. s = v @ b \<and> find_tokens b ts 0 = Some n \<and> (ew \<or> length b = n))"
proof -
  have p: "p \<noteq> []" "tokens_of p = v # ts" "open_end p = ew"
    using assms by (auto simp: getlines_step getlines_last open_end_last)
  have h: "hd p \<noteq> CHR ''*''" using assms hd_in_set [OF assms(1)] by (metis hd_append2)
  have step: "find_tokens (v @ b) (v # ts) 0 = map_option ((+) (length v)) (find_tokens b ts 0)" for b
    using find_tokens_step [of "v @ b" v 0 "[]" b ts] by (simp add: find_prefix)
  show ?thesis
  proof (cases "prefix v s")
    case True
    then obtain b where "s = v @ b" by (auto simp: prefix_def)
    then show ?thesis using p h step [of b]
      by (auto simp: pattern_match_def tokens_pattern wildcard_match_def find_prefix simp del: find_tokens.simps split: option.split)
  qed (use p h in \<open>auto simp: pattern_match_def tokens_pattern wildcard_match_def find_prefix\<close>)
qed

lemma pattern_match_sound:
  assumes "p \<noteq> []" and q: "CHR ''?'' \<notin> set p"
  shows "\<exists>b. pattern_match p s = Ok b \<and> (b \<longrightarrow> glob p s) \<and> (open_end p \<or> CHR ''*'' \<notin> set p \<longrightarrow> b = glob p s)"
proof (cases rule: getlines_cases [of p _ "CHR ''*''"])
  case last
  then show ?thesis using pattern_match_literal [of p p "[]" False s] glob_literal [of p "[]" s] q by auto
next
  case (line v r)
  show ?thesis
  proof (cases "v = []")
    case True
    have "open_end p = open_end r" using line open_end_line [of "[]" r] True by simp
    then show ?thesis using line True pattern_match_star [of p r s] find_tokens_sound [of s "tokens_of r" _ "open_end r"]
        find_tokens_complete [of "tokens_of r" s] q
      by (auto simp: glob_gaps simp del: glob.simps)
  next
    case False
    have "glob p s \<longleftrightarrow> (\<exists>b. s = v @ b \<and> gaps (tokens_of r) (open_end r) b)"
      using line q glob_literal [of v "CHR ''*'' # r" s] by (simp add: glob_gaps del: glob.simps)
    then show ?thesis using line pattern_match_literal [OF False line(1), of p "tokens_of r" "open_end r" s]
        find_tokens_sound [of _ "tokens_of r" _ "open_end r"] find_tokens_complete [of "tokens_of r"]
      by auto
  qed
qed (use assms in simp)

text \<open>C34: For every pattern that is not empty and has no question mark and no bracket the matcher
  returns; it accepts a string only when the pattern describes it, and a pattern that ends with a
  star or has no star accepts all it describes.\<close>
theorem wildcard_match_glob:
  assumes "p \<noteq> []" and "plain p"
  shows "\<exists>b. pattern_match p s = Ok b \<and> (b \<longrightarrow> glob p s) \<and>
    (last p = CHR ''*'' \<or> CHR ''*'' \<notin> set p \<longrightarrow> b = glob p s)"
  using pattern_match_sound [OF assms(1), of s] assms by (simp add: open_end_def plain_def)

theorem wildcard_match_glob_witness:
  "''vfs_*re*'' \<noteq> [] \<and> plain ''vfs_*re*'' \<and> (\<exists>b. pattern_match ''vfs_*re*'' ''vfs_readv'' = Ok b \<and> b = glob ''vfs_*re*'' ''vfs_readv'')"
  using wildcard_match_glob [of "''vfs_*re*''" "''vfs_readv''"] by (auto simp: plain_def)

text \<open>With a token at the end of the pattern the first occurrence may be the wrong one: a string that
  ends with the token and has it earlier as well, not overlapping the end, is rejected.\<close>
theorem wildcard_first_occurrence:
  assumes "t \<noteq> []" and "CHR ''*'' \<notin> set t" and "CHR ''?'' \<notin> set t"
  shows "glob (CHR ''*'' # t) (t @ u @ t) \<and> pattern_match (CHR ''*'' # t) (t @ u @ t) = Ok False"
proof -
  have "glob (CHR ''*'' # t) (t @ u @ t)" unfolding glob_star using glob_literal [of t "[]"] assms(2,3) by (metis append.assoc append_Nil2 glob.simps(1))
  moreover have "find_tokens (t @ u @ t) [t] 0 = Some (length t)"
    using find_tokens_step [of "t @ u @ t" t 0 "[]" "u @ t" "[]"] by (simp add: find_prefix)
  ultimately show ?thesis using assms pattern_match_star [of "CHR ''*'' # t" t "t @ u @ t"]
    by (simp add: getlines_last open_end_last del: find_tokens.simps glob.simps)
qed

theorem wildcard_first_occurrence_witness:
  "''_read'' \<noteq> [] \<and> CHR ''*'' \<notin> set ''_read'' \<and> CHR ''?'' \<notin> set ''_read'' \<and>
   glob ''*_read'' ''_read_and_read'' \<and> pattern_match ''*_read'' ''_read_and_read'' = Ok False"
  using wildcard_first_occurrence [of "''_read''" "''_and''"] by simp

text \<open>A question mark is taken literally: a pattern with question marks and no star accepts itself
  only, and not the strings the documentation gives it.\<close>

lemma glob_self: "CHR ''*'' \<notin> set v \<Longrightarrow> glob p s \<Longrightarrow> glob (v @ p) (v @ s)"
  by (induction v) auto

theorem question_mark_literal:
  assumes "CHR ''*'' \<notin> set v" and "CHR ''*'' \<notin> set w" and "c \<noteq> CHR ''?''"
  shows "glob (v @ CHR ''?'' # w) (v @ c # w) \<and> pattern_match (v @ CHR ''?'' # w) (v @ c # w) = Ok False"
proof -
  have "glob w w" using glob_self [OF assms(2), of "[]" "[]"] by simp
  then have "glob (v @ CHR ''?'' # w) (v @ c # w)" using assms(1) by (intro glob_self) simp_all
  moreover have "pattern_match (v @ CHR ''?'' # w) (v @ c # w) = Ok (v @ c # w = v @ CHR ''?'' # w)"
    using pattern_match_literal [of "v @ CHR ''?'' # w" "v @ CHR ''?'' # w" "[]" False "v @ c # w"] assms(1,2) by simp
  ultimately show ?thesis using assms(3) by simp
qed

theorem question_mark_literal_witness:
  "CHR ''*'' \<notin> set ''open'' \<and> glob ''open?t'' ''openat'' \<and> pattern_match ''open?t'' ''openat'' = Ok False"
  using question_mark_literal [of "''open''" "''t''" "CHR ''a''"] by simp

end
