(* ===== verification/Spec2Isabelle.thy ===== *)
theory Spec2Isabelle
  imports Queue_Map Stack_Map Fix_Hash_Map Array_Map Per_Cpu_Array Fd_Arrays Var_Hash_Map
    Per_Cpu_Hash Stack_Trace_Map Lru_Map Lpm_Table Bloom_Filter Ringbuf Bpftime_Shm Perf_Event Shm_Buffer
    Trace_Merge Json_Escape Io_Worker Wildcard
begin

text \<open>
  \<^bold>\<open>A verification development for ubpftrace\<close>

  \<^bold>\<open>The program.\<close> The repository has the tracing language bpftrace (\<open>src/src\<close>), the user-space eBPF
  runtime bpftime (\<open>src/bpftime\<close>) on which its programs run, and an HPC tracing path
  (\<open>src/bpftime/runtime/src/hpc\<close>, \<open>src/tools\<close>). A program that was attached to a process reads and
  writes maps in shared memory; the syscall server creates them by file descriptor. Output goes
  through ring buffers and perf event rings to a reader, or, in the HPC path, through a double
  buffer in shared memory to a worker that writes compressed chunks to a container file, which
  \<open>ubpftrace_cat\<close> reads, merges and prints. The development models the data structures and state
  machines on these paths, and two helpers of the bpftrace front end.

  \<^bold>\<open>Conventions\<close> (\<open>Prelude\<close>). Unsigned C integers are natural numbers, and \<open>u32\<close>, \<open>u64\<close>, \<open>inc32\<close> write the
  wrap-around where the code computes at that width; bit manipulation uses machine words. A call
  returns an \<open>outcome\<close>: a value, an errno, a thrown exception, undefined behaviour (an access outside
  an object or through a null pointer), or no return. An object is a record whose fields are the
  members of the class; an operation takes the record and returns it updated.

  \<^bold>\<open>Contracts.\<close> \<open>Simulation\<close> has the locale of a machine that simulates its specification over lists of
  calls. \<open>Push_Pop_Spec\<close> (bounded sequences), \<open>Map_Spec\<close> (bounded finite maps; key iteration),
  \<open>Array_Map\<close> (arrays of slots) and \<open>Unordered_Map\<close> (maps with update flags) are the contracts of
  the map types; each is interpreted on the definitions of the maps that promise it.

  \<^bold>\<open>Maps\<close> (\<open>runtime/src/bpf_map\<close>).
  \<^item> \<open>Queue_Map\<close>, \<open>Stack_Map\<close> (\<open>queue.cpp\<close>, \<open>stack.cpp\<close>): every sequence of calls behaves as a bounded FIFO
    or LIFO list (\<open>elem_update\<close> with \<open>BPF_EXIST\<close> only, on which the code and its comment agree); the
    32-bit product of the constructor can wrap, and then a push leaves the buffer.
  \<^item> \<open>Hasher\<close>, \<open>Hash_Map\<close>, \<open>Fix_Hash_Map\<close> (\<open>bpftime_hash_map.hpp\<close>, \<open>fix_hash_map.cpp\<close>): the bucket count
    is the next prime; open addressing with tombstones in a byte array refines a bounded finite map;
    on every map that was constructed and changed by calls the key iteration visits every key once.
  \<^item> \<open>Array_Map\<close>, \<open>Per_Cpu_Array\<close>, \<open>Fd_Arrays\<close>: arrays of slots and what an update touches; per-CPU
    columns are independent.
  \<^item> \<open>Var_Hash_Map\<close>, \<open>Per_Cpu_Hash\<close>, \<open>Stack_Trace_Map\<close>: maps over \<open>boost::unordered_map\<close>, which is a
    record of operations with its documented laws (\<open>Unordered_Map\<close>); the witnesses instantiate it by
    an association list.
  \<^item> \<open>Lru_Map\<close> (\<open>lru_var_hash_map.cpp\<close>): the doubly linked list in a store of nodes refines a cache that
    evicts the least recently used key.
  \<^item> \<open>Lpm_Trie\<close>, \<open>Lpm_Table\<close> (\<open>lpm_trie_map.cpp\<close>): the trie refines a table with longest prefix match as
    long as no node was deleted while it had children; what happens otherwise is proved as well.
  \<^item> \<open>Bloom_Filter\<close> (\<open>bloom_filter.cpp\<close>): both hash functions on 32-bit words; the answers are those of
    the set of pushed values and its bit positions.
  \<^item> \<open>Ringbuf\<close> (\<open>ringbuf_map.cpp\<close>): reserve, submit and the consumer loop; the consumer gets the submitted
    records in the order of reservation, unless a record's header takes the last 8 bytes of the ring,
    when its contents are lost.

  \<^bold>\<open>Handlers\<close> (\<open>runtime/src/handler\<close>, \<open>runtime/src/bpftime_shm_internal.cpp\<close>). \<open>Map_Handler\<close> is the tagged
  object pointer with its reference count and the dispatch on the map type; \<open>Handler_Manager\<close> the fd
  table with the handler variants and their destruction; \<open>Bpftime_Shm\<close> the calls on an fd: creation,
  duplication, closing, map operations, links, epoll, sessions and epochs. Over all reachable states
  an fd of a map leads to an object of its type, reference counts equal the number of sharing
  handlers, links end in programs (and in perf events, without the call that does not check them), and
  closing all fds frees every object.

  \<^bold>\<open>Perf events\<close> (\<open>perf_event_handler.cpp\<close>, \<open>libbpf/src/libbpf.c\<close>). \<open>Perf_Ring\<close> is the byte ring and the
  reader \<open>perf_event_read_simple\<close>; \<open>Perf_Event\<close> has the per-thread shards, their cache, draining and
  reclaiming, as a step relation over any number of threads. Each thread's samples that its ring
  accepted arrive in order and unchanged, no access leaves a ring, and a flush delivers all of them
  when they fit; a ring that is enlarged while in use can lose a sample.

  \<^bold>\<open>HPC tracing.\<close> \<open>Event_Record\<close> is the record \<open>log_event\<close> lays out; \<open>Shm_Buffer\<close>
  (\<open>ubpf_shm_buffer.hpp\<close>, \<open>swap_and_flush\<close> of \<open>ubpf_async_io_worker.cpp\<close>) has one step per atomic access,
  for any number of probes and the worker; a flush that waited for the writers hands on exactly the
  reserved records, if the worker's store of the new epoch was visible before it looked for writers,
  which the memory orders of the source do not ensure (\<open>tso_step\<close>); a reservation ends after at most
  eleven accesses. \<open>Container_Writer\<close> and
  \<open>Crc32\<close> are the file format and its writer, \<open>Ubpftrace_Cat\<close> the reader, with the round trip through both;
  \<open>Trace_Merge\<close> the merge of several files; \<open>Json_Escape\<close> the strings of the Chrome export. \<open>Micro_Streamer\<close> is the
  live text output and \<open>Io_Worker\<close> the worker around the swap: when it flushes, and what a flush gives to the
  streamer and the writer. The last section of this theory composes them: what the probes log is what
  \<open>ubpftrace_cat\<close> reads from the file and what the streamer prints.

  \<^bold>\<open>bpftrace helpers\<close> (\<open>src/src/util\<close>). \<open>Util_Strings\<close> (\<open>strings.cpp\<close>, \<open>strings.h\<close>) and \<open>Wildcard\<close>
  (\<open>wildcard.cpp\<close>): the pattern matcher against the documented meaning of a pattern; question marks and
  brackets the matcher takes literally.

  \<^bold>\<open>Parameters.\<close> Code outside the sources is an argument: LZ4 compression and decompression, the \<open>write\<close>
  system call, \<open>boost::unordered_map\<close>, the order of equal elements in \<open>std::priority_queue\<close>, callbacks, the
  random seed, the current CPU, allocation, the answers of the kernel to descriptor queries. Where a
  theorem relies on them, a named predicate (\<open>lz4_ok\<close>, \<open>pq_ok\<close>, the laws of the map operations) states
  their documented behaviour, and a witness instantiates them. \<open>no_write_fails\<close> and \<open>trailer_write_whole\<close> are
  different: they restrict a theorem to runs in which the \<open>write\<close> calls of the container succeed, which
  the system does not promise; \<open>container_lost_chunk\<close> is about the others.

  \<^bold>\<open>Bounds and fuel.\<close> Loops over a buffer recurse structurally or carry fuel derived from the length of the
  data, and theorems state that it suffices: \<open>read_chunks\<close> has the length of the file plus one, the
  hash probes the number of buckets, the merge the number of events left. In \<open>Shm_Buffer\<close> a step is
  excluded that would wrap a 64-bit offset, which takes \<open>2^32\<close> failed reservations in one epoch.

  \<^bold>\<open>Not modelled.\<close> The bpftrace parser, AST passes and code generation (their meaning is that of LLVM),
  its output, symbol and BTF access and command line (system state and formatted output); libbpf apart
  from the perf event reader; the virtual machines, attachment by code patching, helpers, configuration,
  syscall server, agent and daemon of bpftime (system calls and vendored engines that end in the
  modelled calls); GPU maps and maps that live in the kernel; the set-up of the HPC agent, the
  live exporter, MPI reducer and Lustre lookup (environment, files, MPI and ioctl calls).
  Locks and memory orders are not modelled: a call is one atomic step, except in \<open>Shm_Buffer\<close>, where each
  atomic access is a step of an interleaving and the worker's store of the epoch may be delayed by a
  store buffer.
\<close>

section \<open>From the probes to the reader\<close>

text \<open>The flushes a worker makes of the chunks of a run.\<close>

definition flushes_of :: "sys \<Rightarrow> flush list \<Rightarrow> bool" where
  "flushes_of g xs = (map (\<lambda>(s, buf, len, now). take len buf) xs = map fst (sy_out g) \<and>
     (\<forall>(s, buf, len, now) \<in> set xs. len \<le> length buf \<and> now < 2 ^ 64))"

text \<open>The records of the chunks of a run are those of the logged events, and every reservation found room.\<close>

definition logs_of :: "sys \<Rightarrow> logged list list \<Rightarrow> bool" where
  "logs_of g lss = (map (\<lambda>(c, recs, overflow). recs) (sy_out g) = map (map logged_bytes) lss \<and>
     (\<forall>ls \<in> set lss. \<forall>l \<in> set ls. logged_ok l) \<and> (\<forall>(c, recs, overflow) \<in> set (sy_out g). \<not> overflow))"

lemma flushes_logged:
  assumes "sys_reach True g" and "logs_of g lss" and "flushes_of g xs"
  shows "list_all2 flush_of lss xs" "\<And>ls. ls \<in> set lss \<Longrightarrow> length (concat (map logged_bytes ls)) \<le> BUFFER_CAPACITY"
proof -
  have out: "c = concat recs \<and> length c \<le> BUFFER_CAPACITY" if "(c, recs, ov) \<in> set (sy_out g)" for c recs ov
    using sys_reach_inv [OF assms(1)] assms(2) that unfolding sys_inv_def inv_out_def logs_of_def by fastforce
  have len: "length lss = length (sy_out g)" "length xs = length (sy_out g)"
    using assms(2,3) by (metis logs_of_def flushes_of_def length_map)+
  have "fst (sy_out g ! i) = concat (map logged_bytes (lss ! i)) \<and> length (fst (sy_out g ! i)) \<le> BUFFER_CAPACITY"
    if "i < length lss" for i
  proof -
    obtain c recs ov where e: "sy_out g ! i = (c, recs, ov)" by (metis prod_cases3)
    have "map (\<lambda>(c, recs, overflow). recs) (sy_out g) ! i = map (map logged_bytes) lss ! i"
      using assms(2) by (simp add: logs_of_def)
    then have "recs = map logged_bytes (lss ! i)" using that len(1) e by simp
    then show ?thesis using out [of c recs ov] that len(1) e by (metis fst_conv nth_mem)
  qed
  note at = this
  show "length (concat (map logged_bytes ls)) \<le> BUFFER_CAPACITY" if "ls \<in> set lss" for ls
    using at that by (metis in_set_conv_nth)
  show "list_all2 flush_of lss xs"
  proof (rule list_all2_all_nthI)
    fix i assume i: "i < length lss"
    obtain s buf l now where x: "xs ! i = (s, buf, l, now)" by (metis prod_cases4)
    have "map (\<lambda>(s, buf, len, now). take len buf) xs ! i = map fst (sy_out g) ! i" using assms(3) by (simp add: flushes_of_def)
    then have "take l buf = fst (sy_out g ! i)" using i len x by simp
    moreover have "(s, buf, l, now) \<in> set xs" using i len x by (metis nth_mem)
    then have "l \<le> length buf \<and> now < 2 ^ 64" using assms(3) unfolding flushes_of_def by fast
    ultimately show "flush_of (lss ! i) (xs ! i)" using at [OF i] by (simp add: flush_of_def x)
  qed (simp add: len)
qed

text \<open>A block that LZ4 made has less than \<open>2^31\<close> bytes, so \<open>2^31\<close> chunks fit into a file offset.\<close>

lemma accepted_size:
  assumes "lz4_ok lz4 lz4d" and "list_all batch_ok bs"
  shows "length (chunks_bytes (accepted lz4 (concat (map batch_ops bs)))) \<le> length bs * (64 + 2 ^ 31)"
  using assms(2)
proof (induction bs)
  case (Cons b bs)
  then have b: "batch_ok b" and ih: "length (chunks_bytes (accepted lz4 (concat (map batch_ops bs)))) \<le> length bs * (64 + 2 ^ 31)"
    by simp_all
  show ?case
  proof (cases "fst b = []")
    case False
    then obtain c where c: "lz4 (ca_data (batch_args b)) = Some c" "length c < 2 ^ 31"
      using assms(1) b unfolding lz4_ok_def batch_ok_def by (metis batch_data_empty)
    then show ?thesis using False ih by (simp add: batch_ops_def [of b] batch_data_empty chunks_bytes_def chunk_bytes_def)
  qed (use ih in \<open>simp add: batch_ops_def [of b] batch_data_empty\<close>)
qed (simp add: chunks_bytes_def)

text \<open>C9: The whole path. Any number of probes log events into the double buffer while the worker flushes it.
  The worker hands each chunk to the streamer and to an open container, and at the end both are flushed
  and the container is closed. The runs are those in which the worker's store of a new epoch is visible
  before it reads the number of writers, no wait of the worker times out, every reservation finds room, no
  call of \<open>write\<close> fails, that of the trailer is not short, and there are fewer than \<open>2 ^ 31\<close> chunks; the code
  ensures none of these (see \<open>shm_store_race\<close>, \<open>shm_drain_timeout\<close>, \<open>container_lost_chunk\<close>). Then
  the reader accepts the file and returns exactly the events whose records were reserved, chunk after chunk in the
  order of their reservation, each with the text of its payload (\<open>payload_text\<close>: a textual payload without
  the line breaks and NULs at its end, else the line that stands for it), and standard output has their
  lines, sorted by time within a chunk.\<close>
theorem pipeline_roundtrip:
  assumes run: "tso_reach True True (g, pending)" "logs_of g lss" "flushes_of g xs" "length lss < 2 ^ 31"
    and wr: "no_write_fails wr" "trailer_write_whole wr" and lz: "lz4_ok lz4 lz4d" and node: "node_id < 2 ^ 32"
    and op: "cw_open wr True mono_ns wall_ns path job_id node_id hostname (cw_new d) = (True, w)"
    and a: "aw_writer a = Some w" "aw_streamer a = Some (micro_streamer_new t timeout threshold [])" "aw_last_flush_ns a < 2 ^ 64"
  shows "\<exists>a' w' m' df. run_flushes lz4 wr xs a = Ok a' \<and>
    aw_writer (worker_finish wr now a') = Some w' \<and> aw_streamer (worker_finish wr now a') = Some m' \<and>
    parse_ubpf_file lz4d (cw_file (cw_close wr w')) = Ok (Some df) \<and>
    df_events df = map (logged_event node_id) (concat lss) \<and>
    ms_stdout m' = concat (map (\<lambda>ls. concat (map logged_line (sort_key logged_time ls))) lss)"
proof -
  let ?bs = "flush_batches (aw_last_flush_ns a) lss xs"
  let ?ops = "concat (map batch_ops ?bs) @ [FlushChunks]"
  have "sys_reach True g" using tso_fenced [OF run(1)] by simp
  note fl = flushes_logged [OF this run(2,3)]
  have lok: "\<forall>ls \<in> set lss. \<forall>l \<in> set ls. logged_ok l" using run(2) by (simp add: logs_of_def)
  have len: "length (concat (map logged_bytes ls)) \<le> 0x7E000000" if "ls \<in> set lss" for ls
    using fl(2) [OF that] by (simp add: BUFFER_CAPACITY_def)
  have ok: "list_all batch_ok ?bs"
    using lok len by (intro flush_batches_ok [OF fl(1) a(3)]) blast
  have "length ?bs * (64 + 2 ^ 31) \<le> (2 ^ 31 - 1) * (64 + 2 ^ 31)"
    using flush_batches_length [of "aw_last_flush_ns a" lss xs] run(4) by (intro mult_le_mono1) linarith
  then have size: "length (chunks_bytes (accepted lz4 (concat (map batch_ops ?bs)))) < 2 ^ 63"
    using accepted_size [OF lz ok] by simp
  obtain a' m' where run': "run_flushes lz4 wr xs a = Ok a'" "aw_streamer a' = Some m'"
      "aw_writer a' = Some (cw_session lz4 wr (concat (map batch_ops ?bs)) w)"
      "ms_text m' = ms_text (micro_streamer_new t timeout threshold []) @ concat (map chunk_text lss)"
    using run_flushes_logged [OF fl(1) lok a(1,2), of lz4 wr] by blast
  have "aw_writer (worker_finish wr now a') = Some (cw_session lz4 wr ?ops w)"
    using run'(3) by (simp add: worker_finish_def cw_session_def)
  moreover have "accepted lz4 ?ops = accepted lz4 (concat (map batch_ops ?bs))" by (simp add: accepted_append)
  then obtain df where "parse_ubpf_file lz4d (cw_file (cw_close wr (cw_session lz4 wr ?ops w))) = Ok (Some df)"
      "df_events df = map (logged_event node_id) (concat (map fst ?bs))"
    using container_roundtrip [OF wr lz node ok op, of ?ops] size by auto
  moreover have "ms_stdout (ms_flush now m') = concat (map chunk_text lss)"
    using run'(4) by (simp add: ms_flush_empties ms_text_def micro_streamer_new_def)
  moreover have "concat (map fst ?bs) = concat lss" using list_all2_lengthD [OF fl(1)] by (rule flush_batches_events)
  ultimately show ?thesis using run'(1,2) by (auto simp: worker_finish_def chunk_text_def [abs_def])
qed

text \<open>A run with one record, its flush, and a worker with a writer and a streamer.\<close>

definition sample_log :: logged where
  "sample_log = (3, 1, 10, [104, 105])"

definition sample_worker :: "unit ubpf_container_writer \<Rightarrow> unit ubpf_async_io_worker" where
  "sample_worker w = \<lparr>aw_running = True, aw_stop_requested = False, aw_force_flush_requested = False,
     aw_high_watermark_bytes = 12582912, aw_soft_timer_ns = 500000000, aw_last_flush_ns = 5, aw_writer = Some w,
     aw_streamer = Some (micro_streamer_new 0 20000000 8192 [])\<rparr>"

lemma sample_run:
  "\<exists>g s. sys_reach True g \<and> logs_of g [[sample_log]] \<and> flushes_of g [(s, logged_bytes sample_log, 26, 9)]"
proof -
  let ?r = "logged_bytes sample_log"
  let ?g = "after_probe (after_probe (stalled ?r) 0) 0"
  have len: "length ?r = 26" by (simp add: sample_log_def logged_bytes_def)
  have "\<exists>g'. sys_reach True g' \<and> sy_out g' = sy_out ?g @
     [(take (min (write_offset (buffers (sy_shm ?g) 0)) BUFFER_CAPACITY) (block_data (buffers (sy_shm ?g) 0)),
       map snd (sy_log ?g 0), BUFFER_CAPACITY < write_offset (buffers (sy_shm ?g) 0))]"
    by (rule reach_flush, rule committed_reach)
      (simp_all add: len BUFFER_CAPACITY_def after_probe_def stalled_def sys_init_def ubpf_shm_init_def access_defs
        log_add_simps)
  moreover have "sy_out ?g = []" "map snd (sy_log ?g 0) = [?r]" "write_offset (buffers (sy_shm ?g) 0) = 26"
    by (simp_all add: len after_probe_def stalled_def sys_init_def ubpf_shm_init_def access_defs log_add_simps)
  ultimately obtain g c where g: "sys_reach True g" "sy_out g = [(c, [?r], False)]"
    by (auto simp: BUFFER_CAPACITY_def)
  moreover have "logged_ok sample_log" by (simp add: sample_log_def logged_ok_def)
  ultimately have l: "logs_of g [[sample_log]]" by (simp add: logs_of_def)
  have "c = ?r" using sys_reach_inv [OF g(1)] g(2) by (auto simp: sys_inv_def inv_out_def)
  then have "flushes_of g [(s, ?r, 26, 9)]" for s using g(2) len by (simp add: flushes_of_def)
  then show ?thesis using g(1) l by blast
qed

theorem pipeline_roundtrip_witness:
  "\<exists>g s w a' w' m' df. tso_reach True True (g, None) \<and> logs_of g [[sample_log]] \<and> flushes_of g [(s, logged_bytes sample_log, 26, 9)] \<and>
    run_flushes Some whole_write [(s, logged_bytes sample_log, 26, 9)] (sample_worker w) = Ok a' \<and>
    aw_writer (worker_finish whole_write 11 a') = Some w' \<and> aw_streamer (worker_finish whole_write 11 a') = Some m' \<and>
    parse_ubpf_file (\<lambda>c n. Some c) (cw_file (cw_close whole_write w')) = Ok (Some df) \<and>
    df_events df = [logged_event 2 sample_log] \<and> ms_stdout m' = [104, 105, 10]"
proof -
  define w where "w = snd (cw_open whole_write True 7 8 ''t.ubpt'' 1 2 None (cw_new ()))"
  have op: "cw_open whole_write True 7 8 ''t.ubpt'' 1 2 None (cw_new ()) = (True, w)"
    using open_new_true [of 7 8 "''t.ubpt''" 1 2 None] by (simp add: w_def prod_eq_iff)
  obtain g s where g: "tso_reach True True (g, None)" "logs_of g [[sample_log]]" "flushes_of g [(s, logged_bytes sample_log, 26, 9)]"
    using sample_run sys_reach_tso by blast
  have out: "concat (map (\<lambda>ls. concat (map logged_line (sort_key logged_time ls))) [[sample_log]]) = [104, 105, 10]"
    by (simp add: sample_log_def logged_line_def)
  have "\<exists>a' w' m' df. run_flushes Some whole_write [(s, logged_bytes sample_log, 26, 9)] (sample_worker w) = Ok a' \<and>
    aw_writer (worker_finish whole_write 11 a') = Some w' \<and> aw_streamer (worker_finish whole_write 11 a') = Some m' \<and>
    parse_ubpf_file (\<lambda>c n. Some c) (cw_file (cw_close whole_write w')) = Ok (Some df) \<and>
    df_events df = map (logged_event 2) (concat [[sample_log]]) \<and>
    ms_stdout m' = concat (map (\<lambda>ls. concat (map logged_line (sort_key logged_time ls))) [[sample_log]])"
    by (rule pipeline_roundtrip [OF g _ whole_write_ok store_ok _ op]) (simp_all add: sample_worker_def)
  moreover have "map (logged_event 2) (concat [[sample_log]]) = [logged_event 2 sample_log]" by simp
  ultimately show ?thesis using g unfolding out by metis
qed

end
